(* ===== verification/Prelude.thy ===== *)
theory Prelude
  imports Main "HOL-Library.Word"
begin

unbundle bit_operations_syntax

text \<open>
  Shared ground of the development: the machine types of \<open>include/types.h\<close>, the faults of a C
  execution that has no defined result, the sequencing of fallible operations, and generic lemmas on
  lists, aligned numbers and bits that the component theories use.
\<close>

section \<open>Machine types\<close>

type_synonym u8 = "8 word"
type_synonym u32 = "32 word"
type_synonym u64 = "64 word"

section \<open>Faults\<close>

text \<open>
  What a C function does is a value here. Where the execution dereferences a null pointer, shifts out
  of range or never leaves a loop, there is no value to return, and the model says which of these
  happened.
\<close>

datatype fault =
    Null_Pointer      \<comment> \<open>a null pointer is dereferenced or subtracted\<close>
  | Bad_Shift         \<comment> \<open>a shift that C leaves undefined\<close>
  | Bad_Index         \<comment> \<open>an array is indexed out of its bounds\<close>
  | No_Return         \<comment> \<open>a loop that is never left\<close>

definition bindF :: "fault + 'a \<Rightarrow> ('a \<Rightarrow> fault + 'b) \<Rightarrow> fault + 'b" where
  "bindF r f = (case r of Inl e \<Rightarrow> Inl e | Inr x \<Rightarrow> f x)"

lemma bindF_simps [simp]:
  "bindF (Inl e) f = Inl e"
  "bindF (Inr x) f = f x"
  by (simp_all add: bindF_def)

lemma bindF_eq_Inr_iff:
  "bindF r f = Inr y \<longleftrightarrow> (\<exists>x. r = Inr x \<and> f x = Inr y)"
  by (cases r) auto

text \<open>A loop over a list structure is a partial function: \<open>None\<close> when it is never left.\<close>

definition of_loop :: "'a option \<Rightarrow> fault + 'a" where
  "of_loop r = (case r of None \<Rightarrow> Inl No_Return | Some x \<Rightarrow> Inr x)"

lemma of_loop_simps [simp]:
  "of_loop None = Inl No_Return"
  "of_loop (Some x) = Inr x"
  by (simp_all add: of_loop_def)

lemma of_loop_eq_Inr_iff [simp]: "of_loop r = Inr x \<longleftrightarrow> r = Some x"
  by (cases r) auto

section \<open>Lists\<close>

lemma remove1_mid:
  assumes "distinct (ys @ x # zs)"
  shows "remove1 x (ys @ x # zs) = ys @ zs"
  using assms by (simp add: remove1_append)

lemma map_remove1_inj: "inj f \<Longrightarrow> map f (remove1 x xs) = remove1 (f x) (map f xs)"
  by (induction xs) (auto simp: inj_eq)

lemma split_at_member:
  assumes "x \<in> set xs"
  obtains ys zs where "xs = ys @ x # zs"
  using assms by (auto dest: split_list)

section \<open>Bits and alignment on natural numbers\<close>

lemma bit_nat_dvd_iff:
  fixes p k :: nat
  assumes "2 ^ k dvd p"
  shows "bit p k \<longleftrightarrow> \<not> 2 ^ Suc k dvd p"
proof -
  obtain m where p: "p = 2 ^ k * m" using assms by (auto elim: dvdE)
  show ?thesis by (simp add: p bit_iff_odd)
qed

text \<open>Flipping one bit: add the power where it is clear, subtract it where it is set.\<close>

lemma xor_pow2_nat:
  fixes p k :: nat
  shows "p XOR 2 ^ k = (if bit p k then p - 2 ^ k else p + 2 ^ k)"
proof (cases "bit p k")
  case True
  have "p XOR 2 ^ k = unset_bit k p"
    by (rule bit_eqI) (use True in \<open>auto simp: bit_simps\<close>)
  moreover have "unset_bit k p + 2 ^ k = p"
  proof -
    have "set_bit k (unset_bit k p) = p"
      by (rule bit_eqI) (use True in \<open>auto simp: bit_simps\<close>)
    then show ?thesis by (simp add: set_bit_eq bit_simps)
  qed
  ultimately show ?thesis using True by simp
next
  case False
  have "p XOR 2 ^ k = set_bit k p"
    by (rule bit_eqI) (use False in \<open>auto simp: bit_simps\<close>)
  then show ?thesis using False by (simp add: set_bit_eq)
qed
text \<open>An aligned power-of-two block and the block at its flipped bit.\<close>
lemma buddy_cases:
  fixes p k :: nat
  assumes "2 ^ k dvd p"
  shows "2 ^ Suc k dvd p \<and> p XOR 2 ^ k = p + 2 ^ k
       \<or> 2 ^ k \<le> p \<and> 2 ^ Suc k dvd (p - 2 ^ k) \<and> p XOR 2 ^ k = p - 2 ^ k"
proof (cases "bit p k")
  case True
  obtain m where p: "p = 2 ^ k * m" using assms by (auto elim: dvdE)
  then have "odd m" using True by (simp add: bit_iff_odd)
  then obtain n where m: "m = 2 * n + 1" by (auto elim: oddE)
  have "p - 2 ^ k = 2 ^ Suc k * n" by (simp add: p m algebra_simps)
  moreover have "2 ^ k \<le> p" by (simp add: p m)
  ultimately show ?thesis using True by (simp add: xor_pow2_nat)
next
  case False
  then show ?thesis using assms bit_nat_dvd_iff[OF assms] by (simp add: xor_pow2_nat)
qed
lemma unat_small: "i < 2 ^ 64 \<Longrightarrow> unat (of_nat i :: u64) = i"
  by (simp add: unat_of_nat take_bit_nat_eq_self)

lemma unat_minus_offset:
  assumes "k \<le> unat (y :: u64)"
  shows "unat (y - of_nat k) = unat y - k"
proof -
  have "unat y < 2 ^ 64" using unsigned_less[of y] by simp
  then have "k < 2 ^ 64" using assms by linarith
  then have u: "unat (of_nat k :: u64) = k" by (rule unat_small)
  then have "of_nat k \<le> y" using assms by (simp add: word_le_nat_alt)
  then show ?thesis using u by (simp add: unat_sub)
qed

end
