(* ===== verification/Blocks.thy ===== *)
theory Blocks
  imports Prelude
begin

text \<open>
  The abstract memory of the buddy system (\<open>src/mm.c\<close>): a block is a first page frame number and an
  order, and the blocks of a memory of \<open>N\<close> frames tile it. The allocator splits a block into two
  halves and merges a block with its buddy; both replace blocks by blocks with the same frames.
\<close>

section \<open>Blocks and tilings\<close>

type_synonym block = "nat \<times> nat"

fun frames :: "block \<Rightarrow> nat set" where
  "frames (p, k) = {p ..< p + 2 ^ k}"

definition all_frames :: "block set \<Rightarrow> nat set" where
  "all_frames B = (\<Union>b\<in>B. frames b)"

text \<open>A block of order at most \<open>M\<close>, aligned to its size and inside the memory.\<close>

fun block_ok :: "nat \<Rightarrow> nat \<Rightarrow> block \<Rightarrow> bool" where
  "block_ok M N (p, k) \<longleftrightarrow> k \<le> M \<and> 2 ^ k dvd p \<and> p + 2 ^ k \<le> N"

definition tiles :: "nat \<Rightarrow> nat \<Rightarrow> block set \<Rightarrow> bool" where
  "tiles M N B \<longleftrightarrow>
     (\<forall>b\<in>B. block_ok M N b) \<and>
     (\<forall>b\<in>B. \<forall>c\<in>B. b \<noteq> c \<longrightarrow> frames b \<inter> frames c = {}) \<and>
     all_frames B = {..<N}"

lemma all_frames_simps [simp]:
  "all_frames {} = {}"
  "all_frames (insert b B) = frames b \<union> all_frames B"
  "all_frames (B \<union> C) = all_frames B \<union> all_frames C"
  by (auto simp: all_frames_def)

lemma frames_nonempty [simp]: "frames b \<noteq> {}"
  by (cases b) auto

lemma first_frame: "p \<in> frames (p, k)"
  by simp

lemma finite_frames [simp]: "finite (frames b)"
  by (cases b) simp

lemma card_frames: "card (frames (p, k)) = 2 ^ k"
  by simp

lemma tilesD:
  assumes "tiles M N B" and "b \<in> B"
  shows "block_ok M N b"
    and "c \<in> B \<Longrightarrow> b \<noteq> c \<Longrightarrow> frames b \<inter> frames c = {}"
    and "frames b \<subseteq> {..<N}"
  using assms by (auto simp: tiles_def all_frames_def)

lemma tiles_overlap:
  assumes "tiles M N B" and "b \<in> B" and "c \<in> B" and "f \<in> frames b" and "f \<in> frames c"
  shows "b = c"
  using tilesD(2)[OF assms(1-3)] assms(4,5) by blast

lemma tiles_head_unique: "tiles M N B \<Longrightarrow> (p, k) \<in> B \<Longrightarrow> (p, j) \<in> B \<Longrightarrow> k = j"
  using tiles_overlap[of M N B "(p, k)" "(p, j)" p] by simp

lemma tiles_cover:
  assumes "tiles M N B" and "f < N"
  obtains b where "b \<in> B" and "f \<in> frames b"
proof -
  have "f \<in> all_frames B" using assms by (simp add: tiles_def)
  then show thesis using that by (auto simp: all_frames_def)
qed

text \<open>Replacing some blocks by others with the same frames.\<close>

lemma tiles_replace:
  assumes t: "tiles M N B" and X: "X \<subseteq> B"
    and ok: "\<And>b. b \<in> Y \<Longrightarrow> block_ok M N b"
    and disj: "\<And>b c. b \<in> Y \<Longrightarrow> c \<in> Y \<Longrightarrow> b \<noteq> c \<Longrightarrow> frames b \<inter> frames c = {}"
    and same: "all_frames Y = all_frames X"
  shows "tiles M N (Y \<union> (B - X))"
proof -
  have apart: "frames b \<inter> frames c = {}" if "b \<in> Y" "c \<in> B - X" for b c
  proof -
    have "frames c \<inter> all_frames X = {}"
      using tilesD(2)[OF t] X that(2) by (fastforce simp: all_frames_def)
    moreover have "frames b \<subseteq> all_frames Y" using that(1) by (auto simp: all_frames_def)
    ultimately show ?thesis using same by blast
  qed
  have "all_frames (Y \<union> (B - X)) = all_frames (X \<union> (B - X))"
    unfolding all_frames_simps same ..
  also have "X \<union> (B - X) = B" using X by blast
  finally have "all_frames (Y \<union> (B - X)) = {..<N}" using t by (simp add: tiles_def)
  moreover have "frames b \<inter> frames c = {}" if "b \<in> Y \<union> (B - X)" "c \<in> Y \<union> (B - X)" "b \<noteq> c" for b c
    using that disj[of b c] apart[of b c] apart[of c b] tilesD(2)[OF t, of b c] by blast
  moreover have "block_ok M N b" if "b \<in> Y \<union> (B - X)" for b
    using that ok tilesD(1)[OF t] by blast
  ultimately show ?thesis unfolding tiles_def by blast
qed

section \<open>Halves and buddies\<close>

abbreviation buddy :: "nat \<Rightarrow> nat \<Rightarrow> nat" where
  "buddy p k \<equiv> p XOR 2 ^ k"

lemma frames_halves:
  "frames (p, k) \<union> frames (p + 2 ^ k, k) = frames (p, Suc k)"
  "frames (p, k) \<inter> frames (p + 2 ^ k, k) = {}"
  by auto

lemma halves_ok:
  assumes "block_ok M N (p, Suc k)"
  shows "block_ok M N (p, k)" and "block_ok M N (p + 2 ^ k, k)"
proof -
  have "(2 :: nat) ^ k dvd 2 ^ Suc k" by simp
  then have "2 ^ k dvd p" using assms dvd_trans by fastforce
  then show "block_ok M N (p, k)" and "block_ok M N (p + 2 ^ k, k)" using assms by auto
qed

lemma buddy_upper: "2 ^ Suc k dvd (p :: nat) \<Longrightarrow> buddy p k = p + 2 ^ k"
  using bit_nat_dvd_iff[of k p] dvd_trans[of "2 ^ k" "2 ^ Suc k" p] by (simp add: xor_pow2_nat)

lemma tiles_split:
  assumes t: "tiles M N B" and b: "(p, Suc k) \<in> B"
  shows "tiles M N ({(p, k), (buddy p k, k)} \<union> (B - {(p, Suc k)}))"
proof -
  have ok: "block_ok M N (p, Suc k)" by (rule tilesD(1)[OF t b])
  then have bud: "buddy p k = p + 2 ^ k" by (intro buddy_upper) simp
  show ?thesis unfolding bud
    by (rule tiles_replace[OF t]) (use b halves_ok[OF ok] in \<open>auto; fail\<close>)+
qed

text \<open>Of two aligned blocks that share a frame the smaller lies inside the larger.\<close>

lemma aligned_frames:
  assumes k: "k \<le> j" and p: "2 ^ k dvd p" and q: "2 ^ j dvd q"
    and f: "f \<in> frames (p, k)" "f \<in> frames (q, j)"
  shows "frames (p, k) \<subseteq> frames (q, j)"
proof -
  obtain c where c: "(2 :: nat) ^ j = 2 ^ k * c" using k le_imp_power_dvd[of k j 2] by (auto elim: dvdE)
  obtain a where a: "p = 2 ^ k * a" using p by (auto elim: dvdE)
  obtain b where b: "q = 2 ^ k * b" using q c by (auto elim!: dvdE simp: mult.assoc)
  have "2 ^ k * a < 2 ^ k * (b + c)" and "2 ^ k * b < 2 ^ k * (a + 1)"
    using f by (simp_all add: a b c distrib_left)
  then have "a < b + c" and "b < a + 1" by (simp_all only: mult_less_cancel1)
  then have "a + 1 \<le> b + c" and "b \<le> a" by simp_all
  then have "2 ^ k * (a + 1) \<le> 2 ^ k * (b + c)" and "2 ^ k * b \<le> 2 ^ k * a"
    by (simp_all only: mult_le_mono2)
  then show ?thesis by (auto simp: a b c distrib_left)
qed

lemma dvd_fits:
  fixes d q N :: nat
  assumes "d dvd q" and "d dvd N" and "q < N"
  shows "q + d \<le> N"
proof -
  obtain a b where "q = d * a" and "N = d * b" using assms(1,2) by (auto elim!: dvdE)
  moreover have "d * (a + 1) \<le> d * b" using assms(3) calculation by (intro mult_le_mono2) simp
  ultimately show ?thesis by simp
qed

lemma buddy_ok:
  assumes ok: "block_ok M N (p, k)" and k: "k < M" and N: "2 ^ M dvd N"
  shows "block_ok M N (min p (buddy p k), Suc k)" and "buddy p k < N"
    and "frames (p, k) \<union> frames (buddy p k, k) = frames (min p (buddy p k), Suc k)"
    and "frames (p, k) \<inter> frames (buddy p k, k) = {}"
    and "2 ^ k dvd buddy p k"
proof -
  let ?m = "min p (buddy p k)"
  have pos: "0 < (2 :: nat) ^ k" by simp
  have below: "2 ^ k \<le> p \<Longrightarrow> \<not> p \<le> p - 2 ^ k" using pos by linarith
  have p: "2 ^ k dvd p" "p + 2 ^ k \<le> N" using ok by auto
  have cases: "2 ^ Suc k dvd ?m \<and> (p = ?m \<and> buddy p k = ?m + 2 ^ k \<or> p = ?m + 2 ^ k \<and> buddy p k = ?m)"
    using buddy_cases[OF p(1)] below by (elim disjE conjE) (simp_all add: min_def)
  have "2 ^ Suc k dvd N" using k N by (meson Suc_leI dvd_trans le_imp_power_dvd)
  moreover have "?m < N" using p(2) pos by (simp only: min_less_iff_disj) linarith
  ultimately have fit: "?m + 2 ^ Suc k \<le> N" using cases by (intro dvd_fits) auto
  show "block_ok M N (?m, Suc k)" using cases fit k by simp
  have "?m + 2 ^ k < N" using fit pos unfolding power_Suc by linarith
  then show "buddy p k < N" using cases by (metis add_lessD1)
  show "frames (p, k) \<union> frames (buddy p k, k) = frames (?m, Suc k)"
    and "frames (p, k) \<inter> frames (buddy p k, k) = {}"
    using cases by auto
  show "2 ^ k dvd buddy p k" using cases p(1) dvd_trans[of "2 ^ k" "2 ^ Suc k" ?m] by auto
qed

lemma tiles_merge:
  assumes t: "tiles M N B" and N: "2 ^ M dvd N" and k: "k < M"
    and b: "(p, k) \<in> B" and c: "(buddy p k, k) \<in> B"
  shows "tiles M N ({(min p (buddy p k), Suc k)} \<union> (B - {(p, k), (buddy p k, k)}))"
proof (rule tiles_replace[OF t])
  note bok = buddy_ok[OF tilesD(1)[OF t b] k N]
  show "block_ok M N x" if "x \<in> {(min p (buddy p k), Suc k)}" for x using that bok(1) by simp
  show "all_frames {(min p (buddy p k), Suc k)} = all_frames {(p, k), (buddy p k, k)}"
    using bok(3) by simp
qed (use b c in auto)

text \<open>
  The buddy of a block of the tiling is the first frame of a block that is no larger: this is what
  makes the test \<open>buddy->order != order\<close> of \<open>free_pages\<close> meaningful.
\<close>

lemma tiles_buddy:
  assumes t: "tiles M N B" and N: "2 ^ M dvd N" and k: "k < M" and b: "(p, k) \<in> B"
  obtains j where "j \<le> k" and "(buddy p k, j) \<in> B"
proof -
  note bok = buddy_ok[OF tilesD(1)[OF t b] k N]
  obtain q j where c: "(q, j) \<in> B" and f: "buddy p k \<in> frames (q, j)"
    using tiles_cover[OF t bok(2)] by (metis surj_pair)
  have q: "2 ^ j dvd q" using tilesD(1)[OF t c] by simp
  show thesis
  proof (cases "j \<le> k")
    case True
    have "frames (q, j) \<subseteq> frames (buddy p k, k)"
      by (rule aligned_frames[OF True q bok(5) f]) simp
    then have "buddy p k = q" using f by (auto simp: subset_eq Ball_def)
    then show thesis using that True c by simp
  next
    case False
    let ?m = "min p (buddy p k)"
    have "frames (?m, Suc k) \<subseteq> frames (q, j)"
      using False q f bok(1,3) by (intro aligned_frames[of _ _ _ _ "buddy p k"]) auto
    then have "frames (p, k) \<subseteq> frames (q, j)" using bok(3) by blast
    then have "p \<in> frames (q, j)" using first_frame by blast
    then have "(q, j) = (p, k)" by (rule tiles_overlap[OF t c b _ first_frame])
    then show thesis using False by simp
  qed
qed

end
