(* ===== verification/List_Head.thy ===== *)
theory List_Head
  imports Prelude
begin

text \<open>
  The circular doubly linked lists of \<open>include/list.h\<close>, on a store of nodes: a node address has a
  \<open>prev\<close> and a \<open>next\<close> field, and every operation is the sequence of field assignments of the C code.
  The address type is a parameter: each component supplies its own, with one constructor per struct
  type that embeds a list node, so that \<open>container_of\<close> is the constructor's argument.

  The first half translates the header. The second half relates the store to lists of nodes
  (\<open>dlist\<close> for one ring, \<open>rings\<close> for a family of disjoint rings) and ends with the interface
  \<open>list_store\<close> through which the other components use it.
\<close>

section \<open>The operations\<close>

record 'a list_head =
  prv :: 'a
  nxt :: 'a

type_synonym 'a links = "'a \<Rightarrow> 'a list_head"

text \<open>The two assignments \<open>a->prev = v\<close> and \<open>a->next = v\<close>.\<close>

definition set_prv :: "'a \<Rightarrow> 'a \<Rightarrow> 'a links \<Rightarrow> 'a links" where
  "set_prv a v h = h(a := (h a)\<lparr>prv := v\<rparr>)"

definition set_nxt :: "'a \<Rightarrow> 'a \<Rightarrow> 'a links \<Rightarrow> 'a links" where
  "set_nxt a v h = h(a := (h a)\<lparr>nxt := v\<rparr>)"

definition INIT_LIST_HEAD :: "'a \<Rightarrow> 'a links \<Rightarrow> 'a links" where
  "INIT_LIST_HEAD head h = set_prv head head (set_nxt head head h)"

text \<open>\<open>__list_add(node, prev, next)\<close>.\<close>

definition list_add_between :: "'a \<Rightarrow> 'a \<Rightarrow> 'a \<Rightarrow> 'a links \<Rightarrow> 'a links" where
  "list_add_between node prev succ h =
     (let h1 = set_prv succ node h;
          h2 = set_nxt node succ h1;
          h3 = set_prv node prev h2
      in set_nxt prev node h3)"

definition list_add :: "'a \<Rightarrow> 'a \<Rightarrow> 'a links \<Rightarrow> 'a links" where
  "list_add node head h = list_add_between node head (nxt (h head)) h"

definition list_add_tail :: "'a \<Rightarrow> 'a \<Rightarrow> 'a links \<Rightarrow> 'a links" where
  "list_add_tail node head h = list_add_between node (prv (h head)) head h"

text \<open>\<open>__list_del(prev, next)\<close>.\<close>

definition list_del_between :: "'a \<Rightarrow> 'a \<Rightarrow> 'a links \<Rightarrow> 'a links" where
  "list_del_between prev succ h = set_nxt prev succ (set_prv succ prev h)"

definition list_del_init :: "'a \<Rightarrow> 'a links \<Rightarrow> 'a links" where
  "list_del_init entry h =
     INIT_LIST_HEAD entry (list_del_between (prv (h entry)) (nxt (h entry)) h)"

definition list_is_last :: "'a \<Rightarrow> 'a \<Rightarrow> 'a links \<Rightarrow> bool" where
  "list_is_last list head h \<longleftrightarrow> nxt (h list) = head"

definition list_is_head :: "'a \<Rightarrow> 'a \<Rightarrow> bool" where
  "list_is_head list head \<longleftrightarrow> list = head"

definition list_empty :: "'a \<Rightarrow> 'a links \<Rightarrow> bool" where
  "list_empty head h \<longleftrightarrow> nxt (h head) = head"

text \<open>The entry macros, before the container is computed.\<close>

definition list_first_entry :: "'a \<Rightarrow> 'a links \<Rightarrow> 'a" where
  "list_first_entry head h = nxt (h head)"

definition list_next_entry :: "'a \<Rightarrow> 'a links \<Rightarrow> 'a" where
  "list_next_entry pos h = nxt (h pos)"

definition list_next_entry_circular :: "'a \<Rightarrow> 'a \<Rightarrow> 'a links \<Rightarrow> 'a" where
  "list_next_entry_circular pos head h =
     (if list_is_last pos head h then list_first_entry head h else list_next_entry pos h)"

text \<open>
  \<open>list_for_each\<close>, with a body that leaves the loop at the first node satisfying \<open>P\<close>: the node, or
  the inner \<open>None\<close> when the loop reaches the head. The outer \<open>None\<close> is a walk that never does.
\<close>

partial_function (option) list_for_each :: "('a \<Rightarrow> bool) \<Rightarrow> 'a \<Rightarrow> 'a links \<Rightarrow> 'a \<Rightarrow> 'a option option" where
  "list_for_each P head h pos =
     (if list_is_head pos head then Some None
      else if P pos then Some (Some pos)
      else list_for_each P head h (nxt (h pos)))"

definition list_search :: "('a \<Rightarrow> bool) \<Rightarrow> 'a \<Rightarrow> 'a links \<Rightarrow> 'a option option" where
  "list_search P head h = list_for_each P head h (nxt (h head))"

text \<open>
  \<open>list_for_each_safe\<close>: the body may change the state \<open>s\<close>, whose links are read by \<open>lk\<close>; the
  cursor's successor \<open>n\<close> is fixed before the body runs, and the next one is read after it.
\<close>

partial_function (option) list_for_each_safe ::
    "('s \<Rightarrow> 'a links) \<Rightarrow> ('a \<Rightarrow> 's \<Rightarrow> fault + 's) \<Rightarrow> 'a \<Rightarrow> 'a \<Rightarrow> 'a \<Rightarrow> 's \<Rightarrow> (fault + 's) option" where
  "list_for_each_safe lk body head pos n s =
     (if list_is_head pos head then Some (Inr s)
      else case body pos s of
             Inl e \<Rightarrow> Some (Inl e)
           | Inr s' \<Rightarrow> list_for_each_safe lk body head n (nxt (lk s' n)) s')"

text \<open>
  \<open>list_for_each\<close> with a body that changes the state: the cursor's successor is read after the body.
\<close>

partial_function (option) list_for_each_do ::
    "('s \<Rightarrow> 'a links) \<Rightarrow> ('a \<Rightarrow> 's \<Rightarrow> fault + 's) \<Rightarrow> 'a \<Rightarrow> 'a \<Rightarrow> 's \<Rightarrow> (fault + 's) option" where
  "list_for_each_do lk body head pos s =
     (if list_is_head pos head then Some (Inr s)
      else case body pos s of
             Inl e \<Rightarrow> Some (Inl e)
           | Inr s' \<Rightarrow> list_for_each_do lk body head (nxt (lk s' pos)) s')"

partial_function (option) list_count_from :: "'a \<Rightarrow> 'a links \<Rightarrow> 'a \<Rightarrow> nat \<Rightarrow> nat option" where
  "list_count_from head h pos count =
     (if list_is_head pos head then Some count
      else list_count_from head h (nxt (h pos)) (count + 1))"

definition list_count_nodes :: "'a \<Rightarrow> 'a links \<Rightarrow> nat option" where
  "list_count_nodes head h = list_count_from head h (nxt (h head)) 0"

section \<open>One ring\<close>

text \<open>Neighbours in \<open>xs\<close> point at each other.\<close>

fun linked :: "'a links \<Rightarrow> 'a list \<Rightarrow> bool" where
  "linked h (x # y # zs) \<longleftrightarrow> nxt (h x) = y \<and> prv (h y) = x \<and> linked h (y # zs)"
| "linked h _ \<longleftrightarrow> True"

definition dlist :: "'a links \<Rightarrow> 'a \<Rightarrow> 'a list \<Rightarrow> bool" where
  "dlist h head xs \<longleftrightarrow> linked h (head # xs @ [head]) \<and> distinct (head # xs)"

lemma set_fields [simp]:
  "nxt (set_prv a v h x) = nxt (h x)"
  "prv (set_prv a v h x) = (if x = a then v else prv (h x))"
  "nxt (set_nxt a v h x) = (if x = a then v else nxt (h x))"
  "prv (set_nxt a v h x) = prv (h x)"
  by (simp_all add: set_prv_def set_nxt_def)

lemma INIT_LIST_HEAD_fields [simp]:
  "nxt (INIT_LIST_HEAD a h x) = (if x = a then a else nxt (h x))"
  "prv (INIT_LIST_HEAD a h x) = (if x = a then a else prv (h x))"
  by (simp_all add: INIT_LIST_HEAD_def)

lemma list_add_between_fields [simp]:
  "nxt (list_add_between n p q h x) = (if x = p then n else if x = n then q else nxt (h x))"
  "prv (list_add_between n p q h x) = (if x = n then p else if x = q then n else prv (h x))"
  by (simp_all add: list_add_between_def Let_def)

lemma list_del_between_fields [simp]:
  "nxt (list_del_between p q h x) = (if x = p then q else nxt (h x))"
  "prv (list_del_between p q h x) = (if x = q then p else prv (h x))"
  by (simp_all add: list_del_between_def)

lemma linked_append:
  assumes "xs \<noteq> []" and "ws \<noteq> []"
  shows "linked h (xs @ ws) \<longleftrightarrow>
    linked h xs \<and> nxt (h (last xs)) = hd ws \<and> prv (h (hd ws)) = last xs \<and> linked h ws"
  using assms by (induction h xs rule: linked.induct) (cases ws; auto)+

lemma linked_cong:
  assumes "\<And>x. x \<in> set (butlast xs) \<Longrightarrow> nxt (h' x) = nxt (h x)"
    and "\<And>x. x \<in> set (tl xs) \<Longrightarrow> prv (h' x) = prv (h x)"
  shows "linked h' xs = linked h xs"
  using assms by (induction h xs rule: linked.induct) auto

lemma list_head_eqI: "nxt a = nxt b \<Longrightarrow> prv a = prv b \<Longrightarrow> a = (b :: 'a list_head)"
  by simp

lemma dlist_cong:
  assumes "\<And>x. x \<in> set (head # xs) \<Longrightarrow> h' x = h x"
  shows "dlist h' head xs = dlist h head xs"
proof -
  have "linked h' (head # xs @ [head]) = linked h (head # xs @ [head])"
    by (rule linked_cong) (use assms in \<open>auto simp: butlast_append\<close>)
  then show ?thesis by (simp add: dlist_def)
qed

text \<open>The entry before a position and the entry at it, the head standing at both ends.\<close>

definition before :: "'a \<Rightarrow> 'a list \<Rightarrow> 'a" where
  "before head ys = last (head # ys)"

definition after :: "'a \<Rightarrow> 'a list \<Rightarrow> 'a" where
  "after head zs = hd (zs @ [head])"

lemma before_simps [simp]:
  "before head [] = head"
  "before head (ys @ [y]) = y"
  by (simp_all add: before_def)

lemma after_simps [simp]:
  "after head [] = head"
  "after head (z # zs) = z"
  by (simp_all add: after_def)

lemma dlist_split:
  "dlist h head (ys @ zs) \<longleftrightarrow>
     linked h (head # ys) \<and> nxt (h (before head ys)) = after head zs \<and>
     prv (h (after head zs)) = before head ys \<and> linked h (zs @ [head]) \<and>
     distinct (head # ys @ zs)"
  using linked_append[where xs = "head # ys" and ws = "zs @ [head]" and h = h]
  by (auto simp: dlist_def before_def after_def)

lemma linked_after:
  "linked h (x # zs @ [head]) \<longleftrightarrow>
     nxt (h x) = after head zs \<and> prv (h (after head zs)) = x \<and> linked h (zs @ [head])"
  by (cases zs) auto

lemma before_in: "before head ys \<in> set (head # ys)"
  unfolding before_def by (rule last_in_set) simp

lemma after_in: "after head zs \<in> set (head # zs)"
  by (cases zs) auto

lemma before_notin_butlast: "distinct (head # ys) \<Longrightarrow> before head ys \<notin> set (butlast (head # ys))"
  by (cases ys rule: rev_cases) (auto simp: butlast_append)

lemma after_notin_tl: "distinct (head # zs) \<Longrightarrow> after head zs \<notin> set (tl (zs @ [head]))"
  by (cases zs) auto

text \<open>Changing the two neighbours at a split leaves both halves linked.\<close>

lemma linked_halves:
  assumes d: "distinct (head # ys @ zs)"
    and n: "\<And>x. x \<in> set (head # ys @ zs) \<Longrightarrow> x \<noteq> before head ys \<Longrightarrow> nxt (h' x) = nxt (h x)"
    and p: "\<And>x. x \<in> set (head # ys @ zs) \<Longrightarrow> x \<noteq> after head zs \<Longrightarrow> prv (h' x) = prv (h x)"
  shows "linked h' (head # ys) = linked h (head # ys)"
    and "linked h' (zs @ [head]) = linked h (zs @ [head])"
proof -
  have b: "before head ys \<in> set (head # ys)" and a: "after head zs \<in> set (head # zs)"
    by (rule before_in, rule after_in)
  have bl: "before head ys \<notin> set (butlast (head # ys))"
    by (rule before_notin_butlast) (use d in simp)
  have al: "after head zs \<notin> set (tl (zs @ [head]))"
    by (rule after_notin_tl) (use d in simp)
  show "linked h' (head # ys) = linked h (head # ys)"
  proof (rule linked_cong)
    fix x assume "x \<in> set (butlast (head # ys))"
    then show "nxt (h' x) = nxt (h x)" using bl in_set_butlastD[of x "head # ys"] by (intro n) auto
  next
    fix x assume "x \<in> set (tl (head # ys))"
    then show "prv (h' x) = prv (h x)" using a d by (intro p) auto
  qed
  show "linked h' (zs @ [head]) = linked h (zs @ [head])"
  proof (rule linked_cong)
    fix x assume "x \<in> set (butlast (zs @ [head]))"
    then show "nxt (h' x) = nxt (h x)" using b d by (intro n) auto
  next
    fix x assume "x \<in> set (tl (zs @ [head]))"
    then show "prv (h' x) = prv (h x)" using al by (intro p) (cases zs; auto)+
  qed
qed

lemma dlist_insert:
  assumes d: "dlist h head (ys @ zs)" and n: "n \<notin> set (head # ys @ zs)"
  shows "dlist (list_add_between n (before head ys) (after head zs) h) head (ys @ n # zs)"
proof -
  let ?h = "list_add_between n (before head ys) (after head zs) h"
  note d' = d[unfolded dlist_split]
  have ne: "n \<noteq> before head ys" "n \<noteq> after head zs"
    using n before_in[of head ys] after_in[of head zs] by auto
  have "linked ?h (head # ys) = linked h (head # ys)"
    and "linked ?h (zs @ [head]) = linked h (zs @ [head])"
    by (rule linked_halves[where ys = ys and zs = zs]; use d' n in auto)+
  then show ?thesis
    using d' n ne by (auto simp: dlist_split linked_after)
qed

lemma dlist_delete:
  assumes d: "dlist h head (ys @ n # zs)"
  shows "dlist (list_del_init n h) head (ys @ zs)"
proof -
  let ?h = "list_del_init n h"
  note d' = d[unfolded dlist_split append_Cons linked_after after_simps]
  have n: "n \<notin> set (head # ys @ zs)" using d' by auto
  then have ne: "n \<noteq> before head ys" "n \<noteq> after head zs"
    using before_in[of head ys] after_in[of head zs] by auto
  have f: "nxt (?h x) = (if x = n then n else if x = before head ys then after head zs else nxt (h x))"
    "prv (?h x) = (if x = n then n else if x = after head zs then before head ys else prv (h x))" for x
    using d' by (simp_all add: list_del_init_def)
  have "linked ?h (head # ys) = linked h (head # ys)"
    and "linked ?h (zs @ [head]) = linked h (zs @ [head])"
    by (rule linked_halves[where ys = ys and zs = zs]; use d' n in \<open>auto simp: f\<close>)+
  then show ?thesis
    using d' ne by (simp add: dlist_split f)
qed

lemma dlist_init: "dlist (INIT_LIST_HEAD head h) head []"
  by (simp add: dlist_def)

lemma dlist_first: "dlist h head xs \<Longrightarrow> nxt (h head) = after head xs"
  using dlist_split[where h = h and head = head and ys = "[]" and zs = xs] by simp

lemma dlist_last: "dlist h head xs \<Longrightarrow> prv (h head) = before head xs"
  using dlist_split[where h = h and head = head and ys = xs and zs = "[]"] by simp

lemma dlist_next: "dlist h head (ys @ x # zs) \<Longrightarrow> nxt (h x) = after head zs"
  using dlist_split[where h = h and head = head and ys = "ys @ [x]" and zs = zs] by simp

lemma dlist_prev: "dlist h head (ys @ x # zs) \<Longrightarrow> prv (h x) = before head ys"
  using dlist_split[where h = h and head = head and ys = ys and zs = "x # zs"] by simp

section \<open>The loops on a ring\<close>

lemma list_for_each_suffix:
  "dlist h head (ys @ zs) \<Longrightarrow> list_for_each P head h (after head zs) = Some (find P zs)"
proof (induction zs arbitrary: ys)
  case Nil
  then show ?case by (simp add: list_for_each.simps list_is_head_def)
next
  case (Cons z zs)
  have "z \<noteq> head" using Cons.prems by (auto simp: dlist_def)
  moreover have "list_for_each P head h (after head zs) = Some (find P zs)"
    using Cons.prems by (intro Cons.IH[of "ys @ [z]"]) simp
  ultimately show ?case
    using dlist_next[OF Cons.prems] by (simp add: list_for_each.simps list_is_head_def)
qed

lemma list_search_dlist: "dlist h head xs \<Longrightarrow> list_search P head h = Some (find P xs)"
  unfolding list_search_def by (simp add: dlist_first list_for_each_suffix[where ys = "[]"])

lemma list_count_from_suffix:
  "dlist h head (ys @ zs) \<Longrightarrow> list_count_from head h (after head zs) n = Some (n + length zs)"
proof (induction zs arbitrary: ys n)
  case Nil
  then show ?case by (simp add: list_count_from.simps list_is_head_def)
next
  case (Cons z zs)
  have "z \<noteq> head" using Cons.prems by (auto simp: dlist_def)
  moreover have "list_count_from head h (after head zs) (n + 1) = Some (n + 1 + length zs)"
    using Cons.prems by (intro Cons.IH[of "ys @ [z]"]) simp
  ultimately show ?case
    using dlist_next[OF Cons.prems] by (simp add: list_count_from.simps list_is_head_def)
qed

lemma list_count_nodes_dlist: "dlist h head xs \<Longrightarrow> list_count_nodes head h = Some (length xs)"
  unfolding list_count_nodes_def by (simp add: dlist_first list_count_from_suffix[where ys = "[]"])

text \<open>
  The safe loop: \<open>I ys zs s\<close> says that in state \<open>s\<close> the ring is \<open>ys @ zs\<close> with \<open>zs\<close> still to visit.
  A body that takes each entry from the second list, leaving it in the ring or not, visits them all.
\<close>

lemma list_for_each_safe_rule:
  assumes ring: "\<And>ys zs s. I ys zs s \<Longrightarrow> dlist (lk s) head (ys @ zs)"
    and body: "\<And>ys x zs s. I ys (x # zs) s \<Longrightarrow> \<exists>s' ys'. body x s = Inr s' \<and> I ys' zs s'"
    and init: "I ys zs s" and n: "\<And>x xs. zs = x # xs \<Longrightarrow> n = after head xs"
  shows "\<exists>s' ys'. list_for_each_safe lk body head (after head zs) n s = Some (Inr s') \<and> I ys' [] s'"
  using init n
proof (induction zs arbitrary: ys s n)
  case Nil
  then show ?case by (auto simp: list_for_each_safe.simps list_is_head_def)
next
  case (Cons x zs)
  have x: "x \<noteq> head" using ring[OF Cons.prems(1)] by (auto simp: dlist_def)
  obtain s' ys' where b: "body x s = Inr s'" "I ys' zs s'" using body[OF Cons.prems(1)] by blast
  have n: "n = after head zs" using Cons.prems(2) by simp
  have "nxt (lk s' n) = after head xs" if "zs = y # xs" for y xs
    using dlist_next[of "lk s'" head ys' y xs] ring[OF b(2)] that n by simp
  from Cons.IH[OF b(2) this] show ?case
    using x b(1) n by (auto simp: list_for_each_safe.simps list_is_head_def)
qed

text \<open>A body that leaves the ring as it is visits its entries in order.\<close>

lemma list_for_each_do_rule:
  assumes ring: "\<And>ys zs s. I ys zs s \<Longrightarrow> dlist (lk s) head (ys @ zs)"
    and body: "\<And>ys x zs s. I ys (x # zs) s \<Longrightarrow> \<exists>s'. body x s = Inr s' \<and> I (ys @ [x]) zs s'"
    and init: "I ys zs s"
  shows "\<exists>s'. list_for_each_do lk body head (after head zs) s = Some (Inr s') \<and> I (ys @ zs) [] s'"
  using init
proof (induction zs arbitrary: ys s)
  case Nil
  then show ?case by (auto simp: list_for_each_do.simps list_is_head_def)
next
  case (Cons x zs)
  have x: "x \<noteq> head" using ring[OF Cons.prems] by (auto simp: dlist_def)
  obtain s' where b: "body x s = Inr s'" "I (ys @ [x]) zs s'" using body[OF Cons.prems] by blast
  have "nxt (lk s' x) = after head zs" using dlist_next[of "lk s'" head ys x zs] ring[OF b(2)] by simp
  with Cons.IH[OF b(2)] show ?case
    using x b(1) by (auto simp: list_for_each_do.simps[of lk body head x] list_is_head_def)
qed

lemma list_for_each_safe_start:
  assumes d: "dlist h head zs" and z: "zs = x # xs"
  shows "nxt (h (nxt (h head))) = after head xs"
proof -
  have "nxt (h head) = x" using dlist_first[OF d] z by simp
  moreover have "nxt (h x) = after head xs" by (rule dlist_next[of h head "[]"]) (use d z in simp)
  ultimately show ?thesis by simp
qed

lemma list_empty_dlist: "dlist h head xs \<Longrightarrow> list_empty head h \<longleftrightarrow> xs = []"
  by (cases xs) (auto simp: list_empty_def dlist_first, simp add: dlist_def)

lemma list_first_dlist: "dlist h head (x # xs) \<Longrightarrow> list_first_entry head h = x"
  by (simp add: list_first_entry_def dlist_first)

lemma list_next_circular_dlist:
  assumes "dlist h head (ys @ x # zs)"
  shows "list_next_entry_circular x head h = hd (zs @ ys @ [x])"
proof -
  have "nxt (h x) = after head zs" by (rule dlist_next) (rule assms)
  moreover have "zs \<noteq> [] \<Longrightarrow> after head zs \<noteq> head"
    using assms by (cases zs) (auto simp: dlist_def)
  moreover have "nxt (h head) = hd (ys @ [x])"
    using dlist_first[OF assms] by (cases ys) simp_all
  ultimately show ?thesis
    by (cases zs) (auto simp: list_next_entry_circular_def list_is_last_def
        list_first_entry_def list_next_entry_def)
qed

lemma list_next_circular_nth:
  assumes d: "dlist h head xs" and m: "m < length xs"
  shows "list_next_entry_circular (xs ! m) head h = xs ! (Suc m mod length xs)"
proof -
  have "dlist h head (take m xs @ xs ! m # drop (Suc m) xs)"
    using d m by (simp add: id_take_nth_drop[symmetric])
  then have "list_next_entry_circular (xs ! m) head h = hd (drop (Suc m) xs @ take m xs @ [xs ! m])"
    by (rule list_next_circular_dlist)
  also have "\<dots> = xs ! (Suc m mod length xs)"
  proof (cases "Suc m < length xs")
    case True
    then have "hd (drop (Suc m) xs) = xs ! Suc m" "drop (Suc m) xs \<noteq> []" by (simp_all add: hd_drop_conv_nth)
    then show ?thesis using True by simp
  next
    case False
    then have e: "Suc m = length xs" using m by simp
    have "hd (take m xs @ [xs ! m]) = xs ! 0"
      using m by (cases m; cases xs) simp_all
    then show ?thesis using e by simp
  qed
  finally show ?thesis .
qed

section \<open>A family of rings\<close>

text \<open>One ring for each head in \<open>H\<close>, no node in two of them; \<open>L\<close> lists their entries.\<close>

definition rings :: "'a set \<Rightarrow> 'a links \<Rightarrow> ('a \<Rightarrow> 'a list) \<Rightarrow> bool" where
  "rings H h L \<longleftrightarrow>
     (\<forall>a\<in>H. dlist h a (L a)) \<and>
     (\<forall>a\<in>H. \<forall>b\<in>H. a \<noteq> b \<longrightarrow> set (a # L a) \<inter> set (b # L b) = {})"

definition unlinked :: "'a set \<Rightarrow> ('a \<Rightarrow> 'a list) \<Rightarrow> 'a \<Rightarrow> bool" where
  "unlinked H L n \<longleftrightarrow> n \<notin> H \<and> (\<forall>a\<in>H. n \<notin> set (L a))"

lemma ringsD:
  assumes "rings H h L" and "a \<in> H"
  shows "dlist h a (L a)" and "distinct (a # L a)"
    and "b \<in> H \<Longrightarrow> a \<noteq> b \<Longrightarrow> set (a # L a) \<inter> set (b # L b) = {}"
  using assms by (auto simp: rings_def dlist_def)

text \<open>Changing one ring and nothing outside its nodes keeps the family.\<close>

lemma rings_update:
  assumes r: "rings H h L" and a: "a \<in> H"
    and d: "dlist h' a xs"
    and f: "\<And>x. x \<notin> insert a (set (L a) \<union> N) \<Longrightarrow> h' x = h x"
    and N: "\<And>n. n \<in> N \<Longrightarrow> unlinked H L n"
    and xs: "set xs \<subseteq> set (L a) \<union> N"
  shows "rings H h' (L(a := xs))"
proof -
  have other: "dlist h' b (L b)" if b: "b \<in> H" "b \<noteq> a" for b
  proof -
    have disj: "set (b # L b) \<inter> set (a # L a) = {}"
      using ringsD(3)[OF r b(1) a b(2)] .
    moreover have "set (b # L b) \<inter> N = {}"
      using N b(1) by (auto simp: unlinked_def)
    ultimately have "\<And>x. x \<in> set (b # L b) \<Longrightarrow> h' x = h x"
      by (intro f) auto
    then show ?thesis using dlist_cong ringsD(1)[OF r b(1)] by metis
  qed
  have sep: "set (b # L b) \<inter> set (a # xs) = {}" if b: "b \<in> H" "b \<noteq> a" for b
    using ringsD(3)[OF r b(1) a b(2)] xs N b(1) by (auto simp: unlinked_def)
  show ?thesis
    unfolding rings_def
    using d other sep r a by (auto simp: rings_def; blast)
qed

lemma list_head_frame:
  "x \<notin> {n, p, q} \<Longrightarrow> list_add_between n p q h x = h x"
  "x \<notin> {n, prv (h n), nxt (h n)} \<Longrightarrow> list_del_init n h x = h x"
  by (rule list_head.equality; simp add: list_del_init_def)+

lemma rings_insert:
  assumes r: "rings H h L" and a: "a \<in> H" and L: "L a = ys @ zs" and n: "unlinked H L n"
  shows "rings H (list_add_between n (before a ys) (after a zs) h) (L(a := ys @ n # zs))"
proof (rule rings_update[OF r a, where N = "{n}"])
  show "dlist (list_add_between n (before a ys) (after a zs) h) a (ys @ n # zs)"
    using ringsD(1)[OF r a] n a L by (intro dlist_insert) (auto simp: unlinked_def)
  show "list_add_between n (before a ys) (after a zs) h x = h x"
    if "x \<notin> insert a (set (L a) \<union> {n})" for x
    using that before_in[of a ys] after_in[of a zs] L by (intro list_head_frame) auto
qed (use n L in auto)

lemma rings_delete:
  assumes r: "rings H h L" and a: "a \<in> H" and L: "L a = ys @ n # zs"
  shows "rings H (list_del_init n h) (L(a := ys @ zs))"
proof (rule rings_update[OF r a, where N = "{}"])
  have d: "dlist h a (ys @ n # zs)" using ringsD(1)[OF r a] L by simp
  show "dlist (list_del_init n h) a (ys @ zs)" by (rule dlist_delete) (rule d)
  show "list_del_init n h x = h x" if "x \<notin> insert a (set (L a) \<union> {})" for x
    using that before_in[of a ys] after_in[of a zs] L dlist_prev[OF d] dlist_next[OF d]
    by (intro list_head_frame) auto
qed (use L in auto)

section \<open>The interface to the other components\<close>

text \<open>
  What the kernel relies on: a store that keeps one list per head, with the operations it calls.
  \<open>holds h L\<close> says that the store \<open>h\<close> represents the family \<open>L\<close>; \<open>loose\<close> nodes are in no list.
\<close>

locale list_store =
  fixes H :: "'a set"
    and holds :: "'h \<Rightarrow> ('a \<Rightarrow> 'a list) \<Rightarrow> bool"
    and loose :: "('a \<Rightarrow> 'a list) \<Rightarrow> 'a \<Rightarrow> bool"
    and is_empty :: "'a \<Rightarrow> 'h \<Rightarrow> bool"
    and first :: "'a \<Rightarrow> 'h \<Rightarrow> 'a"
    and add :: "'a \<Rightarrow> 'a \<Rightarrow> 'h \<Rightarrow> 'h"
    and add_tail :: "'a \<Rightarrow> 'a \<Rightarrow> 'h \<Rightarrow> 'h"
    and del :: "'a \<Rightarrow> 'h \<Rightarrow> 'h"
  assumes loose_def: "loose L n \<longleftrightarrow> n \<notin> H \<and> (\<forall>a\<in>H. n \<notin> set (L a))"
    and distinct_entries: "holds h L \<Longrightarrow> a \<in> H \<Longrightarrow> distinct (L a)"
    and entries_not_heads: "holds h L \<Longrightarrow> a \<in> H \<Longrightarrow> set (L a) \<inter> H = {}"
    and entries_disjoint:
      "holds h L \<Longrightarrow> a \<in> H \<Longrightarrow> b \<in> H \<Longrightarrow> a \<noteq> b \<Longrightarrow> set (L a) \<inter> set (L b) = {}"
    and is_empty: "holds h L \<Longrightarrow> a \<in> H \<Longrightarrow> is_empty a h \<longleftrightarrow> L a = []"
    and first: "holds h L \<Longrightarrow> a \<in> H \<Longrightarrow> L a = x # xs \<Longrightarrow> first a h = x"
    and add: "holds h L \<Longrightarrow> a \<in> H \<Longrightarrow> loose L n \<Longrightarrow> holds (add n a h) (L(a := n # L a))"
    and add_tail: "holds h L \<Longrightarrow> a \<in> H \<Longrightarrow> loose L n \<Longrightarrow> holds (add_tail n a h) (L(a := L a @ [n]))"
    and add_before: "holds h L \<Longrightarrow> a \<in> H \<Longrightarrow> loose L n \<Longrightarrow> L a = ys @ p # zs \<Longrightarrow>
      holds (add_tail n p h) (L(a := ys @ n # p # zs))"
    and del: "holds h L \<Longrightarrow> a \<in> H \<Longrightarrow> x \<in> set (L a) \<Longrightarrow> holds (del x h) (L(a := remove1 x (L a)))"
begin

lemma deleted_loose:
  assumes "holds h L" and "a \<in> H" and "x \<in> set (L a)"
  shows "loose (L(a := remove1 x (L a))) x"
  using assms distinct_entries[OF assms(1,2)] entries_not_heads[OF assms(1,2)]
    entries_disjoint[OF assms(1,2)]
  by (auto simp: loose_def; blast)

lemma pop:
  assumes "holds h L" and "a \<in> H" and "L a = x # xs"
  shows "holds (del (first a h) h) (L(a := xs))"
  using del[OF assms(1,2), of x] first[OF assms] assms(3) by simp

text \<open>Taking a node out of one list and putting it at the front of another.\<close>

lemma move:
  assumes "holds h L" and "a \<in> H" and "b \<in> H" and "a \<noteq> b" and "x \<in> set (L a)"
  shows "holds (add x b (del x h)) (L(a := remove1 x (L a), b := x # L b))"
  using add[OF del[OF assms(1,2,5)] assms(3) deleted_loose[OF assms(1,2,5)]] assms(4) by simp

text \<open>Adding at the front and taking from the front: a stack.\<close>

lemma add_pop:
  assumes "holds h L" and "a \<in> H" and "loose L n"
  shows "first a (add n a h) = n" and "holds (del n (add n a h)) L"
proof -
  have h: "holds (add n a h) (L(a := n # L a))" by (rule add) (rule assms)+
  show f: "first a (add n a h) = n" by (rule first[OF h assms(2)]) simp
  have "holds (del n (add n a h)) (L(a := n # L a, a := L a))"
    using pop[OF h assms(2)] f by simp
  then show "holds (del n (add n a h)) L" by simp
qed

text \<open>Adding at the tail and taking from the front: a queue.\<close>

lemma add_tail_first:
  assumes "holds h L" and "a \<in> H" and "loose L n"
  shows "first a (add_tail n a h) = hd (L a @ [n])"
  by (rule first[OF add_tail[OF assms] assms(2), of _ "tl (L a @ [n])"]) (cases "L a"; simp)

end

lemma rings_add_tail_before:
  assumes r: "rings H h L" and a: "a \<in> H" and n: "unlinked H L n" and L: "L a = ys @ p # zs"
  shows "rings H (list_add_tail n p h) (L(a := ys @ n # p # zs))"
proof -
  have "prv (h p) = before a ys"
    using ringsD(1)[OF r a] L by (simp add: dlist_prev)
  then show ?thesis
    using rings_insert[OF r a L n] by (simp add: list_add_tail_def)
qed

interpretation lh: list_store H "rings H" "unlinked H"
    list_empty list_first_entry list_add list_add_tail list_del_init
  for H :: "'a set"
proof unfold_locales
  fix h :: "'a links" and L a b n x xs ys p zs
  show "unlinked H L n = (n \<notin> H \<and> (\<forall>a\<in>H. n \<notin> set (L a)))" by (rule unlinked_def)
  assume r: "rings H h L" and a: "a \<in> H"
  note d = ringsD(1)[OF r a]
  show "distinct (L a)" using ringsD(2)[OF r a] by simp
  show "set (L a) \<inter> H = {}"
    using ringsD(2)[OF r a] ringsD(3)[OF r a] by fastforce
  show "b \<in> H \<Longrightarrow> a \<noteq> b \<Longrightarrow> set (L a) \<inter> set (L b) = {}"
    using ringsD(3)[OF r a] by fastforce
  show "list_empty a h = (L a = [])" by (rule list_empty_dlist) (rule d)
  show "L a = x # xs \<Longrightarrow> list_first_entry a h = x" using d list_first_dlist by metis
  show "x \<in> set (L a) \<Longrightarrow> rings H (list_del_init x h) (L(a := remove1 x (L a)))"
    using ringsD(2)[OF r a] rings_delete[OF r a]
    by (auto elim!: split_at_member simp: remove1_append)
  assume n: "unlinked H L n"
  show "rings H (list_add n a h) (L(a := n # L a))"
    using rings_insert[OF r a, of "[]" "L a" n] n by (simp add: list_add_def dlist_first[OF d])
  show "rings H (list_add_tail n a h) (L(a := L a @ [n]))"
    using rings_insert[OF r a, of "L a" "[]" n] n by (simp add: list_add_tail_def dlist_last[OF d])
  show "L a = ys @ p # zs \<Longrightarrow> rings H (list_add_tail n p h) (L(a := ys @ n # p # zs))"
    using rings_add_tail_before[OF r a n] .
qed

section \<open>Properties\<close>

text \<open>C29: on a ring, \<open>list_add\<close> puts a node at the front, \<open>list_add_tail\<close> at the back,
  \<open>list_del_init\<close> takes it out again, and \<open>list_count_nodes\<close> returns the number of entries.\<close>

theorem list_operations:
  assumes d: "dlist h head xs" and n: "n \<notin> set (head # xs)"
  shows "dlist (list_add n head h) head (n # xs) \<and> dlist (list_add_tail n head h) head (xs @ [n]) \<and>
    dlist (list_del_init n (list_add n head h)) head xs \<and>
    dlist (list_del_init n (list_add_tail n head h)) head xs \<and>
    list_count_nodes head (list_add_tail n head h) = Some (Suc (length xs))"
proof -
  have a: "dlist (list_add n head h) head ([] @ n # xs)"
    using dlist_insert[where ys = "[]" and zs = xs and n = n] d n dlist_first[OF d]
    by (simp add: list_add_def)
  have t: "dlist (list_add_tail n head h) head (xs @ n # [])"
    using dlist_insert[where ys = xs and zs = "[]" and n = n] d n dlist_last[OF d]
    by (simp add: list_add_tail_def)
  show ?thesis
    using a t dlist_delete[OF a] dlist_delete[OF t] list_count_nodes_dlist[OF t] by simp
qed

definition example_ring :: "nat links" where
  "example_ring =
     list_add_tail 2 0 (list_add_tail 1 0 (INIT_LIST_HEAD 0 (\<lambda>_. \<lparr>prv = 0, nxt = 0\<rparr>)))"

lemma example_ring: "dlist example_ring 0 [1, 2]"
  by (simp add: dlist_def example_ring_def list_add_tail_def)

theorem list_operations_witness:
  "dlist (list_add_tail 3 0 example_ring) 0 [1, 2, 3] \<and>
   list_count_nodes 0 (list_add_tail 3 0 example_ring) = Some 3"
  using list_operations[OF example_ring, of 3] by simp

text \<open>Walking with \<open>list_next_entry_circular\<close> goes round the entries in order, skipping the head:
  the \<open>i\<close>th step from the \<open>j\<close>th entry is the entry \<open>j + i\<close> modulo the length.\<close>

theorem list_circular_walk:
  assumes d: "dlist h head xs" and j: "j < length xs"
  shows "((\<lambda>p. list_next_entry_circular p head h) ^^ i) (xs ! j) = xs ! ((j + i) mod length xs)"
proof (induction i)
  case 0
  then show ?case using j by simp
next
  case (Suc i)
  let ?m = "(j + i) mod length xs"
  have "0 < length xs" using j by linarith
  then have "?m < length xs" by (rule mod_less_divisor)
  from list_next_circular_nth[OF d this] show ?case using Suc by (simp add: mod_Suc_eq)
qed

theorem list_circular_walk_witness:
  "((\<lambda>p. list_next_entry_circular p 0 example_ring) ^^ 5) 2 = 1"
proof -
  have "(1 + 5) mod length [1, 2 :: nat] = 0" by (simp flip: numeral_2_eq_2)
  then show ?thesis using list_circular_walk[OF example_ring, of 1 5] by simp
qed

end
