(* ===== verification/Buddy.thy ===== *)
theory Buddy
  imports Blocks List_Head
begin

text \<open>
  The page allocator of \<open>src/mm.c\<close>: \<open>alloc_pages\<close>, \<open>free_pages\<close> and the page reference counts, on
  the array \<open>mem_map\<close> of page descriptors and the lists \<open>free_area[0..10]\<close>. A \<open>struct page *\<close> is the
  index of the descriptor, \<open>page - mem_map\<close>. The list nodes of pages and of free slab objects share
  one link store, as they share memory in the kernel.

  \<open>buddy_inv\<close> is the invariant: the free lists and the allocated blocks tile the memory, and the
  descriptors of the first frames say which is which. Each operation is proved to keep it, with its
  effect on the allocated blocks.
\<close>

section \<open>Constants and addresses\<close>

definition NUM_PAGES :: nat where "NUM_PAGES = 0x140000"
definition PAGE_SIZE :: nat where "PAGE_SIZE = 4096"
definition BUDDY_MAX_ORDER :: nat where "BUDDY_MAX_ORDER = 10"
definition CACHE_MAX_INDEX :: nat where "CACHE_MAX_INDEX = 6"
definition CACHE_MIN_SIZE :: nat where "CACHE_MIN_SIZE = 32"
definition CACHE_UNALLOC :: u32 where "CACHE_UNALLOC = - 1"
definition PAGE_OFFSET :: u64 where "PAGE_OFFSET = 0xffffffc000000000"

definition virt_to_phys :: "u64 \<Rightarrow> u64" where
  "virt_to_phys x = x - PAGE_OFFSET"

definition phys_to_virt :: "u64 \<Rightarrow> u64" where
  "phys_to_virt x = x + PAGE_OFFSET"

section \<open>State\<close>

record page =
  order :: nat
  used :: u32
  cacheidx :: u32
  refcount :: u32

text \<open>
  The addresses of list nodes in memory: the heads \<open>free_area[k]\<close> and \<open>kmem_cache[i]\<close>, the \<open>list\<close>
  field of \<open>mem_map[p]\<close>, and the \<open>list\<close> field of a free slab object at a virtual address. The
  selectors are \<open>container_of\<close>.
\<close>

datatype node =
    FreeArea nat
  | PageList (page_of: nat)
  | CacheHead nat
  | ObjList (obj_of: u64)

record mm =
  mem_map :: "nat \<Rightarrow> page"
  links :: "node links"
  heap_top :: u64

definition upd_page :: "nat \<Rightarrow> (page \<Rightarrow> page) \<Rightarrow> mm \<Rightarrow> mm" where
  "upd_page p f s = s\<lparr>mem_map := (mem_map s)(p := f (mem_map s p))\<rparr>"

definition upd_links :: "(node links \<Rightarrow> node links) \<Rightarrow> mm \<Rightarrow> mm" where
  "upd_links f s = s\<lparr>links := f (links s)\<rparr>"

lemma upd_simps [simp]:
  "mem_map (upd_page p f s) q = (if q = p then f (mem_map s p) else mem_map s q)"
  "links (upd_page p f s) = links s"
  "heap_top (upd_page p f s) = heap_top s"
  "mem_map (upd_links g s) = mem_map s"
  "links (upd_links g s) = g (links s)"
  "heap_top (upd_links g s) = heap_top s"
  by (simp_all add: upd_page_def upd_links_def)

section \<open>The operations\<close>

definition get_buddy :: "nat \<Rightarrow> nat \<Rightarrow> nat" where
  "get_buddy page ord = page XOR push_bit ord 1"

text \<open>The inner loop of \<open>alloc_pages\<close>, \<open>while (i > order)\<close>: the upper halves go to the free lists.\<close>

fun alloc_split :: "nat \<Rightarrow> nat \<Rightarrow> nat \<Rightarrow> mm \<Rightarrow> mm" where
  "alloc_split page ord 0 s = s"
| "alloc_split page ord (Suc i) s =
     (if ord < Suc i then
        let b = get_buddy page i;
            s1 = upd_page b (\<lambda>pg. pg\<lparr>order := i\<rparr>) s;
            s2 = upd_links (list_add (PageList b) (FreeArea i)) s1
        in alloc_split page ord i s2
      else s)"

text \<open>The outer loop, from order \<open>i\<close> up.\<close>

function alloc_from :: "nat \<Rightarrow> nat \<Rightarrow> mm \<Rightarrow> nat option \<times> mm" where
  "alloc_from ord i s =
     (if i \<le> BUDDY_MAX_ORDER then
        if list_empty (FreeArea i) (links s) then alloc_from ord (i + 1) s
        else
          let page = page_of (list_first_entry (FreeArea i) (links s));
              s1 = upd_links (list_del_init (PageList page)) s;
              s2 = upd_page page (\<lambda>pg. pg\<lparr>order := ord, used := 1, refcount := 1\<rparr>) s1
          in (Some page, alloc_split page ord i s2)
      else (None, s))"
  by pat_completeness auto
termination by (relation "measure (\<lambda>(ord, i, s). Suc BUDDY_MAX_ORDER - i)") auto

declare alloc_from.simps [simp del]

definition alloc_pages :: "nat \<Rightarrow> mm \<Rightarrow> nat option \<times> mm" where
  "alloc_pages ord s = alloc_from ord ord s"

text \<open>The loop of \<open>free_pages\<close>: the final block and its order, with the state.\<close>

function free_merge :: "nat \<Rightarrow> nat \<Rightarrow> mm \<Rightarrow> nat \<times> nat \<times> mm" where
  "free_merge current ord s =
     (if ord < BUDDY_MAX_ORDER then
        let b = get_buddy current ord in
        if used (mem_map s b) \<noteq> 0 \<or> order (mem_map s b) \<noteq> ord then (current, ord, s)
        else
          let s1 = upd_links (list_del_init (PageList b)) s;
              current' = (if b < current then b else current)
          in free_merge current' (ord + 1) s1
      else (current, ord, s))"
  by pat_completeness auto
termination by (relation "measure (\<lambda>(c, ord, s). BUDDY_MAX_ORDER - ord)") auto

declare free_merge.simps [simp del]

definition free_pages :: "nat \<Rightarrow> mm \<Rightarrow> mm" where
  "free_pages page s =
     (let (current, ord, s1) = free_merge page (order (mem_map s page)) s;
          s2 = upd_page current (\<lambda>pg. pg\<lparr>order := ord, used := 0, refcount := 0\<rparr>) s1
      in upd_links (list_add (PageList current) (FreeArea ord)) s2)"

definition get_page :: "nat \<Rightarrow> mm \<Rightarrow> mm" where
  "get_page page s = upd_page page (\<lambda>pg. pg\<lparr>refcount := refcount pg + 1\<rparr>) s"

definition put_page :: "nat \<Rightarrow> mm \<Rightarrow> mm" where
  "put_page page s =
     (let s1 = upd_page page (\<lambda>pg. pg\<lparr>refcount := refcount pg - 1\<rparr>) s
      in if refcount (mem_map s1 page) = 0 then free_pages page s1 else s1)"

text \<open>Addresses of pages; a null page has no address.\<close>

definition page_addr :: "nat \<Rightarrow> u64" where
  "page_addr page = phys_to_virt (of_nat page * of_nat PAGE_SIZE)"

definition page_to_virt :: "nat option \<Rightarrow> fault + u64" where
  "page_to_virt page = (case page of None \<Rightarrow> Inl Null_Pointer | Some p \<Rightarrow> Inr (page_addr p))"

definition virt_to_page :: "u64 \<Rightarrow> nat" where
  "virt_to_page addr = unat (virt_to_phys addr div of_nat PAGE_SIZE)"

section \<open>The invariant\<close>

definition heads :: "node set" where
  "heads = FreeArea ` {..BUDDY_MAX_ORDER} \<union> CacheHead ` {..CACHE_MAX_INDEX}"

text \<open>The lists in memory: \<open>F k\<close> the pages of \<open>free_area[k]\<close>, \<open>C i\<close> the objects of \<open>kmem_cache[i]\<close>.\<close>

fun lists_of :: "(nat \<Rightarrow> nat list) \<Rightarrow> (nat \<Rightarrow> u64 list) \<Rightarrow> node \<Rightarrow> node list" where
  "lists_of F C (FreeArea k) = map PageList (F k)"
| "lists_of F C (CacheHead i) = map ObjList (C i)"
| "lists_of F C n = []"

definition free_blocks :: "(nat \<Rightarrow> nat list) \<Rightarrow> block set" where
  "free_blocks F = {(p, k). k \<le> BUDDY_MAX_ORDER \<and> p \<in> set (F k)}"

text \<open>
  \<open>A\<close> is the set of allocated (or reserved) blocks, \<open>X\<close> the block an operation is working on and
  which is in neither set; between operations \<open>X\<close> is empty.
\<close>

definition buddy_inv ::
    "mm \<Rightarrow> (nat \<Rightarrow> nat list) \<Rightarrow> (nat \<Rightarrow> u64 list) \<Rightarrow> block set \<Rightarrow> block set \<Rightarrow> bool" where
  "buddy_inv s F C A X \<longleftrightarrow>
     rings heads (links s) (lists_of F C) \<and>
     tiles BUDDY_MAX_ORDER NUM_PAGES (free_blocks F \<union> A \<union> X) \<and>
     free_blocks F \<inter> A = {} \<and> (free_blocks F \<union> A) \<inter> X = {} \<and>
     (\<forall>p k. (p, k) \<in> free_blocks F \<union> A \<longrightarrow> order (mem_map s p) = k) \<and>
     (\<forall>p k. (p, k) \<in> A \<longrightarrow> used (mem_map s p) \<noteq> 0)"

lemma get_buddy_eq: "get_buddy p k = buddy p k"
  by (simp add: get_buddy_def push_bit_eq_mult)

lemma NUM_PAGES_aligned: "2 ^ BUDDY_MAX_ORDER dvd NUM_PAGES"
  by (simp add: BUDDY_MAX_ORDER_def NUM_PAGES_def)

lemma lists_of_upd [simp]:
  "(lists_of F C)(FreeArea k := map PageList xs) = lists_of (F(k := xs)) C"
  "(lists_of F C)(CacheHead i := map ObjList ys) = lists_of F (C(i := ys))"
  by (rule ext, case_tac x; simp)+

lemma heads_simps [simp]:
  "FreeArea k \<in> heads \<longleftrightarrow> k \<le> BUDDY_MAX_ORDER"
  "CacheHead i \<in> heads \<longleftrightarrow> i \<le> CACHE_MAX_INDEX"
  "PageList p \<notin> heads"
  "ObjList a \<notin> heads"
  by (auto simp: heads_def)

lemma free_blocks_simps [simp]:
  "(p, k) \<in> free_blocks F \<longleftrightarrow> k \<le> BUDDY_MAX_ORDER \<and> p \<in> set (F k)"
  by (simp add: free_blocks_def)

lemma free_blocks_add:
  "k \<le> BUDDY_MAX_ORDER \<Longrightarrow> free_blocks (F(k := p # F k)) = insert (p, k) (free_blocks F)"
  by (auto simp: free_blocks_def split: if_splits)

lemma free_blocks_remove:
  assumes "distinct (F k)" and "xs = remove1 p (F k)"
  shows "free_blocks (F(k := xs)) = free_blocks F - {(p, k)}"
  using assms by (auto simp: free_blocks_def set_remove1_eq split: if_splits)

lemma ball_heads:
  "(\<forall>a\<in>heads. P a) \<longleftrightarrow>
     (\<forall>k\<le>BUDDY_MAX_ORDER. P (FreeArea k)) \<and> (\<forall>i\<le>CACHE_MAX_INDEX. P (CacheHead i))"
  by (auto simp: heads_def)

lemma unlinked_page:
  "unlinked heads (lists_of F C) (PageList p) \<longleftrightarrow> (\<forall>k\<le>BUDDY_MAX_ORDER. p \<notin> set (F k))"
  by (auto simp: unlinked_def ball_heads)

lemma unlinked_obj:
  "unlinked heads (lists_of F C) (ObjList a) \<longleftrightarrow> (\<forall>i\<le>CACHE_MAX_INDEX. a \<notin> set (C i))"
  by (auto simp: unlinked_def ball_heads)

lemma buddy_invI:
  assumes "rings heads (links s) (lists_of F C)"
    and "tiles BUDDY_MAX_ORDER NUM_PAGES (free_blocks F \<union> A \<union> X)"
    and "free_blocks F \<inter> A = {}" and "(free_blocks F \<union> A) \<inter> X = {}"
    and "\<And>p k. (p, k) \<in> free_blocks F \<union> A \<Longrightarrow> order (mem_map s p) = k"
    and "\<And>p k. (p, k) \<in> A \<Longrightarrow> used (mem_map s p) \<noteq> 0"
  shows "buddy_inv s F C A X"
  using assms unfolding buddy_inv_def by blast

subsection \<open>Consequences\<close>

lemma buddy_invD:
  assumes "buddy_inv s F C A X"
  shows "rings heads (links s) (lists_of F C)"
    and "tiles BUDDY_MAX_ORDER NUM_PAGES (free_blocks F \<union> A \<union> X)"
    and "free_blocks F \<inter> A = {}" and "(free_blocks F \<union> A) \<inter> X = {}"
    and "(p, k) \<in> free_blocks F \<union> A \<Longrightarrow> order (mem_map s p) = k"
    and "(p, k) \<in> A \<Longrightarrow> used (mem_map s p) \<noteq> 0"
  using assms unfolding buddy_inv_def by blast+

lemma free_list_distinct:
  assumes "buddy_inv s F C A X" and "k \<le> BUDDY_MAX_ORDER"
  shows "distinct (F k)"
  using lh.distinct_entries[OF buddy_invD(1)[OF assms(1)], of "FreeArea k"] assms(2)
  by (simp add: distinct_map)

lemma add_free_area:
  assumes "rings heads h (lists_of F C)" and "k \<le> BUDDY_MAX_ORDER"
    and "\<And>j. j \<le> BUDDY_MAX_ORDER \<Longrightarrow> p \<notin> set (F j)"
  shows "rings heads (list_add (PageList p) (FreeArea k) h) (lists_of (F(k := p # F k)) C)"
proof -
  have "unlinked heads (lists_of F C) (PageList p)" using assms(3) by (simp add: unlinked_page)
  then show ?thesis
    using lh.add[OF assms(1), of "FreeArea k" "PageList p"] assms(2)
      lists_of_upd(1)[of F C k "p # F k"] by simp
qed

lemma del_free_area:
  assumes "rings heads h (lists_of F C)" and "k \<le> BUDDY_MAX_ORDER" and "p \<in> set (F k)"
  shows "rings heads (list_del_init (PageList p) h) (lists_of (F(k := remove1 p (F k))) C)"
proof -
  have "remove1 (PageList p) (map PageList (F k)) = map PageList (remove1 p (F k))"
    by (simp add: map_remove1_inj inj_def)
  then show ?thesis
    using lh.del[OF assms(1), of "FreeArea k" "PageList p"] assms(2,3) by simp
qed

lemma free_area_empty:
  assumes "buddy_inv s F C A X" and "k \<le> BUDDY_MAX_ORDER"
  shows "list_empty (FreeArea k) (links s) \<longleftrightarrow> F k = []"
  using lh.is_empty[OF buddy_invD(1)[OF assms(1)], of "FreeArea k"] assms(2) by simp

text \<open>The free frames are the frames of no allocated block.\<close>

lemma free_frames:
  assumes "buddy_inv s F C A X"
  shows "all_frames (free_blocks F) = {..<NUM_PAGES} - all_frames A - all_frames X"
proof -
  note t = buddy_invD(2)[OF assms] and d = buddy_invD(3,4)[OF assms]
  have "frames b \<inter> frames c = {}" if "b \<in> free_blocks F" "c \<in> A \<union> X" for b c
    using that d by (intro tilesD(2)[OF t]) auto
  then have "all_frames (free_blocks F) \<inter> (all_frames A \<union> all_frames X) = {}"
    by (fastforce simp: all_frames_def)
  moreover have "all_frames (free_blocks F) \<union> all_frames A \<union> all_frames X = {..<NUM_PAGES}"
    using t by (simp add: tiles_def)
  ultimately show ?thesis by blast
qed

text \<open>A frame at which a block starts is the first frame of no other block.\<close>

lemma block_unique:
  assumes "buddy_inv s F C A X"
    and "b \<in> free_blocks F \<union> A \<union> X" and "c \<in> free_blocks F \<union> A \<union> X"
    and "f \<in> frames b" and "f \<in> frames c"
  shows "b = c"
  by (rule tiles_overlap[OF buddy_invD(2)]) (rule assms)+

subsection \<open>The steps of the operations\<close>

text \<open>Taking a block of a free list into work.\<close>

lemma take_any:
  assumes inv: "buddy_inv s F C A {}" and k: "k \<le> BUDDY_MAX_ORDER" and p: "p \<in> set (F k)"
  shows "buddy_inv (upd_links (list_del_init (PageList p)) s) (F(k := remove1 p (F k))) C A {(p, k)}"
proof -
  let ?F = "F(k := remove1 p (F k))"
  have fb: "free_blocks ?F = free_blocks F - {(p, k)}"
    by (rule free_blocks_remove) (use free_list_distinct[OF inv k] in simp_all)
  have m: "(p, k) \<in> free_blocks F" using k p by simp
  show ?thesis
  proof (rule buddy_invI)
    show "rings heads (links (upd_links (list_del_init (PageList p)) s)) (lists_of ?F C)"
      unfolding upd_simps by (rule del_free_area[where k = k]) (use buddy_invD(1)[OF inv] k p in auto)
    have "free_blocks ?F \<union> A \<union> {(p, k)} = free_blocks F \<union> A \<union> {}" using m unfolding fb by blast
    then show "tiles BUDDY_MAX_ORDER NUM_PAGES (free_blocks ?F \<union> A \<union> {(p, k)})"
      using buddy_invD(2)[OF inv] by simp
    show "free_blocks ?F \<inter> A = {}" "(free_blocks ?F \<union> A) \<inter> {(p, k)} = {}"
      using buddy_invD(3)[OF inv] m unfolding fb by blast+
  qed (use buddy_invD(5,6)[OF inv] in \<open>auto simp: fb simp del: free_blocks_simps\<close>)
qed

lemma take_step:
  assumes inv: "buddy_inv s F C A {}" and k: "k \<le> BUDDY_MAX_ORDER" and F: "F k = p # ps"
  shows "list_first_entry (FreeArea k) (links s) = PageList p"
    and "buddy_inv (upd_links (list_del_init (PageList p)) s) (F(k := ps)) C A {(p, k)}"
  using lh.first[OF buddy_invD(1)[OF inv], of "FreeArea k"] take_any[OF inv k, of p] k F by simp_all

text \<open>A block in work starts at no frame where a free or allocated block starts.\<close>

lemma work_apart:
  assumes inv: "buddy_inv s F C A X" and x: "(p, k) \<in> X"
  shows "(p, j) \<notin> free_blocks F \<union> A"
proof
  assume m: "(p, j) \<in> free_blocks F \<union> A"
  then have "(p, j) = (p, k)" using x by (intro block_unique[OF inv, of _ _ p]) auto
  then show False using m x buddy_invD(4)[OF inv] by blast
qed

text \<open>So its descriptor is free to change.\<close>

lemma work_step:
  assumes inv: "buddy_inv s F C A X" and x: "(p, k) \<in> X"
  shows "buddy_inv (upd_page p f s) F C A X"
proof -
  have "q \<noteq> p" if "(q, j) \<in> free_blocks F \<union> A" for q j using work_apart[OF inv x] that by blast
  then show ?thesis
    using buddy_invD[OF inv] by (intro buddy_invI) (auto simp del: free_blocks_simps)
qed

text \<open>Splitting a block in work, and putting one on its free list.\<close>

lemma split_work:
  assumes inv: "buddy_inv s F C A {(p, Suc k)}"
  shows "buddy_inv s F C A {(buddy p k, k), (p, k)}" and "buddy p k \<noteq> p"
proof -
  let ?b = "buddy p k" and ?B = "free_blocks F \<union> A \<union> {(p, Suc k)}"
  note t = buddy_invD(2)[OF inv]
  have "block_ok BUDDY_MAX_ORDER NUM_PAGES (p, Suc k)" by (rule tilesD(1)[OF t]) simp
  then have b: "?b = p + 2 ^ k" by (intro buddy_upper) simp
  then show "?b \<noteq> p" by simp
  have inside: "?b \<in> frames (p, Suc k)" "p \<in> frames (p, Suc k)" by (simp_all add: b)
  have fresh: "(q, j) \<notin> free_blocks F \<union> A" if "q \<in> {p, ?b}" for q j
  proof
    assume "(q, j) \<in> free_blocks F \<union> A"
    then have "(q, j) = (p, Suc k)"
      using that inside by (intro block_unique[OF inv, of _ _ q]) auto
    then show False using \<open>(q, j) \<in> free_blocks F \<union> A\<close> buddy_invD(4)[OF inv] by blast
  qed
  show "buddy_inv s F C A {(?b, k), (p, k)}"
  proof (rule buddy_invI)
    have "tiles BUDDY_MAX_ORDER NUM_PAGES ({(p, k), (?b, k)} \<union> (?B - {(p, Suc k)}))"
      by (rule tiles_split[OF t]) simp
    moreover have "{(p, k), (?b, k)} \<union> (?B - {(p, Suc k)}) = free_blocks F \<union> A \<union> {(?b, k), (p, k)}"
      using buddy_invD(4)[OF inv] by blast
    ultimately show "tiles BUDDY_MAX_ORDER NUM_PAGES (free_blocks F \<union> A \<union> {(?b, k), (p, k)})"
      by simp
    show "(free_blocks F \<union> A) \<inter> {(?b, k), (p, k)} = {}" using fresh by blast
  qed (use buddy_invD[OF inv] in blast)+
qed

lemma put_work:
  assumes inv: "buddy_inv s F C A (insert (c, k) X)" and x: "(c, k) \<notin> X"
    and ord: "order (mem_map s c) = k"
  shows "buddy_inv (upd_links (list_add (PageList c) (FreeArea k)) s) (F(k := c # F k)) C A X"
proof -
  let ?F = "F(k := c # F k)"
  have k: "k \<le> BUDDY_MAX_ORDER" using tilesD(1)[OF buddy_invD(2)[OF inv], of "(c, k)"] by simp
  have fb: "free_blocks ?F = insert (c, k) (free_blocks F)" using k by (rule free_blocks_add)
  have fresh: "(c, j) \<notin> free_blocks F \<union> A" for j
    by (rule work_apart[OF inv, of c k]) simp
  show ?thesis
  proof (rule buddy_invI)
    show "rings heads (links (upd_links (list_add (PageList c) (FreeArea k)) s)) (lists_of ?F C)"
      unfolding upd_simps
      by (rule add_free_area[OF buddy_invD(1)[OF inv] k]) (use fresh in auto)
    have "free_blocks F \<union> A \<union> insert (c, k) X = free_blocks ?F \<union> A \<union> X" unfolding fb by blast
    then show "tiles BUDDY_MAX_ORDER NUM_PAGES (free_blocks ?F \<union> A \<union> X)"
      using buddy_invD(2)[OF inv] by simp
    show "free_blocks ?F \<inter> A = {}" using buddy_invD(3)[OF inv] fresh unfolding fb by blast
    show "(free_blocks ?F \<union> A) \<inter> X = {}" using buddy_invD(4)[OF inv] x unfolding fb by blast
  qed (use buddy_invD(5,6)[OF inv] ord in \<open>auto simp: fb simp del: free_blocks_simps\<close>)
qed

text \<open>One turn of \<open>alloc_split\<close>: the upper half of the block in work goes to its free list.\<close>

lemma split_step:
  assumes inv: "buddy_inv s F C A {(p, Suc k)}"
  shows "buddy_inv (upd_links (list_add (PageList (buddy p k)) (FreeArea k))
           (upd_page (buddy p k) (\<lambda>pg. pg\<lparr>order := k\<rparr>) s))
           (F(k := buddy p k # F k)) C A {(p, k)}"
  by (rule put_work, rule work_step[OF split_work(1)[OF inv]])
    (use split_work(2)[OF inv] in auto)

text \<open>Merging the block in work with its free buddy.\<close>

lemma merge_step:
  assumes inv: "buddy_inv s F C A {(c, k)}" and k: "k < BUDDY_MAX_ORDER"
    and free: "used (mem_map s (buddy c k)) = 0" "order (mem_map s (buddy c k)) = k"
  shows "buddy_inv (upd_links (list_del_init (PageList (buddy c k))) s)
           (F(k := remove1 (buddy c k) (F k))) C A {(min c (buddy c k), Suc k)}"
    and "buddy c k \<in> set (F k)"
proof -
  let ?b = "buddy c k" and ?B = "free_blocks F \<union> A \<union> {(c, k)}"
  note t = buddy_invD(2)[OF inv]
  have c: "(c, k) \<in> ?B" by simp
  note bok = buddy_ok[OF tilesD(1)[OF t c] k NUM_PAGES_aligned]
  have ne: "?b \<noteq> c" using bok(4) frames_nonempty[of "(c, k)"] by (metis Int_absorb)
  obtain j where "j \<le> k" and j: "(?b, j) \<in> ?B"
    by (rule tiles_buddy[OF t NUM_PAGES_aligned k c])
  then have m: "(?b, j) \<in> free_blocks F \<union> A" using ne by blast
  moreover have "(?b, j) \<notin> A" using free(1) buddy_invD(6)[OF inv] by blast
  moreover have "j = k" using free(2) buddy_invD(5)[OF inv m] by simp
  ultimately have b: "(?b, k) \<in> free_blocks F" by blast
  then show in_list: "?b \<in> set (F k)" by simp
  let ?F = "F(k := remove1 ?b (F k))"
  have fb: "free_blocks ?F = free_blocks F - {(?b, k)}"
    by (rule free_blocks_remove) (use free_list_distinct[OF inv] k in simp_all)
  show "buddy_inv (upd_links (list_del_init (PageList ?b)) s) ?F C A {(min c ?b, Suc k)}"
  proof (rule buddy_invI)
    show "rings heads (links (upd_links (list_del_init (PageList ?b)) s)) (lists_of ?F C)"
      unfolding upd_simps
      by (rule del_free_area[OF buddy_invD(1)[OF inv]]) (use k in_list in auto)
    have "tiles BUDDY_MAX_ORDER NUM_PAGES ({(min c ?b, Suc k)} \<union> (?B - {(c, k), (?b, k)}))"
      by (rule tiles_merge[OF t NUM_PAGES_aligned k c]) (use b in blast)
    moreover have "?B - {(c, k), (?b, k)} = free_blocks ?F \<union> A"
      using buddy_invD(3,4)[OF inv] b unfolding fb by blast
    ultimately show "tiles BUDDY_MAX_ORDER NUM_PAGES (free_blocks ?F \<union> A \<union> {(min c ?b, Suc k)})"
      by (simp add: Un_commute)
    show "free_blocks ?F \<inter> A = {}" using buddy_invD(3)[OF inv] unfolding fb by blast
    have "(min c ?b, Suc k) \<notin> free_blocks F \<union> A"
    proof
      assume m: "(min c ?b, Suc k) \<in> free_blocks F \<union> A"
      have "c \<in> frames (min c ?b, Suc k)" using bok(3) first_frame[of c k] by blast
      then have "(min c ?b, Suc k) = (c, k)"
        using m by (intro block_unique[OF inv, of _ _ c]) auto
      then show False by simp
    qed
    then show "(free_blocks ?F \<union> A) \<inter> {(min c ?b, Suc k)} = {}" unfolding fb by blast
  qed (use buddy_invD(5,6)[OF inv] in \<open>auto simp: fb simp del: free_blocks_simps\<close>)
qed

text \<open>The end of \<open>free_pages\<close>: the block in work goes to its free list.\<close>

lemma put_step:
  assumes inv: "buddy_inv s F C A {(c, k)}"
  shows "buddy_inv (upd_links (list_add (PageList c) (FreeArea k))
           (upd_page c (\<lambda>pg. pg\<lparr>order := k, used := 0, refcount := 0\<rparr>) s))
           (F(k := c # F k)) C A {}"
  by (rule put_work, rule work_step[OF inv]) auto

section \<open>The operations keep the invariant\<close>

lemma work_start:
  assumes inv: "buddy_inv s F C A {}" and p: "(p, k) \<in> A"
  shows "buddy_inv s F C (A - {(p, k)}) {(p, k)}"
proof (rule buddy_invI)
  have "free_blocks F \<union> (A - {(p, k)}) \<union> {(p, k)} = free_blocks F \<union> A \<union> {}" using p by blast
  then show "tiles BUDDY_MAX_ORDER NUM_PAGES (free_blocks F \<union> (A - {(p, k)}) \<union> {(p, k)})"
    using buddy_invD(2)[OF inv] by simp
  show "(free_blocks F \<union> (A - {(p, k)})) \<inter> {(p, k)} = {}" using p buddy_invD(3)[OF inv] by blast
qed (use buddy_invD[OF inv] in blast)+

lemma work_done:
  assumes inv: "buddy_inv s F C A {(p, k)}"
    and "order (mem_map s p) = k" and "used (mem_map s p) \<noteq> 0"
  shows "buddy_inv s F C (insert (p, k) A) {}"
proof (rule buddy_invI)
  have "free_blocks F \<union> A \<union> {(p, k)} = free_blocks F \<union> insert (p, k) A \<union> {}" by blast
  then show "tiles BUDDY_MAX_ORDER NUM_PAGES (free_blocks F \<union> insert (p, k) A \<union> {})"
    using buddy_invD(2)[OF inv] by simp
  show "free_blocks F \<inter> insert (p, k) A = {}" using buddy_invD(3,4)[OF inv] by blast
qed (use buddy_invD[OF inv] assms(2,3) in blast)+

text \<open>What an operation leaves alone: every descriptor field but \<open>order\<close>, outside \<open>P\<close>.\<close>

definition only_orders :: "nat set \<Rightarrow> mm \<Rightarrow> mm \<Rightarrow> bool" where
  "only_orders P s s' \<longleftrightarrow>
     heap_top s' = heap_top s \<and>
     (\<forall>q. cacheidx (mem_map s' q) = cacheidx (mem_map s q)) \<and>
     (\<forall>q. q \<notin> P \<longrightarrow> used (mem_map s' q) = used (mem_map s q) \<and>
                     refcount (mem_map s' q) = refcount (mem_map s q))"

lemma only_orders_trans:
  "only_orders P s s' \<Longrightarrow> only_orders Q s' s'' \<Longrightarrow> P \<subseteq> R \<Longrightarrow> Q \<subseteq> R \<Longrightarrow> only_orders R s s''"
  unfolding only_orders_def by (metis subsetD)

lemma alloc_split_inv:
  assumes "buddy_inv s F C A {(p, i)}" and "ord \<le> i"
  shows "\<exists>F'. buddy_inv (alloc_split p ord i s) F' C A {(p, ord)} \<and> free_blocks F \<subseteq> free_blocks F'"
    and "only_orders {} s (alloc_split p ord i s)"
    and "mem_map (alloc_split p ord i s) p = mem_map s p"
proof -
  have "(\<exists>F'. buddy_inv (alloc_split p ord i s) F' C A {(p, ord)} \<and> free_blocks F \<subseteq> free_blocks F') \<and>
      only_orders {} s (alloc_split p ord i s) \<and>
      mem_map (alloc_split p ord i s) p = mem_map s p"
    using assms
  proof (induction p ord i s arbitrary: F rule: alloc_split.induct)
    case (1 p ord s)
    then show ?case by (auto simp: only_orders_def)
  next
    case (2 p ord i s)
    show ?case
    proof (cases "ord < Suc i")
      case True
      let ?s = "upd_links (list_add (PageList (buddy p i)) (FreeArea i))
          (upd_page (buddy p i) (\<lambda>pg. pg\<lparr>order := i\<rparr>) s)"
      note step = split_step[OF 2(2)] split_work(2)[OF 2(2)]
      have sub: "free_blocks F \<subseteq> free_blocks (F(i := buddy p i # F i))" by (auto simp: free_blocks_def)
      have e: "alloc_split p ord (Suc i) s = alloc_split p ord i ?s"
        using True by (simp add: get_buddy_eq Let_def)
      have m: "mem_map ?s p = mem_map s p" using step(2) by auto
      note r = 2(1)[OF True refl refl refl, unfolded get_buddy_eq, OF step(1)]
      have le: "ord \<le> i" using True by simp
      obtain F' where "buddy_inv (alloc_split p ord i ?s) F' C A {(p, ord)}"
          "free_blocks (F(i := buddy p i # F i)) \<subseteq> free_blocks F'"
        using r[OF le] by blast
      moreover have "only_orders {} s (alloc_split p ord i ?s)"
        by (rule only_orders_trans[of "{}" s ?s "{}"]) (use r[OF le] in \<open>simp_all add: only_orders_def\<close>)
      ultimately show ?thesis unfolding e using sub r[OF le] m by (metis subset_trans)
    next
      case False
      then have "ord = Suc i" using 2(3) by simp
      then show ?thesis using 2(2) by (auto simp: only_orders_def)
    qed
  qed
  then show "\<exists>F'. buddy_inv (alloc_split p ord i s) F' C A {(p, ord)} \<and> free_blocks F \<subseteq> free_blocks F'"
    and "only_orders {} s (alloc_split p ord i s)"
    and "mem_map (alloc_split p ord i s) p = mem_map s p"
    by blast+
qed

lemma alloc_from_inv:
  assumes "buddy_inv s F C A {}" and "ord \<le> i"
  shows "(case alloc_from ord i s of
       (None, s') \<Rightarrow> s' = s \<and> (\<forall>k. i \<le> k \<and> k \<le> BUDDY_MAX_ORDER \<longrightarrow> F k = [])
     | (Some p, s') \<Rightarrow>
         (\<exists>F' j. buddy_inv s' F' C (insert (p, ord) A) {} \<and> free_blocks F - {(p, j)} \<subseteq> free_blocks F') \<and>
         only_orders {p} s s' \<and>
         (\<exists>k. i \<le> k \<and> (p, k) \<in> free_blocks F) \<and>
         order (mem_map s' p) = ord \<and> used (mem_map s' p) = 1 \<and> refcount (mem_map s' p) = 1)"
  using assms
proof (induction ord i s rule: alloc_from.induct)
  case (1 ord i s)
  note inv = 1(2)
  consider (out) "BUDDY_MAX_ORDER < i" | (next_order) "i \<le> BUDDY_MAX_ORDER" "F i = []"
    | (found) p ps where "i \<le> BUDDY_MAX_ORDER" "F i = p # ps"
    by (cases "i \<le> BUDDY_MAX_ORDER"; cases "F i") (auto simp: not_le)
  then show ?case
  proof cases
    case out
    then show ?thesis by (auto simp: alloc_from.simps)
  next
    case next_order
    then have e: "list_empty (FreeArea i) (links s)" using free_area_empty[OF inv] by simp
    have "F k = []" if "Suc i \<le> k \<Longrightarrow> F k = []" "i \<le> k" for k
      using that next_order(2) by (cases "k = i") auto
    then show ?thesis
      using 1(1)[OF next_order(1) e inv] 1(3) next_order e
      by (auto simp: alloc_from.simps[of ord i s] split: option.splits prod.splits; (meson Suc_leD)?)
  next
    case found
    then have e: "\<not> list_empty (FreeArea i) (links s)" using free_area_empty[OF inv] by simp
    let ?s1 = "upd_page p (\<lambda>pg. pg\<lparr>order := ord, used := 1, refcount := 1\<rparr>)
        (upd_links (list_del_init (PageList p)) s)"
    let ?s2 = "alloc_split p ord i ?s1"
    note take = take_step[OF inv found]
    note split = alloc_split_inv[OF work_step[OF take(2) singletonI, of "\<lambda>pg. pg\<lparr>order := ord, used := 1, refcount := 1\<rparr>"] 1(3)]
    have pg: "order (mem_map ?s2 p) = ord" "used (mem_map ?s2 p) = 1" "refcount (mem_map ?s2 p) = 1"
      using split(3) by simp_all
    obtain F' where F0: "buddy_inv ?s2 F' C A {(p, ord)}" "free_blocks (F(i := ps)) \<subseteq> free_blocks F'"
      using split(1) by blast
    have F': "buddy_inv ?s2 F' C (insert (p, ord) A) {}" by (rule work_done[OF F0(1)]) (simp_all add: pg)
    have sub: "free_blocks F - {(p, i)} \<subseteq> free_blocks F'"
      using F0(2) found(2) by (fastforce simp: free_blocks_def split: if_splits)
    have "only_orders {p} s ?s1" by (simp add: only_orders_def)
    then have "only_orders {p} s ?s2" by (rule only_orders_trans[OF _ split(2)]) auto
    moreover have "alloc_from ord i s = (Some p, ?s2)"
      using found(1) e take(1) by (simp add: alloc_from.simps[of ord i s] Let_def)
    moreover have "(p, i) \<in> free_blocks F" using found by simp
    ultimately show ?thesis using F' sub pg by (simp del: free_blocks_simps) blast
  qed
qed

lemma free_merge_inv:
  assumes "buddy_inv s F C A {(c, k)}" and "free_merge c k s = (c', k', s')"
  shows "(\<exists>F'. buddy_inv s' F' C A {(c', k')} \<and> free_blocks F' \<subseteq> free_blocks F) \<and> only_orders {} s s' \<and>
    frames (c, k) \<subseteq> frames (c', k') \<and> k \<le> k' \<and>
    mem_map s' = mem_map s \<and>
    (k' < BUDDY_MAX_ORDER \<longrightarrow>
       used (mem_map s (buddy c' k')) \<noteq> 0 \<or> order (mem_map s (buddy c' k')) \<noteq> k')"
  using assms
proof (induction c k s arbitrary: F rule: free_merge.induct)
  case (1 c k s)
  note inv = 1(2)
  show ?case
  proof (cases "k < BUDDY_MAX_ORDER \<and> used (mem_map s (buddy c k)) = 0 \<and> order (mem_map s (buddy c k)) = k")
    case True
    let ?s = "upd_links (list_del_init (PageList (buddy c k))) s"
    note step = merge_step[OF inv]
    have bok: "frames (c, k) \<subseteq> frames (min c (buddy c k), Suc k)"
      using buddy_ok(3)[OF tilesD(1)[OF buddy_invD(2)[OF inv], of "(c, k)"] _ NUM_PAGES_aligned] True
      by blast
    have m: "(if buddy c k < c then buddy c k else c) = min c (buddy c k)" by simp
    have "free_merge (min c (buddy c k)) (k + 1) ?s = (c', k', s')"
      using 1(3) True by (simp add: free_merge.simps[of c k] get_buddy_eq Let_def m)
    moreover have "k < BUDDY_MAX_ORDER"
      "\<not> (used (mem_map s (get_buddy c k)) \<noteq> 0 \<or> order (mem_map s (get_buddy c k)) \<noteq> k)"
      using True by (simp_all add: get_buddy_eq)
    moreover have "buddy_inv ?s (F(k := remove1 (buddy c k) (F k))) C A {(min c (buddy c k), k + 1)}"
      using step(1) True by simp
    ultimately have "(\<exists>F'. buddy_inv s' F' C A {(c', k')} \<and> free_blocks F' \<subseteq> free_blocks (F(k := remove1 (buddy c k) (F k)))) \<and> only_orders {} ?s s' \<and>
        frames (min c (buddy c k), k + 1) \<subseteq> frames (c', k') \<and> k + 1 \<le> k' \<and>
        mem_map s' = mem_map ?s \<and>
        (k' < BUDDY_MAX_ORDER \<longrightarrow>
          used (mem_map ?s (buddy c' k')) \<noteq> 0 \<or> order (mem_map ?s (buddy c' k')) \<noteq> k')"
      by (intro 1(1)[OF _ refl _ refl refl, unfolded get_buddy_eq m]) (simp_all add: get_buddy_eq fun_upd_def)
    moreover have "free_blocks (F(k := remove1 (buddy c k) (F k))) \<subseteq> free_blocks F"
      using set_remove1_subset[of "buddy c k" "F k"] by (auto split: if_splits)
    ultimately show ?thesis using bok by (auto simp: only_orders_def simp del: frames.simps free_blocks_simps)
  next
    case False
    then have "(c', k', s') = (c, k, s)"
      using 1(3) by (auto simp: free_merge.simps[of c k] get_buddy_eq Let_def split: if_splits)
    then show ?thesis using inv False by (auto simp: only_orders_def simp del: free_blocks_simps)
  qed
qed

lemma free_pages_inv:
  assumes inv: "buddy_inv s F C A {}" and p: "(p, k) \<in> A"
  shows "\<exists>F'. buddy_inv (free_pages p s) F' C (A - {(p, k)}) {}"
    and "\<exists>P. P \<subseteq> all_frames (free_blocks F) \<union> frames (p, k) \<and> only_orders P s (free_pages p s)"
proof -
  have k: "order (mem_map s p) = k" using buddy_invD(5)[OF inv] p by blast
  obtain c' k' s' where m: "free_merge p k s = (c', k', s')" by (metis surj_pair)
  note work = work_start[OF inv p]
  obtain F' where F': "buddy_inv s' F' C (A - {(p, k)}) {(c', k')}"
    and o: "only_orders {} s s'" and sub: "frames (p, k) \<subseteq> frames (c', k')"
    using free_merge_inv[OF work m] by blast
  let ?s1 = "upd_page c' (\<lambda>pg. pg\<lparr>order := k', used := 0, refcount := 0\<rparr>) s'"
  let ?s = "upd_links (list_add (PageList c') (FreeArea k')) ?s1"
  have eq: "free_pages p s = ?s" by (simp add: free_pages_def k m)
  show "\<exists>F'. buddy_inv (free_pages p s) F' C (A - {(p, k)}) {}"
    unfolding eq using put_step[OF F'] by blast
  have "only_orders {c'} s' ?s" by (simp add: only_orders_def)
  then have oo: "only_orders {c'} s ?s" by (rule only_orders_trans[OF o]) auto
  have t: "(c', k') \<in> free_blocks F' \<union> (A - {(p, k)}) \<union> {(c', k')}" by simp
  have "c' \<in> {..<NUM_PAGES}"
    using tilesD(3)[OF buddy_invD(2)[OF F'] t] first_frame by blast
  moreover have "c' \<notin> all_frames (A - {(p, k)})"
  proof
    assume "c' \<in> all_frames (A - {(p, k)})"
    then obtain b where b: "b \<in> A - {(p, k)}" "c' \<in> frames b" by (auto simp: all_frames_def)
    then have "b = (c', k')" by (intro block_unique[OF F', of _ _ c']) auto
    then show False using b buddy_invD(4)[OF F'] by blast
  qed
  moreover have "all_frames (free_blocks F) = {..<NUM_PAGES} - all_frames A"
    using free_frames[OF inv] by simp
  moreover have "all_frames A = all_frames (A - {(p, k)}) \<union> frames (p, k)"
    using p by (auto simp: all_frames_def)
  ultimately have "{c'} \<subseteq> all_frames (free_blocks F) \<union> frames (p, k)" by blast
  then show "\<exists>P. P \<subseteq> all_frames (free_blocks F) \<union> frames (p, k) \<and> only_orders P s (free_pages p s)"
    unfolding eq using oo by blast
qed

text \<open>The block that \<open>free_pages\<close> puts on a free list, and what it writes.\<close>

lemma free_pages_block:
  assumes inv: "buddy_inv s F C A {}" and p: "(p, k) \<in> A"
  obtains F' c' k' where "buddy_inv (free_pages p s) F' C (A - {(p, k)}) {}"
    and "(c', k') \<in> free_blocks F'" and "free_blocks F' \<subseteq> insert (c', k') (free_blocks F)" and "frames (p, k) \<subseteq> frames (c', k')" and "k \<le> k'"
    and "mem_map (free_pages p s) =
      (mem_map s)(c' := (mem_map s c')\<lparr>order := k', used := 0, refcount := 0\<rparr>)"
    and "k' < BUDDY_MAX_ORDER \<Longrightarrow>
      used (mem_map s (buddy c' k')) \<noteq> 0 \<or> order (mem_map s (buddy c' k')) \<noteq> k'"
proof -
  have k: "order (mem_map s p) = k" using buddy_invD(5)[OF inv] p by blast
  obtain c' k' s' where m: "free_merge p k s = (c', k', s')" by (metis surj_pair)
  obtain F' where F': "buddy_inv s' F' C (A - {(p, k)}) {(c', k')}"
    and sb: "free_blocks F' \<subseteq> free_blocks F" and r: "frames (p, k) \<subseteq> frames (c', k')" "k \<le> k'" "mem_map s' = mem_map s"
    "k' < BUDDY_MAX_ORDER \<Longrightarrow> used (mem_map s (buddy c' k')) \<noteq> 0 \<or> order (mem_map s (buddy c' k')) \<noteq> k'"
    using free_merge_inv[OF work_start[OF inv p] m] by blast
  have k': "k' \<le> BUDDY_MAX_ORDER" using tilesD(1)[OF buddy_invD(2)[OF F'], of "(c', k')"] by simp
  show thesis
  proof (rule that[of "F'(k' := c' # F' k')" c' k'])
    show "buddy_inv (free_pages p s) (F'(k' := c' # F' k')) C (A - {(p, k)}) {}"
      using put_step[OF F'] by (simp add: free_pages_def k m)
    show "mem_map (free_pages p s) = (mem_map s)(c' := (mem_map s c')\<lparr>order := k', used := 0, refcount := 0\<rparr>)"
      by (rule ext) (simp add: free_pages_def k m r(3))
    show "free_blocks (F'(k' := c' # F' k')) \<subseteq> insert (c', k') (free_blocks F)"
      using sb unfolding free_blocks_add[OF k'] by blast
  qed (use r k' in auto)
qed

lemma alloc_pages_inv:
  assumes inv: "buddy_inv s F C A {}" and al: "alloc_pages k s = (Some p, s')"
  shows "\<exists>F' j. buddy_inv s' F' C (insert (p, k) A) {} \<and> free_blocks F - {(p, j)} \<subseteq> free_blocks F'"
    and "only_orders {p} s s'"
    and "(p, k) \<notin> A" and "\<exists>j\<ge>k. (p, j) \<in> free_blocks F"
    and "order (mem_map s' p) = k" and "used (mem_map s' p) = 1" and "refcount (mem_map s' p) = 1"
proof -
  have *: "(\<exists>F' j. buddy_inv s' F' C (insert (p, k) A) {} \<and> free_blocks F - {(p, j)} \<subseteq> free_blocks F') \<and> only_orders {p} s s' \<and>
      (\<exists>j\<ge>k. (p, j) \<in> free_blocks F) \<and>
      order (mem_map s' p) = k \<and> used (mem_map s' p) = 1 \<and> refcount (mem_map s' p) = 1"
    using alloc_from_inv[OF inv, of k k] al by (simp add: alloc_pages_def)
  then show "\<exists>F' j. buddy_inv s' F' C (insert (p, k) A) {} \<and> free_blocks F - {(p, j)} \<subseteq> free_blocks F'"
    and "only_orders {p} s s'"
    and "\<exists>j\<ge>k. (p, j) \<in> free_blocks F"
    and "order (mem_map s' p) = k" and "used (mem_map s' p) = 1" and "refcount (mem_map s' p) = 1"
    by blast+
  from * obtain j where j: "(p, j) \<in> free_blocks F" by blast
  show "(p, k) \<notin> A"
  proof
    assume a: "(p, k) \<in> A"
    then have "(p, k) = (p, j)" using j by (intro block_unique[OF inv, of _ _ p]) auto
    then show False using a j buddy_invD(3)[OF inv] by blast
  qed
qed

lemma alloc_pages_None:
  assumes inv: "buddy_inv s F C A {}" and al: "alloc_pages k s = (None, s')"
  shows "s' = s" and "\<And>p j. (p, j) \<in> free_blocks F \<Longrightarrow> j < k"
  using alloc_from_inv[OF inv, of k k] al by (auto simp: alloc_pages_def not_le[symmetric])

lemma alloc_pages_fails:
  assumes inv: "buddy_inv s F C A {}"
  shows "(fst (alloc_pages k s) = None \<longleftrightarrow> (\<forall>b\<in>free_blocks F. snd b < k)) \<and>
    (fst (alloc_pages k s) = None \<longrightarrow> snd (alloc_pages k s) = s)"
proof (cases "alloc_pages k s")
  case (Pair r s')
  show ?thesis
  proof (cases r)
    case None
    then have "\<forall>b\<in>free_blocks F. snd b < k" "s' = s"
      using alloc_pages_None[OF inv, of k s'] Pair by (auto simp del: free_blocks_simps)
    then show ?thesis using Pair None by simp
  next
    case (Some p)
    then obtain j where "k \<le> j" "(p, j) \<in> free_blocks F"
      using alloc_pages_inv(4)[OF inv] Pair by blast
    then have "\<not> (\<forall>b\<in>free_blocks F. snd b < k)" by (metis not_le snd_conv)
    then show ?thesis using Pair Some by simp
  qed
qed

section \<open>The interface to the clients of the page allocator\<close>

text \<open>
  \<open>inv s A\<close>: in state \<open>s\<close> the blocks \<open>A\<close> are handed out. The abstract allocator adds a block that was
  not there and takes one away.
\<close>

locale page_allocator =
  fixes M N :: nat
    and inv :: "'s \<Rightarrow> block set \<Rightarrow> bool"
    and alloc :: "nat \<Rightarrow> 's \<Rightarrow> nat option \<times> 's"
    and release :: "nat \<Rightarrow> 's \<Rightarrow> 's"
  assumes block_in_memory: "inv s A \<Longrightarrow> b \<in> A \<Longrightarrow> block_ok M N b"
    and blocks_disjoint: "inv s A \<Longrightarrow> b \<in> A \<Longrightarrow> c \<in> A \<Longrightarrow> b \<noteq> c \<Longrightarrow> frames b \<inter> frames c = {}"
    and alloc_some: "inv s A \<Longrightarrow> alloc k s = (Some p, s') \<Longrightarrow> inv s' (insert (p, k) A) \<and> (p, k) \<notin> A"
    and alloc_none: "inv s A \<Longrightarrow> alloc k s = (None, s') \<Longrightarrow> s' = s"
    and release: "inv s A \<Longrightarrow> (p, k) \<in> A \<Longrightarrow> inv (release p s) (A - {(p, k)})"
begin

lemma alloc_fresh:
  assumes "inv s A" and "alloc k s = (Some p, s')"
  shows "frames (p, k) \<inter> all_frames A = {}" and "block_ok M N (p, k)"
proof -
  have i: "inv s' (insert (p, k) A)" and n: "(p, k) \<notin> A" using alloc_some[OF assms] by auto
  have "frames (p, k) \<inter> frames b = {}" if "b \<in> A" for b
    using blocks_disjoint[OF i, of "(p, k)" b] that n by blast
  then show "frames (p, k) \<inter> all_frames A = {}" by (auto simp: all_frames_def)
  show "block_ok M N (p, k)" using block_in_memory[OF i] by blast
qed

lemma alloc_release:
  assumes "inv s A" and "alloc k s = (Some p, s')"
  shows "inv (release p s') A"
proof -
  have i: "inv s' (insert (p, k) A)" and n: "(p, k) \<notin> A" using alloc_some[OF assms] by auto
  have "inv (release p s') (insert (p, k) A - {(p, k)})" by (rule release[OF i]) simp
  then show ?thesis using n by simp
qed

lemma handed_out_bounded:
  assumes "inv s A"
  shows "finite A" and "(\<Sum>(p, k)\<in>A. 2 ^ k) \<le> N"
proof -
  have sub: "all_frames A \<subseteq> {..<N}"
    using block_in_memory[OF assms] by (fastforce simp: all_frames_def)
  have inj: "inj_on frames A"
    using blocks_disjoint[OF assms] frames_nonempty by (intro inj_onI) blast
  have "finite (\<Union> (frames ` A))" using sub unfolding all_frames_def by (rule finite_subset) simp
  then have "finite (frames ` A)" by (rule finite_UnionD)
  then show fin: "finite A" using inj by (rule finite_imageD)
  have "card (all_frames A) = (\<Sum>b\<in>A. card (frames b))"
    unfolding all_frames_def
    by (rule card_UN_disjoint[OF fin]) (use blocks_disjoint[OF assms] in auto)
  also have "\<dots> = (\<Sum>(p, k)\<in>A. 2 ^ k)" by (rule sum.cong) auto
  finally show "(\<Sum>(p, k)\<in>A. 2 ^ k) \<le> N" using card_mono[OF _ sub] by simp
qed

end

text \<open>The kernel's allocator, whatever the slab lists \<open>C\<close> hold.\<close>

definition pages_inv :: "(nat \<Rightarrow> u64 list) \<Rightarrow> mm \<Rightarrow> block set \<Rightarrow> bool" where
  "pages_inv C s A \<longleftrightarrow> (\<exists>F. buddy_inv s F C A {})"

interpretation pa: page_allocator BUDDY_MAX_ORDER NUM_PAGES "pages_inv C" alloc_pages free_pages
  for C :: "nat \<Rightarrow> u64 list"
proof unfold_locales
  fix s s' A b c k p
  assume "pages_inv C s A"
  then obtain F where inv: "buddy_inv s F C A {}" by (auto simp: pages_inv_def)
  show "b \<in> A \<Longrightarrow> block_ok BUDDY_MAX_ORDER NUM_PAGES b"
    using tilesD(1)[OF buddy_invD(2)[OF inv]] by blast
  show "b \<in> A \<Longrightarrow> c \<in> A \<Longrightarrow> b \<noteq> c \<Longrightarrow> frames b \<inter> frames c = {}"
    using tilesD(2)[OF buddy_invD(2)[OF inv]] by blast
  show "alloc_pages k s = (Some p, s') \<Longrightarrow> pages_inv C s' (insert (p, k) A) \<and> (p, k) \<notin> A"
    using alloc_pages_inv(1,3)[OF inv] unfolding pages_inv_def by blast
  show "alloc_pages k s = (None, s') \<Longrightarrow> s' = s" using alloc_pages_None(1)[OF inv] .
  show "(p, k) \<in> A \<Longrightarrow> pages_inv C (free_pages p s) (A - {(p, k)})"
    using free_pages_inv(1)[OF inv] by (auto simp: pages_inv_def)
qed

end
