(* ===== verification/Reserve.thy ===== *)
theory Reserve
  imports Buddy
begin

text \<open>
  Setting the allocator up: \<open>mem_init\<close> and \<open>reserve_memory\<close> of \<open>src/mm.c\<close>. \<open>mem_init\<close> fills the page
  array, puts every block of the highest order on its free list and reserves the memory below the
  heap; \<open>reserve_memory\<close> walks the free lists from the highest order down, splits the blocks that
  straddle a border of the range and takes those inside out of the lists.

  The results are that \<open>reserve_memory\<close> returns, that it takes exactly the frames of the range, and
  that \<open>mem_init\<close> establishes the invariant of the allocator.
\<close>

section \<open>The operations\<close>

definition alloc_bootmem :: "u64 \<Rightarrow> mm \<Rightarrow> u64 \<times> mm" where
  "alloc_bootmem sz s =
     (if sz < 0 then (0, s)
      else (heap_top s, s\<lparr>heap_top := heap_top s + sz\<rparr>))"

text \<open>The body of \<open>list_for_each_safe\<close> in \<open>reserve_memory\<close>.\<close>

definition reserve_step :: "u64 \<Rightarrow> u64 \<Rightarrow> nat \<Rightarrow> node \<Rightarrow> mm \<Rightarrow> fault + mm" where
  "reserve_step start fin ord pos s =
     (let curr = page_of pos;
          page_start = of_nat curr * of_nat PAGE_SIZE;
          page_end = page_start + of_nat (push_bit ord PAGE_SIZE)
      in if fin \<le> page_start \<or> page_end \<le> start then Inr s
         else if start \<le> page_start \<and> page_end \<le> fin then
           Inr (upd_page curr (\<lambda>pg. pg\<lparr>order := ord, used := 1\<rparr>)
             (upd_links (list_del_init (PageList curr)) s))
         else if ord = 0 then Inl Bad_Shift
         else
           let half = get_buddy curr (ord - 1);
               s1 = upd_links (list_del_init (PageList curr)) s;
               s2 = upd_page curr (\<lambda>pg. pg\<lparr>order := ord - 1\<rparr>) s1;
               s3 = upd_page half (\<lambda>pg. pg\<lparr>order := ord - 1\<rparr>) s2;
               s4 = upd_links (list_add (PageList curr) (FreeArea (ord - 1))) s3
           in Inr (upd_links (list_add (PageList half) (FreeArea (ord - 1))) s4))"

definition reserve_list :: "u64 \<Rightarrow> u64 \<Rightarrow> nat \<Rightarrow> mm \<Rightarrow> fault + mm" where
  "reserve_list start fin ord s =
     (let head = FreeArea ord;
          pos = nxt (links s head);
          tmp = nxt (links s pos)
      in case list_for_each_safe links (reserve_step start fin ord) head pos tmp s of
           None \<Rightarrow> Inl No_Return
         | Some r \<Rightarrow> r)"

text \<open>\<open>for (int order = BUDDY_MAX_ORDER; order >= 0; order--)\<close>, from order \<open>ord\<close>.\<close>

primrec reserve_from :: "u64 \<Rightarrow> u64 \<Rightarrow> nat \<Rightarrow> mm \<Rightarrow> fault + mm" where
  "reserve_from start fin 0 s = reserve_list start fin 0 s"
| "reserve_from start fin (Suc ord) s =
     bindF (reserve_list start fin (Suc ord) s) (reserve_from start fin ord)"

definition page_mask :: u64 where
  "page_mask = NOT (of_nat PAGE_SIZE - 1)"

definition reserve_memory :: "u64 \<Rightarrow> u64 \<Rightarrow> mm \<Rightarrow> fault + mm" where
  "reserve_memory addr sz s =
     (let start = addr AND page_mask;
          fin = (addr + sz + of_nat PAGE_SIZE - 1) AND page_mask
      in reserve_from start fin BUDDY_MAX_ORDER s)"

text \<open>The loop of \<open>mem_init\<close> over the pages: \<open>mem_init_pages n\<close> has done the first \<open>n\<close>.\<close>

definition init_page :: "nat \<Rightarrow> mm \<Rightarrow> mm" where
  "init_page i s =
     (let s1 = upd_page i
            (\<lambda>pg. pg\<lparr>order := 0, used := 0, cacheidx := CACHE_UNALLOC, refcount := 0\<rparr>) s;
          s2 = upd_links (INIT_LIST_HEAD (PageList i)) s1
      in if i mod push_bit BUDDY_MAX_ORDER 1 = 0 then
           upd_links (list_add_tail (PageList i) (FreeArea BUDDY_MAX_ORDER))
             (upd_page i (\<lambda>pg. pg\<lparr>order := BUDDY_MAX_ORDER\<rparr>) s2)
         else s2)"

primrec mem_init_pages :: "nat \<Rightarrow> mm \<Rightarrow> mm" where
  "mem_init_pages 0 s = s"
| "mem_init_pages (Suc i) s = init_page i (mem_init_pages i s)"

text \<open>\<open>INIT_LIST_HEAD\<close> on \<open>free_area[0..n-1]\<close> and on \<open>kmem_cache[0..n-1]\<close>.\<close>

primrec init_free_area :: "nat \<Rightarrow> mm \<Rightarrow> mm" where
  "init_free_area 0 s = s"
| "init_free_area (Suc i) s = upd_links (INIT_LIST_HEAD (FreeArea i)) (init_free_area i s)"

primrec init_kmem_cache :: "nat \<Rightarrow> mm \<Rightarrow> mm" where
  "init_kmem_cache 0 s = s"
| "init_kmem_cache (Suc i) s = upd_links (INIT_LIST_HEAD (CacheHead i)) (init_kmem_cache i s)"

definition SIZEOF_PAGE :: nat where "SIZEOF_PAGE = 32"

definition mem_init :: "mm \<Rightarrow> fault + mm" where
  "mem_init s =
     (let s1 = init_free_area (Suc BUDDY_MAX_ORDER) s;
          s2 = init_kmem_cache (Suc CACHE_MAX_INDEX) s1;
          (p, s3) = alloc_bootmem (of_nat (SIZEOF_PAGE * NUM_PAGES)) s2;
          s4 = mem_init_pages NUM_PAGES s3
      in reserve_memory 0 (virt_to_phys (heap_top s4)) s4)"

section \<open>Page-aligned ranges\<close>

text \<open>The frames of the range \<open>[start, fin)\<close> of page-aligned addresses.\<close>

definition range_frames :: "u64 \<Rightarrow> u64 \<Rightarrow> nat set" where
  "range_frames start fin = {unat start div PAGE_SIZE ..< unat fin div PAGE_SIZE}"

lemma page_mask_aligned: "PAGE_SIZE dvd unat (a AND page_mask)"
proof -
  have "page_mask = NOT (mask 12)" by (simp add: page_mask_def PAGE_SIZE_def mask_eq_exp_minus_1)
  then have "take_bit 12 (a AND page_mask) = 0"
    unfolding \<open>page_mask = NOT (mask 12)\<close> by (intro bit_eqI) (auto simp: bit_simps)
  then have "take_bit 12 (unat (a AND page_mask)) = 0"
    by (metis unsigned_take_bit_eq unsigned_0)
  then show ?thesis by (simp add: PAGE_SIZE_def take_bit_eq_0_iff)
qed

lemma page_start_unat:
  assumes "p \<le> NUM_PAGES"
  shows "unat (of_nat p * of_nat PAGE_SIZE :: u64) = p * PAGE_SIZE"
proof -
  have "p * PAGE_SIZE < 2 ^ 64" using assms by (simp add: NUM_PAGES_def PAGE_SIZE_def)
  then show ?thesis by (simp flip: of_nat_mult add: unat_of_nat take_bit_nat_eq_self)
qed

text \<open>The tests of \<open>reserve_memory\<close>, in frames.\<close>

lemma reserve_tests:
  assumes p: "p + 2 ^ k \<le> NUM_PAGES" and "PAGE_SIZE dvd unat start" and "PAGE_SIZE dvd unat fin"
  defines "ps \<equiv> of_nat p * of_nat PAGE_SIZE :: u64"
    and "pe \<equiv> of_nat p * of_nat PAGE_SIZE + of_nat (push_bit k PAGE_SIZE) :: u64"
  shows "fin \<le> ps \<longleftrightarrow> unat fin div PAGE_SIZE \<le> p"
    and "pe \<le> start \<longleftrightarrow> p + 2 ^ k \<le> unat start div PAGE_SIZE"
    and "start \<le> ps \<longleftrightarrow> unat start div PAGE_SIZE \<le> p"
    and "pe \<le> fin \<longleftrightarrow> p + 2 ^ k \<le> unat fin div PAGE_SIZE"
proof -
  have pos: "0 < PAGE_SIZE" by (simp add: PAGE_SIZE_def)
  obtain a b where a: "unat start = PAGE_SIZE * a" and b: "unat fin = PAGE_SIZE * b"
    using assms(2,3) by (auto elim!: dvdE)
  have ps: "unat ps = PAGE_SIZE * p"
    unfolding ps_def using p by (subst page_start_unat) (simp_all add: mult.commute)
  have "pe = of_nat (p + 2 ^ k) * of_nat PAGE_SIZE"
    by (simp add: pe_def push_bit_eq_mult algebra_simps)
  then have pe: "unat pe = PAGE_SIZE * (p + 2 ^ k)"
    using page_start_unat[OF p] by (simp add: mult.commute)
  show "fin \<le> ps \<longleftrightarrow> unat fin div PAGE_SIZE \<le> p"
    and "pe \<le> start \<longleftrightarrow> p + 2 ^ k \<le> unat start div PAGE_SIZE"
    and "start \<le> ps \<longleftrightarrow> unat start div PAGE_SIZE \<le> p"
    and "pe \<le> fin \<longleftrightarrow> p + 2 ^ k \<le> unat fin div PAGE_SIZE"
    using pos by (simp_all only: word_le_nat_alt a b ps pe nat_mult_le_cancel1
        nonzero_mult_div_cancel_left[OF pos[THEN gr_implies_not0]])
qed

section \<open>Reserving a range\<close>

text \<open>
  While order \<open>k\<close> is processed: the invariant holds, only frames of the range \<open>R\<close> have been taken,
  and no free block of a higher order meets \<open>R\<close>.
\<close>

definition reserving ::
    "mm \<Rightarrow> block set \<Rightarrow> (nat \<Rightarrow> u64 list) \<Rightarrow> nat set \<Rightarrow> block set \<Rightarrow> nat \<Rightarrow> mm \<Rightarrow> (nat \<Rightarrow> nat list) \<Rightarrow> block set \<Rightarrow> bool"
  where
  "reserving s0 A0 C R K k s F A \<longleftrightarrow>
     buddy_inv s F C A {} \<and> only_orders UNIV s0 s \<and>
     A0 \<subseteq> A \<and> all_frames A \<subseteq> all_frames A0 \<union> R \<and>
     (\<forall>p j. k < j \<and> (p, j) \<in> free_blocks F \<longrightarrow> frames (p, j) \<inter> R = {}) \<and>
     K \<subseteq> free_blocks F \<and> (\<forall>b \<in> K. frames b \<inter> R = {} \<and> R \<noteq> {})"

text \<open>What one visit of \<open>reserve_memory\<close> does with the block \<open>(p, k)\<close>.\<close>

lemma reserve_step_cases:
  assumes inv: "buddy_inv s F C A {}" and k: "k \<le> BUDDY_MAX_ORDER" and p: "p \<in> set (F k)"
    and al: "PAGE_SIZE dvd unat start" "PAGE_SIZE dvd unat fin"
  obtains
    (skip) "reserve_step start fin k (PageList p) s = Inr s"
      "frames (p, k) \<inter> range_frames start fin = {}"
  | (take) s' where "reserve_step start fin k (PageList p) s = Inr s'"
      "frames (p, k) \<subseteq> range_frames start fin"
      "buddy_inv s' (F(k := remove1 p (F k))) C (insert (p, k) A) {}" "only_orders UNIV s s'"
  | (split) s' j where "reserve_step start fin k (PageList p) s = Inr s'" "k = Suc j"
      "range_frames start fin = {} \<or> frames (p, k) \<inter> range_frames start fin \<noteq> {}"
      "buddy_inv s' (F(k := remove1 p (F k), j := buddy p j # p # F j)) C A {}" "only_orders UNIV s s'"
proof -
  have ok: "block_ok BUDDY_MAX_ORDER NUM_PAGES (p, k)"
    using tilesD(1)[OF buddy_invD(2)[OF inv], of "(p, k)"] k p by simp
  then have fit: "p + 2 ^ k \<le> NUM_PAGES" by simp
  note t = reserve_tests[OF fit al]
  let ?sf = "unat start div PAGE_SIZE" and ?ef = "unat fin div PAGE_SIZE"
  note tk = take_any[where k = k, OF inv k p]
  consider (out) "?ef \<le> p \<or> p + 2 ^ k \<le> ?sf"
    | (inside) "\<not> (?ef \<le> p \<or> p + 2 ^ k \<le> ?sf)" "?sf \<le> p" "p + 2 ^ k \<le> ?ef"
    | (across) j where "\<not> (?ef \<le> p \<or> p + 2 ^ k \<le> ?sf)" "\<not> (?sf \<le> p \<and> p + 2 ^ k \<le> ?ef)" "k = Suc j"
  proof (cases k)
    case 0
    then show thesis using that(1,2) by (cases "?sf \<le> p"; cases "?ef \<le> p") auto
  next
    case (Suc j)
    then show thesis using that by blast
  qed
  then show thesis
  proof cases
    case out
    then show thesis by (intro skip) (auto simp: reserve_step_def Let_def t range_frames_def)
  next
    case inside
    let ?s = "upd_page p (\<lambda>pg. pg\<lparr>order := k, used := 1\<rparr>) (upd_links (list_del_init (PageList p)) s)"
    have "buddy_inv ?s (F(k := remove1 p (F k))) C (insert (p, k) A) {}"
      by (rule work_done[OF work_step[OF tk singletonI]]) simp_all
    moreover have "reserve_step start fin k (PageList p) s = Inr ?s"
      using inside by (auto simp: reserve_step_def Let_def t)
    moreover have "only_orders UNIV s ?s" by (simp add: only_orders_def)
    ultimately show thesis using inside by (intro take) (auto simp: range_frames_def)
  next
    case across
    let ?b = "buddy p j"
    let ?s1 = "upd_page p (\<lambda>pg. pg\<lparr>order := j\<rparr>) (upd_links (list_del_init (PageList p)) s)"
    let ?s2 = "upd_page ?b (\<lambda>pg. pg\<lparr>order := j\<rparr>) ?s1"
    let ?s3 = "upd_links (list_add (PageList p) (FreeArea j)) ?s2"
    let ?s = "upd_links (list_add (PageList ?b) (FreeArea j)) ?s3"
    let ?F = "F(k := remove1 p (F k))"
    have w: "buddy_inv ?s1 ?F C A {(p, Suc j)}"
      using work_step[OF tk singletonI, of "\<lambda>pg. pg\<lparr>order := j\<rparr>"] across(3) by simp
    have ne: "?b \<noteq> p" by (rule split_work(2)[OF w])
    have kj: "k \<noteq> 0" "k - Suc 0 = j" using across(3) by simp_all
    have "buddy_inv ?s2 ?F C A {(p, j), (?b, j)}"
      using work_step[OF split_work(1)[OF w], of ?b j] by (simp add: insert_commute)
    then have "buddy_inv ?s3 (?F(j := p # ?F j)) C A {(?b, j)}"
      by (rule put_work) (use ne in auto)
    then have "buddy_inv ?s ((?F(j := p # ?F j))(j := ?b # (?F(j := p # ?F j)) j)) C A {}"
      by (rule put_work) (use ne in auto)
    then have "buddy_inv ?s (F(k := remove1 p (F k), j := buddy p j # p # F j)) C A {}"
      using across(3) by simp
    moreover have "reserve_step start fin k (PageList p) s = Inr ?s"
      using across(1,2) kj by (auto simp: reserve_step_def Let_def t get_buddy_eq)
    moreover have "only_orders UNIV s ?s" by (simp add: only_orders_def)
    moreover have "max p ?sf \<in> frames (p, k) \<inter> range_frames start fin" if "?sf < ?ef"
      using across(1) that by (auto simp: range_frames_def)
    then have "range_frames start fin = {} \<or> frames (p, k) \<inter> range_frames start fin \<noteq> {}"
      by (cases "?sf < ?ef") (auto simp: range_frames_def)
    ultimately show thesis using across(3) by (intro split)
  qed
qed

text \<open>Taking one block off its list keeps the others free.\<close>

lemma kept_removed: "K \<subseteq> free_blocks F \<Longrightarrow> (p, k) \<notin> K \<Longrightarrow> K \<subseteq> free_blocks (F(k := remove1 p (F k)))"
proof (intro subrelI)
  fix q j assume "K \<subseteq> free_blocks F" "(p, k) \<notin> K" "(q, j) \<in> K"
  then have "(q, j) \<in> free_blocks F" "(q, j) \<noteq> (p, k)" by auto
  then show "(q, j) \<in> free_blocks (F(k := remove1 p (F k)))" by (auto simp: in_set_remove1)
qed

text \<open>A step of the traversal of one list: what comes before the cursor has no frame of the range.\<close>

lemma reserve_list_step:
  assumes k: "k \<le> BUDDY_MAX_ORDER" and al: "PAGE_SIZE dvd unat start" "PAGE_SIZE dvd unat fin" and R: "R = range_frames start fin"
    and I: "\<exists>F A. reserving s0 A0 C R K k s F A \<and> map PageList (F k) = ys @ (x # zs) \<and>
      (\<forall>p. PageList p \<in> set ys \<longrightarrow> frames (p, k) \<inter> R = {})"
  shows "\<exists>s' ys'. reserve_step start fin k x s = Inr s' \<and>
    (\<exists>F A. reserving s0 A0 C R K k s' F A \<and> map PageList (F k) = ys' @ zs \<and>
      (\<forall>p. PageList p \<in> set ys' \<longrightarrow> frames (p, k) \<inter> R = {}))"
proof -
  let ?I = "\<lambda>ys zs s. \<exists>F A. reserving s0 A0 C R K k s F A \<and> map PageList (F k) = ys @ zs \<and>
      (\<forall>p. PageList p \<in> set ys \<longrightarrow> frames (p, k) \<inter> R = {})"
  obtain F A where r: "reserving s0 A0 C R K k s F A" and l: "map PageList (F k) = ys @ x # zs"
    and y: "\<And>p. PageList p \<in> set ys \<Longrightarrow> frames (p, k) \<inter> R = {}"
    using I by blast
  note inv = r[unfolded reserving_def]
  have bi: "buddy_inv s F C A {}" using inv by blast
  obtain p where x: "x = PageList p" using l by (metis (no_types) imageE in_set_conv_decomp list.set_map)
  have p: "p \<in> set (F k)" using l x by (metis in_set_conv_decomp node.inject(2) imageE list.set_map)
  have d: "distinct (ys @ x # zs)"
    using free_list_distinct[OF bi k] by (simp flip: l add: distinct_map inj_on_def)
  then have rem: "map PageList (remove1 p (F k)) = ys @ zs"
    using l x by (simp add: map_remove1_inj inj_def remove1_append)
  show ?thesis
  proof (rule reserve_step_cases[OF bi k p al])
    assume s: "reserve_step start fin k (PageList p) s = Inr s"
      and "frames (p, k) \<inter> range_frames start fin = {}"
    then have "?I (ys @ [x]) zs s"
      using r l y x R by (intro exI[of _ F] exI[of _ A]) (auto simp del: frames.simps)
    then show ?thesis using s x by blast
  next
    fix s' assume s: "reserve_step start fin k (PageList p) s = Inr s'"
      and sub: "frames (p, k) \<subseteq> range_frames start fin"
      and bi': "buddy_inv s' (F(k := remove1 p (F k))) C (insert (p, k) A) {}"
      and o: "only_orders UNIV s s'"
    have "only_orders UNIV s0 s'" by (rule only_orders_trans[OF _ o]) (use inv in auto)
    moreover have "(p, k) \<notin> K" using inv sub R frames_nonempty[of "(p, k)"] by blast
    then have "K \<subseteq> free_blocks (F(k := remove1 p (F k)))" using inv by (rule_tac kept_removed) auto
    ultimately have "reserving s0 A0 C R K k s' (F(k := remove1 p (F k))) (insert (p, k) A)"
      using inv bi' sub R by (auto simp: reserving_def simp del: frames.simps)
    then have "?I ys zs s'"
      using rem y by (intro exI[of _ "F(k := remove1 p (F k))"] exI[of _ "insert (p, k) A"]) auto
    then show ?thesis using s x by blast
  next
    fix s' j assume s: "reserve_step start fin k (PageList p) s = Inr s'" and j: "k = Suc j"
      and bi': "buddy_inv s' (F(k := remove1 p (F k), j := buddy p j # p # F j)) C A {}"
      and o: "only_orders UNIV s s'" and meets: "range_frames start fin = {} \<or> frames (p, k) \<inter> range_frames start fin \<noteq> {}"
    have "only_orders UNIV s0 s'" by (rule only_orders_trans[OF _ o]) (use inv in auto)
    moreover have "(p, k) \<notin> K" using inv meets R by blast
    then have "K \<subseteq> free_blocks (F(k := remove1 p (F k), j := buddy p j # p # F j))"
      using inv kept_removed[of K F p k] j by (auto split: if_splits)
    ultimately have "reserving s0 A0 C R K k s' (F(k := remove1 p (F k), j := buddy p j # p # F j)) A"
      using inv bi' j by (auto simp: reserving_def simp del: frames.simps)
    then have "?I ys zs s'"
      using rem y j
      by (intro exI[of _ "F(k := remove1 p (F k), j := buddy p j # p # F j)"] exI[of _ A]) auto
    then show ?thesis using s x by blast
  qed
qed

lemma reserve_list_inv:
  assumes init: "reserving s0 A0 C R K k s F A" and k: "k \<le> BUDDY_MAX_ORDER"
    and al: "PAGE_SIZE dvd unat start" "PAGE_SIZE dvd unat fin"
    and R: "R = range_frames start fin"
  shows "\<exists>s' F' A'. reserve_list start fin k s = Inr s' \<and> reserving s0 A0 C R K k s' F' A' \<and>
    (\<forall>p \<in> set (F' k). frames (p, k) \<inter> R = {})"
proof -
  let ?I = "\<lambda>ys zs s. \<exists>F A. reserving s0 A0 C R K k s F A \<and> map PageList (F k) = ys @ zs \<and>
      (\<forall>p. PageList p \<in> set ys \<longrightarrow> frames (p, k) \<inter> R = {})"
  let ?zs = "map PageList (F k)"
  have ring: "dlist (links s) (FreeArea k) (ys @ zs)" if I: "?I ys zs s" for ys zs s
  proof -
    obtain F A where r: "reserving s0 A0 C R K k s F A" and l: "map PageList (F k) = ys @ zs"
      using I by blast
    have "rings heads (links s) (lists_of F C)" using r buddy_invD(1) unfolding reserving_def by blast
    then show ?thesis using ringsD(1)[of heads "links s" _ "FreeArea k"] k l by fastforce
  qed
  have start: "?I [] ?zs s" using init by auto
  note d = ring[OF start, unfolded append_Nil]
  have "\<exists>s' ys'. list_for_each_safe links (reserve_step start fin k) (FreeArea k)
      (after (FreeArea k) ?zs) (nxt (links s (nxt (links s (FreeArea k))))) s = Some (Inr s') \<and>
      ?I ys' [] s'"
  proof (rule list_for_each_safe_rule[where I = ?I])
    show "dlist (links s) (FreeArea k) (ys @ zs)" if "?I ys zs s" for ys zs s
      using that by (rule ring)
    show "\<exists>s' ys'. reserve_step start fin k x s = Inr s' \<and> ?I ys' zs s'" if "?I ys (x # zs) s"
      for ys x zs s
      by (rule reserve_list_step[OF k al R that])
    show "?I [] ?zs s" by (rule start)
  qed (rule list_for_each_safe_start[OF d])
  then obtain s' ys' where "list_for_each_safe links (reserve_step start fin k) (FreeArea k)
      (after (FreeArea k) ?zs) (nxt (links s (nxt (links s (FreeArea k))))) s = Some (Inr s')"
    and I: "?I ys' [] s'"
    by blast
  then have "reserve_list start fin k s = Inr s'"
    using dlist_first[OF d] by (simp add: reserve_list_def Let_def)
  moreover obtain F' A' where r: "reserving s0 A0 C R K k s' F' A'" and l: "map PageList (F' k) = ys'"
    and y: "\<And>p. PageList p \<in> set ys' \<Longrightarrow> frames (p, k) \<inter> R = {}"
    using I by auto
  moreover have "frames (p, k) \<inter> R = {}" if "p \<in> set (F' k)" for p
    using y that by (simp flip: l del: frames.simps)
  ultimately show ?thesis by blast
qed

lemma reserve_from_inv:
  assumes "reserving s0 A0 C R K k s F A" and "k \<le> BUDDY_MAX_ORDER"
    and al: "PAGE_SIZE dvd unat start" "PAGE_SIZE dvd unat fin"
    and R: "R = range_frames start fin"
  shows "\<exists>s' F' A'. reserve_from start fin k s = Inr s' \<and> buddy_inv s' F' C A' {} \<and>
    only_orders UNIV s0 s' \<and> A0 \<subseteq> A' \<and> all_frames A' \<subseteq> all_frames A0 \<union> R \<and>
    (\<forall>b \<in> free_blocks F'. frames b \<inter> R = {}) \<and> K \<subseteq> free_blocks F'"
  using assms(1,2)
proof (induction k arbitrary: s F A)
  case 0
  obtain s' F' A' where s': "reserve_list start fin 0 s = Inr s'" "reserving s0 A0 C R K 0 s' F' A'"
      "\<forall>p \<in> set (F' 0). frames (p, 0) \<inter> R = {}"
    using reserve_list_inv[OF 0 al R] by blast
  have "frames (p, j) \<inter> R = {}" if "(p, j) \<in> free_blocks F'" for p j
    using s'(2,3) that by (cases "j = 0") (auto simp: reserving_def simp del: frames.simps)
  then show ?case
    using s'(1,2) by (intro exI[of _ s'] exI[of _ F'] exI[of _ A'])
      (auto simp: reserving_def simp del: frames.simps free_blocks_simps)
next
  case (Suc k)
  obtain s1 F1 A1 where s1: "reserve_list start fin (Suc k) s = Inr s1"
      "reserving s0 A0 C R K (Suc k) s1 F1 A1" "\<forall>p \<in> set (F1 (Suc k)). frames (p, Suc k) \<inter> R = {}"
    using reserve_list_inv[OF Suc.prems al R] by blast
  have "frames (p, j) \<inter> R = {}" if "k < j" "(p, j) \<in> free_blocks F1" for p j
    using s1(2,3) that by (cases "j = Suc k") (auto simp: reserving_def simp del: frames.simps)
  then have "reserving s0 A0 C R K k s1 F1 A1"
    using s1(2) by (auto simp: reserving_def simp del: frames.simps free_blocks_simps)
  then show ?case using Suc.IH[of s1 F1 A1] Suc.prems(2) s1(1) by simp
qed

text \<open>\<open>reserve_memory\<close> returns, and takes exactly the frames of the range out of the free ones.\<close>

lemma reserve_memory_inv:
  fixes addr sz :: u64
  assumes inv: "buddy_inv s F C A {}"
  defines "R \<equiv> range_frames (addr AND page_mask) ((addr + sz + of_nat PAGE_SIZE - 1) AND page_mask)"
  shows "\<exists>s' F' A'. reserve_memory addr sz s = Inr s' \<and> buddy_inv s' F' C A' {} \<and> A \<subseteq> A' \<and>
    only_orders UNIV s s' \<and> all_frames (free_blocks F') = all_frames (free_blocks F) - R \<and>
    (R \<noteq> {} \<longrightarrow> {b \<in> free_blocks F. frames b \<inter> R = {}} \<subseteq> free_blocks F')"
proof -
  let ?st = "addr AND page_mask" and ?fin = "(addr + sz + of_nat PAGE_SIZE - 1) AND page_mask"
  let ?K = "{b \<in> free_blocks F. frames b \<inter> R = {} \<and> R \<noteq> {}}"
  have r: "reserving s A C R ?K BUDDY_MAX_ORDER s F A"
    using inv by (auto simp: reserving_def only_orders_def)
  obtain s' F' A' where
    s': "reserve_from ?st ?fin BUDDY_MAX_ORDER s = Inr s'" "buddy_inv s' F' C A' {}"
      "only_orders UNIV s s'" "A \<subseteq> A'" "all_frames A' \<subseteq> all_frames A \<union> R"
      "\<forall>b \<in> free_blocks F'. frames b \<inter> R = {}" "?K \<subseteq> free_blocks F'"
    using reserve_from_inv[OF r le_refl page_mask_aligned page_mask_aligned meta_eq_to_obj_eq[OF R_def]]
    by (elim exE conjE) (rule that)
  have "all_frames (free_blocks F') \<inter> R = {}" using s'(6) by (auto simp: all_frames_def)
  moreover have "all_frames A \<subseteq> all_frames A'" using s'(4) by (auto simp: all_frames_def)
  ultimately have "all_frames (free_blocks F') = all_frames (free_blocks F) - R"
    using free_frames[OF inv] free_frames[OF s'(2)] s'(5) by auto
  moreover have "R \<noteq> {} \<longrightarrow> {b \<in> free_blocks F. frames b \<inter> R = {}} \<subseteq> free_blocks F'" using s'(7) by blast
  ultimately show ?thesis using s'(1-4) by (intro exI[of _ s'] exI[of _ F'] exI[of _ A']) (simp add: reserve_memory_def Let_def)
qed

section \<open>Initialisation\<close>

lemma rings_cong:
  assumes "rings H h L" and "\<And>a x. a \<in> H \<Longrightarrow> x \<in> set (a # L a) \<Longrightarrow> h' x = h x"
  shows "rings H h' L"
proof -
  have "dlist h' a (L a)" if "a \<in> H" for a
    using ringsD(1)[OF assms(1) that] dlist_cong[of a "L a" h' h] assms(2)[OF that] by blast
  then show ?thesis using assms(1) by (simp add: rings_def)
qed

lemma INIT_other: "x \<noteq> n \<Longrightarrow> INIT_LIST_HEAD n h x = h x"
  by (simp add: INIT_LIST_HEAD_def set_prv_def set_nxt_def)

lemma rings_INIT: "rings H h L \<Longrightarrow> unlinked H L n \<Longrightarrow> rings H (INIT_LIST_HEAD n h) L"
  by (erule rings_cong) (auto simp: unlinked_def intro!: INIT_other)

lemma init_free_area_links:
  "k < n \<Longrightarrow> nxt (links (init_free_area n s) (FreeArea k)) = FreeArea k \<and>
    prv (links (init_free_area n s) (FreeArea k)) = FreeArea k"
  by (induction n) auto

lemma init_kmem_cache_links:
  "i < n \<Longrightarrow> nxt (links (init_kmem_cache n s) (CacheHead i)) = CacheHead i \<and>
    prv (links (init_kmem_cache n s) (CacheHead i)) = CacheHead i"
  "links (init_kmem_cache n s) (FreeArea k) = links s (FreeArea k)"
  by (induction n) (auto simp: INIT_other)

lemma init_heads_rings:
  "rings heads (links (init_kmem_cache (Suc CACHE_MAX_INDEX) (init_free_area (Suc BUDDY_MAX_ORDER) s)))
     (lists_of (\<lambda>_. []) (\<lambda>_. []))"
proof -
  have e: "lists_of (\<lambda>_. []) (\<lambda>_. []) n = []" for n by (cases n) simp_all
  show ?thesis
    unfolding rings_def e
    by (auto simp: dlist_def ball_heads init_kmem_cache_links init_free_area_links less_Suc_eq_le)
qed

lemma init_heads_top [simp]:
  "heap_top (init_free_area n s) = heap_top s" "heap_top (init_kmem_cache n s) = heap_top s"
  by (induction n) auto

text \<open>The pages put on the highest list by the first \<open>n\<close> turns.\<close>

definition top_blocks :: "nat \<Rightarrow> nat list" where
  "top_blocks n = filter (\<lambda>i. 2 ^ BUDDY_MAX_ORDER dvd i) [0..<n]"

definition top_lists :: "nat \<Rightarrow> nat \<Rightarrow> nat list" where
  "top_lists n = (\<lambda>_. [])(BUDDY_MAX_ORDER := top_blocks n)"

lemma mem_init_pages_rings:
  assumes "rings heads (links s) (lists_of (\<lambda>_. []) (\<lambda>_. []))"
  shows "rings heads (links (mem_init_pages n s)) (lists_of (top_lists n) (\<lambda>_. []))"
proof (induction n)
  case 0
  have "top_lists 0 = (\<lambda>_. [])" by (auto simp: top_lists_def top_blocks_def)
  then show ?case using assms by simp
next
  case (Suc i)
  have u: "unlinked heads (lists_of (top_lists i) (\<lambda>_. [])) (PageList i)"
    by (auto simp: unlinked_page top_lists_def top_blocks_def)
  note r = rings_INIT[OF Suc u]
  show ?case
  proof (cases "2 ^ BUDDY_MAX_ORDER dvd i")
    case True
    have t: "top_lists (Suc i) = (top_lists i)(BUDDY_MAX_ORDER := top_blocks i @ [i])"
      using True by (auto simp: top_lists_def top_blocks_def)
    have "(lists_of (top_lists i) (\<lambda>_. []))(FreeArea BUDDY_MAX_ORDER :=
        lists_of (top_lists i) (\<lambda>_. []) (FreeArea BUDDY_MAX_ORDER) @ [PageList i]) =
        lists_of (top_lists (Suc i)) (\<lambda>_. [])"
      using lists_of_upd(1)[of "top_lists i" "\<lambda>_. []" BUDDY_MAX_ORDER "top_blocks i @ [i]"]
      by (simp add: t) (simp add: top_lists_def)
    then show ?thesis
      using lh.add_tail[OF r _ u, of "FreeArea BUDDY_MAX_ORDER"] True
      by (simp add: init_page_def Let_def push_bit_eq_mult dvd_eq_mod_eq_0)
  next
    case False
    then have "top_lists (Suc i) = top_lists i" by (simp add: top_lists_def top_blocks_def)
    then show ?thesis
      using r False by (simp add: init_page_def Let_def push_bit_eq_mult dvd_eq_mod_eq_0)
  qed
qed

lemma mem_init_pages_map:
  "heap_top (mem_init_pages n s) = heap_top s"
  "p < n \<Longrightarrow> mem_map (mem_init_pages n s) p =
     \<lparr>order = (if 2 ^ BUDDY_MAX_ORDER dvd p then BUDDY_MAX_ORDER else 0),
      used = 0, cacheidx = CACHE_UNALLOC, refcount = 0\<rparr>"
  by (induction n) (auto simp: init_page_def Let_def less_Suc_eq push_bit_eq_mult dvd_eq_mod_eq_0)

lemma top_blocks_tile: "2 ^ M dvd N \<Longrightarrow> tiles M N {(p, M) |p. p < N \<and> 2 ^ M dvd p}"
  unfolding tiles_def
proof (intro conjI ballI impI)
  fix b c assume b: "b \<in> {(p, M) |p. p < N \<and> 2 ^ M dvd p}" and c: "c \<in> {(p, M) |p. p < N \<and> 2 ^ M dvd p}"
    and N: "2 ^ M dvd N"
  show "block_ok M N b" using b N by (auto intro!: dvd_fits)
  assume ne: "b \<noteq> c"
  obtain p q where bc: "b = (p, M)" "c = (q, M)" "2 ^ M dvd p" "2 ^ M dvd q" using b c by auto
  show "frames b \<inter> frames c = {}"
  proof (rule ccontr)
    assume "\<not> ?thesis"
    then obtain f where "f \<in> frames (p, M)" "f \<in> frames (q, M)" using bc by blast
    then have "frames (p, M) = frames (q, M)"
      using bc(3,4) by (intro subset_antisym) (rule aligned_frames[OF le_refl]; assumption)+
    then have "p = q" by (auto simp: atLeastLessThan_eq_iff)
    then show False using ne bc by simp
  qed
next
  assume N: "2 ^ M dvd N"
  show "all_frames {(p, M) |p. p < N \<and> 2 ^ M dvd p} = {..<N}"
  proof (rule set_eqI, rule iffI)
    fix f assume "f \<in> all_frames {(p, M) |p. p < N \<and> 2 ^ M dvd p}"
    then obtain p where "p < N" "2 ^ M dvd p" "f < p + 2 ^ M" by (auto simp: all_frames_def)
    then show "f \<in> {..<N}" using dvd_fits[of "2 ^ M" p N] N by simp
  next
    fix f assume "f \<in> {..<N}"
    then have "f div 2 ^ M * 2 ^ M < N" by (metis div_times_less_eq_dividend lessThan_iff order_le_less_trans)
    moreover have "f mod 2 ^ M < 2 ^ M" by simp
    then have "f \<in> frames (f div 2 ^ M * 2 ^ M, M)"
      using div_mult_mod_eq[of f "2 ^ M"] unfolding frames.simps atLeastLessThan_iff by linarith
    ultimately show "f \<in> all_frames {(p, M) |p. p < N \<and> 2 ^ M dvd p}"
      unfolding all_frames_def by (intro UN_I[of "(f div 2 ^ M * 2 ^ M, M)"]) auto
  qed
qed

text \<open>The state \<open>mem_init\<close> hands to \<open>reserve_memory\<close>, with every frame free.\<close>

definition mem_init_free :: "mm \<Rightarrow> mm" where
  "mem_init_free s =
     mem_init_pages NUM_PAGES
       (snd (alloc_bootmem (of_nat (SIZEOF_PAGE * NUM_PAGES))
         (init_kmem_cache (Suc CACHE_MAX_INDEX) (init_free_area (Suc BUDDY_MAX_ORDER) s))))"

lemma mem_init_eq:
  "mem_init s = reserve_memory 0 (virt_to_phys (heap_top (mem_init_free s))) (mem_init_free s)"
  by (simp add: mem_init_def mem_init_free_def alloc_bootmem_def Let_def)

lemma mem_init_free_top: "heap_top (mem_init_free s) = heap_top s + of_nat (SIZEOF_PAGE * NUM_PAGES)"
  by (simp add: mem_init_free_def alloc_bootmem_def mem_init_pages_map)

lemma mem_init_free_page:
  "p < NUM_PAGES \<Longrightarrow> mem_map (mem_init_free s) p =
     \<lparr>order = (if 2 ^ BUDDY_MAX_ORDER dvd p then BUDDY_MAX_ORDER else 0),
      used = 0, cacheidx = CACHE_UNALLOC, refcount = 0\<rparr>"
  by (simp add: mem_init_free_def mem_init_pages_map)

lemma mem_init_free_inv:
  "buddy_inv (mem_init_free s) (top_lists NUM_PAGES) (\<lambda>_. []) {} {}"
proof (rule buddy_invI)
  have "rings heads (links (snd (alloc_bootmem x
      (init_kmem_cache (Suc CACHE_MAX_INDEX) (init_free_area (Suc BUDDY_MAX_ORDER) s)))))
      (lists_of (\<lambda>_. []) (\<lambda>_. []))" for x
    using init_heads_rings by (simp add: alloc_bootmem_def)
  then show "rings heads (links (mem_init_free s)) (lists_of (top_lists NUM_PAGES) (\<lambda>_. []))"
    unfolding mem_init_free_def by (rule mem_init_pages_rings)
  have "free_blocks (top_lists NUM_PAGES) =
      {(p, BUDDY_MAX_ORDER) |p. p < NUM_PAGES \<and> 2 ^ BUDDY_MAX_ORDER dvd p}"
    by (auto simp: free_blocks_def top_lists_def top_blocks_def split: if_splits)
  then show "tiles BUDDY_MAX_ORDER NUM_PAGES (free_blocks (top_lists NUM_PAGES) \<union> {} \<union> {})"
    using top_blocks_tile[OF NUM_PAGES_aligned] by simp
next
  fix p k assume "(p, k) \<in> free_blocks (top_lists NUM_PAGES) \<union> {}"
  then have "k = BUDDY_MAX_ORDER" "p < NUM_PAGES" "2 ^ BUDDY_MAX_ORDER dvd p"
    by (auto simp: top_lists_def top_blocks_def split: if_splits)
  then show "order (mem_map (mem_init_free s) p) = k" by (simp add: mem_init_free_page)
qed simp_all

text \<open>The first frame above the memory in use at boot: the kernel image and the page array.\<close>

definition boot_end :: "u64 \<Rightarrow> nat" where
  "boot_end bend =
     unat ((virt_to_phys (bend + of_nat (SIZEOF_PAGE * NUM_PAGES)) + of_nat PAGE_SIZE - 1)
       AND page_mask) div PAGE_SIZE"

lemma mem_init_blocks:
  "\<exists>s' F A. mem_init s = Inr s' \<and> buddy_inv s' F (\<lambda>_. []) A {} \<and>
     all_frames (free_blocks F) = {boot_end (heap_top s) ..< NUM_PAGES} \<and>
     (\<forall>p<NUM_PAGES. cacheidx (mem_map s' p) = CACHE_UNALLOC) \<and>
     (0 < boot_end (heap_top s) \<longrightarrow>
       (\<forall>p \<in> set (top_lists NUM_PAGES BUDDY_MAX_ORDER). boot_end (heap_top s) \<le> p \<longrightarrow> (p, BUDDY_MAX_ORDER) \<in> free_blocks F))"
proof -
  let ?s = "mem_init_free s"
  let ?R = "range_frames (0 AND page_mask)
      ((0 + virt_to_phys (heap_top ?s) + of_nat PAGE_SIZE - 1) AND page_mask)"
  obtain s' F A where s': "mem_init s = Inr s'" "buddy_inv s' F (\<lambda>_. []) A {}"
      "only_orders UNIV ?s s'" "all_frames (free_blocks F) = all_frames (free_blocks (top_lists NUM_PAGES)) - ?R"
      "?R \<noteq> {} \<longrightarrow> {b \<in> free_blocks (top_lists NUM_PAGES). frames b \<inter> ?R = {}} \<subseteq> free_blocks F"
    using reserve_memory_inv[OF mem_init_free_inv, of 0 "virt_to_phys (heap_top ?s)" s]
    unfolding mem_init_eq[symmetric] by blast
  have R: "?R = {0 ..< boot_end (heap_top s)}"
    by (simp add: range_frames_def boot_end_def mem_init_free_top)
  have "all_frames (free_blocks (top_lists NUM_PAGES)) = {..<NUM_PAGES}"
    using free_frames[OF mem_init_free_inv] by simp
  then have "all_frames (free_blocks F) = {..<NUM_PAGES} - {0 ..< boot_end (heap_top s)}"
    using s'(4) unfolding R by (simp only:)
  also have "\<dots> = {boot_end (heap_top s) ..< NUM_PAGES}" by auto
  finally have "all_frames (free_blocks F) = {boot_end (heap_top s) ..< NUM_PAGES}" .
  moreover have "cacheidx (mem_map s' p) = CACHE_UNALLOC" if "p < NUM_PAGES" for p
    using s'(3) mem_init_free_page[OF that, of s] by (simp add: only_orders_def)
  moreover have "(p, BUDDY_MAX_ORDER) \<in> free_blocks F" if "0 < boot_end (heap_top s)"
    "p \<in> set (top_lists NUM_PAGES BUDDY_MAX_ORDER)" "boot_end (heap_top s) \<le> p" for p
  proof -
    have "?R \<noteq> {}" unfolding R using that(1) by simp
    moreover have "frames (p, BUDDY_MAX_ORDER) \<inter> ?R = {}" unfolding R using that(3) by auto
    moreover have "(p, BUDDY_MAX_ORDER) \<in> free_blocks (top_lists NUM_PAGES)" using that(2) by simp
    ultimately show ?thesis using s'(5) by blast
  qed
  ultimately show ?thesis using s'(1,2) by blast
qed

lemma mem_init_inv:
  "\<exists>s' F A. mem_init s = Inr s' \<and> buddy_inv s' F (\<lambda>_. []) A {} \<and>
     all_frames (free_blocks F) = {boot_end (heap_top s) ..< NUM_PAGES} \<and>
     (\<forall>p<NUM_PAGES. cacheidx (mem_map s' p) = CACHE_UNALLOC)"
  using mem_init_blocks[of s] by blast

end
