(* ===== verification/Kmalloc.thy ===== *)
theory Kmalloc
  imports Reserve
begin

text \<open>
  The object allocator of \<open>src/mm.c\<close>: \<open>kmem_cache_alloc\<close> and \<open>kmem_cache_free\<close> on the seven caches of
  objects of 32 to 2048 bytes, and \<open>kmalloc\<close> and \<open>kfree\<close>, which choose between a cache and whole
  pages.

  \<open>mm_inv s L\<close> says that \<open>L\<close> is the set of chunks (address and capacity) handed out: every operation
  keeps the chunks disjoint, and \<open>kmalloc\<close> hands out a chunk of at least the size asked for.
\<close>

section \<open>The operations\<close>

definition cache_size :: "nat \<Rightarrow> nat" where
  "cache_size index = push_bit index CACHE_MIN_SIZE"

lemma cache_size_eq: "cache_size i = 32 * 2 ^ i"
  by (simp add: cache_size_def CACHE_MIN_SIZE_def push_bit_eq_mult)

text \<open>The loop of \<open>kmem_cache_alloc\<close> that cuts a new page into objects.\<close>

function kmem_carve :: "nat \<Rightarrow> u64 \<Rightarrow> nat \<Rightarrow> mm \<Rightarrow> mm" where
  "kmem_carve index addr i s =
     (if i < PAGE_SIZE then
        let obj = ObjList (addr + of_nat i);
            s1 = upd_links (INIT_LIST_HEAD obj) s;
            s2 = upd_links (list_add_tail obj (CacheHead index)) s1
        in kmem_carve index addr (i + cache_size index) s2
      else s)"
  by pat_completeness auto
termination
proof (relation "measure (\<lambda>(index, addr, i, s). PAGE_SIZE - i)")
  fix index i :: nat and addr :: u64 and s :: mm
    and obj s1 s2
  assume "i < PAGE_SIZE"
  moreover have "0 < cache_size index" by (simp add: cache_size_eq)
  ultimately show "((index, addr, i + cache_size index, s2), index, addr, i, s)
      \<in> measure (\<lambda>(index, addr, i, s). PAGE_SIZE - i)" by simp
qed simp

declare kmem_carve.simps [simp del]

definition kmem_cache_alloc :: "nat \<Rightarrow> mm \<Rightarrow> fault + u64 \<times> mm" where
  "kmem_cache_alloc index s =
     bindF
       (if list_empty (CacheHead index) (links s) then
          case alloc_pages 0 s of
            (None, s1) \<Rightarrow> Inl Null_Pointer
          | (Some page, s1) \<Rightarrow>
              let s2 = upd_page page (\<lambda>pg. pg\<lparr>cacheidx := of_nat index\<rparr>) s1
              in Inr (kmem_carve index (page_addr page) 0 s2)
        else Inr s)
       (\<lambda>s3. let obj = obj_of (list_first_entry (CacheHead index) (links s3))
             in Inr (obj, upd_links (list_del_init (ObjList obj)) s3))"

definition kmem_cache_free :: "u64 \<Rightarrow> mm \<Rightarrow> mm" where
  "kmem_cache_free ptr s =
     (let page = virt_to_page ptr;
          index = unat (cacheidx (mem_map s page))
      in upd_links (list_add_tail (ObjList ptr) (CacheHead index)) s)"

text \<open>
  The two loops of \<open>kmalloc\<close>. The shift is an \<open>int\<close> shift: \<open>PAGE_SIZE << 19\<close> is beyond the type, and
  undefined in C. The other loop stops by index 6.
\<close>

function kmalloc_order :: "nat \<Rightarrow> u32 \<Rightarrow> fault + nat" where
  "kmalloc_order ord sz =
     (if 2 ^ 31 \<le> push_bit ord PAGE_SIZE then Inl Bad_Shift
      else if push_bit ord PAGE_SIZE < unat sz then kmalloc_order (ord + 1) sz
      else Inr ord)"
  by pat_completeness auto
termination
  by (relation "measure (\<lambda>(ord, sz). 2 ^ 31 - push_bit ord PAGE_SIZE)")
    (auto simp: push_bit_eq_mult PAGE_SIZE_def intro!: diff_less_mono2)

function kmalloc_index :: "nat \<Rightarrow> u32 \<Rightarrow> nat" where
  "kmalloc_index index sz =
     (if push_bit index CACHE_MIN_SIZE < unat sz then kmalloc_index (index + 1) sz else index)"
  by pat_completeness auto
termination
  by (relation "measure (\<lambda>(index, sz). unat sz - push_bit index CACHE_MIN_SIZE)")
    (auto simp: push_bit_eq_mult CACHE_MIN_SIZE_def intro!: diff_less_mono2)

declare kmalloc_order.simps [simp del] kmalloc_index.simps [simp del]

definition kmalloc :: "u32 \<Rightarrow> mm \<Rightarrow> fault + u64 \<times> mm" where
  "kmalloc sz s =
     (if sz \<le> 0 then Inr (0, s)
      else if push_bit CACHE_MAX_INDEX CACHE_MIN_SIZE < unat sz then
        bindF (kmalloc_order 0 sz) (\<lambda>ord.
          let (page, s1) = alloc_pages ord s
          in bindF (page_to_virt page) (\<lambda>addr. Inr (addr, s1)))
      else kmem_cache_alloc (kmalloc_index 0 sz) s)"

definition kfree :: "u64 \<Rightarrow> mm \<Rightarrow> mm" where
  "kfree ptr s =
     (let page = virt_to_page ptr
      in if cacheidx (mem_map s page) = CACHE_UNALLOC then
           if unat (virt_to_phys ptr) mod PAGE_SIZE \<noteq> 0 then s
           else free_pages page s
         else kmem_cache_free ptr s)"

section \<open>Addresses\<close>

text \<open>The address at offset \<open>off\<close> of page \<open>p\<close>.\<close>

definition obj_addr :: "nat \<Rightarrow> nat \<Rightarrow> u64" where
  "obj_addr p off = page_addr p + of_nat off"

lemma virt_phys [simp]: "virt_to_phys (phys_to_virt a) = a" "phys_to_virt (virt_to_phys a) = a"
  by (simp_all add: virt_to_phys_def phys_to_virt_def)

lemma obj_addr_phys:
  assumes "p < NUM_PAGES" and "off < PAGE_SIZE"
  shows "unat (virt_to_phys (obj_addr p off)) = p * PAGE_SIZE + off"
proof -
  have "p * PAGE_SIZE + off < 2 ^ 64"
    using assms by (simp add: NUM_PAGES_def PAGE_SIZE_def)
  then have "unat (of_nat (p * PAGE_SIZE + off) :: u64) = p * PAGE_SIZE + off"
    by (simp add: unat_of_nat take_bit_nat_eq_self del: of_nat_add of_nat_mult)
  moreover have "virt_to_phys (obj_addr p off) = of_nat (p * PAGE_SIZE + off)"
    by (simp add: obj_addr_def page_addr_def virt_to_phys_def phys_to_virt_def)
  ultimately show ?thesis by simp
qed

lemma obj_addr_page:
  assumes "p < NUM_PAGES" and "off < PAGE_SIZE"
  shows "virt_to_page (obj_addr p off) = p"
    and "unat (virt_to_phys (obj_addr p off)) mod PAGE_SIZE = off"
proof -
  have "unat (of_nat PAGE_SIZE :: u64) = PAGE_SIZE" by (simp add: PAGE_SIZE_def)
  then show "virt_to_page (obj_addr p off) = p"
    using assms by (simp add: virt_to_page_def unat_div obj_addr_phys)
  show "unat (virt_to_phys (obj_addr p off)) mod PAGE_SIZE = off"
    using assms by (simp add: obj_addr_phys)
qed

lemma obj_addr_0: "obj_addr p 0 = page_addr p"
  by (simp add: obj_addr_def)

section \<open>The objects of a slab page\<close>

text \<open>The number of objects cut from a page, and the address of the \<open>j\<close>th.\<close>

definition slot_count :: "nat \<Rightarrow> nat" where
  "slot_count i = 2 ^ (7 - i)"

definition slot :: "nat \<Rightarrow> nat \<Rightarrow> nat \<Rightarrow> u64" where
  "slot p i j = obj_addr p (j * cache_size i)"

definition slots :: "nat \<Rightarrow> nat \<Rightarrow> u64 set" where
  "slots p i = slot p i ` {..<slot_count i}"

lemma cache_size_pos [simp]: "0 < cache_size i"
  by (simp add: cache_size_eq)

lemma page_is_slots:
  assumes "i \<le> CACHE_MAX_INDEX"
  shows "slot_count i * cache_size i = PAGE_SIZE"
proof -
  have "2 ^ (7 - i) * 2 ^ i = (2 ^ 7 :: nat)"
    using assms by (simp flip: power_add add: CACHE_MAX_INDEX_def)
  then show ?thesis
    by (simp add: slot_count_def cache_size_eq PAGE_SIZE_def mult.commute)
qed

lemma slot_offset:
  assumes "i \<le> CACHE_MAX_INDEX"
  shows "j * cache_size i < PAGE_SIZE \<longleftrightarrow> j < slot_count i"
  by (simp flip: page_is_slots[OF assms])

lemma slot_phys:
  assumes "p < NUM_PAGES" and "i \<le> CACHE_MAX_INDEX" and "j < slot_count i"
  shows "unat (virt_to_phys (slot p i j)) = p * PAGE_SIZE + j * cache_size i"
    and "virt_to_page (slot p i j) = p"
  using assms by (simp_all add: slot_def obj_addr_phys obj_addr_page slot_offset)

lemma slot_inj:
  assumes "p < NUM_PAGES" and "i \<le> CACHE_MAX_INDEX"
  shows "inj_on (slot p i) {..<slot_count i}"
proof (rule inj_onI)
  fix j k assume jk: "j \<in> {..<slot_count i}" "k \<in> {..<slot_count i}" "slot p i j = slot p i k"
  have "p * PAGE_SIZE + j * cache_size i = p * PAGE_SIZE + k * cache_size i"
    using slot_phys(1)[OF assms, of j] slot_phys(1)[OF assms, of k] jk
    by (metis lessThan_iff)
  then have "j * cache_size i = k * cache_size i" by (rule add_left_imp_eq)
  then show "j = k" by (metis cache_size_pos mult_cancel2 neq0_conv)
qed

lemma slots_page:
  assumes "p < NUM_PAGES" and "i \<le> CACHE_MAX_INDEX" and "a \<in> slots p i"
  shows "virt_to_page a = p"
  using assms slot_phys(2)[OF assms(1,2)] by (auto simp: slots_def)

section \<open>The lists of the caches\<close>

lemma relink:
  assumes "buddy_inv s F C A X" and "mem_map s' = mem_map s" and "rings heads (links s') (lists_of F C')"
  shows "buddy_inv s' F C' A X"
  using assms unfolding buddy_inv_def by simp

lemma cache_add_tail:
  assumes inv: "buddy_inv s F C A X" and i: "i \<le> CACHE_MAX_INDEX"
    and u: "\<And>k. k \<le> CACHE_MAX_INDEX \<Longrightarrow> a \<notin> set (C k)"
  shows "buddy_inv (upd_links (list_add_tail (ObjList a) (CacheHead i)) s) F (C(i := C i @ [a])) A X"
proof (rule relink[OF inv])
  have u: "unlinked heads (lists_of F C) (ObjList a)" using u by (simp add: unlinked_obj)
  show "rings heads (links (upd_links (list_add_tail (ObjList a) (CacheHead i)) s))
      (lists_of F (C(i := C i @ [a])))"
    using lh.add_tail[OF buddy_invD(1)[OF inv] _ u, of "CacheHead i"] i
      lists_of_upd(2)[of F C i "C i @ [a]"] by simp
qed simp

lemma cache_take:
  assumes inv: "buddy_inv s F C A X" and i: "i \<le> CACHE_MAX_INDEX" and C: "C i = a # as"
  shows "list_first_entry (CacheHead i) (links s) = ObjList a"
    and "buddy_inv (upd_links (list_del_init (ObjList a)) s) F (C(i := as)) A X"
proof -
  note r = buddy_invD(1)[OF inv]
  show "list_first_entry (CacheHead i) (links s) = ObjList a"
    using lh.first[OF r, of "CacheHead i"] i C by simp
  show "buddy_inv (upd_links (list_del_init (ObjList a)) s) F (C(i := as)) A X"
    by (rule relink[OF inv])
      (use lh.del[OF r, of "CacheHead i" "ObjList a"] i C lists_of_upd(2)[of F C i as] in simp_all)
qed

lemma cache_empty:
  assumes "buddy_inv s F C A X" and "i \<le> CACHE_MAX_INDEX"
  shows "list_empty (CacheHead i) (links s) \<longleftrightarrow> C i = []"
  using lh.is_empty[OF buddy_invD(1)[OF assms(1)], of "CacheHead i"] assms(2) by simp

text \<open>Cutting a page puts its slots, in order, at the end of the cache's list.\<close>

lemma kmem_carve_inv:
  assumes "buddy_inv s F C A {}" and p: "p < NUM_PAGES" and i: "i \<le> CACHE_MAX_INDEX"
    and "j \<le> slot_count i"
    and "\<And>m k. j \<le> m \<Longrightarrow> m < slot_count i \<Longrightarrow> k \<le> CACHE_MAX_INDEX \<Longrightarrow> slot p i m \<notin> set (C k)"
  shows "buddy_inv (kmem_carve i (page_addr p) (j * cache_size i) s) F
           (C(i := C i @ map (slot p i) [j..<slot_count i])) A {} \<and>
         mem_map (kmem_carve i (page_addr p) (j * cache_size i) s) = mem_map s"
  using assms(1,4,5)
proof (induction "slot_count i - j" arbitrary: j s C)
  case 0
  then have "j = slot_count i" by simp
  then show ?case using 0 by (simp add: kmem_carve.simps slot_offset[OF i])
next
  case (Suc n)
  then have j: "j < slot_count i" by simp
  let ?a = "slot p i j"
  let ?s1 = "upd_links (INIT_LIST_HEAD (ObjList ?a)) s"
  let ?s2 = "upd_links (list_add_tail (ObjList ?a) (CacheHead i)) ?s1"
  have u: "?a \<notin> set (C k)" if "k \<le> CACHE_MAX_INDEX" for k using Suc.prems(3)[OF _ j that] by simp
  have "buddy_inv ?s1 F C A {}"
    by (rule relink[OF Suc.prems(1)])
      (use rings_INIT[OF buddy_invD(1)[OF Suc.prems(1)]] u in \<open>simp_all add: unlinked_obj\<close>)
  then have inv: "buddy_inv ?s2 F (C(i := C i @ [?a])) A {}" using i u by (rule cache_add_tail)
  have "kmem_carve i (page_addr p) (j * cache_size i) s =
      kmem_carve i (page_addr p) (Suc j * cache_size i) ?s2"
    using j by (simp add: kmem_carve.simps[of i _ "j * cache_size i"] slot_offset[OF i] slot_def
        obj_addr_def add.commute Let_def)
  moreover have "slot p i m \<notin> set ((C(i := C i @ [?a])) k)"
    if "Suc j \<le> m" "m < slot_count i" "k \<le> CACHE_MAX_INDEX" for m k
    using Suc.prems(3)[of m k] that j inj_onD[OF slot_inj[OF p i], of m j] by auto
  moreover have "n = slot_count i - Suc j" "Suc j \<le> slot_count i" using Suc.hyps(2) j by simp_all
  ultimately show ?case
    using Suc.hyps(1)[of "Suc j" ?s2 "C(i := C i @ [?a])"] inv j by (simp add: upt_conv_Cons)
qed

section \<open>The invariant\<close>

text \<open>
  \<open>P\<close> is the set of page blocks handed out, \<open>S\<close> the set of slab pages with their cache, and \<open>U\<close> the set
  of objects handed out with their cache. The objects of a cache are those of its pages, each of them
  either free (on the list) or in use.
\<close>

definition heap_inv ::
    "mm \<Rightarrow> (nat \<Rightarrow> nat list) \<Rightarrow> (nat \<Rightarrow> u64 list) \<Rightarrow> block set \<Rightarrow> block set \<Rightarrow> (nat \<times> nat) set \<Rightarrow>
     (u64 \<times> nat) set \<Rightarrow> bool" where
  "heap_inv s F C A P S U \<longleftrightarrow>
     buddy_inv s F C A {} \<and> P \<subseteq> A \<and>
     (\<forall>(p, i)\<in>S. i \<le> CACHE_MAX_INDEX \<and> (p, 0) \<in> A - P \<and> cacheidx (mem_map s p) = of_nat i) \<and>
     (\<forall>p<NUM_PAGES. p \<notin> fst ` S \<longrightarrow> cacheidx (mem_map s p) = CACHE_UNALLOC) \<and>
     (\<forall>(a, i)\<in>U. i \<le> CACHE_MAX_INDEX) \<and>
     (\<forall>i\<le>CACHE_MAX_INDEX.
        set (C i) \<inter> {a. (a, i) \<in> U} = {} \<and>
        set (C i) \<union> {a. (a, i) \<in> U} = (\<Union>p\<in>{p. (p, i) \<in> S}. slots p i))"

text \<open>The chunks handed out: address and capacity in bytes, and the physical bytes they cover.\<close>

type_synonym chunk = "u64 \<times> nat"

fun page_chunk :: "block \<Rightarrow> chunk" where
  "page_chunk (p, k) = (page_addr p, 2 ^ k * PAGE_SIZE)"

fun obj_chunk :: "u64 \<times> nat \<Rightarrow> chunk" where
  "obj_chunk (a, i) = (a, cache_size i)"

fun chunk_bytes :: "chunk \<Rightarrow> nat set" where
  "chunk_bytes (a, n) = {unat (virt_to_phys a) ..< unat (virt_to_phys a) + n}"

definition mm_inv :: "mm \<Rightarrow> chunk set \<Rightarrow> bool" where
  "mm_inv s L \<longleftrightarrow>
     (\<exists>F C A P S U. heap_inv s F C A P S U \<and> L = page_chunk ` P \<union> obj_chunk ` U)"

lemma heap_invI:
  assumes "buddy_inv s F C A {}" and "P \<subseteq> A"
    and "\<And>p i. (p, i) \<in> S \<Longrightarrow> i \<le> CACHE_MAX_INDEX \<and> (p, 0) \<in> A - P \<and> cacheidx (mem_map s p) = of_nat i"
    and "\<And>p. p < NUM_PAGES \<Longrightarrow> p \<notin> fst ` S \<Longrightarrow> cacheidx (mem_map s p) = CACHE_UNALLOC"
    and "\<And>a i. (a, i) \<in> U \<Longrightarrow> i \<le> CACHE_MAX_INDEX"
    and "\<And>i. i \<le> CACHE_MAX_INDEX \<Longrightarrow> set (C i) \<inter> {a. (a, i) \<in> U} = {}"
    and "\<And>i. i \<le> CACHE_MAX_INDEX \<Longrightarrow>
       set (C i) \<union> {a. (a, i) \<in> U} = (\<Union>p\<in>{p. (p, i) \<in> S}. slots p i)"
  shows "heap_inv s F C A P S U"
  unfolding heap_inv_def
  by (intro conjI assms(1,2) ballI allI impI; (clarify)?; (rule assms conjI assms(3)[THEN conjunct1]
      assms(3)[THEN conjunct2, THEN conjunct1] assms(3)[THEN conjunct2, THEN conjunct2]; assumption?)+)

lemma heap_invD:
  assumes "heap_inv s F C A P S U"
  shows "buddy_inv s F C A {}" and "P \<subseteq> A"
    and "(p, i) \<in> S \<Longrightarrow> i \<le> CACHE_MAX_INDEX" and "(p, i) \<in> S \<Longrightarrow> (p, 0) \<in> A - P"
    and "(p, i) \<in> S \<Longrightarrow> cacheidx (mem_map s p) = of_nat i"
    and "p < NUM_PAGES \<Longrightarrow> p \<notin> fst ` S \<Longrightarrow> cacheidx (mem_map s p) = CACHE_UNALLOC"
    and "(a, i) \<in> U \<Longrightarrow> i \<le> CACHE_MAX_INDEX"
    and "i \<le> CACHE_MAX_INDEX \<Longrightarrow> set (C i) \<inter> {a. (a, i) \<in> U} = {}"
    and "i \<le> CACHE_MAX_INDEX \<Longrightarrow>
       set (C i) \<union> {a. (a, i) \<in> U} = (\<Union>p\<in>{p. (p, i) \<in> S}. slots p i)"
proof -
  note h = assms[unfolded heap_inv_def]
  show "buddy_inv s F C A {}" and "P \<subseteq> A" using h by simp_all
  have "\<forall>(p, i)\<in>S. i \<le> CACHE_MAX_INDEX \<and> (p, 0) \<in> A - P \<and> cacheidx (mem_map s p) = of_nat i"
    using h by simp
  then show "(p, i) \<in> S \<Longrightarrow> i \<le> CACHE_MAX_INDEX" and "(p, i) \<in> S \<Longrightarrow> (p, 0) \<in> A - P"
    and "(p, i) \<in> S \<Longrightarrow> cacheidx (mem_map s p) = of_nat i" by blast+
  show "p < NUM_PAGES \<Longrightarrow> p \<notin> fst ` S \<Longrightarrow> cacheidx (mem_map s p) = CACHE_UNALLOC"
    using h by simp
  have "\<forall>(a, i)\<in>U. i \<le> CACHE_MAX_INDEX" using h by simp
  then show "(a, i) \<in> U \<Longrightarrow> i \<le> CACHE_MAX_INDEX" by blast
  have c: "i \<le> CACHE_MAX_INDEX \<Longrightarrow> set (C i) \<inter> {a. (a, i) \<in> U} = {} \<and>
      set (C i) \<union> {a. (a, i) \<in> U} = (\<Union>p\<in>{p. (p, i) \<in> S}. slots p i)"
    using h by simp
  show "i \<le> CACHE_MAX_INDEX \<Longrightarrow> set (C i) \<inter> {a. (a, i) \<in> U} = {}"
    and "i \<le> CACHE_MAX_INDEX \<Longrightarrow>
       set (C i) \<union> {a. (a, i) \<in> U} = (\<Union>p\<in>{p. (p, i) \<in> S}. slots p i)"
    using c by simp_all
qed

lemma index_word:
  "i \<le> CACHE_MAX_INDEX \<Longrightarrow> unat (of_nat i :: u32) = i"
  "i \<le> CACHE_MAX_INDEX \<Longrightarrow> of_nat i \<noteq> CACHE_UNALLOC"
proof -
  assume i: "i \<le> CACHE_MAX_INDEX"
  then have "i < 2 ^ 32" by (simp add: CACHE_MAX_INDEX_def)
  then show "unat (of_nat i :: u32) = i" by (simp add: unat_of_nat take_bit_nat_eq_self)
  moreover have "unat CACHE_UNALLOC = 2 ^ 32 - 1" by (simp add: CACHE_UNALLOC_def unsigned_minus_1_eq_mask mask_eq_exp_minus_1)
  moreover have "i < 2 ^ 32 - 1" using i by (simp add: CACHE_MAX_INDEX_def)
  ultimately show "of_nat i \<noteq> CACHE_UNALLOC" by (metis less_irrefl)
qed

text \<open>A frame of memory and what lies in it.\<close>

lemma slab_page:
  assumes "heap_inv s F C A P S U" and "(p, i) \<in> S"
  shows "p < NUM_PAGES" and "virt_to_page a = p \<Longrightarrow> cacheidx (mem_map s (virt_to_page a)) = of_nat i"
    and "(p, k) \<in> S \<Longrightarrow> k = i"
proof -
  have "(p, 0) \<in> free_blocks F \<union> A \<union> {}" using heap_invD(4)[OF assms] by blast
  then show "p < NUM_PAGES"
    using tilesD(3)[OF buddy_invD(2)[OF heap_invD(1)[OF assms(1)]], of "(p, 0)"] by auto
  show "virt_to_page a = p \<Longrightarrow> cacheidx (mem_map s (virt_to_page a)) = of_nat i"
    using heap_invD(5)[OF assms] by simp
  assume "(p, k) \<in> S"
  then show "k = i"
    using heap_invD(3,5)[OF assms(1)] assms(2) index_word(1) by metis
qed

lemma object_page:
  assumes "heap_inv s F C A P S U" and "i \<le> CACHE_MAX_INDEX" and "a \<in> set (C i) \<or> (a, i) \<in> U"
  obtains p where "(p, i) \<in> S" "a \<in> slots p i" "virt_to_page a = p"
proof -
  obtain p where "(p, i) \<in> S" "a \<in> slots p i" using heap_invD(9)[OF assms(1,2)] assms(3) by blast
  then show thesis using that slots_page slab_page(1)[OF assms(1)] assms(2) by blast
qed

lemma object_cache:
  assumes "heap_inv s F C A P S U" and "i \<le> CACHE_MAX_INDEX" and "k \<le> CACHE_MAX_INDEX"
    and "a \<in> set (C i) \<or> (a, i) \<in> U" and "a \<in> set (C k) \<or> (a, k) \<in> U"
  shows "k = i"
  using object_page[OF assms(1,2,4)] object_page[OF assms(1,3,5)] slab_page(3)[OF assms(1)] by metis

lemma page_bounds:
  assumes "heap_inv s F C A P S U" and "(p, k) \<in> A"
  shows "block_ok BUDDY_MAX_ORDER NUM_PAGES (p, k)" and "p < NUM_PAGES"
proof -
  have "(p, k) \<in> free_blocks F \<union> A \<union> {}" using assms(2) by blast
  note t = tilesD(1,3)[OF buddy_invD(2)[OF heap_invD(1)[OF assms(1)]] this]
  show "block_ok BUDDY_MAX_ORDER NUM_PAGES (p, k)" using t(1) .
  show "p < NUM_PAGES" using t(2) first_frame[of p k] by blast
qed

section \<open>The operations keep the invariant\<close>

subsection \<open>The caches\<close>

lemma cache_pop:
  assumes inv: "heap_inv s F C A P S U" and i: "i \<le> CACHE_MAX_INDEX" and C: "C i = a # as"
  shows "list_first_entry (CacheHead i) (links s) = ObjList a"
    and "heap_inv (upd_links (list_del_init (ObjList a)) s) F (C(i := as)) A P S (insert (a, i) U)"
    and "(a, i) \<notin> U"
proof -
  note b = heap_invD(1)[OF inv]
  show "list_first_entry (CacheHead i) (links s) = ObjList a" by (rule cache_take(1)[OF b i C])
  have "distinct (map ObjList (C i))"
    using lh.distinct_entries[OF buddy_invD(1)[OF b], of "CacheHead i"] i by simp
  then have d: "a \<notin> set as" unfolding C by auto
  note o = heap_invD(8,9)[OF inv]
  show u: "(a, i) \<notin> U" using o(1)[OF i] C by auto
  show "heap_inv (upd_links (list_del_init (ObjList a)) s) F (C(i := as)) A P S (insert (a, i) U)"
  proof (rule heap_invI)
    show "buddy_inv (upd_links (list_del_init (ObjList a)) s) F (C(i := as)) A {}"
      by (rule cache_take(2)[OF b i C])
    fix k assume k: "k \<le> CACHE_MAX_INDEX"
    have e: "{b. (b, k) \<in> insert (a, i) U} = (if k = i then insert a {b. (b, k) \<in> U} else {b. (b, k) \<in> U})"
      by auto
    show "set ((C(i := as)) k) \<inter> {b. (b, k) \<in> insert (a, i) U} = {}"
      using o(1)[OF k] d C unfolding e by auto
    show "set ((C(i := as)) k) \<union> {b. (b, k) \<in> insert (a, i) U} = (\<Union>p\<in>{p. (p, k) \<in> S}. slots p k)"
      using C unfolding e o(2)[OF k, symmetric] by auto
  qed (use heap_invD(2-7)[OF inv] i in auto)
qed

text \<open>A page that is handed out holds no object.\<close>

lemma fresh_page:
  assumes inv: "heap_inv s F C A P S U" and al: "alloc_pages k s = (Some p, s')"
  shows "p < NUM_PAGES" and "(p, j) \<notin> A" and "p \<notin> fst ` S"
    and "i \<le> CACHE_MAX_INDEX \<Longrightarrow> a \<in> set (C i) \<or> (a, i) \<in> U \<Longrightarrow> virt_to_page a \<noteq> p"
proof -
  note b = heap_invD(1)[OF inv]
  obtain m where m: "(p, m) \<in> free_blocks F" using alloc_pages_inv(4)[OF b al] by blast
  show "p < NUM_PAGES"
    using tilesD(3)[OF buddy_invD(2)[OF b], of "(p, m)"] m first_frame by blast
  show n: "(p, j) \<notin> A" for j
  proof
    assume a: "(p, j) \<in> A"
    then have "(p, j) = (p, m)" using m by (intro block_unique[OF b, of _ _ p]) auto
    then show False using a m buddy_invD(3)[OF b] by blast
  qed
  show out: "p \<notin> fst ` S"
  proof
    assume "p \<in> fst ` S"
    then obtain i where "(p, i) \<in> S" by auto
    then show False using heap_invD(4)[OF inv] n by blast
  qed
  assume "i \<le> CACHE_MAX_INDEX" "a \<in> set (C i) \<or> (a, i) \<in> U"
  then obtain q where "(q, i) \<in> S" "virt_to_page a = q" by (rule object_page[OF inv])
  moreover have "q \<in> fst ` S" using \<open>(q, i) \<in> S\<close> by (rule image_eqI[rotated]) simp
  ultimately show "virt_to_page a \<noteq> p" using out by blast
qed

lemma cache_refill:
  assumes inv: "heap_inv s F C A P S U" and i: "i \<le> CACHE_MAX_INDEX" and C: "C i = []"
    and al: "alloc_pages 0 s = (Some p, s1)"
  defines "s2 \<equiv> upd_page p (\<lambda>pg. pg\<lparr>cacheidx := of_nat i\<rparr>) s1"
    and "C' \<equiv> C(i := map (slot p i) [0..<slot_count i])"
  shows "\<exists>F' j. heap_inv (kmem_carve i (page_addr p) 0 s2) F' C' (insert (p, 0) A) P (insert (p, i) S) U \<and>
    free_blocks F - {(p, j)} \<subseteq> free_blocks F'"
proof -
  note b = heap_invD(1)[OF inv] and o = heap_invD(8,9)[OF inv]
  note fresh = fresh_page[OF inv al]
  obtain F' j where F': "buddy_inv s1 F' C (insert (p, 0) A) {}" and oo: "only_orders {p} s s1"
    and keep: "free_blocks F - {(p, j)} \<subseteq> free_blocks F'"
    using alloc_pages_inv(1,2)[OF b al] by blast
  have "buddy_inv s2 F' C (insert (p, 0) A) {}"
    unfolding s2_def by (rule buddy_invI) (use buddy_invD[OF F'] in auto)
  then have carve: "buddy_inv (kmem_carve i (page_addr p) 0 s2) F' C' (insert (p, 0) A) {} \<and>
      mem_map (kmem_carve i (page_addr p) 0 s2) = mem_map s2"
    using kmem_carve_inv[of s2 F' C "insert (p, 0) A" p i 0] fresh(1) i C
      fresh(4) slot_phys(2)[OF fresh(1) i] unfolding C'_def by auto
  have set_C': "set (C' i) = slots p i" by (auto simp: C'_def slots_def)
  have idx: "cacheidx (mem_map s2 q) = (if q = p then of_nat i else cacheidx (mem_map s q))" for q
    using oo by (simp add: s2_def only_orders_def)
  have "heap_inv (kmem_carve i (page_addr p) 0 s2) F' C' (insert (p, 0) A) P (insert (p, i) S) U"
  proof (rule heap_invI)
    show "P \<subseteq> insert (p, 0) A" using heap_invD(2)[OF inv] by blast
    fix q k
    show "k \<le> CACHE_MAX_INDEX \<and> (q, 0) \<in> insert (p, 0) A - P \<and>
        cacheidx (mem_map (kmem_carve i (page_addr p) 0 s2) q) = of_nat k"
      if qk: "(q, k) \<in> insert (p, i) S"
    proof (cases "(q, k) = (p, i)")
      case True
      moreover have "(p, 0) \<notin> P" using fresh(2) heap_invD(2)[OF inv] by blast
      ultimately show ?thesis using i carve idx[of p] by simp
    next
      case False
      then have qk: "(q, k) \<in> S" using qk by blast
      then have "q \<noteq> p" using fresh(3) by force
      then show ?thesis using heap_invD(3-5)[OF inv qk] carve idx[of q] by simp
    qed
    show "q < NUM_PAGES \<Longrightarrow> q \<notin> fst ` insert (p, i) S \<Longrightarrow>
        cacheidx (mem_map (kmem_carve i (page_addr p) 0 s2) q) = CACHE_UNALLOC"
      using heap_invD(6)[OF inv] carve idx[of q] by auto
  next
    fix k assume k: "k \<le> CACHE_MAX_INDEX"
    show "set (C' k) \<inter> {a. (a, k) \<in> U} = {}"
    proof (cases "k = i")
      case True
      then show ?thesis using set_C' slots_page[OF fresh(1) i] fresh(4)[OF i] by auto
    next
      case False
      then show ?thesis using o(1)[OF k] by (simp add: C'_def)
    qed
    show "set (C' k) \<union> {a. (a, k) \<in> U} = (\<Union>q\<in>{q. (q, k) \<in> insert (p, i) S}. slots q k)"
    proof (cases "k = i")
      case True
      moreover have "{q. (q, i) \<in> insert (p, i) S} = insert p {q. (q, i) \<in> S}" by auto
      ultimately show ?thesis using set_C' o(2)[OF i] C by simp
    next
      case False
      then show ?thesis using o(2)[OF k] by (simp add: C'_def)
    qed
  qed (use carve heap_invD(7)[OF inv] in auto)
  then show ?thesis using keep by blast
qed

lemma kmem_cache_alloc_inv:
  assumes inv: "heap_inv s F C A P S U" and i: "i \<le> CACHE_MAX_INDEX"
  shows "case kmem_cache_alloc i s of
      Inl e \<Rightarrow> e = Null_Pointer \<and> C i = [] \<and> free_blocks F = {}
    | Inr (a, s') \<Rightarrow> (a, i) \<notin> U \<and> (\<exists>F' C' A' S' b. heap_inv s' F' C' A' P S' (insert (a, i) U) \<and>
        free_blocks F - {b} \<subseteq> free_blocks F')"
proof (cases "C i")
  case (Cons a as)
  then have "\<not> list_empty (CacheHead i) (links s)" using cache_empty[OF heap_invD(1)[OF inv] i] by simp
  moreover have "free_blocks F - {x} \<subseteq> free_blocks F" for x by blast
  ultimately show ?thesis
    using cache_pop[where i = i, OF inv i Cons] by (simp add: kmem_cache_alloc_def Let_def) blast
next
  case Nil
  then have e: "list_empty (CacheHead i) (links s)" using cache_empty[OF heap_invD(1)[OF inv] i] by simp
  show ?thesis
  proof (cases "alloc_pages 0 s")
    case (Pair page s1)
    show ?thesis
    proof (cases page)
      case None
      then have "free_blocks F = {}"
        using alloc_pages_None(2)[OF heap_invD(1)[OF inv], of 0 s1] Pair
        by (auto simp del: free_blocks_simps)
      then show ?thesis using e Pair None Nil by (simp add: kmem_cache_alloc_def)
    next
      case (Some p)
      let ?s3 = "kmem_carve i (page_addr p) 0 (upd_page p (\<lambda>pg. pg\<lparr>cacheidx := of_nat i\<rparr>) s1)"
      let ?C = "C(i := map (slot p i) [0..<slot_count i])"
      obtain F' j where r: "heap_inv ?s3 F' ?C (insert (p, 0) A) P (insert (p, i) S) U"
        and keep: "free_blocks F - {(p, j)} \<subseteq> free_blocks F'"
        using cache_refill[OF inv i Nil] Pair Some by blast
      have "slot_count i > 0" by (simp add: slot_count_def)
      then have "?C i = slot p i 0 # map (slot p i) [1..<slot_count i]" by (simp add: upt_conv_Cons)
      note pop = cache_pop[where i = i, OF r i this]
      show ?thesis
        using pop e Pair Some keep by (simp add: kmem_cache_alloc_def Let_def) blast
    qed
  qed
qed

lemma object_free:
  assumes inv: "heap_inv s F C A P S U" and u: "(a, i) \<in> U"
  shows "cacheidx (mem_map s (virt_to_page a)) = of_nat i"
    and "heap_inv (kmem_cache_free a s) F (C(i := C i @ [a])) A P S (U - {(a, i)})"
proof -
  note b = heap_invD(1)[OF inv] and o = heap_invD(8,9)[OF inv]
  have i: "i \<le> CACHE_MAX_INDEX" by (rule heap_invD(7)[OF inv u])
  obtain p where p: "(p, i) \<in> S" "a \<in> slots p i" "virt_to_page a = p"
    using object_page[OF inv i] u by blast
  then show idx: "cacheidx (mem_map s (virt_to_page a)) = of_nat i"
    using heap_invD(5)[OF inv] by simp
  have free: "kmem_cache_free a s = upd_links (list_add_tail (ObjList a) (CacheHead i)) s"
    by (simp add: kmem_cache_free_def idx index_word(1)[OF i])
  have n: "a \<notin> set (C k)" if "k \<le> CACHE_MAX_INDEX" for k
    using object_cache[OF inv i that, of a] u o(1)[OF i] by blast
  show "heap_inv (kmem_cache_free a s) F (C(i := C i @ [a])) A P S (U - {(a, i)})"
  proof (rule heap_invI)
    show "buddy_inv (kmem_cache_free a s) F (C(i := C i @ [a])) A {}"
      unfolding free by (rule cache_add_tail[OF b i n])
    fix k assume k: "k \<le> CACHE_MAX_INDEX"
    have e: "{b. (b, k) \<in> U - {(a, i)}} = (if k = i then {b. (b, k) \<in> U} - {a} else {b. (b, k) \<in> U})"
      by auto
    show "set ((C(i := C i @ [a])) k) \<inter> {b. (b, k) \<in> U - {(a, i)}} = {}"
      using o(1)[OF k] unfolding e by auto
    show "set ((C(i := C i @ [a])) k) \<union> {b. (b, k) \<in> U - {(a, i)}} = (\<Union>p\<in>{p. (p, k) \<in> S}. slots p k)"
      using u unfolding e o(2)[OF k, symmetric] by auto
  qed (use heap_invD(2-7)[OF inv] in \<open>auto simp: free\<close>)
qed

subsection \<open>Whole pages\<close>

lemma heap_inv_pages:
  assumes inv: "heap_inv s F C A P S U" and "buddy_inv s' F' C A' {}" and "P' \<subseteq> A'"
    and "\<And>q i. (q, i) \<in> S \<Longrightarrow> (q, 0) \<in> A' - P'"
    and idx: "\<And>q. cacheidx (mem_map s' q) = cacheidx (mem_map s q)"
  shows "heap_inv s' F' C A' P' S U"
proof (rule heap_invI)
  fix q i assume qi: "(q, i) \<in> S"
  show "i \<le> CACHE_MAX_INDEX \<and> (q, 0) \<in> A' - P' \<and> cacheidx (mem_map s' q) = of_nat i"
    using heap_invD(3,5)[OF inv qi] assms(4)[OF qi] idx by simp
next
  fix q assume "q < NUM_PAGES" "q \<notin> fst ` S"
  then show "cacheidx (mem_map s' q) = CACHE_UNALLOC" using heap_invD(6)[OF inv] idx by simp
qed (rule assms(2,3) heap_invD(7-9)[OF inv]; assumption)+

lemma page_take:
  assumes inv: "heap_inv s F C A P S U" and al: "alloc_pages k s = (Some p, s')"
  shows "\<exists>F' j. heap_inv s' F' C (insert (p, k) A) (insert (p, k) P) S U \<and>
      free_blocks F - {(p, j)} \<subseteq> free_blocks F'"
    and "(p, k) \<notin> P"
proof -
  note b = heap_invD(1)[OF inv] and fresh = fresh_page[OF inv al]
  show "(p, k) \<notin> P" using fresh(2) heap_invD(2)[OF inv] by blast
  obtain F' j where F': "buddy_inv s' F' C (insert (p, k) A) {}" and oo: "only_orders {p} s s'"
    and keep: "free_blocks F - {(p, j)} \<subseteq> free_blocks F'"
    using alloc_pages_inv(1,2)[OF b al] by blast
  have idx: "cacheidx (mem_map s' q) = cacheidx (mem_map s q)" for q
    using oo by (simp add: only_orders_def)
  have "heap_inv s' F' C (insert (p, k) A) (insert (p, k) P) S U"
  proof (rule heap_inv_pages[OF inv F'])
    fix q i assume qi: "(q, i) \<in> S"
    have "(q, 0) \<noteq> (p, k)" using heap_invD(4)[OF inv qi] fresh(2) by blast
    then show "(q, 0) \<in> insert (p, k) A - insert (p, k) P" using heap_invD(4)[OF inv qi] by simp
  qed (use heap_invD(2)[OF inv] idx in auto)
  then show "\<exists>F' j. heap_inv s' F' C (insert (p, k) A) (insert (p, k) P) S U \<and>
      free_blocks F - {(p, j)} \<subseteq> free_blocks F'" using keep by blast
qed

lemma page_free:
  assumes inv: "heap_inv s F C A P S U" and p: "(p, k) \<in> P"
  shows "cacheidx (mem_map s p) = CACHE_UNALLOC" and "p < NUM_PAGES"
    and "\<exists>F'. heap_inv (free_pages p s) F' C (A - {(p, k)}) (P - {(p, k)}) S U"
proof -
  note b = heap_invD(1)[OF inv]
  have a: "(p, k) \<in> A" using p heap_invD(2)[OF inv] by blast
  show pn: "p < NUM_PAGES" by (rule page_bounds(2)[OF inv a])
  have "p \<notin> fst ` S"
  proof
    assume "p \<in> fst ` S"
    then obtain i where "(p, i) \<in> S" by auto
    then have m: "(p, 0) \<in> A - P" by (rule heap_invD(4)[OF inv])
    then have "(p, 0) = (p, k)" using a by (intro block_unique[OF b, of _ _ p]) auto
    then show False using m p by simp
  qed
  then show "cacheidx (mem_map s p) = CACHE_UNALLOC" using pn heap_invD(6)[OF inv] by blast
  obtain F' where F': "buddy_inv (free_pages p s) F' C (A - {(p, k)}) {}"
    using free_pages_inv(1)[OF b a] by blast
  obtain Q where "only_orders Q s (free_pages p s)" using free_pages_inv(2)[OF b a] by blast
  then have idx: "cacheidx (mem_map (free_pages p s) q) = cacheidx (mem_map s q)" for q
    by (simp add: only_orders_def)
  have "heap_inv (free_pages p s) F' C (A - {(p, k)}) (P - {(p, k)}) S U"
  proof (rule heap_inv_pages[OF inv F'])
    fix q i assume qi: "(q, i) \<in> S"
    have "(q, 0) \<noteq> (p, k)" using heap_invD(4)[OF inv qi] p by blast
    then show "(q, 0) \<in> (A - {(p, k)}) - (P - {(p, k)})" using heap_invD(4)[OF inv qi] by simp
  qed (use heap_invD(2)[OF inv] idx in auto)
  then show "\<exists>F'. heap_inv (free_pages p s) F' C (A - {(p, k)}) (P - {(p, k)}) S U" by blast
qed

subsection \<open>The choice of the order and of the cache\<close>

lemma kmalloc_order_Inr:
  assumes "unat sz \<le> 2 ^ 30" and "ord \<le> 18"
  shows "\<exists>k. kmalloc_order ord sz = Inr k \<and> unat sz \<le> 2 ^ k * PAGE_SIZE \<and> ord \<le> k \<and> k \<le> 18 \<and>
    (\<forall>j. ord \<le> j \<and> j < k \<longrightarrow> 2 ^ j * PAGE_SIZE < unat sz)"
  using assms(2)
proof (induction "18 - ord" arbitrary: ord)
  case 0
  then have "ord = 18" by simp
  then show ?case using assms(1) by (simp add: kmalloc_order.simps push_bit_eq_mult PAGE_SIZE_def)
next
  case (Suc n)
  then have o: "ord < 18" by simp
  then have "(2::nat) ^ ord \<le> 2 ^ 17" by (intro power_increasing) auto
  then have s: "push_bit ord PAGE_SIZE < 2 ^ 31" by (simp add: push_bit_eq_mult PAGE_SIZE_def)
  show ?case
  proof (cases "push_bit ord PAGE_SIZE < unat sz")
    case True
    have "n = 18 - (ord + 1)" "ord + 1 \<le> 18" using Suc.hyps(2) o by simp_all
    then obtain k where k: "kmalloc_order (ord + 1) sz = Inr k" "unat sz \<le> 2 ^ k * PAGE_SIZE"
        "ord + 1 \<le> k" "k \<le> 18" "\<forall>j. ord + 1 \<le> j \<and> j < k \<longrightarrow> 2 ^ j * PAGE_SIZE < unat sz"
      using Suc.hyps(1) by blast
    have "2 ^ j * PAGE_SIZE < unat sz" if "ord \<le> j" "j < k" for j
      using that k(5) True by (cases "j = ord") (auto simp: push_bit_eq_mult mult.commute)
    then show ?thesis
      using k s True by (intro exI[of _ k]) (simp add: kmalloc_order.simps[of ord])
  next
    case False
    then show ?thesis
      using s o by (intro exI[of _ ord]) (simp add: kmalloc_order.simps[of ord] push_bit_eq_mult mult.commute)
  qed
qed

lemma kmalloc_order_Inl:
  assumes "2 ^ 30 < unat sz"
  shows "kmalloc_order ord sz = Inl Bad_Shift"
  using assms
proof (induction ord sz rule: kmalloc_order.induct)
  case (1 ord sz)
  show ?case
  proof (cases "2 ^ 31 \<le> push_bit ord PAGE_SIZE")
    case True
    then show ?thesis by (simp add: kmalloc_order.simps[of ord])
  next
    case False
    have "\<not> 19 \<le> ord"
    proof
      assume "19 \<le> ord"
      then have "(2::nat) ^ 19 \<le> 2 ^ ord" by (intro power_increasing) auto
      then show False using False by (simp add: push_bit_eq_mult PAGE_SIZE_def)
    qed
    then have "(2::nat) ^ ord \<le> 2 ^ 18" by (intro power_increasing) auto
    then have "push_bit ord PAGE_SIZE < unat sz" using 1(2) by (simp add: push_bit_eq_mult PAGE_SIZE_def)
    then show ?thesis using 1 False by (simp add: kmalloc_order.simps[of ord])
  qed
qed

lemma kmalloc_index_least:
  assumes "unat sz \<le> 2048" and "index \<le> CACHE_MAX_INDEX"
  shows "index \<le> kmalloc_index index sz \<and> kmalloc_index index sz \<le> CACHE_MAX_INDEX \<and>
    unat sz \<le> cache_size (kmalloc_index index sz) \<and>
    (\<forall>j. index \<le> j \<and> j < kmalloc_index index sz \<longrightarrow> cache_size j < unat sz)"
  using assms(2)
proof (induction "CACHE_MAX_INDEX - index" arbitrary: index)
  case 0
  then have "index = 6" by (simp add: CACHE_MAX_INDEX_def)
  then show ?case
    using assms(1) by (simp add: kmalloc_index.simps cache_size_def CACHE_MIN_SIZE_def
        CACHE_MAX_INDEX_def push_bit_eq_mult)
next
  case (Suc n)
  show ?case
  proof (cases "push_bit index CACHE_MIN_SIZE < unat sz")
    case True
    have "n = CACHE_MAX_INDEX - (index + 1)" "index + 1 \<le> CACHE_MAX_INDEX" using Suc.hyps(2) by simp_all
    note IH = Suc.hyps(1)[OF this]
    have e: "kmalloc_index index sz = kmalloc_index (index + 1) sz"
      using True by (simp add: kmalloc_index.simps[of index])
    have "cache_size j < unat sz" if "index \<le> j" "j < kmalloc_index (index + 1) sz" for j
      using that IH True by (cases "j = index") (auto simp: cache_size_def)
    then show ?thesis unfolding e using IH by auto
  next
    case False
    then have "kmalloc_index index sz = index" by (simp add: kmalloc_index.simps[of index])
    then show ?thesis using False Suc.prems by (simp add: cache_size_def not_less)
  qed
qed

section \<open>Chunks\<close>

text \<open>Each chunk lies in one allocated block.\<close>

fun block_bytes :: "block \<Rightarrow> nat set" where
  "block_bytes (p, k) = {p * PAGE_SIZE ..< (p + 2 ^ k) * PAGE_SIZE}"

lemma block_bytes_frames:
  assumes "x \<in> block_bytes b"
  shows "x div PAGE_SIZE \<in> frames b"
proof (cases b)
  case (Pair p k)
  have "0 < PAGE_SIZE" by (simp add: PAGE_SIZE_def)
  then show ?thesis using assms Pair by (simp add: less_eq_div_iff_mult_less_eq div_less_iff_less_mult)
qed

lemma page_chunk_bytes:
  assumes "p < NUM_PAGES"
  shows "chunk_bytes (page_chunk (p, k)) = block_bytes (p, k)"
  using obj_addr_phys[OF assms, of 0] by (simp add: obj_addr_0 PAGE_SIZE_def algebra_simps)

lemma obj_chunk_bytes:
  assumes "p < NUM_PAGES" and i: "i \<le> CACHE_MAX_INDEX" and j: "j < slot_count i"
  shows "chunk_bytes (obj_chunk (slot p i j, i)) =
      {p * PAGE_SIZE + j * cache_size i ..< p * PAGE_SIZE + Suc j * cache_size i}"
    and "chunk_bytes (obj_chunk (slot p i j, i)) \<subseteq> block_bytes (p, 0)"
proof -
  show b: "chunk_bytes (obj_chunk (slot p i j, i)) =
      {p * PAGE_SIZE + j * cache_size i ..< p * PAGE_SIZE + Suc j * cache_size i}"
    using slot_phys(1)[OF assms] by (simp add: algebra_simps)
  have "Suc j * cache_size i \<le> slot_count i * cache_size i" using j by (intro mult_le_mono1) simp
  then have "p * PAGE_SIZE + Suc j * cache_size i \<le> (p + 1) * PAGE_SIZE"
    unfolding page_is_slots[OF i] by simp
  then show "chunk_bytes (obj_chunk (slot p i j, i)) \<subseteq> block_bytes (p, 0)" unfolding b by auto
qed

lemma slots_apart:
  assumes "p < NUM_PAGES" and "i \<le> CACHE_MAX_INDEX" and "a \<in> slots p i" and "b \<in> slots p i" and "a \<noteq> b"
  shows "chunk_bytes (obj_chunk (a, i)) \<inter> chunk_bytes (obj_chunk (b, i)) = {}"
proof -
  obtain j k where j: "j < slot_count i" "a = slot p i j" and k: "k < slot_count i" "b = slot p i k"
    using assms(3,4) by (auto simp: slots_def)
  have apart: "Suc l * cache_size i \<le> m * cache_size i" if "l < m" for l m
    using that by (intro mult_le_mono1) simp
  have "j \<noteq> k" using assms(5) j k by auto
  then show ?thesis
    using apart[of j k] apart[of k j] unfolding j(2) k(2) obj_chunk_bytes(1)[OF assms(1,2) j(1)]
      obj_chunk_bytes(1)[OF assms(1,2) k(1)]
    by (cases "j < k") auto
qed

lemma object_bytes:
  assumes inv: "heap_inv s F C A P S U" and u: "(a, i) \<in> U"
  obtains p where "(p, i) \<in> S" "a \<in> slots p i" "(p, 0) \<in> A - P"
    "chunk_bytes (obj_chunk (a, i)) \<subseteq> block_bytes (p, 0)"
proof -
  have i: "i \<le> CACHE_MAX_INDEX" by (rule heap_invD(7)[OF inv u])
  obtain p where p: "(p, i) \<in> S" "a \<in> slots p i" using object_page[OF inv i] u by blast
  then obtain j where "j < slot_count i" "a = slot p i j" by (auto simp: slots_def)
  then show thesis
    using that[OF p heap_invD(4)[OF inv p(1)]] obj_chunk_bytes(2)[OF slab_page(1)[OF inv p(1)] i] by simp
qed

lemma chunk_block:
  assumes inv: "heap_inv s F C A P S U" and c: "c \<in> page_chunk ` P \<union> obj_chunk ` U"
  obtains b where "b \<in> A" "chunk_bytes c \<subseteq> block_bytes b"
    "b \<in> P \<and> c = page_chunk b \<or> (\<exists>a i p. b = (p, 0) \<and> b \<notin> P \<and> (a, i) \<in> U \<and> c = obj_chunk (a, i) \<and>
        (p, i) \<in> S \<and> a \<in> slots p i)"
proof -
  consider p k where "(p, k) \<in> P" "c = page_chunk (p, k)" | a i where "(a, i) \<in> U" "c = obj_chunk (a, i)"
    using c by auto
  then show thesis
  proof cases
    case (1 p k)
    have a: "(p, k) \<in> A" using 1(1) heap_invD(2)[OF inv] by blast
    then show thesis
      using that[of "(p, k)"] page_chunk_bytes[OF page_bounds(2)[OF inv a], of k] 1 by blast
  next
    case (2 a i)
    obtain p where p: "(p, i) \<in> S" "a \<in> slots p i" "(p, 0) \<in> A - P"
        "chunk_bytes (obj_chunk (a, i)) \<subseteq> block_bytes (p, 0)"
      using 2(1) by (rule object_bytes[OF inv])
    then show thesis using that[of "(p, 0)"] 2 by blast
  qed
qed

lemma mm_chunks_disjoint:
  assumes "mm_inv s L" and "c \<in> L" and "d \<in> L" and "c \<noteq> d"
  shows "chunk_bytes c \<inter> chunk_bytes d = {}"
proof -
  obtain F C A P S U where inv: "heap_inv s F C A P S U" and L: "L = page_chunk ` P \<union> obj_chunk ` U"
    using assms(1) by (auto simp: mm_inv_def)
  obtain b where b: "b \<in> A" "chunk_bytes c \<subseteq> block_bytes b"
    "b \<in> P \<and> c = page_chunk b \<or> (\<exists>a i p. b = (p, 0) \<and> b \<notin> P \<and> (a, i) \<in> U \<and> c = obj_chunk (a, i) \<and>
        (p, i) \<in> S \<and> a \<in> slots p i)"
    using assms(2) unfolding L by (rule chunk_block[OF inv])
  obtain e where e: "e \<in> A" "chunk_bytes d \<subseteq> block_bytes e"
    "e \<in> P \<and> d = page_chunk e \<or> (\<exists>a i p. e = (p, 0) \<and> e \<notin> P \<and> (a, i) \<in> U \<and> d = obj_chunk (a, i) \<and>
        (p, i) \<in> S \<and> a \<in> slots p i)"
    using assms(3) unfolding L by (rule chunk_block[OF inv])
  show ?thesis
  proof (cases "b = e")
    case False
    then have "frames b \<inter> frames e = {}"
      using tilesD(2)[OF buddy_invD(2)[OF heap_invD(1)[OF inv]], of b e] b(1) e(1) by blast
    then show ?thesis using b(2) e(2) block_bytes_frames by blast
  next
    case True
    then have n: "b \<notin> P" using b(3) e(3) assms(4) by blast
    then obtain a i p where x: "b = (p, 0)" "(p, i) \<in> S" "a \<in> slots p i" "c = obj_chunk (a, i)"
      using b(3) by blast
    obtain a' i' p' where y: "b = (p', 0)" "(p', i') \<in> S" "a' \<in> slots p' i'" "d = obj_chunk (a', i')"
      using e(3) n True by blast
    have p: "p' = p" using x(1) y(1) by simp
    have i: "i' = i" using slab_page(3)[OF inv x(2)] y(2) p by blast
    have "a \<noteq> a'" using assms(4) x(4) y(4) i by auto
    then show ?thesis
      using slots_apart[OF slab_page(1)[OF inv x(2)] heap_invD(3)[OF inv x(2)] x(3)] x(4) y(3,4) i p
      by blast
  qed
qed

lemma mm_chunk_in_memory:
  assumes "mm_inv s L" and "c \<in> L"
  shows "chunk_bytes c \<subseteq> {..<NUM_PAGES * PAGE_SIZE}"
proof -
  obtain F C A P S U where inv: "heap_inv s F C A P S U" and L: "L = page_chunk ` P \<union> obj_chunk ` U"
    using assms(1) by (auto simp: mm_inv_def)
  obtain b where b: "b \<in> A" "chunk_bytes c \<subseteq> block_bytes b"
    using assms(2) unfolding L by (rule chunk_block[OF inv]) blast
  obtain p k where pk: "b = (p, k)" by (cases b)
  have "p + 2 ^ k \<le> NUM_PAGES" using page_bounds(1)[OF inv] b(1) pk by simp
  then have le: "(p + 2 ^ k) * PAGE_SIZE \<le> NUM_PAGES * PAGE_SIZE" by (rule mult_le_mono1)
  have "block_bytes b \<subseteq> {..<NUM_PAGES * PAGE_SIZE}"
    unfolding pk block_bytes.simps by (auto intro: less_le_trans[OF _ le])
  then show ?thesis using b(2) by blast
qed

text \<open>The chunks of different blocks and objects are different.\<close>

lemma page_addr_page:
  assumes "p < NUM_PAGES"
  shows "virt_to_page (page_addr p) = p" and "unat (virt_to_phys (page_addr p)) mod PAGE_SIZE = 0"
  using obj_addr_page[OF assms, of 0] by (simp_all add: obj_addr_0 PAGE_SIZE_def)

lemma page_chunk_inj: "inj_on page_chunk {(p, k). p < NUM_PAGES}"
proof (rule inj_onI, clarify)
  fix p k q j assume a: "p < NUM_PAGES" "q < NUM_PAGES" and e: "page_chunk (p, k) = page_chunk (q, j)"
  have "p = virt_to_page (page_addr p)" "q = virt_to_page (page_addr q)"
    using page_addr_page(1) a by simp_all
  moreover have "2 ^ k = (2 :: nat) ^ j" using e by (simp add: PAGE_SIZE_def)
  ultimately show "p = q \<and> k = j" using e by simp
qed

lemma obj_chunk_inj: "inj obj_chunk"
  by (rule injI) (auto simp: cache_size_eq)

lemma page_not_obj:
  assumes "i \<le> CACHE_MAX_INDEX"
  shows "page_chunk (p, k) \<noteq> obj_chunk (a, i)"
proof -
  have "(2::nat) ^ i \<le> 2 ^ 6" using assms by (intro power_increasing) (simp_all add: CACHE_MAX_INDEX_def)
  then have "cache_size i < PAGE_SIZE" by (simp add: cache_size_eq PAGE_SIZE_def)
  also have "PAGE_SIZE \<le> 2 ^ k * PAGE_SIZE" by simp
  finally have "cache_size i < 2 ^ k * PAGE_SIZE" .
  then show ?thesis by simp
qed

lemma page_chunk_in:
  assumes inv: "heap_inv s F C A P S U" and "p < NUM_PAGES"
  shows "page_chunk (p, k) \<in> page_chunk ` P \<union> obj_chunk ` U \<longleftrightarrow> (p, k) \<in> P"
proof
  assume "page_chunk (p, k) \<in> page_chunk ` P \<union> obj_chunk ` U"
  then obtain q j where "(q, j) \<in> P" "page_chunk (p, k) = page_chunk (q, j)"
    using page_not_obj heap_invD(7)[OF inv] by force
  moreover have "(q, j) \<in> A" using calculation heap_invD(2)[OF inv] by blast
  ultimately show "(p, k) \<in> P"
    using inj_onD[OF page_chunk_inj, of "(p, k)" "(q, j)"] page_bounds(2)[OF inv] assms(2) by auto
next
  assume "(p, k) \<in> P"
  then show "page_chunk (p, k) \<in> page_chunk ` P \<union> obj_chunk ` U" by blast
qed

lemma obj_chunk_in:
  assumes "i \<le> CACHE_MAX_INDEX"
  shows "obj_chunk (a, i) \<in> page_chunk ` P \<union> obj_chunk ` U \<longleftrightarrow> (a, i) \<in> U"
proof -
  have "obj_chunk (a, i) \<notin> page_chunk ` P"
  proof
    assume "obj_chunk (a, i) \<in> page_chunk ` P"
    then obtain p k where "obj_chunk (a, i) = page_chunk (p, k)" by (rule imageE) (metis surj_pair)
    then show False using page_not_obj[OF assms, of p k a] by argo
  qed
  then show ?thesis using inj_image_mem_iff[OF obj_chunk_inj, of "(a, i)" U] by blast
qed

section \<open>The interface to the clients of the heap\<close>

text \<open>
  \<open>inv s L\<close>: in state \<open>s\<close> the chunks \<open>L\<close> are handed out. Allocation may fail; what it hands out is large
  enough and new, and a chunk can be given back.
\<close>

locale heap_allocator =
  fixes N :: nat
    and inv :: "'s \<Rightarrow> chunk set \<Rightarrow> bool"
    and alloc :: "u32 \<Rightarrow> 's \<Rightarrow> fault + u64 \<times> 's"
    and free :: "u64 \<Rightarrow> 's \<Rightarrow> 's"
  assumes in_memory: "inv s L \<Longrightarrow> c \<in> L \<Longrightarrow> chunk_bytes c \<subseteq> {..<N}"
    and chunks_disjoint: "inv s L \<Longrightarrow> c \<in> L \<Longrightarrow> d \<in> L \<Longrightarrow> c \<noteq> d \<Longrightarrow> chunk_bytes c \<inter> chunk_bytes d = {}"
    and chunks_nonempty: "inv s L \<Longrightarrow> c \<in> L \<Longrightarrow> 0 < snd c"
    and alloc_chunk: "inv s L \<Longrightarrow> 0 < sz \<Longrightarrow> alloc sz s = Inr (a, s') \<Longrightarrow>
      \<exists>n. unat sz \<le> n \<and> (a, n) \<notin> L \<and> inv s' (insert (a, n) L)"
    and free_chunk: "inv s L \<Longrightarrow> (a, n) \<in> L \<Longrightarrow> inv (free a s) (L - {(a, n)})"
begin

lemma alloc_fresh_chunk:
  assumes "inv s L" and "0 < sz" and "alloc sz s = Inr (a, s')"
  shows "\<exists>n. unat sz \<le> n \<and> chunk_bytes (a, n) \<subseteq> {..<N} - \<Union> (chunk_bytes ` L) \<and> inv s' (insert (a, n) L)"
proof -
  obtain n where n: "unat sz \<le> n" "(a, n) \<notin> L" and i: "inv s' (insert (a, n) L)"
    using alloc_chunk[OF assms] by blast
  have "chunk_bytes (a, n) \<inter> chunk_bytes c = {}" if "c \<in> L" for c
    using chunks_disjoint[OF i, of "(a, n)" c] that n by blast
  moreover have "chunk_bytes (a, n) \<subseteq> {..<N}" using in_memory[OF i, of "(a, n)"] by blast
  ultimately have "chunk_bytes (a, n) \<subseteq> {..<N} - \<Union> (chunk_bytes ` L)" by blast
  then show ?thesis using n i by blast
qed

lemma alloc_free:
  assumes "inv s L" and "0 < sz" and "alloc sz s = Inr (a, s')"
  shows "inv (free a s') L"
proof -
  obtain n where n: "(a, n) \<notin> L" and i: "inv s' (insert (a, n) L)"
    using alloc_chunk[OF assms] by blast
  have "inv (free a s') (insert (a, n) L - {(a, n)})" by (rule free_chunk[OF i]) simp
  then show ?thesis using n by simp
qed

lemma same_address:
  assumes "inv s L" and "(a, n) \<in> L" and "(a, m) \<in> L"
  shows "n = m"
proof (rule ccontr)
  assume "n \<noteq> m"
  then have "chunk_bytes (a, n) \<inter> chunk_bytes (a, m) = {}"
    using chunks_disjoint[OF assms] by blast
  then show False using chunks_nonempty[OF assms(1) assms(2)] chunks_nonempty[OF assms(1) assms(3)] by auto
qed

lemma chunks_bounded:
  assumes "inv s L"
  shows "finite L" and "(\<Sum>(a, n)\<in>L. n) \<le> N"
proof -
  have ne: "chunk_bytes c \<noteq> {}" if "c \<in> L" for c
    using chunks_nonempty[OF assms that] by (cases c) auto
  have inj: "inj_on chunk_bytes L"
    using chunks_disjoint[OF assms] ne by (intro inj_onI) blast
  have sub: "\<Union> (chunk_bytes ` L) \<subseteq> {..<N}" using in_memory[OF assms] by blast
  then have "finite (\<Union> (chunk_bytes ` L))" by (rule finite_subset) simp
  then show fin: "finite L" by (intro finite_imageD[OF finite_UnionD inj])
  have "card (\<Union> (chunk_bytes ` L)) = (\<Sum>c\<in>L. card (chunk_bytes c))"
    by (rule card_UN_disjoint[OF fin]) (use chunks_disjoint[OF assms] in \<open>auto simp: finite_subset\<close>)
  also have "\<dots> = (\<Sum>(a, n)\<in>L. n)" by (rule sum.cong) auto
  finally show "(\<Sum>(a, n)\<in>L. n) \<le> N" using card_mono[OF _ sub] by simp
qed

end

text \<open>The kernel's \<open>kmalloc\<close> and \<open>kfree\<close>.\<close>

lemma kmalloc_heap:
  assumes inv: "heap_inv s F C A P S U" and sz: "0 < sz" and al: "kmalloc sz s = Inr (a, s')"
  defines "L \<equiv> page_chunk ` P \<union> obj_chunk ` U"
  shows "\<exists>n F' C' A' P' S' U' b. unat sz \<le> n \<and> (a, n) \<notin> L \<and> heap_inv s' F' C' A' P' S' U' \<and>
    insert (a, n) L = page_chunk ` P' \<union> obj_chunk ` U' \<and> free_blocks F - {b} \<subseteq> free_blocks F'"
proof -
  note L = L_def[THEN meta_eq_to_obj_eq]
  have sz0: "\<not> sz \<le> 0" using sz by (simp add: not_le)
  show ?thesis
  proof (cases "push_bit CACHE_MAX_INDEX CACHE_MIN_SIZE < unat sz")
    case True
    then obtain k p where k: "kmalloc_order 0 sz = Inr k" and p: "alloc_pages k s = (Some p, s')"
        and a: "a = page_addr p"
      using al sz0 by (auto simp: kmalloc_def bindF_def page_to_virt_def Let_def
          split: sum.splits prod.splits option.splits)
    have "unat sz \<le> 2 ^ 30" using kmalloc_order_Inl[of sz 0] k by (cases "2 ^ 30 < unat sz") auto
    then have n: "unat sz \<le> 2 ^ k * PAGE_SIZE" using kmalloc_order_Inr[of sz 0] k by auto
    obtain F' j where i: "heap_inv s' F' C (insert (p, k) A) (insert (p, k) P) S U"
        "free_blocks F - {(p, j)} \<subseteq> free_blocks F'"
      using page_take(1)[OF inv p] by blast
    have "insert (a, 2 ^ k * PAGE_SIZE) L = page_chunk ` insert (p, k) P \<union> obj_chunk ` U"
      using a L by simp
    moreover have "(a, 2 ^ k * PAGE_SIZE) \<notin> L"
      using page_chunk_in[OF inv fresh_page(1)[OF inv p], of k] page_take(2)[OF inv p] a L by simp
    ultimately show ?thesis using n i by blast
  next
    case False
    let ?i = "kmalloc_index 0 sz"
    have "unat sz \<le> 2048" using False by (simp add: push_bit_eq_mult CACHE_MAX_INDEX_def CACHE_MIN_SIZE_def)
    then have ix: "?i \<le> CACHE_MAX_INDEX" "unat sz \<le> cache_size ?i"
      using kmalloc_index_least[of sz 0] by auto
    have "kmem_cache_alloc ?i s = Inr (a, s')" using al sz0 False by (simp add: kmalloc_def)
    then obtain F' C' A' S' b where i: "heap_inv s' F' C' A' P S' (insert (a, ?i) U)" and u: "(a, ?i) \<notin> U"
        and keep: "free_blocks F - {b} \<subseteq> free_blocks F'"
      using kmem_cache_alloc_inv[OF inv ix(1)] by auto
    have "insert (a, cache_size ?i) L = page_chunk ` P \<union> obj_chunk ` insert (a, ?i) U"
      using L by simp
    moreover have "(a, cache_size ?i) \<notin> L"
      using obj_chunk_in[OF ix(1), of a P U] u L by simp
    ultimately show ?thesis using ix(2) i keep by blast
  qed
qed

lemma kmalloc_chunk:
  assumes "mm_inv s L" and "0 < sz" and "kmalloc sz s = Inr (a, s')"
  shows "\<exists>n. unat sz \<le> n \<and> (a, n) \<notin> L \<and> mm_inv s' (insert (a, n) L)"
proof -
  obtain F C A P S U where inv: "heap_inv s F C A P S U" and L: "L = page_chunk ` P \<union> obj_chunk ` U"
    using assms(1) by (auto simp: mm_inv_def)
  show ?thesis using kmalloc_heap[OF inv assms(2,3)] unfolding mm_inv_def L by blast
qed

lemma kfree_chunk:
  assumes "mm_inv s L" and c: "(a, n) \<in> L"
  shows "mm_inv (kfree a s) (L - {(a, n)})"
proof -
  obtain F C A P S U where inv: "heap_inv s F C A P S U" and L: "L = page_chunk ` P \<union> obj_chunk ` U"
    using assms(1) by (auto simp: mm_inv_def)
  consider (page) p k where "(p, k) \<in> P" "(a, n) = page_chunk (p, k)"
    | (obj) i where "(a, i) \<in> U" "(a, n) = obj_chunk (a, i)"
    using c L by auto
  then show ?thesis
  proof cases
    case (page p k)
    note f = page_free[OF inv page(1)]
    have a: "a = page_addr p" using page(2) by simp
    have "kfree a s = free_pages p s"
      using f(1) page_addr_page[OF f(2)] by (simp add: kfree_def a)
    moreover obtain F' where i: "heap_inv (free_pages p s) F' C (A - {(p, k)}) (P - {(p, k)}) S U"
      using f(3) by blast
    moreover have "L - {(a, n)} = page_chunk ` (P - {(p, k)}) \<union> obj_chunk ` U"
    proof -
      have "page_chunk (p, k) \<notin> page_chunk ` (P - {(p, k)}) \<union> obj_chunk ` U"
        using page_chunk_in[OF i f(2), of k] by blast
      moreover have "L = insert (page_chunk (p, k)) (page_chunk ` (P - {(p, k)}) \<union> obj_chunk ` U)"
        using page(1) L by blast
      ultimately show ?thesis unfolding page(2) by simp
    qed
    ultimately show ?thesis unfolding mm_inv_def by metis
  next
    case (obj i)
    note f = object_free[OF inv obj(1)]
    have i: "i \<le> CACHE_MAX_INDEX" by (rule heap_invD(7)[OF inv obj(1)])
    have "kfree a s = kmem_cache_free a s"
      using f(1) index_word(2)[OF i] by (simp add: kfree_def)
    moreover have "L - {(a, n)} = page_chunk ` P \<union> obj_chunk ` (U - {(a, i)})"
    proof -
      have "obj_chunk (a, i) \<notin> page_chunk ` P \<union> obj_chunk ` (U - {(a, i)})"
        using obj_chunk_in[OF i, of a P "U - {(a, i)}"] by blast
      moreover have "L = insert (obj_chunk (a, i)) (page_chunk ` P \<union> obj_chunk ` (U - {(a, i)}))"
        using obj(1) L by blast
      ultimately show ?thesis unfolding obj(2) by simp
    qed
    ultimately show ?thesis using f(2) unfolding mm_inv_def by metis
  qed
qed

interpretation ha: heap_allocator "NUM_PAGES * PAGE_SIZE" mm_inv kmalloc kfree
proof unfold_locales
  show "mm_inv s L \<Longrightarrow> c \<in> L \<Longrightarrow> chunk_bytes c \<subseteq> {..<NUM_PAGES * PAGE_SIZE}" for s L c
    by (rule mm_chunk_in_memory)
  show "mm_inv s L \<Longrightarrow> c \<in> L \<Longrightarrow> d \<in> L \<Longrightarrow> c \<noteq> d \<Longrightarrow> chunk_bytes c \<inter> chunk_bytes d = {}" for s L c d
    by (rule mm_chunks_disjoint)
  show "mm_inv s L \<Longrightarrow> c \<in> L \<Longrightarrow> 0 < snd c" for s L c
    by (auto simp: mm_inv_def PAGE_SIZE_def)
  show "mm_inv s L \<Longrightarrow> 0 < sz \<Longrightarrow> kmalloc sz s = Inr (a, s') \<Longrightarrow>
      \<exists>n. unat sz \<le> n \<and> (a, n) \<notin> L \<and> mm_inv s' (insert (a, n) L)" for s s' L sz a
    by (rule kmalloc_chunk)
  show "mm_inv s L \<Longrightarrow> (a, n) \<in> L \<Longrightarrow> mm_inv (kfree a s) (L - {(a, n)})" for s L a n
    by (rule kfree_chunk)
qed

section \<open>When the heap fails\<close>

text \<open>
  \<open>kmalloc\<close> follows a null page only when no free block is large enough; a request that fits is
  served. Sizes above \<open>2^30\<close> are outside the shift.
\<close>

lemma kmalloc_serves:
  assumes inv: "heap_inv s F C A P S U" and b: "(p, k) \<in> free_blocks F" and sz: "unat sz \<le> 2 ^ k * PAGE_SIZE"
  shows "\<exists>a s'. kmalloc sz s = Inr (a, s')"
proof (cases "push_bit CACHE_MAX_INDEX CACHE_MIN_SIZE < unat sz")
  case True
  have "k \<le> 10" using b by (simp add: BUDDY_MAX_ORDER_def)
  then have "(2::nat) ^ k \<le> 2 ^ 10" by (intro power_increasing) auto
  then have "unat sz \<le> 2 ^ 30" using sz by (simp add: PAGE_SIZE_def)
  then obtain j where j: "kmalloc_order 0 sz = Inr j" "\<And>i. i < j \<Longrightarrow> 2 ^ i * PAGE_SIZE < unat sz"
    using kmalloc_order_Inr[of sz 0] by auto
  have "j \<le> k" using j(2)[of k] sz by (meson not_le)
  then obtain q s' where "alloc_pages j s = (Some q, s')"
    using alloc_pages_None(2)[OF heap_invD(1)[OF inv], of j] b
    by (cases "alloc_pages j s"; cases "fst (alloc_pages j s)") (force simp del: free_blocks_simps)+
  moreover have "\<not> sz \<le> 0" using True by (auto simp: word_le_nat_alt)
  ultimately show ?thesis using True j(1) by (simp add: kmalloc_def page_to_virt_def)
next
  case False
  then have "unat sz \<le> 2048" by (simp add: push_bit_eq_mult CACHE_MAX_INDEX_def CACHE_MIN_SIZE_def)
  then have "kmalloc_index 0 sz \<le> CACHE_MAX_INDEX" using kmalloc_index_least[of sz 0] by simp
  note c = kmem_cache_alloc_inv[OF inv this]
  obtain r where "kmem_cache_alloc (kmalloc_index 0 sz) s = Inr r"
    using c b by (cases "kmem_cache_alloc (kmalloc_index 0 sz) s") (auto simp del: free_blocks_simps)
  then show ?thesis using False by (cases r) (simp add: kmalloc_def)
qed

lemma kmalloc_too_large:
  assumes "2 ^ 30 < unat sz"
  shows "kmalloc sz s = Inl Bad_Shift"
proof -
  have "\<not> sz \<le> 0" using assms by (auto simp: word_le_nat_alt)
  moreover have "push_bit CACHE_MAX_INDEX CACHE_MIN_SIZE < unat sz"
    using assms by (simp add: push_bit_eq_mult CACHE_MAX_INDEX_def CACHE_MIN_SIZE_def)
  ultimately show ?thesis by (simp add: kmalloc_def kmalloc_order_Inl[OF assms])
qed

text \<open>A request larger than the largest block, and not above \<open>2^30\<close>, meets the null page.\<close>

lemma kmalloc_no_block:
  assumes inv: "heap_inv s F C A P S U"
    and "2048 < unat sz" and "unat sz \<le> 2 ^ 30"
    and no: "\<And>p k. (p, k) \<in> free_blocks F \<Longrightarrow> 2 ^ k * PAGE_SIZE < unat sz"
  shows "kmalloc sz s = Inl Null_Pointer"
proof -
  obtain j where j: "kmalloc_order 0 sz = Inr j" "unat sz \<le> 2 ^ j * PAGE_SIZE"
    using kmalloc_order_Inr[of sz 0] assms(3) by auto
  have "alloc_pages j s = (None, s)"
  proof (cases "alloc_pages j s")
    case (Pair r s')
    show ?thesis
    proof (cases r)
      case (Some p)
      then obtain k where "j \<le> k" "(p, k) \<in> free_blocks F"
        using alloc_pages_inv(4)[OF heap_invD(1)[OF inv]] Pair by blast
      then have "2 ^ k * PAGE_SIZE < 2 ^ j * PAGE_SIZE" using no[of p k] j(2) by linarith
      moreover have "(2::nat) ^ j \<le> 2 ^ k" using \<open>j \<le> k\<close> by (rule power_increasing) simp
      ultimately show ?thesis by simp
    qed (use Pair alloc_pages_None(1)[OF heap_invD(1)[OF inv], of j] in simp)
  qed
  moreover have "\<not> sz \<le> 0" using assms(2) by (auto simp: word_le_nat_alt)
  moreover have "push_bit CACHE_MAX_INDEX CACHE_MIN_SIZE < unat sz"
    using assms(2) by (simp add: push_bit_eq_mult CACHE_MAX_INDEX_def CACHE_MIN_SIZE_def)
  ultimately show ?thesis using j(1) by (simp add: kmalloc_def page_to_virt_def)
qed

section \<open>Runs of the heap\<close>

text \<open>
  A run from \<open>s0\<close>: requests that succeed, and chunks given back. \<open>R\<close> is the client's view, the
  addresses with the sizes it asked for.
\<close>

inductive heap_run :: "mm \<Rightarrow> mm \<Rightarrow> chunk set \<Rightarrow> bool" for s0 where
  run_start: "heap_run s0 s0 {}"
| run_kmalloc: "heap_run s0 s R \<Longrightarrow> 0 < sz \<Longrightarrow> kmalloc sz s = Inr (a, s') \<Longrightarrow>
    heap_run s0 s' (insert (a, unat sz) R)"
| run_kfree: "heap_run s0 s R \<Longrightarrow> (a, n) \<in> R \<Longrightarrow> heap_run s0 (kfree a s) (R - {(a, n)})"

lemma mem_init_heap:
  assumes "mem_init s = Inr s'"
  shows "mm_inv s' {}"
proof -
  obtain F A where "buddy_inv s' F (\<lambda>_. []) A {}" "\<forall>p<NUM_PAGES. cacheidx (mem_map s' p) = CACHE_UNALLOC"
    using mem_init_inv[of s] assms by auto
  then have "heap_inv s' F (\<lambda>_. []) A {} {} {}" by (auto intro!: heap_invI)
  then show ?thesis unfolding mm_inv_def by (intro exI conjI) auto
qed

text \<open>The chunks \<open>L\<close> of the heap cover the client's, address by address.\<close>

definition covers :: "chunk set \<Rightarrow> chunk set \<Rightarrow> bool" where
  "covers L R \<longleftrightarrow>
     (\<forall>(a, n)\<in>R. \<exists>m. n \<le> m \<and> (a, m) \<in> L) \<and>
     (\<forall>a n m. (a, n) \<in> R \<and> (a, m) \<in> R \<longrightarrow> n = m) \<and> fst ` L = fst ` R"

lemma heap_run_inv:
  assumes "heap_run s0 s R" and "mm_inv s0 {}"
  shows "\<exists>L. mm_inv s L \<and> covers L R"
  using assms
proof (induction rule: heap_run.induct)
  case run_start
  then show ?case by (auto simp: covers_def)
next
  case (run_kmalloc s R sz a s')
  then obtain L where L: "mm_inv s L" "covers L R" by blast
  obtain n where n: "unat sz \<le> n" "(a, n) \<notin> L" "mm_inv s' (insert (a, n) L)"
    using ha.alloc_chunk[OF L(1) run_kmalloc(2,3)] by blast
  have "(a, m) \<notin> L" for m using ha.same_address[OF n(3), of a m n] n(2) by auto
  then have "a \<notin> fst ` L" by auto
  then have "a \<notin> fst ` R" using L(2) by (simp add: covers_def)
  then have "covers (insert (a, n) L) (insert (a, unat sz) R)"
    using L(2) n(1) unfolding covers_def by (force simp: image_iff)
  then show ?case using n(3) by blast
next
  case (run_kfree s R a n)
  then obtain L where L: "mm_inv s L" "covers L R" by blast
  obtain m where m: "(a, m) \<in> L" using L(2) run_kfree(2) unfolding covers_def by blast
  have uL: "(a, k) \<in> L \<longleftrightarrow> k = m" for k using ha.same_address[OF L(1), of a k m] m by blast
  have uR: "(a, k) \<in> R \<longleftrightarrow> k = n" for k using L(2) run_kfree(2) unfolding covers_def by blast
  have "covers (L - {(a, m)}) (R - {(a, n)})"
    unfolding covers_def
  proof (intro conjI)
    show "\<forall>(b, k)\<in>R - {(a, n)}. \<exists>j. k \<le> j \<and> (b, j) \<in> L - {(a, m)}"
      using L(2) uR unfolding covers_def by blast
    show "\<forall>b k j. (b, k) \<in> R - {(a, n)} \<and> (b, j) \<in> R - {(a, n)} \<longrightarrow> k = j"
      using L(2) unfolding covers_def by blast
    have "fst ` (L - {(a, m)}) = fst ` L - {a}" using uL by force
    moreover have "fst ` (R - {(a, n)}) = fst ` R - {a}" using uR by force
    ultimately show "fst ` (L - {(a, m)}) = fst ` (R - {(a, n)})" using L(2) by (simp add: covers_def)
  qed
  then show ?case using ha.free_chunk[OF L(1) m] by blast
qed

lemma covers_disjoint:
  assumes L: "mm_inv s L" "covers L R" and c: "c \<in> R" and d: "d \<in> R" and "c \<noteq> d"
  shows "chunk_bytes c \<inter> chunk_bytes d = {}" and "chunk_bytes c \<subseteq> {..<NUM_PAGES * PAGE_SIZE}"
proof -
  obtain a n b k where cd: "c = (a, n)" "d = (b, k)" by (cases c; cases d)
  have ab: "a \<noteq> b" using assms(5) c d L(2) unfolding cd covers_def by blast
  obtain m j where m: "n \<le> m" "(a, m) \<in> L" and j: "k \<le> j" "(b, j) \<in> L"
    using L(2) c d unfolding cd covers_def by blast
  have sub: "chunk_bytes c \<subseteq> chunk_bytes (a, m)" "chunk_bytes d \<subseteq> chunk_bytes (b, j)"
    using m(1) j(1) by (auto simp: cd)
  show "chunk_bytes c \<inter> chunk_bytes d = {}"
    using ha.chunks_disjoint[OF L(1) m(2) j(2)] ab sub by blast
  show "chunk_bytes c \<subseteq> {..<NUM_PAGES * PAGE_SIZE}" using ha.in_memory[OF L(1) m(2)] sub by blast
qed

end
