(* ===== verification/Memory.thy ===== *)
theory Memory
  imports Kmalloc
begin

text \<open>
  What \<open>src/mm.c\<close> promises to the rest of the kernel: the properties of the page allocator, of
  \<open>reserve_memory\<close> and \<open>mem_init\<close>, and of \<open>kmalloc\<close> and \<open>kfree\<close>, each with an instance on the memory
  the kernel boots with. The proofs rest on the invariants of the theories below and on the interfaces
  \<open>page_allocator\<close> and \<open>heap_allocator\<close>.
\<close>

section \<open>The memory at boot\<close>

text \<open>
  The state before \<open>mem_init\<close>: a cleared \<open>.bss\<close>, and \<open>heap_top\<close> at the end of a kernel image loaded
  at \<open>0x80200000\<close>.
\<close>

definition boot_mm :: mm where
  "boot_mm = \<lparr>mem_map = (\<lambda>_. \<lparr>order = 0, used = 0, cacheidx = 0, refcount = 0\<rparr>),
     links = (\<lambda>_. \<lparr>prv = PageList 0, nxt = PageList 0\<rparr>),
     heap_top = 0xffffffc080220000\<rparr>"

lemma boot_end_value: "boot_end (heap_top boot_mm) = 0x82a20"
  by (simp add: boot_mm_def boot_end_def virt_to_phys_def PAGE_OFFSET_def SIZEOF_PAGE_def
      NUM_PAGES_def PAGE_SIZE_def page_mask_def)

text \<open>All memory free: the first block of the highest order is the first of its list.\<close>

lemma top_lists_max: "top_lists NUM_PAGES BUDDY_MAX_ORDER = 0 # tl (top_lists NUM_PAGES BUDDY_MAX_ORDER)"
proof -
  have "0 < NUM_PAGES" by (simp add: NUM_PAGES_def)
  then have "[0..<NUM_PAGES] = 0 # [Suc 0..<NUM_PAGES]" by (rule upt_conv_Cons)
  then show ?thesis by (simp add: top_lists_def top_blocks_def)
qed

lemma boot_alloc:
  obtains s' where "alloc_pages BUDDY_MAX_ORDER (mem_init_free s) = (Some 0, s')"
proof (cases "alloc_pages BUDDY_MAX_ORDER (mem_init_free s)")
  case (Pair r s')
  have m: "(0, BUDDY_MAX_ORDER) \<in> free_blocks (top_lists NUM_PAGES)"
    using top_lists_max by (metis free_blocks_simps le_refl list.set_intros(1))
  have e: "\<not> list_empty (FreeArea BUDDY_MAX_ORDER) (links (mem_init_free s))"
    using free_area_empty[OF mem_init_free_inv le_refl] top_lists_max by (metis list.distinct(1))
  have f: "list_first_entry (FreeArea BUDDY_MAX_ORDER) (links (mem_init_free s)) = PageList 0"
    by (rule take_step(1)[OF mem_init_free_inv le_refl top_lists_max])
  have "fst (alloc_pages BUDDY_MAX_ORDER (mem_init_free s)) = Some 0"
    unfolding alloc_pages_def alloc_from.simps[of BUDDY_MAX_ORDER BUDDY_MAX_ORDER] using e f by (simp add: Let_def)
  then show thesis using that Pair by simp
qed

lemma boot_pages: "pages_inv (\<lambda>_. []) (mem_init_free s) {}"
  unfolding pages_inv_def using mem_init_free_inv by blast

section \<open>Pages\<close>

text \<open>C3: \<open>alloc_pages\<close> hands out an aligned block inside the memory, disjoint from every block handed
  out before, records its order and its owner, and keeps the invariant of the allocator.\<close>

theorem alloc_pages_correct:
  assumes "pages_inv C s A" and "alloc_pages k s = (Some p, s')"
  shows "pages_inv C s' (insert (p, k) A) \<and> frames (p, k) \<subseteq> {..<NUM_PAGES} - all_frames A \<and>
    2 ^ k dvd p \<and> mem_map s' p = (mem_map s p)\<lparr>order := k, used := 1, refcount := 1\<rparr>"
proof -
  obtain F where inv: "buddy_inv s F C A {}" using assms(1) by (auto simp: pages_inv_def)
  have "cacheidx (mem_map s' p) = cacheidx (mem_map s p)"
    using alloc_pages_inv(2)[OF inv assms(2)] by (simp add: only_orders_def)
  then have "mem_map s' p = (mem_map s p)\<lparr>order := k, used := 1, refcount := 1\<rparr>"
    using alloc_pages_inv(5-7)[OF inv assms(2)] by simp
  moreover have "frames (p, k) \<subseteq> {..<NUM_PAGES} - all_frames A" "2 ^ k dvd p"
    using pa.alloc_fresh[OF assms] by auto
  ultimately show ?thesis using pa.alloc_some[OF assms] by blast
qed

theorem alloc_pages_correct_witness:
  "\<exists>s'. alloc_pages BUDDY_MAX_ORDER (mem_init_free boot_mm) = (Some 0, s') \<and>
     pages_inv (\<lambda>_. []) s' {(0, 10)} \<and> frames (0, 10) \<subseteq> {..<NUM_PAGES}"
proof -
  obtain s' where a: "alloc_pages BUDDY_MAX_ORDER (mem_init_free boot_mm) = (Some 0, s')" by (rule boot_alloc)
  show ?thesis using alloc_pages_correct[OF boot_pages a] a by (auto simp: BUDDY_MAX_ORDER_def)
qed

text \<open>C9: \<open>alloc_pages\<close> fails exactly when no free block is large enough, and then changes nothing.\<close>

theorem alloc_pages_fails_iff:
  assumes inv: "buddy_inv s F C A {}"
  shows "(fst (alloc_pages k s) = None \<longleftrightarrow> (\<forall>b\<in>free_blocks F. snd b < k)) \<and>
    (fst (alloc_pages k s) = None \<longrightarrow> snd (alloc_pages k s) = s)"
  by (rule alloc_pages_fails[OF inv])

theorem alloc_pages_fails_iff_witness:
  "fst (alloc_pages 11 (mem_init_free boot_mm)) = None"
proof -
  have "\<forall>b\<in>free_blocks (top_lists NUM_PAGES). snd b < 11"
    by (auto simp: free_blocks_def BUDDY_MAX_ORDER_def)
  then show ?thesis using alloc_pages_fails_iff[OF mem_init_free_inv, of 11 boot_mm] by blast
qed

text \<open>C7: freeing a block takes exactly that block away from the blocks handed out, and a block of its
  order can be had again.\<close>

theorem free_pages_correct:
  assumes "pages_inv C s A" and "(p, k) \<in> A"
  shows "pages_inv C (free_pages p s) (A - {(p, k)}) \<and> fst (alloc_pages k (free_pages p s)) \<noteq> None"
proof -
  obtain F where inv: "buddy_inv s F C A {}" using assms(1) by (auto simp: pages_inv_def)
  obtain F' c' k' where F': "buddy_inv (free_pages p s) F' C (A - {(p, k)}) {}"
    and "(c', k') \<in> free_blocks F'" "k \<le> k'"
    using assms(2) by (rule free_pages_block[OF inv])
  then have "fst (alloc_pages k (free_pages p s)) \<noteq> None"
    using alloc_pages_None(2)[OF F', of k] by (cases "alloc_pages k (free_pages p s)") force
  then show ?thesis using pa.release[OF assms] by blast
qed

theorem free_pages_correct_witness:
  "\<exists>s'. alloc_pages BUDDY_MAX_ORDER (mem_init_free boot_mm) = (Some 0, s') \<and>
     pages_inv (\<lambda>_. []) (free_pages 0 s') {}"
proof -
  obtain s' where a: "alloc_pages BUDDY_MAX_ORDER (mem_init_free boot_mm) = (Some 0, s')" by (rule boot_alloc)
  have i: "pages_inv (\<lambda>_. []) s' {(0, BUDDY_MAX_ORDER)}" using pa.alloc_some[OF boot_pages a] by simp
  show ?thesis using free_pages_correct[OF i, of 0 BUDDY_MAX_ORDER] a by simp
qed

text \<open>A free block is unmarked when \<open>used\<close> is clear in its first frame. \<open>free_pages\<close> looks at this mark of the buddy
  only, and an unmarked buddy of the same order is a free one. The free blocks are merged when no two of them are
  buddies of one order.\<close>

definition unmarked :: "mm \<Rightarrow> (nat \<Rightarrow> nat list) \<Rightarrow> bool" where
  "unmarked s F \<longleftrightarrow> (\<forall>(p, k) \<in> free_blocks F. used (mem_map s p) = 0)"

definition merged :: "(nat \<Rightarrow> nat list) \<Rightarrow> bool" where
  "merged F \<longleftrightarrow> (\<forall>(p, k) \<in> free_blocks F. k < BUDDY_MAX_ORDER \<longrightarrow> (get_buddy p k, k) \<notin> free_blocks F)"

lemma buddy_twice: "get_buddy (get_buddy p k) k = p"
  by (simp add: get_buddy_def ac_simps)

lemma merged_insert:
  assumes m: "merged F" and sub: "free_blocks F' \<subseteq> insert (c, k) (free_blocks F)"
    and c: "k < BUDDY_MAX_ORDER \<Longrightarrow> (get_buddy c k, k) \<notin> free_blocks F'"
  shows "merged F'"
  unfolding merged_def
proof (intro ballI, clarify)
  fix q j assume q: "(q, j) \<in> free_blocks F'" "j < BUDDY_MAX_ORDER" "(get_buddy q j, j) \<in> free_blocks F'"
  show False
  proof (cases "(q, j) = (c, k) \<or> (get_buddy q j, j) = (c, k)")
    case True
    then show False using c q buddy_twice by auto
  next
    case False
    then have "(q, j) \<in> free_blocks F" "(get_buddy q j, j) \<in> free_blocks F" using q(1,3) sub by blast+
    then show False using m q(2) unfolding merged_def by fastforce
  qed
qed

text \<open>C8: after \<open>free_pages\<close> the freed frames lie in one free block, whose first frame is unmarked and has no reference.
  When every free block was unmarked, every free block is so afterwards, the buddy of the new one is not free at its
  order, and free blocks that were merged as far as they go before are so again. (\<open>alloc_pages\<close> can split off a
  block whose first frame kept its mark, since \<open>free_pages\<close> clears the mark of the merged block only.)\<close>

theorem free_pages_merges:
  assumes inv: "buddy_inv s F C A {}" and p: "(p, k) \<in> A"
  shows "\<exists>F' c' k'. buddy_inv (free_pages p s) F' C (A - {(p, k)}) {} \<and> (c', k') \<in> free_blocks F' \<and>
    frames (p, k) \<subseteq> frames (c', k') \<and> free_blocks F' \<subseteq> insert (c', k') (free_blocks F) \<and>
    mem_map (free_pages p s) = (mem_map s)(c' := (mem_map s c')\<lparr>order := k', used := 0, refcount := 0\<rparr>) \<and>
    (unmarked s F \<longrightarrow> unmarked (free_pages p s) F' \<and>
       (k' = BUDDY_MAX_ORDER \<or> (get_buddy c' k', k') \<notin> free_blocks F') \<and> (merged F \<longrightarrow> merged F'))"
proof -
  obtain F' c' k' where F': "buddy_inv (free_pages p s) F' C (A - {(p, k)}) {}"
    and m: "(c', k') \<in> free_blocks F'" and sb: "free_blocks F' \<subseteq> insert (c', k') (free_blocks F)"
    and sub: "frames (p, k) \<subseteq> frames (c', k')"
    and w: "mem_map (free_pages p s) = (mem_map s)(c' := (mem_map s c')\<lparr>order := k', used := 0, refcount := 0\<rparr>)"
    and e: "k' < BUDDY_MAX_ORDER \<Longrightarrow>
      used (mem_map s (buddy c' k')) \<noteq> 0 \<or> order (mem_map s (buddy c' k')) \<noteq> k'"
    using p by (rule free_pages_block[OF inv]) blast
  have k': "k' = BUDDY_MAX_ORDER \<or> k' < BUDDY_MAX_ORDER" using m by auto
  have "bit (get_buddy c' k') k' \<noteq> bit c' k'" by (simp add: get_buddy_def bit_simps)
  then have nb: "get_buddy c' k' \<noteq> c'" by metis
  have free: "(get_buddy c' k', k') \<notin> free_blocks F'" if u: "unmarked s F" and l: "k' < BUDDY_MAX_ORDER"
  proof
    assume "(get_buddy c' k', k') \<in> free_blocks F'"
    then have "(get_buddy c' k', k') \<in> free_blocks F" using sb nb by blast
    then show False using e[OF l] u buddy_invD(5)[OF inv] unfolding unmarked_def get_buddy_eq by fastforce
  qed
  have "unmarked (free_pages p s) F'" if "unmarked s F"
    using that sb unfolding unmarked_def w by (fastforce simp del: free_blocks_simps)
  then show ?thesis using F' m sb sub w free k' merged_insert[OF _ sb] by blast
qed

theorem free_pages_merges_witness:
  "\<exists>s' F F' A. alloc_pages BUDDY_MAX_ORDER (mem_init_free boot_mm) = (Some 0, s') \<and> unmarked s' F \<and>
     buddy_inv (free_pages 0 s') F' (\<lambda>_. []) {} {} \<and> unmarked (free_pages 0 s') F' \<and>
     frames (0, BUDDY_MAX_ORDER) \<subseteq> all_frames (free_blocks F')"
proof -
  obtain s' where a: "alloc_pages BUDDY_MAX_ORDER (mem_init_free boot_mm) = (Some 0, s')" by (rule boot_alloc)
  obtain F where i: "buddy_inv s' F (\<lambda>_. []) {(0, BUDDY_MAX_ORDER)} {}"
    using alloc_pages_inv(1)[OF mem_init_free_inv a] by blast
  have o: "only_orders {0} (mem_init_free boot_mm) s'" by (rule alloc_pages_inv(2)[OF mem_init_free_inv a])
  have "used (mem_map s' p) = 0" if p: "(p, k) \<in> free_blocks F" for p k
  proof -
    have "p \<in> frames (p, k)" by (rule first_frame)
    then have n: "p < NUM_PAGES" using tilesD(3)[OF buddy_invD(2)[OF i], of "(p, k)"] p by blast
    have "p \<noteq> 0"
    proof
      assume "p = 0"
      then have "(p, k) = (0, BUDDY_MAX_ORDER)" by (intro block_unique[OF i, of _ _ 0]) (use p first_frame in auto)
      then show False using buddy_invD(3)[OF i] p by blast
    qed
    then have "used (mem_map s' p) = used (mem_map (mem_init_free boot_mm) p)" using o by (auto simp: only_orders_def)
    then show ?thesis using mem_init_free_page[OF n] by simp
  qed
  then have u: "unmarked s' F" by (auto simp: unmarked_def simp del: free_blocks_simps)
  have "(0, BUDDY_MAX_ORDER) \<in> {(0 :: nat, BUDDY_MAX_ORDER)}" by simp
  from free_pages_merges[OF i this] obtain F' c' k' where "buddy_inv (free_pages 0 s') F' (\<lambda>_. []) {} {}"
    "(c', k') \<in> free_blocks F'" "frames (0, BUDDY_MAX_ORDER) \<subseteq> frames (c', k')" "unmarked (free_pages 0 s') F'"
    using u by (simp del: frames.simps free_blocks_simps) blast
  then show ?thesis using a u unfolding all_frames_def by blast
qed

text \<open>The frames handed out never exceed the memory, whatever the sequence of operations.\<close>

theorem pages_bounded:
  assumes "pages_inv C s A"
  shows "finite A \<and> (\<Sum>(p, k)\<in>A. 2 ^ k) \<le> NUM_PAGES"
  using pa.handed_out_bounded[OF assms] by blast

theorem pages_bounded_witness: "(\<Sum>(p, k)\<in>({} :: block set). 2 ^ k) \<le> NUM_PAGES"
  using pages_bounded[OF boot_pages[of boot_mm]] by blast

lemma buddy_refcount:
  assumes "buddy_inv s F C A {}"
  shows "buddy_inv (upd_page p (\<lambda>pg. pg\<lparr>refcount := f pg\<rparr>) s) F C A {}"
  by (rule buddy_invI) (use buddy_invD[OF assms] in \<open>auto simp del: free_blocks_simps\<close>)

lemma upd_refcount_inv: "pages_inv C s A \<Longrightarrow> pages_inv C (upd_page p (\<lambda>pg. pg\<lparr>refcount := f pg\<rparr>) s) A"
  using buddy_refcount unfolding pages_inv_def by blast

lemma heap_inv_refcount:
  assumes "heap_inv s F C A P S U"
  shows "heap_inv (upd_page p (\<lambda>pg. pg\<lparr>refcount := f pg\<rparr>) s) F C A P S U"
  by (rule heap_inv_pages[OF assms buddy_refcount[OF heap_invD(1)[OF assms]] heap_invD(2)[OF assms]])
    (use heap_invD(4)[OF assms] in auto)

lemma mm_inv_refcount: "mm_inv s L \<Longrightarrow> mm_inv (upd_page p (\<lambda>pg. pg\<lparr>refcount := f pg\<rparr>) s) L"
  using heap_inv_refcount unfolding mm_inv_def by blast

text \<open>\<open>put_page\<close> frees the block exactly when the last reference goes, and undoes \<open>get_page\<close> on a
  page that is referenced.\<close>

theorem put_page_correct:
  assumes inv: "pages_inv C s A" and p: "(p, k) \<in> A"
  shows "pages_inv C (put_page p s) (if refcount (mem_map s p) = 1 then A - {(p, k)} else A) \<and>
    (refcount (mem_map s p) \<noteq> 0 \<longrightarrow> put_page p (get_page p s) = s)"
proof
  let ?s = "upd_page p (\<lambda>pg. pg\<lparr>refcount := refcount pg - 1\<rparr>) s"
  note i = upd_refcount_inv[OF inv, of p "\<lambda>pg. refcount pg - 1"]
  have z: "refcount (mem_map ?s p) = 0 \<longleftrightarrow> refcount (mem_map s p) = 1" by simp
  show "pages_inv C (put_page p s) (if refcount (mem_map s p) = 1 then A - {(p, k)} else A)"
  proof (cases "refcount (mem_map s p) = 1")
    case True
    then have "put_page p s = free_pages p ?s" by (simp add: put_page_def)
    then show ?thesis using pa.release[OF i p] True by simp
  next
    case False
    then have "put_page p s = ?s" by (simp add: put_page_def)
    then show ?thesis using i False by simp
  qed
  show "refcount (mem_map s p) \<noteq> 0 \<longrightarrow> put_page p (get_page p s) = s"
    by (simp add: put_page_def get_page_def upd_page_def)
qed

theorem put_page_correct_witness:
  "\<exists>s'. alloc_pages BUDDY_MAX_ORDER (mem_init_free boot_mm) = (Some 0, s') \<and>
     pages_inv (\<lambda>_. []) (put_page 0 s') {}"
proof -
  obtain s' where a: "alloc_pages BUDDY_MAX_ORDER (mem_init_free boot_mm) = (Some 0, s')" by (rule boot_alloc)
  have i: "pages_inv (\<lambda>_. []) s' {(0, BUDDY_MAX_ORDER)}" using pa.alloc_some[OF boot_pages a] by simp
  have "refcount (mem_map s' 0) = 1" by (rule alloc_pages_inv(7)[OF mem_init_free_inv a])
  then show ?thesis using put_page_correct[OF i, of 0 BUDDY_MAX_ORDER] a by simp
qed

section \<open>Reserving memory and booting\<close>

text \<open>C4: \<open>reserve_memory\<close> returns on every range, and takes exactly the frames of the range, rounded
  out to pages, out of the free frames; what was handed out before stays handed out.\<close>

theorem reserve_memory_exact:
  fixes addr sz :: u64
  assumes inv: "buddy_inv s F C A {}"
  shows "\<exists>s' F' A'. reserve_memory addr sz s = Inr s' \<and> buddy_inv s' F' C A' {} \<and> A \<subseteq> A' \<and>
    all_frames (free_blocks F') = all_frames (free_blocks F) -
      {unat (addr AND page_mask) div PAGE_SIZE ..<
       unat ((addr + sz + of_nat PAGE_SIZE - 1) AND page_mask) div PAGE_SIZE}"
  using reserve_memory_inv[OF inv, of addr sz] unfolding range_frames_def by blast

theorem reserve_memory_exact_witness:
  "\<exists>s' F' A'. reserve_memory 0x1800 0x1000 (mem_init_free boot_mm) = Inr s' \<and>
     buddy_inv s' F' (\<lambda>_. []) A' {} \<and> all_frames (free_blocks F') = {..<NUM_PAGES} - {1 ..< 3}"
proof -
  have f: "all_frames (free_blocks (top_lists NUM_PAGES)) = {..<NUM_PAGES}"
    using free_frames[OF mem_init_free_inv] by simp
  have r: "unat ((0x1800 :: u64) AND page_mask) div PAGE_SIZE = 1"
    "unat ((0x1800 + 0x1000 + of_nat PAGE_SIZE - 1 :: u64) AND page_mask) div PAGE_SIZE = 3"
    by (simp_all add: page_mask_def PAGE_SIZE_def)
  show ?thesis
    using reserve_memory_exact[OF mem_init_free_inv, of "0x1800" "0x1000" boot_mm] unfolding f r by blast
qed

text \<open>A page of physical memory that lies in a chunk.\<close>

definition page_in :: "chunk set \<Rightarrow> u64 \<Rightarrow> bool" where
  "page_in L a \<longleftrightarrow> (\<exists>c n. (c, n) \<in> L \<and> unat (a - c) + PAGE_SIZE \<le> n)"

lemma unat_page_diff:
  assumes "p \<le> q" and "q < NUM_PAGES"
  shows "unat (page_addr q - page_addr p) = (q - p) * 4096"
proof -
  have "page_addr q - page_addr p = of_nat (q * 4096) - of_nat (p * 4096)"
    by (simp add: page_addr_def phys_to_virt_def PAGE_SIZE_def)
  also have "\<dots> = of_nat (q * 4096 - p * 4096)" using assms(1) by (simp add: of_nat_diff)
  finally have "page_addr q - page_addr p = of_nat ((q - p) * 4096)" by (simp add: diff_mult_distrib)
  moreover have "(q - p) * 4096 < 2 ^ 64" using assms(2) by (simp add: NUM_PAGES_def)
  ultimately show ?thesis using unat_small[of "(q - p) * 4096"] by (simp only:)
qed

text \<open>The kernel image and the page array count as chunks in use that nobody frees.\<close>

lemma mem_init_reserved:
  assumes "mem_init s = Inr s'"
  obtains L where "mm_inv s' L" and "\<forall>p < NUM_PAGES. p < boot_end (heap_top s) \<longrightarrow> page_in L (page_addr p)"
proof -
  obtain F A where s: "buddy_inv s' F (\<lambda>_. []) A {}" "\<forall>p < NUM_PAGES. cacheidx (mem_map s' p) = CACHE_UNALLOC"
    "all_frames (free_blocks F) = {boot_end (heap_top s) ..< NUM_PAGES}" using mem_init_inv[of s] assms(1) by auto
  have "heap_inv s' F (\<lambda>_. []) A A {} {}" using s(1,2) by (auto intro!: heap_invI)
  then have m: "mm_inv s' (page_chunk ` A)" unfolding mm_inv_def by (intro exI conjI) auto
  have t: "tiles BUDDY_MAX_ORDER NUM_PAGES (free_blocks F \<union> A)" using buddy_invD(2)[OF s(1)] by simp
  have "page_in (page_chunk ` A) (page_addr p)" if p: "p < NUM_PAGES" "p < boot_end (heap_top s)" for p
  proof -
    obtain b where b: "b \<in> free_blocks F \<union> A" "p \<in> frames b" by (rule tiles_cover[OF t p(1)])
    have "p \<notin> all_frames (free_blocks F)" using p(2) s(3) by simp
    then have "b \<in> A" using b by (auto simp: all_frames_def)
    moreover obtain q k where q: "b = (q, k)" by (cases b)
    moreover have "q \<le> p" "p + 1 \<le> q + 2 ^ k" using b(2) q by simp_all
    then have "unat (page_addr p - page_addr q) + PAGE_SIZE \<le> 2 ^ k * PAGE_SIZE"
      using unat_page_diff[of q p] p(1) by (simp add: PAGE_SIZE_def) 
    ultimately show ?thesis unfolding page_in_def by (intro exI[of _ "page_addr q"] exI[of _ "2 ^ k * PAGE_SIZE"]) force
  qed
  then show thesis using that m by blast
qed

text \<open>C5: \<open>mem_init\<close> returns, with the invariant established and exactly the frames above the kernel
  image and the page array free; the pages below are in use for good.\<close>

theorem mem_init_correct:
  "\<exists>s' F A L. mem_init s = Inr s' \<and> buddy_inv s' F (\<lambda>_. []) A {} \<and> mm_inv s' {} \<and>
     all_frames (free_blocks F) = {boot_end (heap_top s) ..< NUM_PAGES} \<and>
     mm_inv s' L \<and> (\<forall>p < NUM_PAGES. p < boot_end (heap_top s) \<longrightarrow> page_in L (page_addr p))"
proof -
  obtain s' F A where s: "mem_init s = Inr s'" "buddy_inv s' F (\<lambda>_. []) A {}"
    "all_frames (free_blocks F) = {boot_end (heap_top s) ..< NUM_PAGES}" using mem_init_inv[of s] by blast
  obtain L where "mm_inv s' L" "\<forall>p < NUM_PAGES. p < boot_end (heap_top s) \<longrightarrow> page_in L (page_addr p)"
    by (rule mem_init_reserved[OF s(1)])
  then show ?thesis using s mem_init_heap[OF s(1)] by blast
qed

section \<open>The heap\<close>

theorem mem_init_correct_witness:
  "\<exists>s' L. mem_init boot_mm = Inr s' \<and> mm_inv s' {} \<and> mm_inv s' L \<and> page_in L (page_addr 0x80200)"
proof -
  have "(0x80200 :: nat) < NUM_PAGES" "0x80200 < boot_end (heap_top boot_mm)" unfolding boot_end_value by (simp_all add: NUM_PAGES_def)
  then show ?thesis using mem_init_correct[of boot_mm] by blast
qed

lemma boot_heap:
  obtains s F A where "mem_init boot_mm = Inr s" "heap_inv s F (\<lambda>_. []) A {} {} {}"
    "all_frames (free_blocks F) = {0x82a20 ..< NUM_PAGES}"
proof -
  obtain s F A where s: "mem_init boot_mm = Inr s" "buddy_inv s F (\<lambda>_. []) A {}"
    "\<forall>p<NUM_PAGES. cacheidx (mem_map s p) = CACHE_UNALLOC"
    "all_frames (free_blocks F) = {0x82a20 ..< NUM_PAGES}"
    using mem_init_inv[of boot_mm] boot_end_value by metis
  have "heap_inv s F (\<lambda>_. []) A {} {} {}" using s(2,3) by (auto intro!: heap_invI)
  then show thesis using that s by blast
qed

lemma boot_free:
  obtains s F A p k where "mem_init boot_mm = Inr s" "heap_inv s F (\<lambda>_. []) A {} {} {}"
    "(p, k) \<in> free_blocks F"
proof -
  obtain s F A where s: "mem_init boot_mm = Inr s" "heap_inv s F (\<lambda>_. []) A {} {} {}"
    "all_frames (free_blocks F) = {0x82a20 ..< NUM_PAGES}" by (rule boot_heap)
  have "0x82a20 \<in> all_frames (free_blocks F)" by (simp add: s(3) NUM_PAGES_def)
  then obtain b where "b \<in> free_blocks F" by (auto simp: all_frames_def)
  then show thesis using that s by (metis surj_pair)
qed

lemma boot_kmalloc:
  assumes "unat sz \<le> PAGE_SIZE"
  obtains s a s' where "mem_init boot_mm = Inr s" "mm_inv s {}" "kmalloc sz s = Inr (a, s')"
proof -
  obtain s F A p k where s: "mem_init boot_mm = Inr s" "heap_inv s F (\<lambda>_. []) A {} {} {}"
    "(p, k) \<in> free_blocks F" by (rule boot_free)
  have "PAGE_SIZE \<le> 2 ^ k * PAGE_SIZE" by simp
  then have "unat sz \<le> 2 ^ k * PAGE_SIZE" using assms by linarith
  then show thesis using kmalloc_serves[OF s(2,3)] mem_init_heap[OF s(1)] that s(1) by blast
qed

text \<open>Two requests served one after the other, the first with a page and the second with an object.\<close>

lemma boot_two:
  obtains s a s' b s'' where "mem_init boot_mm = Inr s" "kmalloc 4000 s = Inr (a, s')"
    "kmalloc 100 s' = Inr (b, s'')"
proof -
  obtain s F A where s: "mem_init boot_mm = Inr s" "heap_inv s F (\<lambda>_. []) A {} {} {}"
    "all_frames (free_blocks F) = {0x82a20 ..< NUM_PAGES}" by (rule boot_heap)
  have free: "\<exists>p k. (p, k) \<in> free_blocks G" if "f \<in> all_frames (free_blocks G)" for f G
    using that unfolding all_frames_def by (metis UN_E surj_pair)
  obtain p k where "(p, k) \<in> free_blocks F"
    using free[of "0x82a20" F] s(3) by (auto simp: NUM_PAGES_def simp del: free_blocks_simps)
  then have "fst (alloc_pages 0 s) \<noteq> None"
    using alloc_pages_fails[OF heap_invD(1)[OF s(2)], of 0] by (auto simp del: free_blocks_simps)
  then obtain q s' where q: "alloc_pages 0 s = (Some q, s')" by (cases "alloc_pages 0 s") auto
  obtain F' where F': "heap_inv s' F' (\<lambda>_. []) (insert (q, 0) A) {(q, 0)} {} {}"
    using page_take(1)[OF s(2) q] by blast
  have "all_frames (free_blocks F') = {0x82a20 ..< NUM_PAGES} - {q}"
    using free_frames[OF heap_invD(1)[OF s(2)]] free_frames[OF heap_invD(1)[OF F']] s(3)
    by (auto simp: all_frames_def)
  moreover have "0x82a20 \<noteq> q \<or> 0x82a21 \<noteq> q" by simp
  ultimately have "\<exists>p k. (p, k) \<in> free_blocks F'"
    using free[of "0x82a20" F'] free[of "0x82a21" F'] by (cases "q = 0x82a20") (simp_all add: NUM_PAGES_def del: free_blocks_simps)
  then obtain p' k' where b: "(p', k') \<in> free_blocks F'" by blast
  have "unat (100 :: u32) \<le> 1 * PAGE_SIZE" "1 * PAGE_SIZE \<le> 2 ^ k' * PAGE_SIZE" by (simp_all add: PAGE_SIZE_def)
  then obtain b s'' where "kmalloc 100 s' = Inr (b, s'')"
    using kmalloc_serves[OF F' b, of 100] by (meson order_trans)
  moreover have "kmalloc_order 0 4000 = Inr 0" by (simp add: kmalloc_order.simps PAGE_SIZE_def)
  then have "kmalloc 4000 s = Inr (page_addr q, s')"
    using q by (simp add: kmalloc_def CACHE_MAX_INDEX_def CACHE_MIN_SIZE_def push_bit_eq_mult page_to_virt_def)
  ultimately show thesis using that s(1) by blast
qed

text \<open>
  A heap with at least \<open>n\<close> free blocks of the highest order, which serves \<open>n\<close> requests of up to 4 MiB
  one after the other; the untouched memory has 1280 of them.
\<close>

definition plenty :: "nat \<Rightarrow> mm \<Rightarrow> bool" where
  "plenty n s \<longleftrightarrow> (\<exists>F C A P S U B. heap_inv s F C A P S U \<and> B \<subseteq> free_blocks F \<and> finite B \<and>
     (\<forall>b \<in> B. snd b = BUDDY_MAX_ORDER) \<and> n \<le> card B)"

lemma chunk_not_null:
  assumes "mm_inv s L" and "(a, n) \<in> L"
  shows "a \<noteq> 0"
proof
  assume a: "a = 0"
  have "unat (virt_to_phys 0) \<in> chunk_bytes (a, n)"
    using ha.chunks_nonempty[OF assms] a by simp
  then have "unat (virt_to_phys 0) < NUM_PAGES * PAGE_SIZE" using ha.in_memory[OF assms] by blast
  then show False by (simp add: virt_to_phys_def PAGE_OFFSET_def NUM_PAGES_def PAGE_SIZE_def)
qed

lemma plenty_refcount: "plenty n s \<Longrightarrow> plenty n (upd_page p (\<lambda>pg. pg\<lparr>refcount := f pg\<rparr>) s)"
  using heap_inv_refcount unfolding plenty_def by blast

lemma plenty_inv: "plenty n s \<Longrightarrow> \<exists>L. mm_inv s L"
  unfolding plenty_def mm_inv_def by blast

lemma plenty_kmalloc:
  assumes "plenty (Suc n) s" and "0 < sz" and sz: "unat sz \<le> 2 ^ 22"
  obtains a s' where "kmalloc sz s = Inr (a, s')" "plenty n s'"
proof -
  obtain F C A P S U B where inv: "heap_inv s F C A P S U" and B: "B \<subseteq> free_blocks F" "finite B"
      "\<forall>b \<in> B. snd b = BUDDY_MAX_ORDER" "Suc n \<le> card B"
    using assms(1) unfolding plenty_def by blast
  have "B \<noteq> {}" using B(4) by auto
  then obtain p where p: "(p, BUDDY_MAX_ORDER) \<in> free_blocks F" using B(1,3) by fastforce
  have "unat sz \<le> 2 ^ BUDDY_MAX_ORDER * PAGE_SIZE" using sz by (simp add: BUDDY_MAX_ORDER_def PAGE_SIZE_def)
  then obtain a s' where a: "kmalloc sz s = Inr (a, s')" using kmalloc_serves[OF inv p] by blast
  obtain F' C' A' P' S' U' b where i: "heap_inv s' F' C' A' P' S' U'" "free_blocks F - {b} \<subseteq> free_blocks F'"
    using kmalloc_heap[OF inv assms(2) a] by blast
  have "n \<le> card (B - {b})" using B(2,4) by (cases "b \<in> B") (auto simp: card_Diff_singleton)
  then have "plenty n s'"
    unfolding plenty_def using i B(1-3) by (intro exI[of _ F'] exI[of _ C'] exI[of _ A'] exI[of _ P'] exI[of _ S']
      exI[of _ U'] exI[of _ "B - {b}"]) auto
  then show thesis using that a by blast
qed

lemma boot_plenty: "plenty 1280 (mem_init_free s)"
proof -
  let ?B = "(\<lambda>i :: nat. (i * 1024, BUDDY_MAX_ORDER)) ` {..<1280}"
  have "heap_inv (mem_init_free s) (top_lists NUM_PAGES) (\<lambda>_. []) {} {} {} {}"
    using mem_init_free_inv mem_init_free_page by (intro heap_invI) auto
  moreover have "?B \<subseteq> free_blocks (top_lists NUM_PAGES)"
    by (auto simp: top_lists_def top_blocks_def NUM_PAGES_def BUDDY_MAX_ORDER_def)
  moreover have "inj_on (\<lambda>i :: nat. (i * 1024, BUDDY_MAX_ORDER)) {..<1280}" by (auto simp: inj_on_def)
  then have "card ?B = 1280" by (simp add: card_image)
  ultimately show ?thesis unfolding plenty_def by (intro exI conjI) auto
qed

text \<open>The highest blocks above the memory in use at boot are free, and serve as many requests.\<close>

lemma mem_init_plenty:
  assumes "mem_init s = Inr s'" and "0 < boot_end (heap_top s)" and "boot_end (heap_top s) \<le> k * 1024" and "k + n \<le> 1280"
  shows "plenty n s'"
proof -
  let ?B = "(\<lambda>i :: nat. ((k + i) * 1024, BUDDY_MAX_ORDER)) ` {..<n}"
  obtain F A where f: "buddy_inv s' F (\<lambda>_. []) A {}" "\<forall>p<NUM_PAGES. cacheidx (mem_map s' p) = CACHE_UNALLOC"
    "\<forall>p \<in> set (top_lists NUM_PAGES BUDDY_MAX_ORDER). boot_end (heap_top s) \<le> p \<longrightarrow> (p, BUDDY_MAX_ORDER) \<in> free_blocks F"
    using mem_init_blocks[of s] assms(1,2) by auto
  have "((k + i) * 1024, BUDDY_MAX_ORDER) \<in> free_blocks F" if "i < n" for i
  proof -
    have "(k + i) * 1024 < NUM_PAGES" using that assms(4) by (simp add: NUM_PAGES_def)
    then have "(k + i) * 1024 \<in> set (top_lists NUM_PAGES BUDDY_MAX_ORDER)"
      by (simp add: top_lists_def top_blocks_def BUDDY_MAX_ORDER_def)
    moreover have "boot_end (heap_top s) \<le> (k + i) * 1024" using assms(3) by (simp add: add_mult_distrib)
    ultimately show ?thesis using f(3) by blast
  qed
  then have B: "?B \<subseteq> free_blocks F" by blast
  have c: "card ?B = n" by (simp add: card_image inj_on_def)
  have "heap_inv s' F (\<lambda>_. []) A A {} {}" using f(1,2) by (auto intro!: heap_invI)
  then show ?thesis unfolding plenty_def using B c by (intro exI conjI) auto
qed

text \<open>C1: in every run from boot, of successful \<open>kmalloc\<close> calls and of \<open>kfree\<close> calls on addresses
  in use, the ranges of bytes the clients hold are inside the memory and pairwise disjoint.\<close>

theorem heap_disjoint:
  assumes "mem_init s = Inr s0" and "heap_run s0 s' R"
    and "c \<in> R" and "d \<in> R" and "c \<noteq> d"
  shows "chunk_bytes c \<inter> chunk_bytes d = {} \<and> chunk_bytes c \<subseteq> {..<NUM_PAGES * PAGE_SIZE}"
proof -
  obtain L where "mm_inv s' L" "covers L R" using heap_run_inv[OF assms(2) mem_init_heap[OF assms(1)]] by blast
  then show ?thesis using covers_disjoint assms(3-5) by blast
qed

theorem heap_disjoint_witness:
  "\<exists>s a s' b s''. mem_init boot_mm = Inr s \<and> kmalloc 4000 s = Inr (a, s') \<and> kmalloc 100 s' = Inr (b, s'') \<and>
     chunk_bytes (a, 4000) \<inter> chunk_bytes (b, 100) = {}"
proof -
  obtain s a s' b s'' where s: "mem_init boot_mm = Inr s" "kmalloc 4000 s = Inr (a, s')"
    "kmalloc 100 s' = Inr (b, s'')" by (rule boot_two)
  have "heap_run s s' {(a, 4000)}" using run_kmalloc[OF run_start _ s(2)] by simp
  from run_kmalloc[OF this _ s(3)] have "heap_run s s'' {(b, 100), (a, 4000)}" by simp
  then have "chunk_bytes (a, 4000) \<inter> chunk_bytes (b, 100) = {}"
    using heap_disjoint[OF s(1), of s'' _ "(a, 4000)" "(b, 100)"] by simp
  then show ?thesis using s by blast
qed

text \<open>C2: \<open>kmalloc\<close> serves a request whenever some free block is at least as large, with a chunk of at
  least the size asked for that no other chunk meets; giving it back restores the chunks handed out.\<close>

theorem kmalloc_correct:
  assumes inv: "heap_inv s F C A P S U" and b: "(p, k) \<in> free_blocks F"
    and sz: "0 < sz" "unat sz \<le> 2 ^ k * PAGE_SIZE"
  shows "\<exists>a s' n. kmalloc sz s = Inr (a, s') \<and> unat sz \<le> n \<and>
    chunk_bytes (a, n) \<inter> \<Union> (chunk_bytes ` (page_chunk ` P \<union> obj_chunk ` U)) = {} \<and>
    mm_inv s' (insert (a, n) (page_chunk ` P \<union> obj_chunk ` U)) \<and>
    mm_inv (kfree a s') (page_chunk ` P \<union> obj_chunk ` U)"
proof -
  have i: "mm_inv s (page_chunk ` P \<union> obj_chunk ` U)" using inv unfolding mm_inv_def by blast
  obtain a s' where a: "kmalloc sz s = Inr (a, s')" using kmalloc_serves[OF inv b sz(2)] by blast
  obtain n where "unat sz \<le> n" "chunk_bytes (a, n) \<subseteq> {..<NUM_PAGES * PAGE_SIZE} -
      \<Union> (chunk_bytes ` (page_chunk ` P \<union> obj_chunk ` U))"
      "mm_inv s' (insert (a, n) (page_chunk ` P \<union> obj_chunk ` U))"
    using ha.alloc_fresh_chunk[OF i sz(1) a] by blast
  then show ?thesis using a ha.alloc_free[OF i sz(1) a] by blast
qed

theorem kmalloc_correct_witness:
  "\<exists>s a s' n. mem_init boot_mm = Inr s \<and> kmalloc 100 s = Inr (a, s') \<and> 100 \<le> n \<and> mm_inv s' {(a, n)} \<and>
     mm_inv (kfree a s') {}"
proof -
  obtain s F A p k where s: "mem_init boot_mm = Inr s" "heap_inv s F (\<lambda>_. []) A {} {} {}"
    "(p, k) \<in> free_blocks F" by (rule boot_free)
  have "PAGE_SIZE \<le> 2 ^ k * PAGE_SIZE" by simp
  moreover have "unat (100 :: u32) \<le> PAGE_SIZE" by (simp add: PAGE_SIZE_def)
  ultimately have "unat (100 :: u32) \<le> 2 ^ k * PAGE_SIZE" by (rule order_trans[rotated])
  from kmalloc_correct[OF s(2,3) _ this] show ?thesis using s(1) by simp
qed

text \<open>The chunks in use never add up to more than the memory.\<close>

theorem heap_bounded:
  assumes "mm_inv s L"
  shows "finite L \<and> (\<Sum>(a, n)\<in>L. n) \<le> NUM_PAGES * PAGE_SIZE"
  using ha.chunks_bounded[OF assms] by blast

theorem heap_bounded_witness:
  "\<exists>s a n s'. mem_init boot_mm = Inr s \<and> kmalloc 100 s = Inr (a, s') \<and> 100 \<le> n \<and> mm_inv s' {(a, n)} \<and>
     n \<le> NUM_PAGES * PAGE_SIZE"
proof -
  have "unat (100 :: u32) \<le> PAGE_SIZE" by (simp add: PAGE_SIZE_def)
  then obtain s a s' where s: "mem_init boot_mm = Inr s" "mm_inv s {}" "kmalloc 100 s = Inr (a, s')"
    by (rule boot_kmalloc)
  obtain n where n: "100 \<le> n" "mm_inv s' {(a, n)}" using ha.alloc_chunk[OF s(2) _ s(3)] by auto
  show ?thesis using heap_bounded[OF n(2)] s n by auto
qed

text \<open>\<open>kmalloc\<close> chooses the smallest cache and the smallest block order that hold the request;
  a size above \<open>2^30\<close> is outside the shift and has no defined result.\<close>

theorem kmalloc_best_fit:
  "(unat sz \<le> 2048 \<longrightarrow> kmalloc_index 0 sz \<le> CACHE_MAX_INDEX \<and> unat sz \<le> cache_size (kmalloc_index 0 sz) \<and>
      (\<forall>j < kmalloc_index 0 sz. cache_size j < unat sz)) \<and>
   (unat sz \<le> 2 ^ 30 \<longrightarrow> (\<exists>k. kmalloc_order 0 sz = Inr k \<and> unat sz \<le> 2 ^ k * PAGE_SIZE \<and>
      (\<forall>j < k. 2 ^ j * PAGE_SIZE < unat sz))) \<and>
   (2 ^ 30 < unat sz \<longrightarrow> kmalloc sz s = Inl Bad_Shift)"
proof (intro conjI impI)
  show "kmalloc_index 0 sz \<le> CACHE_MAX_INDEX" "unat sz \<le> cache_size (kmalloc_index 0 sz)"
    "\<forall>j < kmalloc_index 0 sz. cache_size j < unat sz" if "unat sz \<le> 2048"
    using kmalloc_index_least[OF that, of 0] by auto
  show "\<exists>k. kmalloc_order 0 sz = Inr k \<and> unat sz \<le> 2 ^ k * PAGE_SIZE \<and> (\<forall>j < k. 2 ^ j * PAGE_SIZE < unat sz)"
    if "unat sz \<le> 2 ^ 30"
    using kmalloc_order_Inr[OF that, of 0] by auto
qed (rule kmalloc_too_large)

theorem kmalloc_best_fit_witness:
  "kmalloc_index 0 100 \<le> CACHE_MAX_INDEX \<and> (\<exists>k. kmalloc_order 0 5000 = Inr k \<and> 5000 \<le> 2 ^ k * PAGE_SIZE) \<and>
   kmalloc 0xffffffff boot_mm = Inl Bad_Shift"
  using kmalloc_best_fit[of 100 boot_mm] kmalloc_best_fit[of 5000 boot_mm] kmalloc_best_fit[of "0xffffffff" boot_mm]
  by auto

text \<open>C17: when no free block holds a request above 2048 bytes, \<open>kmalloc\<close> computes the address of the
  null page, which has none: the call has no defined result, it does not return a null pointer.\<close>

theorem kmalloc_out_of_memory:
  assumes inv: "heap_inv s F C A P S U" and sz: "2048 < unat sz" "unat sz \<le> 2 ^ 30"
    and no: "\<forall>(p, k)\<in>free_blocks F. 2 ^ k * PAGE_SIZE < unat sz"
  shows "kmalloc sz s = Inl Null_Pointer"
  using kmalloc_no_block[OF inv sz] no by blast

theorem kmalloc_out_of_memory_witness:
  "\<exists>s. mem_init boot_mm = Inr s \<and> kmalloc 0x400001 s = Inl Null_Pointer"
proof -
  obtain s F A where s: "mem_init boot_mm = Inr s" "heap_inv s F (\<lambda>_. []) A {} {} {}"
    "all_frames (free_blocks F) = {0x82a20 ..< NUM_PAGES}" by (rule boot_heap)
  have "2 ^ k * PAGE_SIZE < unat (0x400001 :: u32)" if "(p, k) \<in> free_blocks F" for p k
  proof -
    have "(2::nat) ^ k \<le> 2 ^ 10" using that by (intro power_increasing) (simp_all add: BUDDY_MAX_ORDER_def)
    then show ?thesis by (simp add: PAGE_SIZE_def)
  qed
  then have "kmalloc 0x400001 s = Inl Null_Pointer"
    by (intro kmalloc_out_of_memory[OF s(2)]) auto
  then show ?thesis using s(1) by blast
qed

end
