(* ===== verification/Cstring.thy ===== *)
theory Cstring
  imports Prelude
begin

text \<open>
  The string and memory functions of \<open>src/string.c\<close>, on byte memory: an address is a 64-bit word, and
  pointer arithmetic is word addition. Each loop is translated as it stands; a loop that need not end
  is a partial function, so that a missing terminator or a negative length is the value \<open>None\<close>.
  \<open>strtok\<close> keeps its static pointer \<open>next\<close> as an argument and result. A null pointer is address 0.

  \<open>cstr m a xs\<close> says that at \<open>a\<close> the bytes \<open>xs\<close> stand, all non-zero, followed by a zero. The lemmas give
  the result of every function in terms of the strings.
\<close>

section \<open>The functions\<close>

type_synonym mem = "u64 \<Rightarrow> u8"

partial_function (option) strcmp :: "mem \<Rightarrow> u64 \<Rightarrow> u64 \<Rightarrow> int option" where
  "strcmp m s1 s2 =
     (if m s1 \<noteq> 0 \<and> m s1 = m s2 then strcmp m (s1 + 1) (s2 + 1)
      else Some (uint (m s1) - uint (m s2)))"

function memcmp :: "mem \<Rightarrow> u64 \<Rightarrow> u64 \<Rightarrow> int \<Rightarrow> int" where
  "memcmp m a b n =
     (if 0 < n then
        if m a \<noteq> m b then uint (m a) - uint (m b) else memcmp m (a + 1) (b + 1) (n - 1)
      else 0)"
  by pat_completeness auto
termination by (relation "measure (\<lambda>(m, a, b, n). nat n)") auto

declare memcmp.simps [simp del]

partial_function (option) strncpy :: "mem \<Rightarrow> u64 \<Rightarrow> u64 \<Rightarrow> int \<Rightarrow> (u64 \<times> mem) option" where
  "strncpy m dst src n =
     (if n = 0 then Some (dst, m)
      else
        let ch = m src; m' = m(dst := ch)
        in if ch \<noteq> 0 then strncpy m' (dst + 1) (src + 1) (n - 1) else Some (dst + 1, m'))"

partial_function (option) memset_loop :: "mem \<Rightarrow> u64 \<Rightarrow> u8 \<Rightarrow> int \<Rightarrow> mem option" where
  "memset_loop m p c n =
     (if n = 0 then Some m else memset_loop (m(p := c)) (p + 1) c (n - 1))"

definition memset :: "mem \<Rightarrow> u64 \<Rightarrow> int \<Rightarrow> int \<Rightarrow> (u64 \<times> mem) option" where
  "memset m s c n = map_option (\<lambda>m'. (s, m')) (memset_loop m s (of_int c) n)"

partial_function (option) strlen_loop :: "mem \<Rightarrow> u64 \<Rightarrow> nat \<Rightarrow> nat option" where
  "strlen_loop m s len = (if m s \<noteq> 0 then strlen_loop m (s + 1) (len + 1) else Some len)"

definition strlen :: "mem \<Rightarrow> u64 \<Rightarrow> nat option" where
  "strlen m s = strlen_loop m s 0"

partial_function (option) strchr_loop :: "mem \<Rightarrow> u8 \<Rightarrow> u64 \<Rightarrow> u64 option" where
  "strchr_loop m ch s =
     (if m s \<noteq> 0 then
        if m s = ch then Some s else strchr_loop m ch (s + 1)
      else if ch = 0 then Some s
      else Some 0)"

definition strchr :: "mem \<Rightarrow> u64 \<Rightarrow> int \<Rightarrow> u64 option" where
  "strchr m s c = strchr_loop m (of_int c) s"

text \<open>The two loops of \<open>strtok\<close>: over delimiters, and over the token.\<close>

partial_function (option) strtok_start :: "mem \<Rightarrow> u64 \<Rightarrow> u64 \<Rightarrow> u64 option" where
  "strtok_start m delim start =
     (if m start = 0 then Some start
      else case strchr m delim (uint (m start)) of
        None \<Rightarrow> None
      | Some r \<Rightarrow> if r \<noteq> 0 then strtok_start m delim (start + 1) else Some start)"

partial_function (option) strtok_end :: "mem \<Rightarrow> u64 \<Rightarrow> u64 \<Rightarrow> u64 option" where
  "strtok_end m delim fin =
     (if m fin = 0 then Some fin
      else case strchr m delim (uint (m fin)) of
        None \<Rightarrow> None
      | Some r \<Rightarrow> if r = 0 then strtok_end m delim (fin + 1) else Some fin)"

text \<open>The result is the token, the new static \<open>next\<close>, and the memory.\<close>

definition strtok :: "mem \<Rightarrow> u64 \<Rightarrow> u64 \<Rightarrow> u64 \<Rightarrow> (u64 \<times> u64 \<times> mem) option" where
  "strtok m nx s delim =
     (let nx = (if s \<noteq> 0 then s else nx)
      in if nx = 0 then Some (0, nx, m)
         else case strtok_start m delim nx of
           None \<Rightarrow> None
         | Some start \<Rightarrow>
             if m start = 0 then Some (0, 0, m)
             else case strtok_end m delim start of
               None \<Rightarrow> None
             | Some fin \<Rightarrow>
                 if m fin \<noteq> 0 then Some (start, fin + 1, m(fin := 0))
                 else Some (start, 0, m))"

partial_function (option) memcpy_loop :: "mem \<Rightarrow> u64 \<Rightarrow> u64 \<Rightarrow> int \<Rightarrow> mem option" where
  "memcpy_loop m d s n =
     (if n = 0 then Some m else memcpy_loop (m(d := m s)) (d + 1) (s + 1) (n - 1))"

definition memcpy :: "mem \<Rightarrow> u64 \<Rightarrow> u64 \<Rightarrow> int \<Rightarrow> (u64 \<times> mem) option" where
  "memcpy m dst src n = map_option (\<lambda>m'. (dst, m')) (memcpy_loop m dst src n)"

section \<open>Strings in memory\<close>

fun cstr :: "mem \<Rightarrow> u64 \<Rightarrow> u8 list \<Rightarrow> bool" where
  "cstr m a [] \<longleftrightarrow> m a = 0"
| "cstr m a (x # xs) \<longleftrightarrow> x \<noteq> 0 \<and> m a = x \<and> cstr m (a + 1) xs"

lemma cstr_unique: "cstr m a xs \<Longrightarrow> cstr m a ys \<Longrightarrow> xs = ys"
proof (induction xs arbitrary: a ys)
  case Nil
  then show ?case by (cases ys) auto
next
  case (Cons x xs)
  then show ?case by (cases ys) auto
qed

lemma cstr_zero: "cstr m a xs \<Longrightarrow> m a = 0 \<longleftrightarrow> xs = []"
  by (cases xs) auto

lemma cstr_append:
  "cstr m a (xs @ ys) \<longleftrightarrow>
     (\<forall>i < length xs. xs ! i \<noteq> 0 \<and> m (a + of_nat i) = xs ! i) \<and> cstr m (a + of_nat (length xs)) ys"
proof (induction xs arbitrary: a)
  case (Cons x xs)
  have "(\<forall>i < length (x # xs). (x # xs) ! i \<noteq> 0 \<and> m (a + of_nat i) = (x # xs) ! i) \<longleftrightarrow>
      x \<noteq> 0 \<and> m a = x \<and> (\<forall>i < length xs. xs ! i \<noteq> 0 \<and> m (a + 1 + of_nat i) = xs ! i)"
    by (auto simp: less_Suc_eq_0_disj add.assoc)
  then show ?case using Cons by (simp add: add.assoc)
qed simp

lemma cstr_nth:
  assumes "cstr m a xs"
  shows "i < length xs \<Longrightarrow> m (a + of_nat i) = xs ! i \<and> xs ! i \<noteq> 0" and "m (a + of_nat (length xs)) = 0"
  using assms cstr_append[of m a xs "[]"] by auto

text \<open>A string does not wrap round the address space.\<close>

lemma cstr_length:
  assumes "cstr m a xs"
  shows "length xs < 2 ^ 64"
proof (rule ccontr)
  assume "\<not> ?thesis"
  then obtain n where n: "length xs = n + 2 ^ 64" by (metis add.commute le_Suc_ex not_less)
  then have "of_nat (length xs) = (of_nat n :: u64) + of_nat (2 ^ 64)" by (simp only: of_nat_add)
  also have "(of_nat (2 ^ 64) :: u64) = 0" by simp
  finally have "m (a + of_nat n) = 0" using cstr_nth(2)[OF assms] by simp
  moreover have "n < length xs" using n by simp
  ultimately show False using cstr_nth(1)[OF assms, of n] by simp
qed

lemma offset_inj:
  assumes "i < 2 ^ 64" and "j < 2 ^ 64" and "(a :: u64) + of_nat i = a + of_nat j"
  shows "i = j"
proof -
  have "unat (of_nat i :: u64) = unat (of_nat j :: u64)" using assms(3) by simp
  then show ?thesis using assms(1,2) by (simp add: unat_of_nat take_bit_nat_eq_self)
qed

section \<open>What the functions return\<close>

lemma strlen_cstr: "cstr m a xs \<Longrightarrow> strlen m a = Some (length xs)"
proof -
  have "cstr m a xs \<Longrightarrow> strlen_loop m a n = Some (n + length xs)" for n
    by (induction xs arbitrary: a n) (auto simp: strlen_loop.simps)
  then show "cstr m a xs \<Longrightarrow> strlen m a = Some (length xs)" by (simp add: strlen_def)
qed

text \<open>\<open>strchr\<close> finds the first occurrence; it finds the terminator when asked for it.\<close>

lemma strchr_loop_cstr:
  "cstr m a xs \<Longrightarrow> strchr_loop m ch a =
     Some (if ch \<in> set (xs @ [0]) then a + of_nat (length (takeWhile (\<lambda>x. x \<noteq> ch) xs)) else 0)"
  by (induction xs arbitrary: a) (auto simp: strchr_loop.simps add.assoc)

lemma of_int_byte: "(of_int (uint (x :: u8)) :: u8) = x"
  by simp

lemma strchr_cstr:
  "cstr m a xs \<Longrightarrow> strchr m a (uint ch) =
     Some (if ch \<in> set (xs @ [0]) then a + of_nat (length (takeWhile (\<lambda>x. x \<noteq> ch) xs)) else 0)"
  unfolding strchr_def of_int_byte by (rule strchr_loop_cstr)

text \<open>
  A string at a non-null address that does not reach the end of the address space: \<open>strchr\<close> returns a
  null pointer only for a byte that does not occur.
\<close>

definition fits :: "u64 \<Rightarrow> u8 list \<Rightarrow> bool" where
  "fits a xs \<longleftrightarrow> a \<noteq> 0 \<and> unat a + length xs < 2 ^ 64"

lemma fits_offset:
  assumes "fits a xs" and "i \<le> length xs"
  shows "unat (a + of_nat i) = unat a + i" and "a + of_nat i \<noteq> 0"
proof -
  have i: "unat (of_nat i :: u64) = i"
    using assms by (simp add: fits_def unat_of_nat take_bit_nat_eq_self)
  then show u: "unat (a + of_nat i) = unat a + i"
    using assms by (simp add: fits_def unat_plus_if')
  have "0 < unat a" using assms(1) by (simp add: fits_def unat_gt_0)
  then show "a + of_nat i \<noteq> 0" using u by (metis add_is_0 less_irrefl unat_0)
qed

lemma strchr_found:
  assumes "cstr m d ds" and "fits d ds" and "ch \<noteq> 0"
  shows "\<exists>r. strchr m d (uint ch) = Some r \<and> (r = 0 \<longleftrightarrow> ch \<notin> set ds)"
proof -
  have "length (takeWhile (\<lambda>x. x \<noteq> ch) ds) \<le> length ds" by (rule length_takeWhile_le)
  then have "d + of_nat (length (takeWhile (\<lambda>x. x \<noteq> ch) ds)) \<noteq> 0" by (rule fits_offset(2)[OF assms(2)])
  then show ?thesis using strchr_cstr[OF assms(1), of ch] assms(3) by auto
qed

lemma strtok_start_cstr:
  assumes d: "cstr m d ds" "fits d ds"
  shows "cstr m a xs \<Longrightarrow> strtok_start m d a = Some (a + of_nat (length (takeWhile (\<lambda>x. x \<in> set ds) xs)))"
proof (induction xs arbitrary: a)
  case (Cons x xs)
  then have "x \<noteq> 0" "m a = x" by auto
  then show ?case
    using Cons strchr_found[OF d, of x] by (auto simp: strtok_start.simps[of m d a] add.assoc)
qed (simp add: strtok_start.simps)

lemma strtok_end_cstr:
  assumes d: "cstr m d ds" "fits d ds"
  shows "cstr m a xs \<Longrightarrow> strtok_end m d a = Some (a + of_nat (length (takeWhile (\<lambda>x. x \<notin> set ds) xs)))"
proof (induction xs arbitrary: a)
  case (Cons x xs)
  then have "x \<noteq> 0" "m a = x" by auto
  then show ?case
    using Cons strchr_found[OF d, of x] by (auto simp: strtok_end.simps[of m d a] add.assoc)
qed (simp add: strtok_end.simps)

text \<open>Ending a string early, at one of its bytes.\<close>

lemma cstr_cut:
  assumes "cstr m a (xs @ y # ys)"
  shows "cstr (m(a + of_nat (length xs) := 0)) a xs"
    and "cstr (m(a + of_nat (length xs) := 0)) (a + of_nat (length xs) + 1) ys"
proof -
  let ?p = "a + of_nat (length xs)"
  let ?m = "m(?p := 0)"
  have l: "length (xs @ y # ys) < 2 ^ 64" by (rule cstr_length[OF assms])
  have ne: "a + of_nat i \<noteq> ?p" if "i \<noteq> length xs" "i \<le> length (xs @ y # ys)" for i
    using offset_inj[of i "length xs" a] that l by auto
  have x: "\<forall>i < length xs. xs ! i \<noteq> 0 \<and> m (a + of_nat i) = xs ! i" and r: "cstr m ?p (y # ys)"
    using assms cstr_append by blast+
  have "\<forall>i < length xs. xs ! i \<noteq> 0 \<and> ?m (a + of_nat i) = xs ! i" using x ne by auto
  then show "cstr ?m a xs" using cstr_append[of ?m a xs "[]"] by simp
  have "cstr m (?p + 1) ys" using r by simp
  then have y: "\<forall>i < length ys. ys ! i \<noteq> 0 \<and> m (?p + 1 + of_nat i) = ys ! i"
    "m (?p + 1 + of_nat (length ys)) = 0"
    using cstr_append[of m "?p + 1" ys "[]"] by auto
  have "?p + 1 + of_nat i \<noteq> ?p" if "i \<le> length ys" for i
    using ne[of "length xs + 1 + i"] that by (simp add: algebra_simps)
  then have "\<forall>i < length ys. ys ! i \<noteq> 0 \<and> ?m (?p + 1 + of_nat i) = ys ! i"
    "?m (?p + 1 + of_nat (length ys)) = 0"
    using y by auto
  then show "cstr ?m (?p + 1) ys" using cstr_append[of ?m "?p + 1" ys "[]"] by simp
qed

text \<open>
  \<open>strtok\<close> on the rest \<open>xs\<close> of a string: skip the delimiters; without a token, the null pointer;
  otherwise the token, cut off in memory, and the rest behind it.
\<close>

lemma strtok_cstr:
  assumes a: "cstr m a xs" "fits a xs" and d: "cstr m d ds" "fits d ds"
    and s: "(if s \<noteq> 0 then s else nx) = a"
  defines "D \<equiv> set ds"
  defines "start \<equiv> a + of_nat (length (takeWhile (\<lambda>x. x \<in> D) xs))"
    and "rest \<equiv> dropWhile (\<lambda>x. x \<in> D) xs"
  defines "tok \<equiv> takeWhile (\<lambda>x. x \<notin> D) rest"
  defines "fin \<equiv> start + of_nat (length tok)"
  shows "strtok m nx s d =
    (if rest = [] then Some (0, 0, m)
     else if dropWhile (\<lambda>x. x \<notin> D) rest = [] then Some (start, 0, m)
     else Some (start, fin + 1, m(fin := 0)))"
    and "rest \<noteq> [] \<Longrightarrow> cstr m start rest"
proof -
  have "cstr m a (takeWhile (\<lambda>x. x \<in> D) xs @ rest)" using a(1) by (simp add: rest_def)
  then have r: "cstr m start rest" using cstr_append unfolding start_def by blast
  then show "rest \<noteq> [] \<Longrightarrow> cstr m start rest" .
  have "cstr m start (tok @ dropWhile (\<lambda>x. x \<notin> D) rest)" using r by (simp add: tok_def)
  then have f: "cstr m fin (dropWhile (\<lambda>x. x \<notin> D) rest)" using cstr_append unfolding fin_def by blast
  note z = cstr_zero[OF r] cstr_zero[OF f]
  have "strtok_start m d a = Some start" using strtok_start_cstr[OF d a(1)] by (simp add: start_def D_def)
  moreover have "strtok_end m d start = Some fin" using strtok_end_cstr[OF d r] by (simp add: fin_def tok_def D_def)
  moreover have "a \<noteq> 0" using a(2) by (simp add: fits_def)
  ultimately show "strtok m nx s d =
    (if rest = [] then Some (0, 0, m)
     else if dropWhile (\<lambda>x. x \<notin> D) rest = [] then Some (start, 0, m)
     else Some (start, fin + 1, m(fin := 0)))"
    unfolding strtok_def Let_def s using z by simp
qed

section \<open>Tokenising a whole string\<close>

text \<open>The tokens of a string, and the calls of \<open>strtok\<close> up to the null pointer, at most \<open>n\<close> of them.\<close>

function tokens :: "u8 set \<Rightarrow> u8 list \<Rightarrow> u8 list list" where
  "tokens D xs =
     (let rest = dropWhile (\<lambda>x. x \<in> D) xs
      in if rest = [] then []
         else takeWhile (\<lambda>x. x \<notin> D) rest # tokens D (dropWhile (\<lambda>x. x \<notin> D) rest))"
  by pat_completeness auto
termination
proof (relation "measure (\<lambda>(D, xs). length xs)", simp)
  fix D :: "u8 set" and xs rest
  assume r: "rest = dropWhile (\<lambda>x. x \<in> D) xs" "rest \<noteq> []"
  then have "hd rest \<notin> D" by (metis hd_dropWhile)
  then have "dropWhile (\<lambda>x. x \<notin> D) rest = dropWhile (\<lambda>x. x \<notin> D) (tl rest)" using r(2) by (cases rest) auto
  then have "length (dropWhile (\<lambda>x. x \<notin> D) rest) \<le> length (tl rest)" by (metis length_dropWhile_le)
  also have "\<dots> < length rest" using r(2) by simp
  also have "length rest \<le> length xs" using r(1) by (simp add: length_dropWhile_le)
  finally show "((D, dropWhile (\<lambda>x. x \<notin> D) rest), D, xs) \<in> measure (\<lambda>(D, xs). length xs)" by simp
qed

declare tokens.simps [simp del]

primrec strtok_calls :: "nat \<Rightarrow> mem \<Rightarrow> u64 \<Rightarrow> u64 \<Rightarrow> u64 \<Rightarrow> (u64 list \<times> mem) option" where
  "strtok_calls 0 m nx s d = Some ([], m)"
| "strtok_calls (Suc n) m nx s d =
     (case strtok m nx s d of
        None \<Rightarrow> None
      | Some (p, nx', m') \<Rightarrow>
          if p = 0 then Some ([], m')
          else map_option (\<lambda>(ps, m''). (p # ps, m'')) (strtok_calls n m' nx' 0 d))"

lemma tokens_none: "dropWhile (\<lambda>x. x \<in> D) xs = [] \<Longrightarrow> tokens D xs = []"
  by (subst tokens.simps) (simp only: Let_def if_True simp_thms)

lemma tokens_some:
  assumes "dropWhile (\<lambda>x. x \<in> D) xs \<noteq> []"
  shows "tokens D xs = takeWhile (\<lambda>x. x \<notin> D) (dropWhile (\<lambda>x. x \<in> D) xs) #
    tokens D (dropWhile (\<lambda>x. x \<notin> D) (dropWhile (\<lambda>x. x \<in> D) xs))"
  using assms by (subst tokens.simps) (simp only: Let_def if_False)

lemma tokens_Nil [simp]: "tokens D [] = []"
  by (rule tokens_none) simp

lemma tokens_delim:
  assumes "ys = [] \<or> hd ys \<in> D"
  shows "tokens D ys = tokens D (tl ys)"
  using assms by (cases ys) (simp_all add: tokens.simps[of D "_ # _"] tokens.simps[of D "tl _"] tokens.simps[of D "_ :: _ list"] Let_def)

lemma cstr_cong:
  assumes "fits a xs" and "\<And>x. unat a \<le> unat x \<Longrightarrow> unat x \<le> unat a + length xs \<Longrightarrow> m' x = m x"
  shows "cstr m' a xs = cstr m a xs"
proof -
  have "m' (a + of_nat i) = m (a + of_nat i)" if "i \<le> length xs" for i
    using fits_offset(1)[OF assms(1) that] that by (intro assms(2)) auto
  then show ?thesis
    using cstr_append[of m' a xs "[]"] cstr_append[of m a xs "[]"] by simp
qed

lemma fits_part:
  assumes "fits a (xs @ ys)"
  shows "fits a xs" and "fits (a + of_nat (length xs)) ys"
    and "unat (a + of_nat (length xs)) = unat a + length xs"
  using assms fits_offset[OF assms, of "length xs"] by (auto simp: fits_def)

lemma strtok_calls_tokens:
  assumes "cstr m a xs" "fits a xs" "cstr m d ds" "fits d ds"
    and "(if s \<noteq> 0 then s else nx) = a"
    and "unat d + length ds < unat a \<or> unat a + length xs < unat d"
    and "length (tokens (set ds) xs) < n"
  shows "\<exists>ps m'. strtok_calls n m nx s d = Some (ps, m') \<and>
    list_all2 (cstr m') ps (tokens (set ds) xs) \<and>
    (\<forall>x. unat x < unat a \<or> unat a + length xs \<le> unat x \<longrightarrow> m' x = m x)"
  using assms
proof (induction n arbitrary: m nx s a xs)
  case (Suc n)
  note cs = Suc.prems(1) and fa = Suc.prems(2) and d = Suc.prems(3,4) and sep = Suc.prems(6)
  let ?D = "set ds"
  let ?skip = "takeWhile (\<lambda>x. x \<in> ?D) xs" and ?rest = "dropWhile (\<lambda>x. x \<in> ?D) xs"
  let ?start = "a + of_nat (length ?skip)"
  let ?tok = "takeWhile (\<lambda>x. x \<notin> ?D) ?rest" and ?more = "dropWhile (\<lambda>x. x \<notin> ?D) ?rest"
  let ?fin = "?start + of_nat (length ?tok)"
  note call = strtok_cstr[OF cs fa d Suc.prems(5)]
  have "fits a (?skip @ ?rest)" using fa by simp
  note f1 = fits_part[OF this]
  have "fits ?start (?tok @ ?more)" using f1(2) by simp
  note f2 = fits_part[OF this]
  have len: "length xs = length ?skip + length ?tok + length ?more"
    using length_append[of ?skip ?rest] length_append[of ?tok ?more] by simp
  consider (none) "?rest = []" | (last) "?rest \<noteq> []" "?more = []" | (mid) "?rest \<noteq> []" "?more \<noteq> []" by blast
  then show ?case
  proof cases
    case none
    then show ?thesis using call(1) by (simp add: tokens_none)
  next
    case last
    have t: "tokens ?D xs = [?tok]"
      unfolding tokens_some[OF last(1)] last(2) by simp
    then obtain k where n: "n = Suc k" using Suc.prems(7) by (cases n) auto
    have e: "?tok = ?rest" using takeWhile_dropWhile_id[of "\<lambda>x. x \<notin> ?D" ?rest] by (simp only: last(2) append_Nil2)
    have call_last: "strtok m nx s d = Some (?start, 0, m)"
      unfolding call(1) using last by (simp only: if_True if_False simp_thms)
    have c: "cstr m ?start ?tok" unfolding e by (rule call(2)) (rule last(1))
    moreover have "strtok_calls n m 0 0 d = Some ([], m)" by (simp add: n strtok_def)
    moreover have "?start \<noteq> 0" using f1(2) by (simp add: fits_def)
    ultimately have "strtok_calls (Suc n) m nx s d = Some ([?start], m)"
      using call_last by simp
    then show ?thesis using c t by (intro exI[of _ "[?start]"] exI[of _ m]) (simp only: list_all2_Cons list.rel_inject simp_thms list.rel_intros)
  next
    case mid
    let ?m = "m(?fin := 0)"
    obtain y ys where ys: "?more = y # ys" using mid(2) by (cases ?more) auto
    have y: "y \<in> ?D" using ys by (metis dropWhile_eq_Cons_conv)
    have more: "?rest = ?tok @ y # ys" using ys by (metis takeWhile_dropWhile_id)
    have t: "tokens ?D xs = ?tok # tokens ?D ys"
    proof -
      have "tokens ?D xs = ?tok # tokens ?D ?more"
        by (rule tokens_some) (rule mid(1))
      then show ?thesis using tokens_delim[of ?more ?D] y ys by simp
    qed
    have "cstr m ?start (?tok @ y # ys)" using call(2)[OF mid(1)] more by simp
    note cut = cstr_cut[OF this]
    have "fits ?fin ([y] @ ys)" using f2(2) ys by simp
    note f3 = fits_part[OF this]
    have fin: "unat ?fin = unat a + length ?skip + length ?tok" using f1(3) f2(3) by simp
    have fin1: "unat (?fin + 1) = unat ?fin + 1" using f3(3) by simp
    have l: "length xs = length ?skip + length ?tok + Suc (length ys)" using len ys by simp
    have d': "cstr ?m d ds"
    proof -
      have "cstr ?m d ds = cstr m d ds"
        by (rule cstr_cong[OF d(2)]) (use sep fin l in auto)
      then show ?thesis using d(1) by simp
    qed
    have sep': "unat d + length ds < unat (?fin + 1) \<or> unat (?fin + 1) + length ys < unat d"
      using sep fin fin1 l by auto
    have z: "(if (0 :: u64) \<noteq> 0 then 0 else ?fin + 1) = ?fin + 1" by simp
    have fy: "fits (?fin + 1) ys" using f3(2) by simp
    have ln: "length (tokens ?D ys) < n" using t Suc.prems(7) by simp
    obtain ps m' where r: "strtok_calls n ?m (?fin + 1) 0 d = Some (ps, m')"
        "list_all2 (cstr m') ps (tokens ?D ys)"
        "\<forall>x. unat x < unat (?fin + 1) \<or> unat (?fin + 1) + length ys \<le> unat x \<longrightarrow> m' x = ?m x"
      using Suc.IH[OF cut(2) fy d' d(2) z sep' ln] by blast
    have "cstr m' ?start ?tok = cstr ?m ?start ?tok"
      by (rule cstr_cong[OF f2(1)]) (use r(3) fin1 f2(3) in auto)
    then have c: "cstr m' ?start ?tok" using cut(1) by simp
    have fr: "m' x = m x" if "unat x < unat a \<or> unat a + length xs \<le> unat x" for x
      using that r(3) fin fin1 l by auto
    have "?start \<noteq> 0" using f1(2) by (simp add: fits_def)
    moreover have "strtok m nx s d = Some (?start, ?fin + 1, ?m)"
      unfolding call(1) using mid by (simp only: if_False)
    ultimately have "strtok_calls (Suc n) m nx s d = Some (?start # ps, m')"
      using r(1) by simp
    then show ?thesis using c fr r(2) t by auto
  qed
qed simp

section \<open>Comparing, filling and copying\<close>

text \<open>The difference of the first bytes that differ, a terminator counting as 0.\<close>

fun str_diff :: "u8 list \<Rightarrow> u8 list \<Rightarrow> int" where
  "str_diff (x # xs) (y # ys) = (if x = y then str_diff xs ys else uint x - uint y)"
| "str_diff (x # xs) [] = uint x"
| "str_diff [] (y # ys) = - uint y"
| "str_diff [] [] = 0"

lemma strcmp_cstr: "cstr m a xs \<Longrightarrow> cstr m b ys \<Longrightarrow> strcmp m a b = Some (str_diff xs ys)"
  by (induction xs ys arbitrary: a b rule: str_diff.induct) (auto simp: strcmp.simps[of m])

lemma byte_eq: "uint (x :: u8) = uint y \<longleftrightarrow> x = y"
  by (simp add: word_uint_eq_iff)

lemma str_diff_0: "0 \<notin> set xs \<Longrightarrow> 0 \<notin> set ys \<Longrightarrow> str_diff xs ys = 0 \<longleftrightarrow> xs = ys"
  by (induction xs ys rule: str_diff.induct) (auto simp: uint_0_iff byte_eq)

lemma cstr_nonzero: "cstr m a xs \<Longrightarrow> 0 \<notin> set xs"
  by (induction xs arbitrary: a) auto

text \<open>The bytes of an object.\<close>

definition bytes :: "mem \<Rightarrow> u64 \<Rightarrow> nat \<Rightarrow> u8 list" where
  "bytes m a n = map (\<lambda>i. m (a + of_nat i)) [0..<n]"

lemma bytes_Suc: "bytes m a (Suc n) = m a # bytes m (a + 1) n"
  by (rule nth_equalityI) (auto simp: bytes_def nth_Cons add.assoc split: nat.splits simp del: upt_Suc)

lemma memcmp_bytes: "memcmp m a b (int n) = 0 \<longleftrightarrow> bytes m a n = bytes m b n"
proof (induction n arbitrary: a b)
  case 0
  then show ?case by (simp add: memcmp.simps bytes_def)
next
  case (Suc n)
  then show ?case by (subst memcmp.simps) (simp add: bytes_Suc byte_eq)
qed

text \<open>Word arithmetic for the cursor of a loop: the offset \<open>x - p\<close> from a moving start \<open>p\<close>.\<close>

lemma offset_step:
  fixes p x :: u64
  assumes "n < 2 ^ 64"
  shows "unat (x - p) < Suc n \<longleftrightarrow> x = p \<or> unat (x - (p + 1)) < n"
proof (cases "x = p")
  case False
  then have "x - p \<noteq> 0" by simp
  then have "unat (x - p) = Suc (unat (x - p - 1))"
    by (metis Suc_pred' unat_gt_0 unat_minus_one)
  moreover have "x - p - 1 = x - (p + 1)" by simp
  ultimately show ?thesis using False by simp
qed simp

lemma memset_loop_bytes:
  "n < 2 ^ 64 \<Longrightarrow> memset_loop m p c (int n) = Some (\<lambda>x. if unat (x - p) < n then c else m x)"
proof (induction n arbitrary: m p)
  case (Suc n)
  have "memset_loop m p c (int (Suc n)) = memset_loop (m(p := c)) (p + 1) c (int n)"
    by (subst memset_loop.simps) simp
  also have "\<dots> = Some (\<lambda>x. if unat (x - (p + 1)) < n then c else (m(p := c)) x)"
    using Suc by simp
  also have "(\<lambda>x. if unat (x - (p + 1)) < n then c else (m(p := c)) x) =
      (\<lambda>x. if unat (x - p) < Suc n then c else m x)"
    using offset_step[of n _ p] Suc.prems by (intro ext) auto
  finally show ?case .
qed (simp add: memset_loop.simps)

text \<open>A forward copy is right unless the destination starts inside the source.\<close>

lemma memcpy_loop_bytes:
  "n < 2 ^ 64 \<Longrightarrow> n \<le> unat (d - s) \<or> d = s \<Longrightarrow>
   memcpy_loop m d s (int n) = Some (\<lambda>x. if unat (x - d) < n then m (s + (x - d)) else m x)"
proof (induction n arbitrary: m d s)
  case (Suc n)
  let ?m = "m(d := m s)"
  have "memcpy_loop m d s (int (Suc n)) = memcpy_loop ?m (d + 1) (s + 1) (int n)"
    by (subst memcpy_loop.simps) simp
  also have "\<dots> = Some (\<lambda>x. if unat (x - (d + 1)) < n then ?m (s + 1 + (x - (d + 1))) else ?m x)"
    by (rule Suc.IH) (use Suc.prems in auto)
  also have "(\<lambda>x. if unat (x - (d + 1)) < n then ?m (s + 1 + (x - (d + 1))) else ?m x) =
      (\<lambda>x. if unat (x - d) < Suc n then m (s + (x - d)) else m x)"
  proof (rule ext)
    fix x
    have e: "s + 1 + (x - (d + 1)) = s + (x - d)" by simp
    show "(if unat (x - (d + 1)) < n then ?m (s + 1 + (x - (d + 1))) else ?m x) =
        (if unat (x - d) < Suc n then m (s + (x - d)) else m x)"
    proof (cases "unat (x - (d + 1)) < n")
      case True
      then have "unat (x - d) < Suc n" using offset_step[of n x d] Suc.prems(1) by simp
      moreover have "m (s + (x - d)) = ?m (s + (x - d))"
      proof (cases "s + (x - d) = d")
        case True
        then have "x - d = d - s" by (metis add_diff_cancel_left')
        then have "d = s" using \<open>unat (x - d) < Suc n\<close> Suc.prems(2) by auto
        then show ?thesis using True by simp
      qed simp
      ultimately show ?thesis using True e by simp
    next
      case False
      then show ?thesis using offset_step[of n x d] Suc.prems(1) by (cases "x = d") auto
    qed
  qed
  finally show ?case .
qed (simp add: memcpy_loop.simps)

lemma memcpy_loop_total: "\<exists>m'. memcpy_loop m d s (int n) = Some m'"
proof (induction n arbitrary: m d s)
  case (Suc n)
  show ?case by (subst memcpy_loop.simps) (use Suc in simp)
qed (simp add: memcpy_loop.simps)

lemma memcpy_result:
  assumes n: "n < 2 ^ 64" and apart: "n \<le> unat (dst - src)"
  shows "\<exists>m'. memcpy m dst src (int n) = Some (dst, m') \<and> bytes m' dst n = bytes m src n \<and>
    (\<forall>x. n \<le> unat (x - dst) \<longrightarrow> m' x = m x) \<and>
    (n \<le> unat (src - dst) \<longrightarrow> memcmp m' dst src (int n) = 0)"
proof -
  let ?m = "\<lambda>x. if unat (x - dst) < n then m (src + (x - dst)) else m x"
  have "memcpy m dst src (int n) = Some (dst, ?m)"
    using memcpy_loop_bytes[OF n] apart by (simp add: memcpy_def)
  moreover have b: "bytes ?m dst n = bytes m src n"
  proof -
    have "unat (of_nat i :: u64) = i" if "i < n" for i
      using that n by (simp add: unat_of_nat take_bit_nat_eq_self)
    then show ?thesis by (auto simp: bytes_def)
  qed
  moreover have "memcmp ?m dst src (int n) = 0" if s: "n \<le> unat (src - dst)"
  proof -
    have "?m (src + of_nat i) = m (src + of_nat i)" if "i < n" for i
    proof (cases "unat (src + of_nat i - dst) < n")
      case True
      have i: "unat (of_nat i :: u64) = i" using that n by (simp add: unat_of_nat take_bit_nat_eq_self)
      have e: "src + of_nat i - dst = (src - dst) + of_nat i" by simp
      have "2 ^ 64 \<le> unat (src - dst) + i"
        using True s i unfolding e by (cases "unat (src - dst) + i < 2 ^ 64") (auto simp: unat_plus_if')
      moreover have "unat dst < 2 ^ 64" using unsigned_less[of dst] by simp
      ultimately have "unat (dst - src) \<le> i"
        using s by (simp add: unat_sub_if' split: if_splits) arith+
      then show ?thesis using apart that by simp
    qed simp
    then have "bytes ?m src n = bytes m src n" by (simp add: bytes_def)
    then show ?thesis using b by (simp add: memcmp_bytes)
  qed
  ultimately show ?thesis by (intro exI[of _ ?m]) auto
qed

lemma memcpy_bytes:
  "n < 2 ^ 64 \<Longrightarrow> n \<le> unat (dst - src) \<Longrightarrow> memcpy m dst src (int n) = Some (p, m') \<Longrightarrow>
   bytes m' dst n = bytes m src n"
  using memcpy_result[of n dst src m] by auto

section \<open>Properties\<close>

text \<open>C30: successive calls of \<open>strtok\<close>, the first with the string and the others with the null
  pointer, return pointers to exactly the tokens of the string, as terminated strings, then a null
  pointer; no byte outside the string is written.\<close>

theorem strtok_returns_tokens:
  assumes "cstr m a xs" "fits a xs" "cstr m d ds" "fits d ds"
    and "unat d + length ds < unat a \<or> unat a + length xs < unat d"
  shows "\<exists>ps m'. strtok_calls (Suc (length (tokens (set ds) xs))) m nx a d = Some (ps, m') \<and>
    list_all2 (cstr m') ps (tokens (set ds) xs) \<and>
    (\<forall>x. unat x < unat a \<or> unat a + length xs \<le> unat x \<longrightarrow> m' x = m x)"
proof -
  have "(if a \<noteq> 0 then a else nx) = a" using assms(2) by (simp add: fits_def)
  then show ?thesis using assms by (intro strtok_calls_tokens[OF assms(1-4)]) auto
qed

definition example_mem :: mem where
  "example_mem = (\<lambda>_. 0)(0x100 := 32, 0x101 := 97, 0x102 := 98, 0x103 := 32, 0x104 := 99,
     0x200 := 32)"

lemma example_strings:
  "cstr example_mem 0x100 [32, 97, 98, 32, 99]" "cstr example_mem 0x200 [32]"
  "fits 0x100 [32, 97, 98, 32, 99]" "fits 0x200 [32]"
  by (simp_all add: example_mem_def fits_def)

theorem strtok_returns_tokens_witness:
  "\<exists>ps m'. strtok_calls 3 example_mem 0 0x100 0x200 = Some (ps, m') \<and>
     list_all2 (cstr m') ps [[97, 98], [99]]"
proof -
  have t: "tokens {32} [32, 97, 98, 32, 99] = [[97, 98], [99]]" by (simp add: tokens.simps Let_def)
  show ?thesis
    using strtok_returns_tokens[OF example_strings(1,3,2,4), of 0] by (simp add: t numeral_3_eq_3) blast
qed

text \<open>\<open>strcmp\<close> returns on terminated strings; its result is 0 exactly when they are equal, and is
  otherwise the difference of the first unequal bytes, a proper prefix coming first.\<close>

theorem strcmp_correct:
  assumes "cstr m a xs" and "cstr m b ys"
  shows "strcmp m a b = Some (str_diff xs ys) \<and> (str_diff xs ys = 0 \<longleftrightarrow> xs = ys)"
  using strcmp_cstr[OF assms] str_diff_0[OF cstr_nonzero[OF assms(1)] cstr_nonzero[OF assms(2)]] by blast

theorem strcmp_correct_witness: "strcmp example_mem 0x101 0x104 = Some (- 2)"
proof -
  have "cstr example_mem 0x101 [97, 98, 32, 99]" "cstr example_mem 0x104 [99]"
    by (simp_all add: example_mem_def)
  from strcmp_correct[OF this] show ?thesis by simp
qed

text \<open>\<open>memcpy\<close> returns for every length that is not negative and, unless the destination starts inside
  the source, leaves there a copy that \<open>memcmp\<close> finds equal to the source, and changes no other byte.\<close>

theorem memcpy_correct:
  assumes n: "n < 2 ^ 64" and apart: "n \<le> unat (dst - src)"
  shows "\<exists>m'. memcpy m dst src (int n) = Some (dst, m') \<and> bytes m' dst n = bytes m src n \<and>
    (\<forall>x. n \<le> unat (x - dst) \<longrightarrow> m' x = m x) \<and>
    (n \<le> unat (src - dst) \<longrightarrow> memcmp m' dst src (int n) = 0)"
  by (rule memcpy_result[OF assms])

theorem memcpy_correct_witness:
  "\<exists>m'. memcpy example_mem 0x300 0x100 4 = Some (0x300, m') \<and> bytes m' 0x300 4 = [32, 97, 98, 32] \<and>
     memcmp m' 0x300 0x100 4 = 0"
proof -
  have "bytes example_mem 0x100 4 = [32, 97, 98, 32]"
    by (simp add: bytes_def example_mem_def upt_rec)
  then show ?thesis using memcpy_correct[of 4 "0x300" "0x100" example_mem] by auto
qed

text \<open>\<open>memset\<close> returns for every length that is not negative, and sets exactly the bytes of the
  range to the low byte of its argument.\<close>

theorem memset_correct:
  assumes "n < 2 ^ 64"
  shows "memset m s c (int n) = Some (s, \<lambda>x. if unat (x - s) < n then of_int c else m x)"
  using memset_loop_bytes[OF assms] by (simp add: memset_def)

theorem memset_correct_witness:
  "map_option (\<lambda>(p, m'). bytes m' 0x100 6) (memset example_mem 0x101 0x141 4) = Some [32, 65, 65, 65, 65, 0]"
proof -
  have "(4 :: nat) < 2 ^ 64" by simp
  from memset_correct[OF this, of example_mem "0x101" "0x141"] show ?thesis
    by (simp add: bytes_def example_mem_def upt_rec unsigned_minus_1_eq_mask mask_eq_exp_minus_1)
qed

end
