(* ===== verification/Utils.thy ===== *)
theory Utils
  imports Cstring
begin

text \<open>
  The conversions of \<open>src/utils.c\<close>: \<open>hextoi\<close> over the bytes of a field in memory, \<open>align\<close> and \<open>be2le\<close>.
  An \<open>int\<close> is kept as its 32 bits, on which \<open>+\<close> and \<open><<\<close> wrap.
\<close>

section \<open>The functions\<close>

text \<open>\<open>char\<close> is unsigned on RISC-V, so the second test of the loop, \<open>*s >= 0\<close>, always holds.\<close>

function hextoi_loop :: "mem \<Rightarrow> u64 \<Rightarrow> int \<Rightarrow> u32 \<Rightarrow> u32" where
  "hextoi_loop m s n r =
     (if 0 < n then
        let r1 = push_bit 4 r
        in if 0x41 \<le> m s then hextoi_loop m (s + 1) (n - 1) (r1 + (ucast (m s) - 0x41 + 10))
           else hextoi_loop m (s + 1) (n - 1) (r1 + (ucast (m s) - 0x30))
      else r)"
  by pat_completeness auto
termination by (relation "measure (\<lambda>(m, s, n, r). nat n)") auto

declare hextoi_loop.simps [simp del]

definition hextoi :: "mem \<Rightarrow> u64 \<Rightarrow> int \<Rightarrow> u32" where
  "hextoi m s n = hextoi_loop m s n 0"

definition align :: "u32 \<Rightarrow> u32 \<Rightarrow> u32" where
  "align n byte = (n + byte - 1) AND NOT (byte - 1)"

definition be2le :: "u32 \<Rightarrow> u32" where
  "be2le input =
     (let result = 0;
          result = result OR push_bit 24 (input AND 0xFF);
          result = result OR push_bit 8 (input AND 0xFF00);
          result = result OR drop_bit 8 (input AND 0xFF0000);
          result = result OR drop_bit 24 (input AND 0xFF000000)
      in result)"

section \<open>What they compute\<close>

text \<open>The value of a digit as the loop reads it, and of a string of digits.\<close>

definition hex_digit :: "u8 \<Rightarrow> u32" where
  "hex_digit c = (if 0x41 \<le> c then ucast c - 0x41 + 10 else ucast c - 0x30)"

lemma hextoi_loop_bytes:
  "hextoi_loop m s (int n) r = foldl (\<lambda>r c. push_bit 4 r + hex_digit c) r (bytes m s n)"
proof (induction n arbitrary: s r)
  case (Suc n)
  then show ?case
    by (subst hextoi_loop.simps) (simp add: bytes_Suc hex_digit_def Let_def)
qed (simp add: hextoi_loop.simps bytes_def)

text \<open>The number written in base 16, and the digits the header formats write.\<close>

definition hex_char :: "nat \<Rightarrow> u8" where
  "hex_char d = (if d < 10 then 0x30 + of_nat d else 0x41 + of_nat (d - 10))"

definition hex_value :: "nat list \<Rightarrow> nat" where
  "hex_value ds = foldl (\<lambda>v d. v * 16 + d) 0 ds"

lemma hex_digit_char:
  assumes "d < 16"
  shows "hex_digit (hex_char d) = of_nat d"
proof -
  have "d \<in> set [0..<16]" using assms by simp
  then show ?thesis by (auto simp: upt_rec hex_digit_def hex_char_def)
qed

lemma hex_foldl:
  "\<forall>d \<in> set ds. d < 16 \<Longrightarrow>
   foldl (\<lambda>r c. push_bit 4 r + hex_digit c) (of_nat v) (map hex_char ds) =
     (of_nat (foldl (\<lambda>v d. v * 16 + d) v ds) :: u32)"
proof (induction ds arbitrary: v)
  case (Cons d ds)
  have "push_bit 4 (of_nat v :: u32) + hex_digit (hex_char d) = of_nat (v * 16 + d)"
    using Cons.prems by (simp add: hex_digit_char push_bit_eq_mult mult.commute)
  then show ?case using Cons by (simp del: of_nat_add of_nat_mult)
qed simp

lemma hex_value_bound:
  "\<forall>d \<in> set ds. d < 16 \<Longrightarrow> hex_value ds < 16 ^ length ds"
proof (induction ds rule: rev_induct)
  case (snoc d ds)
  then have "hex_value ds + 1 \<le> 16 ^ length ds" "d < 16" by auto
  then have "(hex_value ds + 1) * 16 \<le> 16 ^ length ds * 16" by (intro mult_le_mono1)
  then show ?case using \<open>d < 16\<close> by (simp add: hex_value_def)
qed (simp add: hex_value_def)

text \<open>Clearing the low bits of a word.\<close>

lemma unat_and_not_mask: "unat (x AND NOT (mask k)) = unat (x :: u32) div 2 ^ k * 2 ^ k"
proof -
  have "unat (x AND NOT (mask k)) = push_bit k (drop_bit k (unat x))"
    by (rule bit_eqI) (auto simp: bit_simps dest: bit_imp_le_length)
  then show ?thesis by (simp add: push_bit_eq_mult drop_bit_eq_div)
qed

text \<open>Byte \<open>i\<close> of a word, and where \<open>be2le\<close> takes each bit from.\<close>

definition byte :: "nat \<Rightarrow> u32 \<Rightarrow> u8" where
  "byte i x = ucast (drop_bit (8 * i) x)"

lemma be2le_bit:
  "bit (be2le x) n \<longleftrightarrow> n < 32 \<and>
     bit x (if n < 8 then n + 24 else if n < 16 then n + 8 else if n < 24 then n - 8 else n - 24)"
proof -
  have m: "(0xFF :: u32) = mask 8" "(0xFF00 :: u32) = push_bit 8 (mask 8)"
    "(0xFF0000 :: u32) = push_bit 16 (mask 8)" "(0xFF000000 :: u32) = push_bit 24 (mask 8)"
    by (simp_all add: mask_eq_exp_minus_1 push_bit_eq_mult)
  show ?thesis
    unfolding be2le_def m Let_def by (auto simp: bit_simps ac_simps dest: bit_imp_le_length)
qed

section \<open>Properties\<close>

lemma hextoi_digits:
  assumes "bytes m s (length ds) = map hex_char ds" and "\<forall>d \<in> set ds. d < 16" and "length ds \<le> 8"
  shows "unat (hextoi m s (int (length ds))) = hex_value ds"
proof -
  have "hextoi m s (int (length ds)) = of_nat (hex_value ds)"
    unfolding hextoi_def hextoi_loop_bytes assms(1) using hex_foldl[OF assms(2), of 0]
    by (simp add: hex_value_def)
  moreover have "hex_value ds < 16 ^ 8"
    using hex_value_bound[OF assms(2)] power_increasing[OF assms(3), of "16 :: nat"] by simp
  ultimately show ?thesis by (simp add: unat_of_nat take_bit_nat_eq_self)
qed

text \<open>On up to eight upper-case hexadecimal digits \<open>hextoi\<close> returns the number they write.\<close>

theorem hextoi_correct:
  assumes "bytes m s (length ds) = map hex_char ds" and "\<forall>d \<in> set ds. d < 16" and "length ds \<le> 8"
  shows "unat (hextoi m s (int (length ds))) = hex_value ds"
  by (rule hextoi_digits[OF assms])

theorem hextoi_correct_witness:
  "unat (hextoi ((\<lambda>_. 0)(0x10 := 0x31, 0x11 := 0x46, 0x12 := 0x41)) 0x10 3) = 0x1FA"
proof -
  let ?m = "(\<lambda>_. 0)(0x10 := 0x31, 0x11 := 0x46, 0x12 := 0x41) :: mem"
  have "bytes ?m 0x10 (length [1, 15, 10]) = map hex_char [1, 15, 10]"
    by (simp add: bytes_def hex_char_def upt_rec)
  from hextoi_correct[OF this] show ?thesis by (simp add: hex_value_def)
qed

text \<open>On a lower-case digit \<open>hextoi\<close> does not return the value the digit writes, but 32 more.\<close>

theorem hextoi_lower_case:
  assumes "0x61 \<le> m s" and "m s \<le> 0x66"
  shows "hextoi m s 1 = ucast (m s) - 0x61 + 10 + 32"
proof -
  have "0x41 \<le> m s" using assms(1) by (rule order_trans[rotated]) simp
  then show ?thesis by (simp add: hextoi_def hextoi_loop.simps Let_def)
qed

theorem hextoi_lower_case_witness: "hextoi ((\<lambda>_. 0)(0x10 := 0x61)) 0x10 1 = 42"
  using hextoi_lower_case[of "(\<lambda>_. 0)(0x10 := 0x61)" "0x10"] by simp

lemma align_up:
  assumes "k < 32" and "unat n + 2 ^ k \<le> 2 ^ 32"
  shows "2 ^ k dvd unat (align n (2 ^ k)) \<and> unat n \<le> unat (align n (2 ^ k)) \<and>
    unat (align n (2 ^ k)) < unat n + 2 ^ k"
proof -
  let ?x = "unat n + (2 ^ k - 1)"
  have "unat (n + 2 ^ k - 1) = ?x"
  proof -
    obtain j where j: "2 ^ k = Suc j" by (metis not0_implies_Suc power_not_zero zero_neq_numeral)
    then have "(2 :: u32) ^ k = of_nat (Suc j)" by (metis of_nat_numeral of_nat_power)
    then have "n + 2 ^ k - 1 = (of_nat ?x :: u32)" using j by simp
    moreover have "?x < 2 ^ 32" using assms(2) by simp
    ultimately show ?thesis by (simp only: unat_of_nat) (simp add: take_bit_nat_eq_self)
  qed
  moreover have "align n (2 ^ k) = (n + 2 ^ k - 1) AND NOT (mask k)"
    by (simp add: align_def mask_eq_exp_minus_1)
  ultimately have a: "unat (align n (2 ^ k)) = ?x div 2 ^ k * 2 ^ k"
    by (simp only: unat_and_not_mask)
  have "?x = ?x div 2 ^ k * 2 ^ k + ?x mod 2 ^ k" by (rule div_mult_mod_eq[symmetric])
  moreover have "?x mod 2 ^ k < 2 ^ k" by simp
  ultimately have "unat n \<le> ?x div 2 ^ k * 2 ^ k" "?x div 2 ^ k * 2 ^ k < unat n + 2 ^ k" by linarith+
  then show ?thesis unfolding a by simp
qed

text \<open>For an alignment \<open>2 ^ k\<close>, \<open>align\<close> returns the least multiple of it that is not below the
  number, when the sum does not wrap.\<close>

theorem align_correct:
  assumes "k < 32" and "unat n + 2 ^ k \<le> 2 ^ 32"
  shows "2 ^ k dvd unat (align n (2 ^ k)) \<and> unat n \<le> unat (align n (2 ^ k)) \<and>
    unat (align n (2 ^ k)) < unat n + 2 ^ k"
  by (rule align_up[OF assms])

theorem align_correct_witness: "unat (align 13 4) = 16"
proof -
  have "4 dvd unat (align 13 4) \<and> 13 \<le> unat (align 13 4) \<and> unat (align 13 4) < 17"
    using align_correct[of 2 13] by simp
  then show ?thesis by presburger
qed

text \<open>\<open>be2le\<close> reverses the four bytes of its argument, so it undoes itself.\<close>

theorem be2le_correct:
  "byte 0 (be2le x) = byte 3 x \<and> byte 1 (be2le x) = byte 2 x \<and> byte 2 (be2le x) = byte 1 x \<and>
   byte 3 (be2le x) = byte 0 x \<and> be2le (be2le x) = x"
proof (intro conjI)
  show "byte 0 (be2le x) = byte 3 x" "byte 1 (be2le x) = byte 2 x" "byte 2 (be2le x) = byte 1 x"
    "byte 3 (be2le x) = byte 0 x"
    by (rule bit_word_eqI; auto simp: byte_def bit_simps be2le_bit ac_simps)+
  show "be2le (be2le x) = x"
    by (rule bit_word_eqI) (auto simp: be2le_bit ac_simps)
qed

end
