(* ===== verification/Ram.thy ===== *)
theory Ram
  imports Cstring
begin

text \<open>
  Words in byte memory. The kernel reads and writes page tables and saved registers as
  \<open>unsigned long\<close>, and fills and copies the same memory with \<open>memset\<close> and \<open>memcpy\<close>: \<open>load64\<close> and
  \<open>store64\<close> are the little-endian accesses, and the lemmas say how the three kinds of access interact.
\<close>

section \<open>Accesses\<close>

definition load64 :: "mem \<Rightarrow> u64 \<Rightarrow> u64" where
  "load64 m a = foldr (\<lambda>b v. push_bit 8 v OR ucast b) (bytes m a 8) 0"

definition store64 :: "u64 \<Rightarrow> u64 \<Rightarrow> mem \<Rightarrow> mem" where
  "store64 a v m = (\<lambda>x. if unat (x - a) < 8 then ucast (drop_bit (8 * unat (x - a)) v) else m x)"

definition load32 :: "mem \<Rightarrow> u64 \<Rightarrow> u32" where
  "load32 m a = foldr (\<lambda>b v. push_bit 8 v OR ucast b) (bytes m a 4) 0"

definition store32 :: "u64 \<Rightarrow> u32 \<Rightarrow> mem \<Rightarrow> mem" where
  "store32 a v m = (\<lambda>x. if unat (x - a) < 4 then ucast (drop_bit (8 * unat (x - a)) v) else m x)"

section \<open>Bits\<close>

lemma bit_foldr_bytes:
  "bit (foldr (\<lambda>b v. push_bit 8 v OR ucast b) (bs :: u8 list) (0 :: 'w :: len word)) n \<longleftrightarrow>
     n < LENGTH('w) \<and> n div 8 < length bs \<and> bit (bs ! (n div 8)) (n mod 8)"
proof (induction bs arbitrary: n)
  case (Cons b bs)
  show ?case
  proof (cases "n < 8")
    case True
    then show ?thesis by (auto simp: bit_simps)
  next
    case False
    then obtain k where k: "n = 8 + k" by (metis le_Suc_ex not_less)
    have "\<not> bit (ucast b :: 'w word) n"
      using False bit_imp_le_length[of b n] by (auto simp: bit_simps)
    moreover have "n div 8 = Suc (k div 8)" using k by simp
    ultimately show ?thesis using Cons[of k] k by (auto simp: bit_simps)
  qed
qed simp

lemma bit_load64:
  "bit (load64 m a) n \<longleftrightarrow> n < 64 \<and> bit (m (a + of_nat (n div 8))) (n mod 8)"
  unfolding load64_def bit_foldr_bytes by (auto simp: bytes_def)

lemma bit_load32:
  "bit (load32 m a) n \<longleftrightarrow> n < 32 \<and> bit (m (a + of_nat (n div 8))) (n mod 8)"
  unfolding load32_def bit_foldr_bytes by (auto simp: bytes_def)

lemma load32_cong:
  assumes "\<And>i. i < 4 \<Longrightarrow> m' (b + of_nat i) = m (a + of_nat i)"
  shows "load32 m' b = load32 m a"
proof (rule bit_word_eqI)
  fix n assume "n < LENGTH(32)"
  then have "n div 8 < 4" by simp
  then show "bit (load32 m' b) n \<longleftrightarrow> bit (load32 m a) n" using assms by (simp add: bit_load32)
qed

lemma load64_cong:
  assumes "\<And>i. i < 8 \<Longrightarrow> m' (b + of_nat i) = m (a + of_nat i)"
  shows "load64 m' b = load64 m a"
proof (rule bit_word_eqI)
  fix n assume "n < LENGTH(64)"
  then have "n div 8 < 8" by simp
  then show "bit (load64 m' b) n \<longleftrightarrow> bit (load64 m a) n" using assms by (simp add: bit_load64)
qed

lemma load_store [simp]: "load64 (store64 a v m) a = v"
proof (rule bit_word_eqI)
  fix n assume n: "n < LENGTH(64)"
  have "unat (of_nat (n div 8) :: u64) = n div 8" using n by (intro unat_small) simp
  then show "bit (load64 (store64 a v m) a) n \<longleftrightarrow> bit v n"
    using n by (auto simp: bit_load64 store64_def bit_simps)
qed

lemma load_store32 [simp]: "load32 (store32 a v m) a = v"
proof (rule bit_word_eqI)
  fix n assume n: "n < LENGTH(32)"
  have "unat (of_nat (n div 8) :: u64) = n div 8" using n by (intro unat_small) simp
  then show "bit (load32 (store32 a v m) a) n \<longleftrightarrow> bit v n"
    using n by (auto simp: bit_load32 store32_def bit_simps)
qed

text \<open>The low half of a word.\<close>

lemma ucast_load64: "(ucast (load64 m a) :: u32) = load32 m a"
  by (rule bit_word_eqI) (auto simp: bit_simps bit_load64 bit_load32)

text \<open>Accesses eight bytes apart do not meet.\<close>

definition apart8 :: "u64 \<Rightarrow> u64 \<Rightarrow> bool" where
  "apart8 a b \<longleftrightarrow> 8 \<le> unat (b - a) \<and> 8 \<le> unat (a - b)"

lemma unat_minus_swap:
  fixes d :: u64
  assumes "0 < unat d"
  shows "unat (- d) = 2 ^ 64 - unat d"
  using unat_sub_if'[of 0 d] assms by simp

lemma apart8_bytes:
  assumes "apart8 a b" and "i < 8"
  shows "8 \<le> unat (b + of_nat i - a)"
proof -
  have i: "unat (of_nat i :: u64) = i" using assms(2) by (intro unat_small) simp
  let ?d = "b - a"
  have d: "8 \<le> unat ?d" "8 \<le> unat (- ?d)" using assms(1) by (simp_all add: apart8_def)
  then have "unat (- ?d) = 2 ^ 64 - unat ?d" by (intro unat_minus_swap) simp
  then have "unat ?d + i < 2 ^ 64" using d assms(2) by simp
  then have "unat (?d + of_nat i) = unat ?d + i" using i by (simp add: unat_plus_if')
  moreover have "b + of_nat i - a = ?d + of_nat i" by (simp add: algebra_simps)
  ultimately show ?thesis using d(1) by (simp only:)
qed

lemma load_store_apart [simp]: "apart8 a b \<Longrightarrow> load64 (store64 a v m) b = load64 m b"
  using apart8_bytes by (intro load64_cong) (force simp: store64_def)

text \<open>Loads after filling and copying.\<close>

lemma offset_in_range:
  assumes "off + 8 \<le> n" and "n < 2 ^ 64" and "i < 8"
  shows "unat ((p + of_nat off + of_nat i) - p :: u64) = off + i"
proof -
  have "p + of_nat off + of_nat i - p = of_nat (off + i)" by simp
  moreover have "off + i < 2 ^ 64" using assms by simp
  ultimately show ?thesis using unat_small[of "off + i"] by (simp only:)
qed

lemma load_memset_zero:
  assumes "off + 8 \<le> n" and "n < 2 ^ 64"
  shows "load64 (\<lambda>x. if unat (x - p) < n then 0 else m x) (p + of_nat off) = 0"
proof -
  have "load64 (\<lambda>x. if unat (x - p) < n then 0 else m x) (p + of_nat off) = load64 (\<lambda>_. 0) 0"
    by (rule load64_cong) (use offset_in_range[OF assms, of _ p] assms in auto)
  also have "\<dots> = 0" by (rule bit_word_eqI) (simp add: bit_load64)
  finally show ?thesis .
qed

lemma load_memcpy:
  assumes "off + 8 \<le> n" and "n < 2 ^ 64"
  shows "load64 (\<lambda>x. if unat (x - d) < n then m (s + (x - d)) else m x) (d + of_nat off) =
    load64 m (s + of_nat off)"
  by (rule load64_cong) (use offset_in_range[OF assms, of _ d] assms in \<open>auto simp: algebra_simps\<close>)

end
