(* ===== verification/Sched.thy ===== *)
theory Sched
  imports Memory Ram
begin

text \<open>
  Tasks and the scheduler, \<open>src/sched.c\<close> and \<open>switch_to\<close> of \<open>src/entry.S\<close>: a circular run queue of task
  structures, the switch to the entry after the current one, and the removal of zombies.

  The state holds what the functions touch: the heap, the byte memory, the task structures by
  address, the run queue, and the registers that a switch saves and loads. Later components extend
  the record. A function that may give the processor away returns \<open>Stay\<close> or \<open>Switch\<close>: after \<open>Switch\<close> the
  state is that of the moment at which the next task continues, and what the old task had left to do
  is pending on its stack.
\<close>

section \<open>State\<close>

record thread_struct =
  th_ra :: u64
  th_sp :: u64
  th_s :: "nat \<Rightarrow> u64"

datatype task_state = TASK_RUNNING | TASK_ZOMBIE

text \<open>\<open>mm.mmap\<close>, the list head inside the task, is the node \<open>MmapHead task\<close> of \<open>vma_links\<close>.\<close>

record task_struct =
  thread :: thread_struct
  kernel_sp :: u64
  user_sp :: u64
  pid :: u64
  tstate :: task_state
  stack :: u64
  pgd :: u64
  sighand :: "nat \<Rightarrow> u64"
  blocked :: u64
  pending :: u64

datatype run_node = RunQueue | TaskList (task_of: u64)

datatype vma_node = MmapHead u64 | VmaList (vma_of: u64)

text \<open>
  \<open>tp\<close>, \<open>cpu\<close> (\<open>ra\<close>, \<open>sp\<close> and \<open>s0\<close> to \<open>s11\<close>), \<open>satp\<close> and \<open>sstatus.SIE\<close> are registers; \<open>pg_dir\<close> is the
  address at which the linker put the kernel's page table.
\<close>

record sched =
  heap :: mm
  ram :: mem
  tasks :: "u64 \<Rightarrow> task_struct"
  run_links :: "run_node links"
  vma_links :: "vma_node links"
  nr_threads :: u32
  tp :: u64
  cpu :: thread_struct
  satp :: u64
  sie :: bool
  pg_dir :: u64

datatype ctl = Stay | Switch

definition STACK_SIZE :: nat where "STACK_SIZE = 0x2000"
definition SIZEOF_TASK :: nat where "SIZEOF_TASK = 464"
definition SIG_DFL :: u64 where "SIG_DFL = 0"

definition upd_task :: "u64 \<Rightarrow> (task_struct \<Rightarrow> task_struct) \<Rightarrow> 'z sched_scheme \<Rightarrow> 'z sched_scheme" where
  "upd_task t f s = s\<lparr>tasks := (tasks s)(t := f (tasks s t))\<rparr>"

definition get_current :: "'z sched_scheme \<Rightarrow> u64" where
  "get_current s = tp s"

section \<open>The operations\<close>

text \<open>The pid is an \<open>int\<close> that is compared with a \<open>long\<close>. The result is the null pointer when no task has it.\<close>

definition find_task_by_pid :: "u32 \<Rightarrow> 'z sched_scheme \<Rightarrow> fault + u64" where
  "find_task_by_pid p s =
     bindF (of_loop (list_search (\<lambda>pos. pid (tasks s (task_of pos)) = scast p) RunQueue (run_links s)))
       (\<lambda>r. Inr (case r of Some pos \<Rightarrow> task_of pos | None \<Rightarrow> 0))"

definition switch_mm :: "u64 \<Rightarrow> u64 \<Rightarrow> 'z sched_scheme \<Rightarrow> 'z sched_scheme" where
  "switch_mm pg satp_mode s = s\<lparr>satp := push_bit 60 satp_mode OR drop_bit 12 (virt_to_phys pg)\<rparr>"

text \<open>\<open>switch_to\<close> of \<open>entry.S\<close>.\<close>

definition switch_to :: "u64 \<Rightarrow> u64 \<Rightarrow> 'z sched_scheme \<Rightarrow> 'z sched_scheme" where
  "switch_to prev succ s =
     (let s1 = upd_task prev (\<lambda>t. t\<lparr>thread := cpu s\<rparr>) s;
          s2 = s1\<lparr>cpu := thread (tasks s1 succ)\<rparr>
      in s2\<lparr>tp := succ\<rparr>)"

definition schedule :: "'z sched_scheme \<Rightarrow> ctl \<times> 'z sched_scheme" where
  "schedule s =
     (let current = get_current s;
          succ = task_of (list_next_entry_circular (TaskList current) RunQueue (run_links s))
      in if succ = current then (Stay, s)
         else (Switch, switch_to current succ (switch_mm (pgd (tasks s succ)) 8 s)))"

definition kill_zombie :: "run_node \<Rightarrow> 'z sched_scheme \<Rightarrow> fault + 'z sched_scheme" where
  "kill_zombie pos s =
     (if tstate (tasks s (task_of pos)) = TASK_ZOMBIE
      then Inr (s\<lparr>run_links := list_del_init pos (run_links s)\<rparr>)
      else Inr s)"

definition kill_zombies :: "'z sched_scheme \<Rightarrow> fault + 'z sched_scheme" where
  "kill_zombies s =
     (let pos = nxt (run_links s RunQueue);
          tmp = nxt (run_links s pos)
      in case list_for_each_safe run_links kill_zombie RunQueue pos tmp s of
           None \<Rightarrow> Inl No_Return
         | Some r \<Rightarrow> r)"

text \<open>One turn of the loop of \<open>idle\<close>.\<close>

definition idle_turn :: "'z sched_scheme \<Rightarrow> fault + ctl \<times> 'z sched_scheme" where
  "idle_turn s = bindF (kill_zombies s) (\<lambda>s1. Inr (schedule s1))"

definition kthread_create :: "u64 \<Rightarrow> 'z sched_scheme \<Rightarrow> fault + u64 \<times> 'z sched_scheme" where
  "kthread_create threadfn s =
     bindF (kmalloc (of_nat SIZEOF_TASK) (heap s)) (\<lambda>(task, h1).
       let s1 = s\<lparr>heap := h1\<rparr>;
           s2 = upd_task task (\<lambda>t. t\<lparr>pid := scast (nr_threads s1)\<rparr>) s1;
           s3 = s2\<lparr>nr_threads := nr_threads s2 + 1\<rparr>;
           s4 = upd_task task (\<lambda>t. t\<lparr>tstate := TASK_RUNNING\<rparr>) s3
       in bindF (kmalloc (of_nat STACK_SIZE) (heap s4)) (\<lambda>(stk, h2).
         let s5 = s4\<lparr>heap := h2\<rparr>;
             s6 = upd_task task (\<lambda>t. t\<lparr>stack := stk,
                    thread := (thread t)\<lparr>th_ra := threadfn, th_sp := stk + of_nat STACK_SIZE\<rparr>,
                    kernel_sp := stk + of_nat STACK_SIZE\<rparr>) s5;
             s7 = s6\<lparr>vma_links := INIT_LIST_HEAD (MmapHead task) (vma_links s6)\<rparr>
         in bindF (kmalloc (of_nat PAGE_SIZE) (heap s7)) (\<lambda>(pg, h3).
           let s8 = upd_task task (\<lambda>t. t\<lparr>pgd := pg\<rparr>) (s7\<lparr>heap := h3\<rparr>)
           in bindF (of_loop (memcpy (ram s8) pg (pg_dir s8) (int PAGE_SIZE))) (\<lambda>(_, r).
             let s9 = s8\<lparr>ram := r\<rparr>;
                 s10 = upd_task task (\<lambda>t. t\<lparr>sighand := (\<lambda>_. SIG_DFL), blocked := 0, pending := 0\<rparr>) s9
             in Inr (task, s10\<lparr>run_links := list_add_tail (TaskList task) RunQueue (run_links s10)\<rparr>)))))"

text \<open>\<open>idle_fn\<close> is the address of \<open>idle\<close>.\<close>

definition kthread_init :: "u64 \<Rightarrow> 'z sched_scheme \<Rightarrow> fault + 'z sched_scheme" where
  "kthread_init idle_fn s =
     bindF (kthread_create idle_fn (s\<lparr>run_links := INIT_LIST_HEAD RunQueue (run_links s)\<rparr>))
       (\<lambda>(tidle, s1). Inr (s1\<lparr>tp := tidle\<rparr>))"

definition kthread_stop :: "u64 \<Rightarrow> 'z sched_scheme \<Rightarrow> ctl \<times> 'z sched_scheme" where
  "kthread_stop task s = schedule (upd_task task (\<lambda>t. t\<lparr>tstate := TASK_ZOMBIE\<rparr>) s)"

definition kthread_exit :: "'z sched_scheme \<Rightarrow> ctl \<times> 'z sched_scheme" where
  "kthread_exit s = schedule (upd_task (get_current s) (\<lambda>t. t\<lparr>tstate := TASK_ZOMBIE\<rparr>) s)"

section \<open>The run queue\<close>

text \<open>The run queue is the ring \<open>q\<close> of tasks.\<close>

definition runqueue :: "'z sched_scheme \<Rightarrow> u64 list \<Rightarrow> bool" where
  "runqueue s q \<longleftrightarrow> dlist (run_links s) RunQueue (map TaskList q)"

lemma upd_task_simps [simp]:
  "heap (upd_task t f s) = heap s" "ram (upd_task t f s) = ram s"
  "run_links (upd_task t f s) = run_links s" "vma_links (upd_task t f s) = vma_links s"
  "nr_threads (upd_task t f s) = nr_threads s" "tp (upd_task t f s) = tp s"
  "cpu (upd_task t f s) = cpu s" "satp (upd_task t f s) = satp s" "pg_dir (upd_task t f s) = pg_dir s"
  "tasks (upd_task t f s) u = (if u = t then f (tasks s t) else tasks s u)"
  by (simp_all add: upd_task_def)

lemma runqueue_distinct: "runqueue s q \<Longrightarrow> distinct q"
  unfolding runqueue_def dlist_def by (simp add: distinct_map)

lemma find_task_queue:
  "runqueue s q \<Longrightarrow> find_task_by_pid p s =
     Inr (case find (\<lambda>t. pid (tasks s t) = scast p) q of Some t \<Rightarrow> t | None \<Rightarrow> 0)"
proof -
  have f: "find P (map TaskList q) = map_option TaskList (find (\<lambda>t. P (TaskList t)) q)" for P
    by (induction q) auto
  show "runqueue s q \<Longrightarrow> ?thesis"
    unfolding runqueue_def find_task_by_pid_def
    by (simp add: list_search_dlist f option.case_eq_if option.map_sel)
qed

lemma next_in_queue:
  assumes "runqueue s q" and "j < length q"
  shows "task_of (list_next_entry_circular (TaskList (q ! j)) RunQueue (run_links s)) =
    q ! (Suc j mod length q)"
proof -
  have "0 < length q" using assms(2) by linarith
  then have "Suc j mod length q < length q" by (rule mod_less_divisor)
  then show ?thesis
    using list_next_circular_nth[of "run_links s" RunQueue "map TaskList q" j] assms
    by (simp add: runqueue_def)
qed

text \<open>\<open>kill_zombies\<close> returns, and takes exactly the zombies out of the queue.\<close>

lemma kill_zombies_queue:
  fixes s :: "'z sched_scheme"
  assumes q: "runqueue s q"
  defines "alive \<equiv> \<lambda>t. tstate (tasks s t) \<noteq> TASK_ZOMBIE"
  shows "\<exists>h. kill_zombies s = Inr (s\<lparr>run_links := h\<rparr>) \<and> runqueue (s\<lparr>run_links := h\<rparr>) (filter alive q)"
proof -
  let ?I = "\<lambda>ys zs (st :: 'z sched_scheme). st = s\<lparr>run_links := run_links st\<rparr> \<and>
      dlist (run_links st) RunQueue (ys @ zs) \<and>
      (\<exists>vs us. q = vs @ us \<and> zs = map TaskList us \<and> ys = map TaskList (filter alive vs))"
  have d: "dlist (run_links s) RunQueue (map TaskList q)" using q by (simp add: runqueue_def)
  have body: "\<exists>st' ys'. kill_zombie x st = Inr st' \<and> ?I ys' zs st'" if I: "?I ys (x # zs) st" for ys x zs st
  proof -
    note e = I[THEN conjunct1] and dl = I[THEN conjunct2, THEN conjunct1]
    obtain vs us where vu: "q = vs @ us" "x # zs = map TaskList us" "ys = map TaskList (filter alive vs)"
      using I[THEN conjunct2, THEN conjunct2] by (elim exE conjE) (rule that)
    then obtain t us' where us: "us = t # us'" "x = TaskList t" "zs = map TaskList us'" by (cases us) auto
    have tk: "tasks st = tasks s" using arg_cong[OF e, of tasks] by simp
    have q': "q = (vs @ [t]) @ us'" using vu us by simp
    show ?thesis
    proof (cases "alive t")
      case True
      then have "kill_zombie x st = Inr st" using us(2) tk by (simp add: kill_zombie_def alive_def)
      moreover have "?I (ys @ [x]) zs st"
        using e dl q' us True vu(3) by (intro conjI exI[of _ "vs @ [t]"] exI[of _ us']) auto
      ultimately show ?thesis by blast
    next
      case False
      let ?st = "st\<lparr>run_links := list_del_init x (run_links st)\<rparr>"
      have "kill_zombie x st = Inr ?st" using False us(2) tk by (simp add: kill_zombie_def alive_def)
      moreover have "dlist (run_links ?st) RunQueue (ys @ zs)"
        using dl dlist_delete[of "run_links st" RunQueue ys x zs] by simp
      moreover have "?st = s\<lparr>run_links := run_links ?st\<rparr>" 
        using arg_cong[OF e, of "\<lambda>z. z\<lparr>run_links := list_del_init x (run_links st)\<rparr>"] by simp
      ultimately show ?thesis
        using q' us False vu(3) by (intro exI[of _ ?st] exI[of _ ys] conjI exI[of _ "vs @ [t]"] exI[of _ us']) auto
    qed
  qed
  have "\<exists>s' ys'. list_for_each_safe run_links kill_zombie RunQueue (after RunQueue (map TaskList q))
      (nxt (run_links s (nxt (run_links s RunQueue)))) s = Some (Inr s') \<and> ?I ys' [] s'"
  proof (rule list_for_each_safe_rule[where I = ?I])
    show "?I [] (map TaskList q) s" using d by (intro conjI exI[of _ "[]"] exI[of _ q]) auto
    show "?I ys (x # zs) st \<Longrightarrow> \<exists>st' ys'. kill_zombie x st = Inr st' \<and> ?I ys' zs st'" for ys x zs st
      by (rule body)
  qed (use list_for_each_safe_start[OF d] in auto)
  then obtain s' ys' where "list_for_each_safe run_links kill_zombie RunQueue
      (after RunQueue (map TaskList q)) (nxt (run_links s (nxt (run_links s RunQueue)))) s = Some (Inr s')"
    and I: "?I ys' [] s'" by blast
  then have "kill_zombies s = Inr s'" using dlist_first[OF d] by (simp add: kill_zombies_def Let_def)
  moreover have "runqueue (s\<lparr>run_links := run_links s'\<rparr>) (filter alive q)"
    using I by (auto simp: runqueue_def)
  ultimately show ?thesis using I by metis
qed

text \<open>What a switch does.\<close>

lemma switch_to_fields:
  "tp (switch_to p n s) = n"
  "cpu (switch_to p n s) = (if n = p then cpu s else thread (tasks s n))"
  "tasks (switch_to p n s) = (tasks s)(p := (tasks s p)\<lparr>thread := cpu s\<rparr>)"
  "run_links (switch_to p n s) = run_links s" "heap (switch_to p n s) = heap s"
  by (auto simp: switch_to_def Let_def upd_task_def)

lemma switch_mm_fields [simp]:
  "tp (switch_mm g m s) = tp s" "cpu (switch_mm g m s) = cpu s" "tasks (switch_mm g m s) = tasks s"
  "run_links (switch_mm g m s) = run_links s" "heap (switch_mm g m s) = heap s"
  by (simp_all add: switch_mm_def)

lemma schedule_queue:
  assumes q: "runqueue s q" and j: "j < length q" and cur: "tp s = q ! j"
  defines "n \<equiv> q ! (Suc j mod length q)"
  shows "schedule s = (if length q = 1 then (Stay, s)
      else (Switch, switch_to (q ! j) n (switch_mm (pgd (tasks s n)) 8 s)))"
proof -
  have "n = q ! j \<longleftrightarrow> length q = 1"
  proof -
    have l: "0 < length q" using j by linarith
    then have "Suc j mod length q < length q" by (rule mod_less_divisor)
    then have "n = q ! j \<longleftrightarrow> Suc j mod length q = j"
      unfolding n_def using j nth_eq_iff_index_eq[OF runqueue_distinct[OF q]] by blast
    also have "\<dots> \<longleftrightarrow> length q = 1"
    proof
      assume e: "Suc j mod length q = j"
      show "length q = 1"
      proof (cases "Suc j = length q")
        case True
        then show ?thesis using e by simp
      next
        case False
        then show ?thesis using e j by simp
      qed
    qed (use j in simp)
    finally show ?thesis .
  qed
  then show ?thesis
    using next_in_queue[OF q j] cur by (simp add: schedule_def get_current_def Let_def n_def)
qed

section \<open>The invariant of the scheduler\<close>

text \<open>
  \<open>L\<close> are the chunks of the heap in use: every task of the queue is one of them. The pids are distinct
  and below the counter.
\<close>

definition sched_inv :: "'z sched_scheme \<Rightarrow> u64 list \<Rightarrow> chunk set \<Rightarrow> bool" where
  "sched_inv s q L \<longleftrightarrow>
     runqueue s q \<and> mm_inv (heap s) L \<and> (\<forall>t \<in> set q. \<exists>n \<ge> SIZEOF_TASK. (t, n) \<in> L) \<and>
     (\<forall>t \<in> set q. \<exists>i < unat (nr_threads s). pid (tasks s t) = of_nat i) \<and>
     inj_on (\<lambda>t. pid (tasks s t)) (set q) \<and> unat (nr_threads s) < 2 ^ 31"

lemma sched_inv_upd_task:
  assumes "sched_inv s q L" and "\<And>t. pid (f t) = pid t"
  shows "sched_inv (upd_task u f s) q L"
proof -
  have p: "pid (tasks (upd_task u f s) t) = pid (tasks s t)" for t using assms(2) by simp
  have r: "runqueue (upd_task u f s) q \<longleftrightarrow> runqueue s q" by (simp add: runqueue_def)
  show ?thesis using assms(1) unfolding sched_inv_def p r upd_task_simps(1,5) .
qed

lemma find_task_member:
  assumes inv: "sched_inv s q L" and t: "t \<in> set q" "pid (tasks s t) = scast p"
  shows "find_task_by_pid p s = Inr t"
proof -
  let ?P = "\<lambda>t. pid (tasks s t) = scast p"
  have f: "find_task_by_pid p s = Inr (case find ?P q of Some t \<Rightarrow> t | None \<Rightarrow> 0)"
    using inv by (intro find_task_queue) (simp add: sched_inv_def)
  obtain r where r: "find ?P q = Some r" using t find_None_iff[of ?P q] by (cases "find ?P q") auto
  then have "r \<in> set q" "?P r" by (auto simp: find_Some_iff)
  then have "r = t" using inv t unfolding sched_inv_def inj_on_def by auto
  then show ?thesis using f r by simp
qed

lemma scast_small:
  assumes "unat (x :: u32) < 2 ^ 31"
  shows "(scast x :: u64) = of_nat (unat x)"
proof -
  have u: "uint x = int (unat x)" by simp
  have "sint x = signed_take_bit 31 (uint x)" by (simp add: sint_uint)
  also have "\<dots> = int (unat x)"
  proof -
    have l: "int (unat x) < int (2 ^ 31)" using assms by (simp only: of_nat_less_iff)
    have "(- (2 ^ 31) :: int) \<le> 0" by simp
    also have "0 \<le> int (unat x)" by (rule of_nat_0_le_iff)
    finally have "- (2 ^ 31) \<le> int (unat x)" .
    moreover have "int (unat x) < 2 ^ 31" using l by (simp only: of_nat_power of_nat_numeral)
    ultimately show ?thesis unfolding u by (rule signed_take_bit_int_eq_self)
  qed
  finally show ?thesis by (metis of_int_of_nat_eq of_int_sint)
qed

text \<open>A successful \<open>kthread_create\<close>, taken apart.\<close>

lemma kthread_create_Inr:
  assumes "kthread_create fn s = Inr (t, s')"
  obtains h1 stk h2 pg h3 r where
    "kmalloc (of_nat SIZEOF_TASK) (heap s) = Inr (t, h1)"
    "kmalloc (of_nat STACK_SIZE) h1 = Inr (stk, h2)"
    "kmalloc (of_nat PAGE_SIZE) h2 = Inr (pg, h3)"
    "memcpy (ram s) pg (pg_dir s) (int PAGE_SIZE) = Some (pg, r)"
    "heap s' = h3" "ram s' = r" "nr_threads s' = nr_threads s + 1"
    "run_links s' = list_add_tail (TaskList t) RunQueue (run_links s)"
    "vma_links s' = INIT_LIST_HEAD (MmapHead t) (vma_links s)"
    "tp s' = tp s" "cpu s' = cpu s" "satp s' = satp s" "pg_dir s' = pg_dir s"
    "tasks s' = (tasks s)(t := (tasks s t)
       \<lparr>thread := (thread (tasks s t))\<lparr>th_ra := fn, th_sp := stk + of_nat STACK_SIZE\<rparr>,
        kernel_sp := stk + of_nat STACK_SIZE, pid := scast (nr_threads s), tstate := TASK_RUNNING,
        stack := stk, pgd := pg, sighand := (\<lambda>_. SIG_DFL), blocked := 0, pending := 0\<rparr>)"
proof -
  obtain a h1 where 1: "kmalloc (of_nat SIZEOF_TASK) (heap s) = Inr (a, h1)"
    using assms unfolding kthread_create_def bindF_eq_Inr_iff Let_def by auto
  obtain stk h2 where 2: "kmalloc (of_nat STACK_SIZE) h1 = Inr (stk, h2)"
    using assms 1 unfolding kthread_create_def Let_def by (auto simp: bindF_eq_Inr_iff)
  obtain pg h3 where 3: "kmalloc (of_nat PAGE_SIZE) h2 = Inr (pg, h3)"
    using assms 1 2 unfolding kthread_create_def Let_def by (auto simp: bindF_eq_Inr_iff)
  obtain d r where 4: "memcpy (ram s) pg (pg_dir s) (int PAGE_SIZE) = Some (d, r)"
    using assms 1 2 3 unfolding kthread_create_def Let_def by (auto simp: bindF_eq_Inr_iff)
  have d: "d = pg" using 4 by (auto simp: memcpy_def)
  have a: "a = t" using assms 1 2 3 4 by (auto simp: kthread_create_def Let_def)
  show thesis
    by (rule that[OF 1[unfolded a] 2 3 4[unfolded d]])
      (use assms 1 2 3 4 in \<open>auto simp: kthread_create_def Let_def upd_task_def fun_eq_iff\<close>)
qed

lemma kthread_create_inv:
  assumes inv: "sched_inv s q L" and nr: "unat (nr_threads s) + 1 < 2 ^ 31"
    and c: "kthread_create fn s = Inr (t, s')"
  shows "\<exists>L'. sched_inv s' (q @ [t]) L' \<and> L \<subseteq> L'" and "t \<notin> set q"
proof -
  obtain h1 stk h2 pg h3 where k:
    "kmalloc (of_nat SIZEOF_TASK) (heap s) = Inr (t, h1)"
    "kmalloc (of_nat STACK_SIZE) h1 = Inr (stk, h2)"
    "kmalloc (of_nat PAGE_SIZE) h2 = Inr (pg, h3)"
    and f: "heap s' = h3" "nr_threads s' = nr_threads s + 1"
    "run_links s' = list_add_tail (TaskList t) RunQueue (run_links s)"
    "tasks s' = (tasks s)(t := (tasks s t)
       \<lparr>thread := (thread (tasks s t))\<lparr>th_ra := fn, th_sp := stk + of_nat STACK_SIZE\<rparr>,
        kernel_sp := stk + of_nat STACK_SIZE, pid := scast (nr_threads s), tstate := TASK_RUNNING,
        stack := stk, pgd := pg, sighand := (\<lambda>_. SIG_DFL), blocked := 0, pending := 0\<rparr>)"
    using c by (rule kthread_create_Inr)
  note i = inv[unfolded sched_inv_def]
  have sz: "0 < (of_nat SIZEOF_TASK :: u32)" "unat (of_nat SIZEOF_TASK :: u32) = SIZEOF_TASK"
    "0 < (of_nat STACK_SIZE :: u32)" "0 < (of_nat PAGE_SIZE :: u32)"
    by (simp_all add: SIZEOF_TASK_def STACK_SIZE_def PAGE_SIZE_def)
  obtain n where n: "SIZEOF_TASK \<le> n" "(t, n) \<notin> L" "mm_inv h1 (insert (t, n) L)"
    using ha.alloc_chunk[OF _ sz(1) k(1), of L] i unfolding sz(2) by blast
  obtain n2 where n2: "mm_inv h2 (insert (stk, n2) (insert (t, n) L))"
    using ha.alloc_chunk[OF n(3) sz(3) k(2)] by auto
  obtain n3 where n3: "mm_inv h3 (insert (pg, n3) (insert (stk, n2) (insert (t, n) L)))"
    using ha.alloc_chunk[OF n2 sz(4) k(3)] by auto
  let ?L = "insert (pg, n3) (insert (stk, n2) (insert (t, n) L))"
  show tq: "t \<notin> set q"
  proof
    assume "t \<in> set q"
    then obtain m where "(t, m) \<in> L" using i by blast
    then show False using ha.same_address[OF n(3), of t n m] n(2) by auto
  qed
  have nr': "unat (nr_threads s + 1) = unat (nr_threads s) + 1"
    using nr by (simp add: unat_plus_if')
  have rq: "runqueue s' (q @ [t])"
  proof -
    have d: "dlist (run_links s) RunQueue (map TaskList q)" using i by (simp add: runqueue_def)
    have "dlist (list_add_tail (TaskList t) RunQueue (run_links s)) RunQueue (map TaskList q @ TaskList t # [])"
      using dlist_insert[where ys = "map TaskList q" and zs = "[]" and n = "TaskList t"] d tq dlist_last[OF d]
      by (auto simp: list_add_tail_def)
    then show ?thesis by (simp add: runqueue_def f(3))
  qed
  have new: "pid (tasks s' t) = of_nat (unat (nr_threads s))"
    using scast_small[of "nr_threads s"] i by (simp add: f(4))
  have old: "tasks s' u = tasks s u" if "u \<in> set q" for u using that tq by (auto simp: f(4))
  have "inj_on (\<lambda>u. pid (tasks s' u)) (set (q @ [t]))"
  proof -
    have "pid (tasks s u) \<noteq> of_nat (unat (nr_threads s))" if u: "u \<in> set q" for u
    proof
      assume e: "pid (tasks s u) = of_nat (unat (nr_threads s))"
      obtain k where "k < unat (nr_threads s)" "pid (tasks s u) = of_nat k" using i u by blast
      then show False using e unat_small[of k] unat_small[of "unat (nr_threads s)"] nr by simp
    qed
    then show ?thesis using i new old tq by (auto simp: inj_on_def)
  qed
  moreover have "\<forall>u \<in> set (q @ [t]). \<exists>k < unat (nr_threads s'). pid (tasks s' u) = of_nat k"
    using i new old nr' by (auto simp: f(2) less_Suc_eq)
  moreover have "\<forall>u \<in> set (q @ [t]). \<exists>m \<ge> SIZEOF_TASK. (u, m) \<in> ?L" using i n(1) by auto
  ultimately have "sched_inv s' (q @ [t]) ?L"
    unfolding sched_inv_def using rq n3 nr nr' by (simp add: f(1,2))
  then show "\<exists>L'. sched_inv s' (q @ [t]) L' \<and> L \<subseteq> L'" by blast
qed

section \<open>Properties\<close>

text \<open>The registers with which a task goes on: the processor's, or those saved in its structure.\<close>

definition saved_context :: "'z sched_scheme \<Rightarrow> u64 \<Rightarrow> thread_struct" where
  "saved_context s t = (if t = tp s then cpu s else thread (tasks s t))"

lemma schedule_step:
  assumes q: "runqueue s q" and j: "j < length q" and cur: "tp s = q ! j"
  defines "s' \<equiv> snd (schedule s)"
  shows "tp s' = q ! (Suc j mod length q)" and "saved_context s' t = saved_context s t"
    and "runqueue s' q"
proof -
  note c = schedule_queue[OF assms(1-3)]
  have "tp s' = q ! (Suc j mod length q) \<and> saved_context s' t = saved_context s t \<and> runqueue s' q"
  proof (cases "length q = 1")
    case True
    then show ?thesis using c cur q j by (simp add: s'_def)
  next
    case False
    then have "s' = switch_to (q ! j) (q ! (Suc j mod length q))
        (switch_mm (pgd (tasks s (q ! (Suc j mod length q)))) 8 s)"
      using c by (simp add: s'_def)
    then show ?thesis
      using cur q by (auto simp: switch_to_fields saved_context_def runqueue_def)
  qed
  then show "tp s' = q ! (Suc j mod length q)" and "saved_context s' t = saved_context s t"
    and "runqueue s' q" by blast+
qed

text \<open>C18: the scheduler is fair and transparent: the \<open>i\<close>th call of \<open>schedule\<close> has reached the task \<open>i\<close> places
  further round the run queue, and the processor then holds exactly the registers this task had when
  it was last interrupted.\<close>

theorem schedule_round_robin:
  fixes i :: nat
  assumes q: "runqueue s q" and j: "j < length q" and cur: "tp s = q ! j"
  defines "s' \<equiv> ((\<lambda>s. snd (schedule s)) ^^ i) s"
  shows "tp s' = q ! ((j + i) mod length q) \<and> cpu s' = saved_context s (tp s') \<and> runqueue s' q"
proof -
  have "tp s' = q ! ((j + i) mod length q) \<and> (\<forall>t. saved_context s' t = saved_context s t) \<and> runqueue s' q"
    unfolding s'_def
  proof (induction i)
    case 0
    then show ?case using assms by simp
  next
    case (Suc i)
    let ?m = "(j + i) mod length q" and ?s = "((\<lambda>s. snd (schedule s)) ^^ i) s"
    have "0 < length q" using j by linarith
    then have m: "?m < length q" by (rule mod_less_divisor)
    have r: "runqueue ?s q" and t: "tp ?s = q ! ?m" using Suc by blast+
    show ?case
      using schedule_step[OF r m t] Suc by (simp add: mod_Suc_eq)
  qed
  moreover have "cpu s' = saved_context s' (tp s')" by (simp add: saved_context_def)
  ultimately show ?thesis by simp
qed

definition example_thread :: "u64 \<Rightarrow> thread_struct" where
  "example_thread a = \<lparr>th_ra = a, th_sp = 0, th_s = (\<lambda>_. 0)\<rparr>"

definition example_task :: "u64 \<Rightarrow> task_struct" where
  "example_task t = \<lparr>thread = example_thread (t + 0x1000), kernel_sp = 0, user_sp = 0, pid = t,
     tstate = (if t = 3 then TASK_ZOMBIE else TASK_RUNNING), stack = 0, pgd = 0,
     sighand = (\<lambda>_. 0), blocked = 0, pending = 0\<rparr>"

definition example_sched :: sched where
  "example_sched = \<lparr>heap = mem_init_free boot_mm, ram = (\<lambda>_. 0), tasks = example_task,
     run_links = list_add_tail (TaskList 3) RunQueue (list_add_tail (TaskList 2) RunQueue
       (list_add_tail (TaskList 1) RunQueue (\<lambda>n. \<lparr>prv = n, nxt = n\<rparr>))),
     vma_links = (\<lambda>n. \<lparr>prv = n, nxt = n\<rparr>), nr_threads = 4, tp = 2, cpu = example_thread 7,
     satp = 0, sie = False, pg_dir = 0xffffffc080205000\<rparr>"

lemma example_queue: "runqueue example_sched [1, 2, 3]"
  by (simp add: runqueue_def dlist_def example_sched_def list_add_tail_def)

theorem schedule_round_robin_witness:
  "tp (((\<lambda>s. snd (schedule s)) ^^ 5) example_sched) = 1 \<and>
   th_ra (cpu (((\<lambda>s. snd (schedule s)) ^^ 5) example_sched)) = 0x1001"
proof -
  have "tp example_sched = [1, 2, 3] ! 1" by (simp add: example_sched_def)
  moreover have "(1 + 5) mod length [1, 2, 3 :: u64] = 0" by simp
  ultimately show ?thesis
    using schedule_round_robin[OF example_queue, of 1 5]
    by (simp add: saved_context_def) (simp add: example_sched_def example_task_def example_thread_def)
qed

text \<open>\<open>kill_zombies\<close> returns and takes exactly the zombies out of the run queue, the others keeping
  their order, and changes nothing else.\<close>

theorem kill_zombies_correct:
  assumes "runqueue s q"
  shows "\<exists>h. kill_zombies s = Inr (s\<lparr>run_links := h\<rparr>) \<and>
    runqueue (s\<lparr>run_links := h\<rparr>) (filter (\<lambda>t. tstate (tasks s t) \<noteq> TASK_ZOMBIE) q)"
  by (rule kill_zombies_queue[OF assms])

theorem kill_zombies_correct_witness:
  "\<exists>h. kill_zombies example_sched = Inr (example_sched\<lparr>run_links := h\<rparr>) \<and>
     runqueue (example_sched\<lparr>run_links := h\<rparr>) [1, 2]"
  using kill_zombies_correct[OF example_queue] by (simp add: example_sched_def example_task_def)

lemma boot_mm_inv: "mm_inv (mem_init_free s) {}"
proof -
  have "heap_inv (mem_init_free s) (top_lists NUM_PAGES) (\<lambda>_. []) {} {} {} {}"
    using mem_init_free_inv mem_init_free_page by (intro heap_invI) auto
  then show ?thesis unfolding mm_inv_def by (intro exI conjI) auto
qed

text \<open>The state before \<open>kthread_init\<close> makes the first task.\<close>

definition empty_sched :: sched where
  "empty_sched = example_sched\<lparr>run_links := (\<lambda>n. \<lparr>prv = n, nxt = n\<rparr>), nr_threads := 0\<rparr>"

lemma empty_sched_inv: "sched_inv empty_sched [] {}"
  using boot_mm_inv[of boot_mm]
  by (simp add: sched_inv_def runqueue_def dlist_def empty_sched_def example_sched_def)

lemma task_sizes:
  "0 < (of_nat SIZEOF_TASK :: u32)" "unat (of_nat SIZEOF_TASK :: u32) \<le> 2 ^ 22"
  "0 < (of_nat STACK_SIZE :: u32)" "unat (of_nat STACK_SIZE :: u32) \<le> 2 ^ 22"
  "0 < (of_nat PAGE_SIZE :: u32)" "unat (of_nat PAGE_SIZE :: u32) \<le> 2 ^ 22"
  by (simp_all add: SIZEOF_TASK_def STACK_SIZE_def PAGE_SIZE_def)

lemma empty_sched_create:
  obtains t s' where "kthread_create fn empty_sched = Inr (t, s')"
proof -
  have "plenty (Suc (Suc (Suc 1277))) (heap empty_sched)"
    using boot_plenty[of boot_mm] by (simp add: empty_sched_def example_sched_def)
  then obtain t h1 where 1: "kmalloc (of_nat SIZEOF_TASK) (heap empty_sched) = Inr (t, h1)" "plenty (Suc (Suc 1277)) h1"
    by (rule plenty_kmalloc[OF _ task_sizes(1,2)])
  obtain stk h2 where 2: "kmalloc (of_nat STACK_SIZE) h1 = Inr (stk, h2)" "plenty (Suc 1277) h2"
    using 1(2) by (rule plenty_kmalloc[OF _ task_sizes(3,4)])
  obtain pg h3 where 3: "kmalloc (of_nat PAGE_SIZE) h2 = Inr (pg, h3)"
    using 2(2) by (rule plenty_kmalloc[OF _ task_sizes(5,6)])
  obtain r where r: "memcpy_loop (ram empty_sched) pg (pg_dir empty_sched) (int PAGE_SIZE) = Some r"
    using memcpy_loop_total by blast
  let ?task = "(tasks empty_sched t)
       \<lparr>thread := (thread (tasks empty_sched t))\<lparr>th_ra := fn, th_sp := stk + of_nat STACK_SIZE\<rparr>,
        kernel_sp := stk + of_nat STACK_SIZE, pid := scast (nr_threads empty_sched), tstate := TASK_RUNNING,
        stack := stk, pgd := pg, sighand := (\<lambda>_. SIG_DFL), blocked := 0, pending := 0\<rparr>"
  have "\<exists>s'. kthread_create fn empty_sched = Inr (t, s')"
    using 1(1) 2(1) 3 r by (simp add: kthread_create_def Let_def memcpy_def)
  then show thesis using that by blast
qed

text \<open>Under the invariant of the scheduler \<open>find_task_by_pid\<close> returns the one task of the queue that
  has the pid, and the null pointer exactly when there is none.\<close>

theorem find_task_correct:
  assumes inv: "sched_inv s q L"
  shows "\<exists>r. find_task_by_pid p s = Inr r \<and>
    (\<forall>t \<in> set q. pid (tasks s t) = scast p \<longrightarrow> r = t) \<and>
    (r = 0 \<longleftrightarrow> \<not> (\<exists>t \<in> set q. pid (tasks s t) = scast p))"
proof -
  let ?P = "\<lambda>t. pid (tasks s t) = scast p"
  have f: "find_task_by_pid p s = Inr (case find ?P q of Some t \<Rightarrow> t | None \<Rightarrow> 0)"
    using inv by (intro find_task_queue) (simp add: sched_inv_def)
  show ?thesis
  proof (cases "find ?P q")
    case None
    then show ?thesis using f find_None_iff[of ?P q] by simp
  next
    case (Some r)
    then have r: "r \<in> set q" "?P r" by (auto simp: find_Some_iff)
    then have u: "r = t" if "t \<in> set q" "?P t" for t
      using inv that unfolding sched_inv_def inj_on_def by auto
    obtain n where "(r, n) \<in> L" using inv r(1) unfolding sched_inv_def by blast
    moreover have "mm_inv (heap s) L" using inv by (simp add: sched_inv_def)
    ultimately have "r \<noteq> 0" using chunk_not_null by blast
    moreover have "find_task_by_pid p s = Inr r" using f Some by simp
    ultimately show ?thesis using r u by blast
  qed
qed

theorem find_task_correct_witness:
  "\<exists>t s'. kthread_create 0x1234 empty_sched = Inr (t, s') \<and> find_task_by_pid 0 s' = Inr t"
proof -
  obtain t s' where c: "kthread_create 0x1234 empty_sched = Inr (t, s')" by (rule empty_sched_create)
  have n: "nr_threads empty_sched = 0" by (simp add: empty_sched_def)
  obtain L where i: "sched_inv s' ([] @ [t]) L"
    using kthread_create_inv(1)[OF empty_sched_inv _ c] n by auto
  have "pid (tasks s' t) = 0" using c n by (elim kthread_create_Inr) simp
  then show ?thesis using find_task_correct[OF i, of 0] c by auto
qed

text \<open>A successful \<open>kthread_create\<close> puts a new running task at the end of the run queue, with a
  fresh pid, its entry point, the top of its own stack, default signal handlers and a page of its own
  for the page table, keeps the invariant of the scheduler and the other tasks as they are.\<close>

theorem kthread_create_correct:
  assumes inv: "sched_inv s q L" and nr: "unat (nr_threads s) + 1 < 2 ^ 31"
    and c: "kthread_create fn s = Inr (t, s')"
  shows "(\<exists>L'. sched_inv s' (q @ [t]) L' \<and> L \<subseteq> L') \<and> t \<notin> set q \<and>
    pid (tasks s' t) = of_nat (unat (nr_threads s)) \<and> tstate (tasks s' t) = TASK_RUNNING \<and>
    th_ra (thread (tasks s' t)) = fn \<and>
    th_sp (thread (tasks s' t)) = stack (tasks s' t) + of_nat STACK_SIZE \<and>
    kernel_sp (tasks s' t) = stack (tasks s' t) + of_nat STACK_SIZE \<and>
    (\<forall>i. sighand (tasks s' t) i = SIG_DFL) \<and> blocked (tasks s' t) = 0 \<and> pending (tasks s' t) = 0 \<and>
    (\<forall>u. u \<noteq> t \<longrightarrow> tasks s' u = tasks s u) \<and>
    (PAGE_SIZE \<le> unat (pgd (tasks s' t) - pg_dir s) \<longrightarrow>
      bytes (ram s') (pgd (tasks s' t)) PAGE_SIZE = bytes (ram s) (pg_dir s) PAGE_SIZE)"
proof -
  obtain stk pg r where m: "memcpy (ram s) pg (pg_dir s) (int PAGE_SIZE) = Some (pg, r)"
    and f: "ram s' = r"
    "tasks s' = (tasks s)(t := (tasks s t)
       \<lparr>thread := (thread (tasks s t))\<lparr>th_ra := fn, th_sp := stk + of_nat STACK_SIZE\<rparr>,
        kernel_sp := stk + of_nat STACK_SIZE, pid := scast (nr_threads s), tstate := TASK_RUNNING,
        stack := stk, pgd := pg, sighand := (\<lambda>_. SIG_DFL), blocked := 0, pending := 0\<rparr>)"
    using c by (rule kthread_create_Inr)
  have "bytes r pg PAGE_SIZE = bytes (ram s) (pg_dir s) PAGE_SIZE" if "PAGE_SIZE \<le> unat (pg - pg_dir s)"
    using memcpy_bytes[OF _ that, of "ram s"] m by (simp add: PAGE_SIZE_def)
  moreover have "pid (tasks s' t) = of_nat (unat (nr_threads s))"
    using scast_small[of "nr_threads s"] nr by (simp add: f(2))
  ultimately show ?thesis
    using kthread_create_inv[OF inv nr c] f by simp
qed

theorem kthread_create_correct_witness:
  "\<exists>t s' L. kthread_create 0x1234 empty_sched = Inr (t, s') \<and> sched_inv s' [t] L \<and>
     th_ra (thread (tasks s' t)) = 0x1234 \<and> pid (tasks s' t) = 0"
proof -
  obtain t s' where c: "kthread_create 0x1234 empty_sched = Inr (t, s')" by (rule empty_sched_create)
  have n: "nr_threads empty_sched = 0" by (simp add: empty_sched_def)
  show ?thesis
    using kthread_create_correct[OF empty_sched_inv _ c] c n by simp
qed

text \<open>\<open>kthread_stop\<close> of the task that is next in the run queue makes it a zombie and then switches to
  it: the processor goes on with a task that has been stopped.\<close>

theorem kthread_stop_runs_zombie:
  assumes q: "runqueue s q" and j: "j < length q" and cur: "tp s = q ! j" and two: "1 < length q"
  defines "t \<equiv> q ! (Suc j mod length q)"
  shows "\<exists>s'. kthread_stop t s = (Switch, s') \<and> tp s' = t \<and> tstate (tasks s' t) = TASK_ZOMBIE"
proof -
  let ?s = "upd_task t (\<lambda>u. u\<lparr>tstate := TASK_ZOMBIE\<rparr>) s"
  have "runqueue ?s q" "tp ?s = q ! j" using q cur by (simp_all add: runqueue_def)
  from schedule_queue[OF this(1) j this(2)]
  have "kthread_stop t s = (Switch, switch_to (q ! j) t (switch_mm (pgd (tasks ?s t)) 8 ?s))"
    using two by (simp add: kthread_stop_def t_def)
  then show ?thesis by (simp add: switch_to_fields)
qed

theorem kthread_stop_runs_zombie_witness:
  "\<exists>s'. kthread_stop 3 example_sched = (Switch, s') \<and> tp s' = 3 \<and> tstate (tasks s' 3) = TASK_ZOMBIE"
proof -
  have "tp example_sched = [1, 2, 3] ! 1" by (simp add: example_sched_def)
  from kthread_stop_runs_zombie[OF example_queue _ this] show ?thesis by simp
qed

end
