(* ===== verification/Console.thy ===== *)
theory Console
  imports Sched
begin

text \<open>
  The serial console: \<open>src/uart.c\<close> and \<open>src/printk.c\<close>.

  The device is what the loops read: the line status register and the receive buffer have a value at
  every read, and the bytes written to the transmit register are kept in order. A loop that polls the
  line status is a partial function, with \<open>None\<close> when the awaited bit never comes; that the transmitter
  becomes ready again and again is the hypothesis \<open>tx_ready\<close>. Format strings and other literals are lists of characters, a string that is
  passed as an argument lies in memory. An argument of \<open>printk\<close> is a 64-bit register.
\<close>

section \<open>The serial port\<close>

record console = sched +
  uart_lsr :: "nat \<Rightarrow> u8"
  uart_rbr :: "nat \<Rightarrow> u8"
  lsr_reads :: nat
  rbr_reads :: nat
  uart_thr :: "u8 list"

partial_function (option) uart_poll :: "u8 \<Rightarrow> 'z console_scheme \<Rightarrow> 'z console_scheme option" where
  "uart_poll bits s =
     (let s1 = s\<lparr>lsr_reads := lsr_reads s + 1\<rparr>
      in if uart_lsr s (lsr_reads s) AND bits = 0 then uart_poll bits s1 else Some s1)"

definition uart_getc :: "'z console_scheme \<Rightarrow> (u8 \<times> 'z console_scheme) option" where
  "uart_getc s =
     Option.bind (uart_poll 0x01 s) (\<lambda>s1.
       let c = uart_rbr s1 (rbr_reads s1)
       in Some (if c = 13 then 10 else c, s1\<lparr>rbr_reads := rbr_reads s1 + 1\<rparr>))"

function uart_putc :: "u8 \<Rightarrow> 'z console_scheme \<Rightarrow> 'z console_scheme option" where
  "uart_putc c s =
     Option.bind (if c = 10 then uart_putc 13 s else Some s) (\<lambda>s1.
       Option.bind (uart_poll 0x20 s1) (\<lambda>s2. Some (s2\<lparr>uart_thr := uart_thr s2 @ [c]\<rparr>)))"
  by pat_completeness auto
termination by (relation "measure (\<lambda>(c, s). if c = 10 then 1 else 0)") auto

declare uart_putc.simps [simp del]

partial_function (option) uart_puts :: "u64 \<Rightarrow> 'z console_scheme \<Rightarrow> 'z console_scheme option" where
  "uart_puts p s =
     (if ram s p \<noteq> 0 then Option.bind (uart_putc (ram s p) s) (\<lambda>s1. uart_puts (p + 1) s1) else Some s)"

text \<open>\<open>uart_puts\<close> of a literal, or of characters that are sent one after the other.\<close>

fun uart_write :: "u8 list \<Rightarrow> 'z console_scheme \<Rightarrow> 'z console_scheme option" where
  "uart_write [] s = Some s"
| "uart_write (c # cs) s = Option.bind (uart_putc c s) (\<lambda>s1. uart_write cs s1)"

definition chars :: "string \<Rightarrow> u8 list" where
  "chars cs = map (\<lambda>c. of_nat (of_char c)) cs"

definition uart_hex :: "u32 \<Rightarrow> 'z console_scheme \<Rightarrow> 'z console_scheme option" where
  "uart_hex h s =
     Option.bind (uart_write (chars ''0x'') s) (\<lambda>s1.
       uart_write (map (\<lambda>c. let n = drop_bit c h AND 0xf
                            in ucast (n + (if 9 < n then 0x37 else 0x30))) [28, 24, 20, 16, 12, 8, 4, 0]) s1)"

section \<open>Formatted output\<close>

definition digits :: "u8 list" where
  "digits = chars ''0123456789abcdef''"

text \<open>The first loop of \<open>printint\<close> fills \<open>buf\<close>, sixteen characters, from its start.\<close>

function printint_loop :: "u64 \<Rightarrow> u64 \<Rightarrow> u8 list \<Rightarrow> fault + u8 list" where
  "printint_loop x base buf =
     (if length buf < 16 then
        let buf1 = buf @ [digits ! unat (x mod base)];
            x1 = x div base
        in if x1 \<noteq> 0 then printint_loop x1 base buf1 else Inr buf1
      else Inl Bad_Index)"
  by pat_completeness auto
termination by (relation "measure (\<lambda>(x, b, buf). 16 - length buf)") auto

declare printint_loop.simps [simp del]

definition printint :: "u64 \<Rightarrow> u64 \<Rightarrow> bool \<Rightarrow> 'z console_scheme \<Rightarrow> fault + 'z console_scheme" where
  "printint xx base sign s =
     (let neg = (sign \<and> sint xx < 0);
          x = (if neg then - xx else xx)
      in bindF (printint_loop x base []) (\<lambda>buf.
           bindF (if neg then if length buf < 16 then Inr (buf @ chars ''-'') else Inl Bad_Index
                  else Inr buf) (\<lambda>buf1.
             of_loop (uart_write (rev buf1) s))))"

definition printptr :: "u64 \<Rightarrow> 'z console_scheme \<Rightarrow> fault + 'z console_scheme" where
  "printptr x s =
     bindF (of_loop (uart_write (chars ''0x'') s)) (\<lambda>s1.
       of_loop (uart_write (map (\<lambda>i. digits ! unat (drop_bit 60 (push_bit (4 * i) x))) [0..<16]) s1))"

definition starts :: "string \<Rightarrow> u8 list \<Rightarrow> bool" where
  "starts p fmt \<longleftrightarrow> take (length p) fmt = chars p"

fun va_arg :: "u64 list \<Rightarrow> (u64 \<Rightarrow> u64 list \<Rightarrow> fault + 'a) \<Rightarrow> fault + 'a" where
  "va_arg [] f = Inl Bad_Index"
| "va_arg (a # args) f = f a args"

text \<open>An \<open>int\<close> argument, converted to \<open>long long\<close>.\<close>

definition int_arg :: "u64 \<Rightarrow> u64" where
  "int_arg a = scast (ucast a :: u32)"

function vprintk :: "u8 list \<Rightarrow> u64 list \<Rightarrow> 'z console_scheme \<Rightarrow> fault + 'z console_scheme" where
  "vprintk [] args s = Inr s"
| "vprintk (c # fmt) args s =
     (if c \<noteq> 0x25 then bindF (of_loop (uart_putc c s)) (\<lambda>s1. vprintk fmt args s1)
      else if starts ''d'' fmt then
        va_arg args (\<lambda>a args. bindF (printint (int_arg a) 10 True s) (\<lambda>s1. vprintk (drop 1 fmt) args s1))
      else if starts ''ld'' fmt then
        va_arg args (\<lambda>a args. bindF (printint a 10 True s) (\<lambda>s1. vprintk (drop 2 fmt) args s1))
      else if starts ''u'' fmt then
        va_arg args (\<lambda>a args. bindF (printint (int_arg a) 10 False s) (\<lambda>s1. vprintk (drop 1 fmt) args s1))
      else if starts ''lu'' fmt then
        va_arg args (\<lambda>a args. bindF (printint a 10 False s) (\<lambda>s1. vprintk (drop 2 fmt) args s1))
      else if starts ''x'' fmt then
        va_arg args (\<lambda>a args. bindF (printint (int_arg a) 16 False s) (\<lambda>s1. vprintk (drop 1 fmt) args s1))
      else if starts ''lx'' fmt then
        va_arg args (\<lambda>a args. bindF (printint a 16 False s) (\<lambda>s1. vprintk (drop 2 fmt) args s1))
      else if starts ''c'' fmt then
        va_arg args (\<lambda>a args. bindF (of_loop (uart_putc (ucast a) s)) (\<lambda>s1. vprintk (drop 1 fmt) args s1))
      else if starts ''s'' fmt then
        va_arg args (\<lambda>a args.
          bindF (of_loop (if a = 0 then uart_write (chars ''(null)'') s else uart_puts a s)) (\<lambda>s1.
            vprintk (drop 1 fmt) args s1))
      else if starts ''p'' fmt then
        va_arg args (\<lambda>a args. bindF (printptr a s) (\<lambda>s1. vprintk (drop 1 fmt) args s1))
      else if starts ''%'' fmt then bindF (of_loop (uart_putc 0x25 s)) (\<lambda>s1. vprintk fmt args s1)
      else vprintk fmt args s)"
  by pat_completeness auto
termination by (relation "measure (\<lambda>(fmt, args, s). length fmt)") auto

declare vprintk.simps [simp del]

definition printk :: "string \<Rightarrow> u64 list \<Rightarrow> 'z console_scheme \<Rightarrow> fault + 'z console_scheme" where
  "printk fmt args s = vprintk (chars fmt) args s"

section \<open>What is sent\<close>

text \<open>The transmitter becomes ready again and again.\<close>

definition tx_ready :: "'z console_scheme \<Rightarrow> bool" where
  "tx_ready s \<longleftrightarrow> (\<forall>n. \<exists>k \<ge> n. uart_lsr s k AND 0x20 \<noteq> 0)"

text \<open>From \<open>s\<close> to \<open>s'\<close> the bytes \<open>cs\<close> went out, and nothing else changed.\<close>

definition sends :: "u8 list \<Rightarrow> 'z console_scheme \<Rightarrow> 'z console_scheme \<Rightarrow> bool" where
  "sends cs s s' \<longleftrightarrow> (\<exists>n. s' = s\<lparr>lsr_reads := n, uart_thr := uart_thr s @ cs\<rparr>)"

definition crlf :: "u8 list \<Rightarrow> u8 list" where
  "crlf cs = concat (map (\<lambda>c. if c = 10 then [13, 10] else [c]) cs)"

lemma crlf_simps [simp]:
  "crlf [] = []" "crlf (c # cs) = (if c = 10 then [13, 10] else [c]) @ crlf cs"
  "crlf (cs @ ds) = crlf cs @ crlf ds"
  by (simp_all add: crlf_def)

lemma crlf_id: "10 \<notin> set cs \<Longrightarrow> crlf cs = cs"
  by (induction cs) auto

lemma sends_refl: "sends [] s s"
  unfolding sends_def by (intro exI[of _ "lsr_reads s"]) simp

lemma sends_trans: "sends cs s s1 \<Longrightarrow> sends ds s1 s2 \<Longrightarrow> sends (cs @ ds) s s2"
  unfolding sends_def by auto

lemma sends_fields:
  assumes "sends cs s s'"
  shows "uart_thr s' = uart_thr s @ cs" "ram s' = ram s" "tx_ready s' \<longleftrightarrow> tx_ready s"
    "uart_lsr s' = uart_lsr s" "heap s' = heap s" "tasks s' = tasks s" "run_links s' = run_links s"
    "vma_links s' = vma_links s" "tp s' = tp s" "nr_threads s' = nr_threads s"
  using assms by (auto simp: sends_def tx_ready_def)

lemma uart_poll_ready:
  assumes "tx_ready s"
  shows "\<exists>n. uart_poll 0x20 s = Some (s\<lparr>lsr_reads := n\<rparr>)"
proof -
  obtain k where k: "lsr_reads s \<le> k" "uart_lsr s k AND 0x20 \<noteq> 0" using assms by (auto simp: tx_ready_def)
  then show ?thesis
  proof (induction "k - lsr_reads s" arbitrary: s)
    case 0
    then have "uart_lsr s (lsr_reads s) AND 0x20 \<noteq> 0" by simp
    then have "uart_poll 0x20 s = Some (s\<lparr>lsr_reads := lsr_reads s + 1\<rparr>)"
      by (subst uart_poll.simps) (simp add: Let_def)
    then show ?case by blast
  next
    case (Suc d)
    show ?case
    proof (cases "uart_lsr s (lsr_reads s) AND 0x20 = 0")
      case True
      let ?s = "s\<lparr>lsr_reads := lsr_reads s + 1\<rparr>"
      have "\<exists>n. uart_poll 0x20 ?s = Some (?s\<lparr>lsr_reads := n\<rparr>)" using Suc by (intro Suc(1)) auto
      then show ?thesis using True by (subst uart_poll.simps) (auto simp: Let_def)
    next
      case False
      then have "uart_poll 0x20 s = Some (s\<lparr>lsr_reads := lsr_reads s + 1\<rparr>)"
        by (subst uart_poll.simps) (simp add: Let_def)
      then show ?thesis by blast
    qed
  qed
qed

lemma uart_putc_sends:
  assumes "tx_ready s"
  shows "\<exists>s'. uart_putc c s = Some s' \<and> sends (crlf [c]) s s'"
proof -
  have plain: "\<exists>s'. Option.bind (uart_poll 0x20 s) (\<lambda>s2. Some (s2\<lparr>uart_thr := uart_thr s2 @ [c]\<rparr>)) = Some s' \<and>
      sends [c] s s'" if "tx_ready s" for c and s :: "'a console_scheme"
    using uart_poll_ready[OF that] by (auto simp: sends_def)
  show ?thesis
  proof (cases "c = 10")
    case True
    obtain s1 where 1: "uart_putc 13 s = Some s1" "sends [13] s s1"
      using plain[OF assms, of 13] by (auto simp: uart_putc.simps[of 13 s])
    then obtain s2 where "Option.bind (uart_poll 0x20 s1) (\<lambda>s2. Some (s2\<lparr>uart_thr := uart_thr s2 @ [10]\<rparr>)) = Some s2"
      "sends [10] s1 s2" using plain[of s1 10] assms sends_fields(3) by blast
    then show ?thesis using 1 True sends_trans[OF 1(2)] by (auto simp: uart_putc.simps[of 10 s])
  next
    case False
    then show ?thesis using plain[OF assms, of c] by (simp add: uart_putc.simps[of c s])
  qed
qed

lemma uart_write_sends:
  assumes "tx_ready s"
  shows "\<exists>s'. uart_write cs s = Some s' \<and> sends (crlf cs) s s'"
  using assms
proof (induction cs arbitrary: s)
  case (Cons c cs)
  obtain s1 where 1: "uart_putc c s = Some s1" "sends (crlf [c]) s s1"
    using uart_putc_sends[OF Cons(2)] by blast
  then obtain s2 where "uart_write cs s1 = Some s2" "sends (crlf cs) s1 s2"
    using Cons sends_fields(3) by blast
  then show ?case using 1(1) sends_trans[OF 1(2)] by auto
qed (simp add: sends_refl)

lemma uart_puts_sends:
  assumes "tx_ready s" and "cstr (ram s) p cs"
  shows "\<exists>s'. uart_puts p s = Some s' \<and> sends (crlf cs) s s'"
  using assms
proof (induction cs arbitrary: s p)
  case Nil
  then show ?case by (subst uart_puts.simps) (simp add: sends_refl)
next
  case (Cons c cs)
  obtain s1 where 1: "uart_putc c s = Some s1" "sends (crlf [c]) s s1"
    using uart_putc_sends[OF Cons(2)] by blast
  then obtain s2 where "uart_puts (p + 1) s1 = Some s2" "sends (crlf cs) s1 s2"
    using Cons(1)[of s1 "p + 1"] Cons(2,3) sends_fields(2,3)[OF 1(2)] by auto
  then show ?case using 1(1) sends_trans[OF 1(2)] Cons(3) by (subst uart_puts.simps) auto
qed

text \<open>Whatever returns has only sent something.\<close>

lemma uart_poll_Some:
  assumes "uart_poll b s = Some s'"
  shows "\<exists>n. s' = s\<lparr>lsr_reads := n\<rparr>"
proof (rule uart_poll.raw_induct[OF _ assms])
  fix f and b :: u8 and s s' :: "'a console_scheme"
  assume IH: "\<And>b s y. f b s = Some y \<Longrightarrow> \<exists>n. y = s\<lparr>lsr_reads := n\<rparr>"
    and e: "(let s1 = s\<lparr>lsr_reads := lsr_reads s + 1\<rparr>
      in if uart_lsr s (lsr_reads s) AND b = 0 then f b s1 else Some s1) = Some s'"
  show "\<exists>n. s' = s\<lparr>lsr_reads := n\<rparr>"
  proof (cases "uart_lsr s (lsr_reads s) AND b = 0")
    case True
    then have "f b (s\<lparr>lsr_reads := lsr_reads s + 1\<rparr>) = Some s'" using e by (simp add: Let_def)
    from IH[OF this] show ?thesis by simp
  next
    case False
    then have "s' = s\<lparr>lsr_reads := lsr_reads s + 1\<rparr>" using e by (simp add: Let_def)
    then show ?thesis by blast
  qed
qed

lemma uart_putc_Some: "uart_putc c s = Some s' \<Longrightarrow> sends (crlf [c]) s s'"
proof -
  have plain: "sends [c] s s'"
    if e: "Option.bind (uart_poll 0x20 s) (\<lambda>s2. Some (s2\<lparr>uart_thr := uart_thr s2 @ [c]\<rparr>)) = Some s'"
    for c and s s' :: "'a console_scheme"
  proof -
    obtain s1 where s1: "uart_poll 0x20 s = Some s1" using e by (cases "uart_poll 0x20 s") simp_all
    then have "s' = s1\<lparr>uart_thr := uart_thr s1 @ [c]\<rparr>" using e by simp
    moreover obtain n where "s1 = s\<lparr>lsr_reads := n\<rparr>" using uart_poll_Some[OF s1] by blast
    ultimately have "s' = s\<lparr>lsr_reads := n, uart_thr := uart_thr s @ [c]\<rparr>" by simp
    then show ?thesis unfolding sends_def by blast
  qed
  assume a: "uart_putc c s = Some s'"
  show "sends (crlf [c]) s s'"
  proof (cases "c = 10")
    case True
    then obtain s1 where 1: "uart_putc 13 s = Some s1"
      and 2: "Option.bind (uart_poll 0x20 s1) (\<lambda>s2. Some (s2\<lparr>uart_thr := uart_thr s2 @ [10]\<rparr>)) = Some s'"
      using a by (auto simp: uart_putc.simps[of 10 s] bind_eq_Some_conv)
    have "sends [13] s s1" using 1 by (intro plain) (simp add: uart_putc.simps[of 13 s])
    from sends_trans[OF this plain[OF 2]] show ?thesis using True by simp
  next
    case False
    then show ?thesis using a plain[of s c s'] by (simp add: uart_putc.simps[of c s])
  qed
qed

lemma uart_write_Some: "uart_write cs s = Some s' \<Longrightarrow> sends (crlf cs) s s'"
proof (induction cs arbitrary: s)
  case (Cons c cs)
  then obtain s1 where "uart_putc c s = Some s1" "uart_write cs s1 = Some s'"
    by (auto simp: bind_eq_Some_conv)
  then show ?case using sends_trans[OF uart_putc_Some Cons(1)] by auto
qed (simp add: sends_refl)

lemma uart_puts_Some:
  assumes "uart_puts p s = Some s'"
  shows "\<exists>cs. sends cs s s'"
proof (rule uart_puts.raw_induct[OF _ assms])
  fix f and p :: u64 and s s' :: "'a console_scheme"
  assume IH: "\<And>p s y. f p s = Some y \<Longrightarrow> \<exists>cs. sends cs s y"
    and e: "(if ram s p \<noteq> 0 then Option.bind (uart_putc (ram s p) s) (f (p + 1)) else Some s) = Some s'"
  show "\<exists>cs. sends cs s s'"
  proof (cases "ram s p = 0")
    case True
    then show ?thesis using e sends_refl by auto
  next
    case False
    then obtain s1 where "uart_putc (ram s p) s = Some s1" "f (p + 1) s1 = Some s'"
      using e by (auto simp: bind_eq_Some_conv)
    then show ?thesis using IH sends_trans[OF uart_putc_Some] by blast
  qed
qed

lemma printint_Inr: "printint x b sg s = Inr s' \<Longrightarrow> \<exists>cs. sends cs s s'"
  using uart_write_Some by (fastforce simp: printint_def Let_def bindF_eq_Inr_iff)

lemma printptr_Inr: "printptr x s = Inr s' \<Longrightarrow> \<exists>cs. sends cs s s'"
  using sends_trans[OF uart_write_Some uart_write_Some] by (auto simp: printptr_def bindF_eq_Inr_iff) blast

definition sent :: "'z console_scheme \<Rightarrow> 'z console_scheme \<Rightarrow> bool" where
  "sent s s' \<longleftrightarrow> (\<exists>cs. sends cs s s')"

lemma sentI:
  "uart_putc c s = Some s' \<Longrightarrow> sent s s'" "uart_write cs s = Some s' \<Longrightarrow> sent s s'"
  "uart_puts p s = Some s' \<Longrightarrow> sent s s'"
  "printint x b sg s = Inr s' \<Longrightarrow> sent s s'" "printptr x s = Inr s' \<Longrightarrow> sent s s'" "sent s s"
  unfolding sent_def
  using uart_putc_Some uart_write_Some uart_puts_Some printint_Inr printptr_Inr sends_refl by blast+

lemma sent_trans: "sent s s1 \<Longrightarrow> sent s1 s2 \<Longrightarrow> sent s s2"
  unfolding sent_def using sends_trans by blast

lemma sent_bindE:
  assumes "bindF r g = Inr s'" and "\<And>s1. r = Inr s1 \<Longrightarrow> sent s s1" and "\<And>s1. g s1 = Inr s' \<Longrightarrow> sent s1 s'"
  shows "sent s s'"
  using assms sent_trans by (cases r) auto

lemma va_argE: "va_arg args f = Inr y \<Longrightarrow> (\<And>a as. f a as = Inr y \<Longrightarrow> P) \<Longrightarrow> P"
  by (cases args) auto

lemma vprintk_sends: "vprintk fmt args s = Inr s' \<Longrightarrow> sent s s'"
proof (induction "length fmt" arbitrary: fmt args s rule: less_induct)
  case less
  show ?case
  proof (cases fmt)
    case Nil
    then show ?thesis using less(2) by (simp add: vprintk.simps sentI)
  next
    case (Cons c r)
    have IH: "vprintk (drop n r) args t = Inr s' \<Longrightarrow> sent t s'" "vprintk r args t = Inr s' \<Longrightarrow> sent t s'"
      for n args t using less(1)[of "drop n r" args t] less(1)[of r args t] Cons by simp_all
    have if_sent: "(if b then x else y) = Inr s' \<Longrightarrow> (x = Inr s' \<Longrightarrow> sent s s') \<Longrightarrow> (y = Inr s' \<Longrightarrow> sent s s') \<Longrightarrow> sent s s'"
      for b x y by (cases b) simp_all
    have op: "of_loop (if b then uart_write cs s else uart_puts a s) = Inr t \<Longrightarrow> sent s t"
      "of_loop (uart_putc c s) = Inr t \<Longrightarrow> sent s t" for b cs a c t
      by (cases b) (simp_all add: sentI)
    show ?thesis
      using less(2) unfolding Cons vprintk.simps
      by (elim if_sent va_argE sent_bindE IH op sentI(4,5))
  qed
qed

lemma printk_sends: "printk fmt args s = Inr s' \<Longrightarrow> \<exists>cs. sends cs s s'"
  using vprintk_sends unfolding printk_def sent_def by blast

section \<open>Numbers\<close>

text \<open>The number that digits write, most significant first, and the character of a digit.\<close>

definition digits_value :: "nat \<Rightarrow> nat list \<Rightarrow> nat" where
  "digits_value b ds = foldl (\<lambda>v d. v * b + d) 0 ds"

definition digit_char :: "nat \<Rightarrow> u8" where
  "digit_char d = digits ! d"

lemma digits_value_snoc: "digits_value b (ds @ [d]) = digits_value b ds * b + d"
  by (simp add: digits_value_def)

lemma digit_char_plain: "d < 16 \<Longrightarrow> digit_char d \<noteq> 10 \<and> digit_char d \<noteq> 0x2d"
proof -
  assume "d < 16"
  then have "d \<in> set [0..<16]" by simp
  then show ?thesis by (auto simp: upt_rec digit_char_def digits_def chars_def)
qed

lemma printint_loop_digits:
  assumes b: "1 < unat b" "unat b \<le> 16" and "length buf \<le> 15" and "unat x < unat b ^ (16 - length buf)"
  shows "\<exists>ds. printint_loop x b buf = Inr (buf @ map digit_char (rev ds)) \<and>
    (\<forall>d \<in> set ds. d < unat b) \<and> digits_value (unat b) ds = unat x \<and> ds \<noteq> [] \<and>
    (hd ds = 0 \<longrightarrow> ds = [0]) \<and> length buf + length ds \<le> 16 \<and>
    (\<forall>j. unat x < unat b ^ j \<longrightarrow> 0 < j \<longrightarrow> length ds \<le> j)"
  using assms(3,4)
proof (induction "15 - length buf" arbitrary: x buf)
  case (0)
  then have l: "length buf = 15" by simp
  then have x: "unat x < unat b" using 0 by simp
  have m: "unat (x mod b) = unat x" "x div b = 0"
    using x by (simp_all add: unat_mod_distrib word_arith_nat_div)
  then show ?case
    using l x by (intro exI[of _ "[unat x]"])
      (auto simp: printint_loop.simps[of x b buf] digit_char_def digits_value_def Suc_le_eq)
next
  case (Suc n)
  let ?buf = "buf @ [digits ! unat (x mod b)]"
  have m: "unat (x mod b) = unat x mod unat b" "unat (x div b) = unat x div unat b"
    by (simp_all add: unat_mod_distrib unat_div_distrib)
  have l16: "length buf < 16" using Suc(2) by linarith
  have s: "printint_loop x b buf = (if x div b \<noteq> 0 then printint_loop (x div b) b ?buf else Inr ?buf)"
    using l16 by (subst printint_loop.simps) (simp add: Let_def)
  have md: "unat x mod unat b < unat b" using b by simp
  show ?case
  proof (cases "x div b = 0")
    case True
    then have "unat x div unat b = 0" using m(2) by simp
    then have x: "unat x < unat b" using b by (simp add: div_eq_0_iff)
    then show ?thesis
      using s True m Suc(2) by (intro exI[of _ "[unat x]"])
        (auto simp: digit_char_def digits_value_def Suc_le_eq)
  next
    case False
    have p: "16 - length buf = Suc (16 - length ?buf)" using Suc(2) by simp
    have "unat x div unat b < unat b ^ (16 - length ?buf)"
      using Suc(4) b unfolding p by (intro less_mult_imp_div_less) (simp add: mult.commute)
    then have lt: "unat (x div b) < unat b ^ (16 - length ?buf)" by (simp only: m)
    have lb: "n = 15 - length ?buf" "length ?buf \<le> 15" using Suc(2) by simp_all
    obtain ds where ds: "printint_loop (x div b) b ?buf = Inr (?buf @ map digit_char (rev ds))"
      "\<forall>d \<in> set ds. d < unat b" "digits_value (unat b) ds = unat (x div b)" "ds \<noteq> []"
      "hd ds = 0 \<longrightarrow> ds = [0]" "length ?buf + length ds \<le> 16"
      "\<forall>j. unat (x div b) < unat b ^ j \<longrightarrow> 0 < j \<longrightarrow> length ds \<le> j"
      using Suc(1)[OF lb lt] by (elim exE conjE) (rule that)
    let ?ds = "ds @ [unat x mod unat b]"
    have nz: "hd ds \<noteq> 0"
    proof
      assume "hd ds = 0"
      then have "ds = [0]" using ds(5) by blast
      then have "unat (x div b) = 0" using ds(3) by (simp add: digits_value_def)
      then show False using False by (simp only: unat_eq_0)
    qed
    have j: "length ?ds \<le> j" if "unat x < unat b ^ j" "0 < j" for j
    proof (cases j)
      case (Suc i)
      have lt: "unat (x div b) < unat b ^ i"
        unfolding m using that Suc b by (intro less_mult_imp_div_less) (simp add: mult.commute)
      have "0 < i"
      proof (rule ccontr)
        assume "\<not> 0 < i"
        then have "unat (x div b) = 0" using lt by simp
        then show False using False by (simp only: unat_eq_0)
      qed
      then show ?thesis using ds(7) lt Suc by auto
    qed (use that in simp)
    have "printint_loop x b buf = Inr (buf @ map digit_char (rev ?ds))"
      using s False ds(1) m by (simp add: digit_char_def)
    moreover have "digits_value (unat b) ?ds = unat x" by (simp add: digits_value_snoc ds(3) m)
    ultimately show ?thesis using ds nz md j by (intro exI[of _ ?ds]) (simp add: hd_append)
  qed
qed

text \<open>A number with more digits than \<open>buf\<close> has room for.\<close>

lemma printint_loop_overflow:
  assumes b: "1 < unat b" and "length buf \<le> 16" and "unat b ^ (16 - length buf) \<le> unat x"
  shows "printint_loop x b buf = Inl Bad_Index"
  using assms(2,3)
proof (induction "16 - length buf" arbitrary: x buf)
  case 0
  then show ?case by (simp add: printint_loop.simps)
next
  case (Suc n)
  let ?buf = "buf @ [digits ! unat (x mod b)]"
  have p: "16 - length buf = Suc (16 - length ?buf)" using Suc(2) by simp
  have "unat b ^ (16 - length ?buf) \<le> unat x div unat b"
    using Suc(4) b unfolding p by (simp add: less_eq_div_iff_mult_less_eq mult.commute)
  then have lt: "unat b ^ (16 - length ?buf) \<le> unat (x div b)" by (simp add: unat_div_distrib)
  moreover have "0 < unat b ^ (16 - length ?buf)" using b by simp
  ultimately have "unat (x div b) \<noteq> 0" by linarith
  then have "x div b \<noteq> 0" by (simp only: unat_eq_0 not_False_eq_True)
  moreover have "printint_loop (x div b) b ?buf = Inl Bad_Index" using Suc(1)[OF _ _ lt] Suc(2) by simp
  ultimately show ?case using Suc(2) by (subst printint_loop.simps) (simp add: Let_def)
qed

lemma unat_magnitude:
  fixes a :: u64
  shows "unat (if sint a < 0 then - a else a) = nat \<bar>sint a\<bar>"
proof -
  let ?x = "if sint a < 0 then - a else a"
  have x: "?x = of_int \<bar>sint a\<bar>" by (simp add: abs_if)
  have "\<bar>sint a\<bar> < 2 ^ 64"
    using sint_greater_eq[of a] sint_less[of a] by (simp add: abs_if)
  then have "uint (of_int \<bar>sint a\<bar> :: u64) = \<bar>sint a\<bar>"
    by (simp add: unsigned_of_int take_bit_int_eq_self)
  moreover have "uint ?x = int (unat ?x)" by simp
  ultimately show ?thesis unfolding x by linarith
qed

lemma printint_decimal:
  assumes t: "tx_ready s" and a: "\<bar>sint a\<bar> < 10 ^ 15"
  shows "\<exists>s' ds. printint a 10 True s = Inr s' \<and>
    sends ((if sint a < 0 then [0x2d] else []) @ map digit_char ds) s s' \<and>
    (\<forall>d \<in> set ds. d < 10) \<and> int (digits_value 10 ds) = \<bar>sint a\<bar> \<and> ds \<noteq> [] \<and> (hd ds = 0 \<longrightarrow> ds = [0])"
proof -
  let ?x = "if sint a < 0 then - a else a"
  have x: "unat ?x = nat \<bar>sint a\<bar>" by (rule unat_magnitude)
  then have lt: "unat ?x < 10 ^ 15" using a by (metis abs_ge_zero nat_less_iff of_nat_numeral of_nat_power)
  have "unat ?x < unat (10 :: u64) ^ (16 - length ([] :: u8 list))"
    using lt by (rule order_less_le_trans) simp
  from printint_loop_digits[OF _ _ _ this] obtain ds where
    ds: "printint_loop ?x 10 [] = Inr (map digit_char (rev ds))" "\<forall>d \<in> set ds. d < 10"
      "digits_value 10 ds = unat ?x" "ds \<noteq> []" "hd ds = 0 \<longrightarrow> ds = [0]"
      "\<forall>j. unat ?x < 10 ^ j \<longrightarrow> 0 < j \<longrightarrow> length ds \<le> j" by auto
  have len: "length ds \<le> 15" using ds(6) lt by simp
  let ?out = "(if sint a < 0 then [0x2d] else []) @ map digit_char ds"
  have dash: "chars ''-'' = [0x2d]" by (simp add: chars_def)
  have "printint a 10 True s = of_loop (uart_write ?out s)"
    using ds(1) len by (simp add: printint_def Let_def dash rev_map)
  moreover have "10 \<notin> set ?out" using ds(2) digit_char_plain by fastforce
  then have "crlf ?out = ?out" by (rule crlf_id)
  moreover obtain s' where "uart_write ?out s = Some s'" "sends (crlf ?out) s s'"
    using uart_write_sends[OF t] by blast
  ultimately have "printint a 10 True s = Inr s'" "sends ?out s s'" by simp_all
  then show ?thesis using ds x by (intro exI[of _ s'] exI[of _ ds]) simp
qed

section \<open>What the console does\<close>

definition example_console :: console where
  "example_console = sched.extend example_sched (console.fields (\<lambda>_. 0x21) (\<lambda>_. 0) 0 0 [])"

lemma example_ready: "tx_ready example_console"
  by (auto simp: tx_ready_def example_console_def sched.defs console.defs)

text \<open>\<open>uart_puts\<close> returns, when the transmitter becomes ready again and again, and has then sent exactly
  the string, with a carriage return before every line feed.\<close>

theorem uart_puts_correct:
  assumes "tx_ready s" and "cstr (ram s) p cs"
  shows "\<exists>s'. uart_puts p s = Some s' \<and> uart_thr s' = uart_thr s @ crlf cs \<and> ram s' = ram s \<and> tx_ready s'"
  using uart_puts_sends[OF assms] sends_fields assms(1) by blast

theorem uart_puts_correct_witness:
  "\<exists>s'. uart_puts 0x100 (example_console\<lparr>ram := (\<lambda>_. 0)(0x100 := 0x41, 0x101 := 10)\<rparr>) = Some s' \<and>
     uart_thr s' = [0x41, 13, 10]"
proof -
  let ?s = "example_console\<lparr>ram := (\<lambda>_. 0)(0x100 := 0x41, 0x101 := 10)\<rparr>"
  have t: "tx_ready ?s" using example_ready by (simp add: tx_ready_def)
  have o: "uart_thr ?s = []" by (simp add: example_console_def sched.defs console.defs)
  have "cstr (ram ?s) 0x100 [0x41, 10]" by simp
  from uart_puts_correct[OF t this] show ?thesis by (auto simp: o)
qed

lemma vprintk_nil: "vprintk [] args = Inr"
  by (rule ext) (simp add: vprintk.simps)

text \<open>C25: the conversion \<open>%ld\<close> writes a number of at most fifteen digits in decimal: a sign exactly when
  it is negative, then the digits of its magnitude, without leading zeros; read back, they give it.\<close>

theorem printk_decimal:
  assumes t: "tx_ready s" and a: "\<bar>sint a\<bar> < 10 ^ 15"
  shows "\<exists>s' ds. printk ''%ld'' [a] s = Inr s' \<and>
    uart_thr s' = uart_thr s @ (if sint a < 0 then [0x2d] else []) @ map digit_char ds \<and>
    (\<forall>d \<in> set ds. d < 10) \<and> int (digits_value 10 ds) = \<bar>sint a\<bar> \<and> ds \<noteq> [] \<and> (hd ds = 0 \<longrightarrow> ds = [0])"
proof -
  have "printk ''%ld'' [a] s = bindF (printint a 10 True s) Inr"
    by (simp add: printk_def chars_def vprintk.simps(2) starts_def vprintk_nil)
  then show ?thesis using printint_decimal[OF t a] sends_fields(1) by fastforce
qed

theorem printk_decimal_witness:
  "\<exists>s' ds. printk ''%ld'' [- 42] example_console = Inr s' \<and> uart_thr s' = 0x2d # map digit_char ds \<and>
     digits_value 10 ds = 42"
proof -
  have s: "sint (- 42 :: u64) = - 42" by simp
  have o: "uart_thr example_console = []" by (simp add: example_console_def sched.defs console.defs)
  show ?thesis using printk_decimal[OF example_ready, of "- 42"] by (auto simp: s o)
qed

text \<open>A number with more digits than that is written past the end of the sixteen characters of \<open>buf\<close>.\<close>

theorem printk_overflow:
  assumes "10 ^ 16 \<le> \<bar>sint a\<bar>"
  shows "printk ''%ld'' [a] s = Inl Bad_Index"
proof -
  let ?x = "if sint a < 0 then - a else a"
  have "int (10 ^ 16) \<le> int (unat ?x)" using assms unat_magnitude[of a] by simp
  then have "unat (10 :: u64) ^ (16 - length ([] :: u8 list)) \<le> unat ?x" by (simp only: of_nat_le_iff) simp
  from printint_loop_overflow[OF _ _ this] have "printint_loop ?x 10 [] = Inl Bad_Index" by simp
  then have "printint a 10 True s = Inl Bad_Index" by (simp add: printint_def Let_def)
  then show ?thesis by (simp add: printk_def chars_def vprintk.simps starts_def)
qed

theorem printk_overflow_witness: "printk ''%ld'' [10000000000000000] example_console = Inl Bad_Index"
  by (rule printk_overflow) simp

text \<open>In a format \<open>%%\<close> is not left behind after its sign is written: its second character starts the
  next conversion.\<close>

theorem printk_percent:
  assumes "tx_ready s"
  shows "\<exists>s'. uart_thr s' = uart_thr s @ [0x25] \<and> printk (CHR ''%'' # CHR ''%'' # fmt) args s = printk (CHR ''%'' # fmt) args s'"
proof -
  obtain s' where s': "uart_putc 0x25 s = Some s'" "sends [0x25] s s'"
    using uart_putc_sends[OF assms, of "0x25"] by auto
  have "printk (CHR ''%'' # CHR ''%'' # fmt) args s = printk (CHR ''%'' # fmt) args s'"
    unfolding printk_def chars_def using s'(1)
    by (simp only: list.map) (subst vprintk.simps(2), simp add: starts_def chars_def)
  then show ?thesis using sends_fields(1)[OF s'(2)] by blast
qed

theorem printk_percent_witness:
  "\<exists>s'. uart_thr s' = [0x25] \<and> printk ''%%d'' [7] example_console = printk ''%d'' [7] s'"
  using printk_percent[OF example_ready, of "''d''" "[7]"]
  by (simp add: example_console_def sched.defs console.defs)

end
