(* ===== verification/Keyed_Queue.thy ===== *)
theory Keyed_Queue
  imports List_Head "HOL-Library.Multiset"
begin

text \<open>
  Queues that are kept in order of a key. The kernel has two, of timers and of interrupt tasks, both with
  the same loop: an entry goes in front of the first one whose key is greater, or at the end. The
  locale states what such an insertion promises, and derives that the queue is sorted and that entries
  with equal keys stay in the order of their arrival: a sequence of insertions sorts stably.
\<close>

section \<open>The insertion loop on a ring\<close>

definition before_greater :: "('a \<Rightarrow> int) \<Rightarrow> int \<Rightarrow> 'a \<Rightarrow> 'a list \<Rightarrow> 'a list" where
  "before_greater key k a q = takeWhile (\<lambda>b. key b \<le> k) q @ a # dropWhile (\<lambda>b. key b \<le> k) q"

lemma insert_before_dlist:
  assumes d: "dlist h head xs" and n: "n \<notin> set (head # xs)"
  shows "dlist (list_add_tail n (case find P xs of Some pos \<Rightarrow> pos | None \<Rightarrow> head) h) head
    (takeWhile (\<lambda>x. \<not> P x) xs @ n # dropWhile (\<lambda>x. \<not> P x) xs)"
proof -
  let ?ys = "takeWhile (\<lambda>x. \<not> P x) xs" and ?zs = "dropWhile (\<lambda>x. \<not> P x) xs"
  have xs: "xs = ?ys @ ?zs" by simp
  have pos: "(case find P xs of Some pos \<Rightarrow> pos | None \<Rightarrow> head) = after head ?zs"
    by (induction xs) auto
  have "prv (h (after head ?zs)) = before head ?ys"
  proof (cases ?zs)
    case Nil
    then have "xs = ?ys" using takeWhile_dropWhile_id[of "\<lambda>x. \<not> P x" xs] by (metis append_Nil2)
    then have "before head ?ys = before head xs" by (rule arg_cong[OF sym])
    then show ?thesis unfolding Nil using dlist_last[OF d] by (simp only: after_simps)
  next
    case (Cons z zs)
    then show ?thesis using d xs dlist_prev[of h head ?ys z zs] by simp
  qed
  moreover have "n \<notin> set (head # ?ys @ ?zs)" using n by simp
  ultimately show ?thesis
    using dlist_insert[of h head ?ys ?zs n] d unfolding pos by (simp add: list_add_tail_def)
qed

section \<open>The contract\<close>

lemma before_greater_sorted:
  assumes "sorted (map key q)"
  shows "sorted (map key (takeWhile (\<lambda>b. key b \<le> k) q)) \<and> (\<forall>b \<in> set (takeWhile (\<lambda>b. key b \<le> k) q). key b \<le> (k :: int)) \<and>
    sorted (map key (dropWhile (\<lambda>b. key b \<le> k) q)) \<and> (\<forall>b \<in> set (dropWhile (\<lambda>b. key b \<le> k) q). k < key b)"
  using assms
proof (induction q)
  case (Cons x q)
  then show ?case by (auto dest: set_takeWhileD)
qed simp

text \<open>An insertion is a stable sort of the queue with the new entry at its end.\<close>

lemma before_greater_sort_key:
  assumes "sorted (map key q)"
  shows "before_greater key (key a) a q = sort_key key (q @ [a])"
proof (rule properties_for_sort_key[symmetric])
  let ?ys = "takeWhile (\<lambda>b. key b \<le> key a) q" and ?zs = "dropWhile (\<lambda>b. key b \<le> key a) q"
  have q: "q = ?ys @ ?zs" by simp
  note k = before_greater_sorted[OF assms, of "key a"]
  show "mset (before_greater key (key a) a q) = mset (q @ [a])"
  proof -
    have "mset ?ys + mset ?zs = mset q" by (simp only: mset_append[symmetric] takeWhile_dropWhile_id)
    then show ?thesis by (simp add: before_greater_def)
  qed
  show "sorted (map key (before_greater key (key a) a q))"
    using k by (fastforce simp: before_greater_def sorted_append)
  fix x
  have z: "filter (\<lambda>b. key x = key b) ?zs = []" if "key x = key a"
    using k that by (auto simp: filter_empty_conv)
  have "filter (\<lambda>b. key x = key b) q = filter (\<lambda>b. key x = key b) ?ys @ filter (\<lambda>b. key x = key b) ?zs"
    by (subst q) (rule filter_append)
  then show "filter (\<lambda>b. key x = key b) (before_greater key (key a) a q) = filter (\<lambda>b. key x = key b) (q @ [a])"
    using z by (auto simp: before_greater_def)
qed

lemma filter_sort_key: "filter (\<lambda>x. f k = f x) (sort_key f xs) = filter (\<lambda>x. f k = f x) xs"
  using sort_key_stable[of f "f k" xs] by (simp add: eq_commute)

lemma sort_key_append: "sort_key f (sort_key f xs @ ys) = sort_key f (xs @ ys)"
  by (rule properties_for_sort_key) (simp_all add: filter_sort_key)

lemma sort_key_cong:
  assumes "\<And>x. x \<in> set xs \<Longrightarrow> f x = g x"
  shows "sort_key f xs = sort_key g xs"
proof (rule properties_for_sort_key)
  have "map f (sort_key g xs) = map g (sort_key g xs)" using assms by simp
  then show "sorted (map f (sort_key g xs))" by (simp only: sorted_sort_key)
  fix k assume k: "k \<in> set (sort_key g xs)"
  have "filter (\<lambda>x. f k = f x) ys = filter (\<lambda>x. g k = g x) ys" if "set ys = set xs" for ys
    using that k assms by (intro filter_cong) simp_all
  then show "filter (\<lambda>x. f k = f x) (sort_key g xs) = filter (\<lambda>x. f k = f x) xs"
    by (simp add: filter_sort_key)
qed simp

locale keyed_queue =
  fixes queue :: "'s \<Rightarrow> 'a list \<Rightarrow> bool"
    and key :: "'s \<Rightarrow> 'a \<Rightarrow> int"
    and add :: "'x \<Rightarrow> 's \<Rightarrow> fault + 's"
  assumes add_entry: "queue s q \<Longrightarrow> add x s = Inr s' \<Longrightarrow>
      \<exists>a. a \<notin> set q \<and> (\<forall>b \<in> set q. key s' b = key s b) \<and>
        queue s' (before_greater (key s) (key s' a) a q)"
begin

lemma add_sorted:
  assumes "queue s q" and "sorted (map (key s) q)" and "add x s = Inr s'"
  shows "\<exists>a. a \<notin> set q \<and> queue s' (before_greater (key s) (key s' a) a q) \<and>
    sorted (map (key s') (before_greater (key s) (key s' a) a q))"
proof -
  obtain a where a: "a \<notin> set q" "\<forall>b \<in> set q. key s' b = key s b"
    "queue s' (before_greater (key s) (key s' a) a q)" using add_entry[OF assms(1,3)] by blast
  let ?ys = "takeWhile (\<lambda>b. key s b \<le> key s' a) q" and ?zs = "dropWhile (\<lambda>b. key s b \<le> key s' a) q"
  have m: "map (key s') ?ys = map (key s) ?ys" "map (key s') ?zs = map (key s) ?zs"
    using a(2) by (auto dest: set_takeWhileD set_dropWhileD)
  note k = before_greater_sorted[OF assms(2), of "key s' a"]
  have "sorted (map (key s') (before_greater (key s) (key s' a) a q))"
    unfolding before_greater_def map_append list.map m using k by (fastforce simp: sorted_append)
  then show ?thesis using a by blast
qed

text \<open>A sequence of insertions.\<close>

fun adds :: "'x list \<Rightarrow> 's \<Rightarrow> fault + 's" where
  "adds [] s = Inr s"
| "adds (x # xs) s = bindF (add x s) (adds xs)"

lemma adds_sorted:
  assumes "queue s q" and "sorted (map (key s) q)" and "adds xs s = Inr s'"
  shows "\<exists>as. length as = length xs \<and> (\<forall>b \<in> set q. key s' b = key s b) \<and>
    queue s' (sort_key (key s') (q @ as))"
  using assms
proof (induction xs arbitrary: s q)
  case Nil
  then show ?case by (simp add: sorted_sort_id sort_key_id_if_sorted)
next
  case (Cons x xs)
  obtain s1 where s1: "add x s = Inr s1" "adds xs s1 = Inr s'" using Cons(4) by (auto simp: bindF_eq_Inr_iff)
  obtain a where a: "a \<notin> set q" "\<forall>b \<in> set q. key s1 b = key s b"
    "queue s1 (before_greater (key s) (key s1 a) a q)" using add_entry[OF Cons(2) s1(1)] by blast
  have m: "map (key s1) q = map (key s) q" using a(2) by simp
  have "before_greater (key s) (key s1 a) a q = before_greater (key s1) (key s1 a) a q"
    unfolding before_greater_def using a(2)
    by (simp cong: takeWhile_cong dropWhile_cong)
  also have "\<dots> = sort_key (key s1) (q @ [a])" using Cons(3) by (intro before_greater_sort_key) (simp only: m)
  finally have q1: "queue s1 (sort_key (key s1) (q @ [a]))" using a(3) by simp
  obtain as where as: "length as = length xs" "\<forall>b \<in> set (sort_key (key s1) (q @ [a])). key s' b = key s1 b"
    "queue s' (sort_key (key s') (sort_key (key s1) (q @ [a]) @ as))"
    using Cons(1)[OF q1 _ s1(2)] by auto
  have "sort_key (key s1) (q @ [a]) = sort_key (key s') (q @ [a])"
    using as(2) by (intro sort_key_cong) auto
  then have "queue s' (sort_key (key s') (q @ a # as))" using as(3) by (simp add: sort_key_append)
  moreover have "\<forall>b \<in> set q. key s' b = key s b" using as(2) a(2) by simp
  ultimately show ?case using as(1) by (intro exI[of _ "a # as"]) simp
qed

end

end
