(* ===== verification/Timer.thy ===== *)
theory Timer
  imports Console Keyed_Queue
begin

text \<open>
  Timers, \<open>src/timer.c\<close>: a queue of callbacks ordered by their time, and the handler of the timer
  interrupt, which runs those that are due.

  The state adds the timers by address, their queue, the value of the time counter at every read, the
  enable bit \<open>sie.STIE\<close> and the moment of the next interrupt, which \<open>sbi_set_timer\<close> sets. The
  only callback in the program is \<open>uart_puts\<close>. \<open>time_freq\<close> is the constant \<open>TIME_FREQ\<close> of the build.
\<close>

section \<open>State\<close>

definition TIME_FREQ :: "bool \<Rightarrow> u64" where
  "TIME_FREQ qemu = (if qemu then 10000000 else 4000000)"

datatype callback = UART_PUTS

record timer =
  tm_func :: callback
  tm_arg :: u64
  tm_time :: u64

datatype timer_node = TimerQueue | TimerList (timer_of: u64)

record timers = console +
  timer_mem :: "u64 \<Rightarrow> timer"
  timer_links :: "timer_node links"
  rdtime :: "nat \<Rightarrow> u64"
  time_reads :: nat
  qemu :: bool
  stie :: bool
  next_tick :: u64

definition SIZEOF_TIMER :: nat where "SIZEOF_TIMER = 40"

section \<open>The operations\<close>

definition read_time :: "'z timers_scheme \<Rightarrow> u64 \<times> 'z timers_scheme" where
  "read_time s = (rdtime s (time_reads s), s\<lparr>time_reads := time_reads s + 1\<rparr>)"

definition set_next_tick :: "u64 \<Rightarrow> 'z timers_scheme \<Rightarrow> 'z timers_scheme" where
  "set_next_tick t s = s\<lparr>next_tick := t\<rparr>"

definition enable_timer_interrupt :: "'z timers_scheme \<Rightarrow> 'z timers_scheme" where
  "enable_timer_interrupt s = s\<lparr>stie := True\<rparr>"

definition disable_timer_interrupt :: "'z timers_scheme \<Rightarrow> 'z timers_scheme" where
  "disable_timer_interrupt s = s\<lparr>stie := False\<rparr>"

definition timer_init :: "'z timers_scheme \<Rightarrow> 'z timers_scheme" where
  "timer_init s =
     (let s1 = s\<lparr>timer_links := INIT_LIST_HEAD TimerQueue (timer_links s)\<rparr>;
          s2 = enable_timer_interrupt s1
      in set_next_tick (TIME_FREQ (qemu s2)) s2)"

definition get_uptime :: "'z timers_scheme \<Rightarrow> u64 \<times> 'z timers_scheme" where
  "get_uptime s = (let freq = TIME_FREQ (qemu s); (ticks, s1) = read_time s in (ticks div freq, s1))"

fun run_callback :: "callback \<Rightarrow> u64 \<Rightarrow> 'z timers_scheme \<Rightarrow> 'z timers_scheme option" where
  "run_callback UART_PUTS arg s = uart_puts arg s"

partial_function (option) timer_loop :: "'z timers_scheme \<Rightarrow> 'z timers_scheme option" where
  "timer_loop s =
     (if list_empty TimerQueue (timer_links s) then Some s
      else
        let timer = timer_of (list_first_entry TimerQueue (timer_links s));
            (up, s1) = get_uptime s
        in if sint up < sint (tm_time (timer_mem s1 timer)) then Some s1
           else Option.bind (run_callback (tm_func (timer_mem s1 timer)) (tm_arg (timer_mem s1 timer)) s1) (\<lambda>s2.
             let s3 = s2\<lparr>timer_links := list_del_init (TimerList timer) (timer_links s2)\<rparr>
             in timer_loop (s3\<lparr>heap := kfree timer (heap s3)\<rparr>)))"

definition timer_irq_handler :: "'z timers_scheme \<Rightarrow> 'z timers_scheme option" where
  "timer_irq_handler s =
     (let (ticks, s1) = read_time s;
          ticks = ticks + TIME_FREQ (qemu s1) div 32;
          s2 = set_next_tick ticks s1
      in Option.bind (timer_loop s2) (\<lambda>s3. Some (enable_timer_interrupt s3)))"

text \<open>The delay is an \<open>int\<close>, the time a \<open>long\<close>; times are compared as signed numbers.\<close>

definition timer_add :: "callback \<Rightarrow> u64 \<Rightarrow> u32 \<Rightarrow> 'z timers_scheme \<Rightarrow> fault + 'z timers_scheme" where
  "timer_add fn arg delay s =
     bindF (kmalloc (of_nat SIZEOF_TIMER) (heap s)) (\<lambda>(timer, h).
       let s1 = s\<lparr>heap := h\<rparr>;
           (up, s2) = get_uptime s1;
           s3 = s2\<lparr>timer_mem := (timer_mem s2)(timer := \<lparr>tm_func = fn, tm_arg = arg, tm_time = up + scast delay\<rparr>)\<rparr>;
           s4 = s3\<lparr>timer_links := INIT_LIST_HEAD (TimerList timer) (timer_links s3)\<rparr>
       in bindF (of_loop (list_search (\<lambda>pos. sint (tm_time (timer_mem s4 timer)) < sint (tm_time (timer_mem s4 (timer_of pos))))
            TimerQueue (timer_links s4))) (\<lambda>r.
            case r of
              Some pos \<Rightarrow> Inr (s4\<lparr>timer_links := list_add_tail (TimerList timer) pos (timer_links s4)\<rparr>)
            | None \<Rightarrow> Inr (s4\<lparr>timer_links := list_add_tail (TimerList timer) TimerQueue (timer_links s4)\<rparr>)))"

definition set_timeout :: "u64 \<Rightarrow> u32 \<Rightarrow> 'z timers_scheme \<Rightarrow> fault + 'z timers_scheme" where
  "set_timeout message delay s = timer_add UART_PUTS message delay s"

section \<open>The queue of timers\<close>

text \<open>
  The timers \<open>q\<close> are in the queue, in this order; \<open>L\<close> are the chunks of the heap in use, and every timer
  is one of them.
\<close>

definition timer_queue :: "'z timers_scheme \<Rightarrow> u64 list \<Rightarrow> chunk set \<Rightarrow> bool" where
  "timer_queue s q L \<longleftrightarrow>
     dlist (timer_links s) TimerQueue (map TimerList q) \<and> mm_inv (heap s) L \<and>
     (\<forall>t \<in> set q. \<exists>n. (t, n) \<in> L)"

definition expiry :: "'z timers_scheme \<Rightarrow> u64 \<Rightarrow> int" where
  "expiry s t = sint (tm_time (timer_mem s t))"

lemma timer_queue_distinct: "timer_queue s q L \<Longrightarrow> distinct q"
  unfolding timer_queue_def dlist_def by (simp add: distinct_map)

lemma INIT_LIST_HEAD_other:
  assumes "dlist h head xs" and "n \<notin> set (head # xs)"
  shows "dlist (INIT_LIST_HEAD n h) head xs"
proof -
  have "INIT_LIST_HEAD n h x = h x" if "x \<in> set (head # xs)" for x
    using that assms(2) by (intro list_head_eqI) auto
  then show ?thesis using assms(1) dlist_cong[of head xs "INIT_LIST_HEAD n h" h] by blast
qed

lemma takeWhile_map_inj: "takeWhile P (map f q) = map f (takeWhile (\<lambda>x. P (f x)) q)"
  "dropWhile P (map f q) = map f (dropWhile (\<lambda>x. P (f x)) q)"
  by (induction q) auto

text \<open>What \<open>timer_add\<close> does with the timer it is given.\<close>

definition added_timer :: "callback \<Rightarrow> u64 \<Rightarrow> u32 \<Rightarrow> u64 \<Rightarrow> 'z timers_scheme \<Rightarrow> u64 \<Rightarrow> timer" where
  "added_timer fn arg delay t s = (timer_mem s)(t := \<lparr>tm_func = fn, tm_arg = arg,
     tm_time = fst (get_uptime s) + scast delay\<rparr>)"

lemma timer_add_eq:
  assumes d: "dlist (timer_links s) TimerQueue (map TimerList q)" and tq': "t \<notin> set q"
    and k: "kmalloc (of_nat SIZEOF_TIMER) (heap s) = Inr (t, h)"
  shows "\<exists>l. timer_add fn arg delay s = Inr (s\<lparr>heap := h, time_reads := time_reads s + 1,
      timer_mem := added_timer fn arg delay t s, timer_links := l\<rparr>) \<and>
    dlist l TimerQueue (map TimerList (before_greater (expiry s) (sint (fst (get_uptime s) + scast delay)) t q))"
proof -
  let ?T = "fst (get_uptime s) + scast delay" and ?mem = "added_timer fn arg delay t s"
  let ?P = "\<lambda>pos. sint (tm_time (?mem t)) < sint (tm_time (?mem (timer_of pos)))"
  let ?h = "INIT_LIST_HEAD (TimerList t) (timer_links s)"
  have nq: "TimerList t \<notin> set (TimerQueue # map TimerList q)" using tq' by auto
  have d': "dlist ?h TimerQueue (map TimerList q)" by (rule INIT_LIST_HEAD_other[OF d nq])
  let ?pos = "case find ?P (map TimerList q) of Some pos \<Rightarrow> pos | None \<Rightarrow> TimerQueue"
  let ?s4 = "s\<lparr>heap := h, time_reads := time_reads s + 1, timer_mem := ?mem, timer_links := ?h\<rparr>"
  have run: "timer_add fn arg delay s = bindF (of_loop (list_search (\<lambda>pos. sint (tm_time (timer_mem ?s4 t)) <
        sint (tm_time (timer_mem ?s4 (timer_of pos)))) TimerQueue (timer_links ?s4))) (\<lambda>r.
          case r of
            Some pos \<Rightarrow> Inr (?s4\<lparr>timer_links := list_add_tail (TimerList t) pos (timer_links ?s4)\<rparr>)
          | None \<Rightarrow> Inr (?s4\<lparr>timer_links := list_add_tail (TimerList t) TimerQueue (timer_links ?s4)\<rparr>))"
    by (simp add: timer_add_def k get_uptime_def read_time_def added_timer_def Let_def
        del: fun_upd_apply cong: option.case_cong)
  have f: "timer_links ?s4 = ?h" "timer_mem ?s4 = ?mem" by simp_all
  have "timer_add fn arg delay s = Inr (s\<lparr>heap := h, time_reads := time_reads s + 1, timer_mem := ?mem,
      timer_links := list_add_tail (TimerList t) ?pos ?h\<rparr>)"
    unfolding run f list_search_dlist[OF d'] of_loop_simps bindF_simps
    by (cases "find ?P (map TimerList q)") (simp_all del: fun_upd_apply)
  moreover have "takeWhile (\<lambda>x. \<not> ?P x) (map TimerList q) @ TimerList t # dropWhile (\<lambda>x. \<not> ?P x) (map TimerList q) =
      map TimerList (before_greater (expiry s) (sint ?T) t q)"
  proof -
    have "tm_time (?mem b) = tm_time (timer_mem s b)" if "b \<in> set q" for b
      using that tq' by (auto simp: added_timer_def)
    moreover have "tm_time (?mem t) = ?T" by (simp add: added_timer_def)
    ultimately show ?thesis
      unfolding takeWhile_map_inj before_greater_def expiry_def
      by (simp add: not_less cong: takeWhile_cong dropWhile_cong)
  qed
  ultimately show ?thesis using insert_before_dlist[OF d' nq, of ?P] by auto
qed

lemma set_before_greater: "set (before_greater f k t q) = insert t (set q)"
  unfolding before_greater_def by (metis set_append list.simps(15) Un_insert_right takeWhile_dropWhile_id)

lemma timer_add_queue:
  assumes tq: "timer_queue s q L" and k: "kmalloc (of_nat SIZEOF_TIMER) (heap s) = Inr (t, h)"
  shows "\<exists>s' n. timer_add fn arg delay s = Inr s' \<and> heap s' = h \<and> t \<notin> set q \<and> (t, n) \<notin> L \<and>
    timer_queue s' (before_greater (expiry s) (expiry s' t) t q) (insert (t, n) L) \<and>
    timer_mem s' = added_timer fn arg delay t s \<and> (\<exists>l. s' = s\<lparr>heap := h, time_reads := time_reads s + 1,
      timer_mem := added_timer fn arg delay t s, timer_links := l\<rparr>)"
proof -
  have d: "dlist (timer_links s) TimerQueue (map TimerList q)" and m: "mm_inv (heap s) L"
    and c: "\<forall>t \<in> set q. \<exists>n. (t, n) \<in> L" using tq by (simp_all add: timer_queue_def)
  obtain n where n: "(t, n) \<notin> L" "mm_inv h (insert (t, n) L)"
    using kmalloc_chunk[OF m _ k] by (auto simp: SIZEOF_TIMER_def)
  have tq': "t \<notin> set q"
  proof
    assume "t \<in> set q"
    then obtain n' where "(t, n') \<in> L" using c by blast
    then have "n' = n" using ha.same_address[OF n(2), of t n' n] by simp
    then show False using n(1) \<open>(t, n') \<in> L\<close> by simp
  qed
  let ?T = "fst (get_uptime s) + scast delay"
  obtain l where l: "timer_add fn arg delay s = Inr (s\<lparr>heap := h, time_reads := time_reads s + 1,
      timer_mem := added_timer fn arg delay t s, timer_links := l\<rparr>)"
    "dlist l TimerQueue (map TimerList (before_greater (expiry s) (sint ?T) t q))"
    using timer_add_eq[OF d tq' k] by blast
  let ?s' = "s\<lparr>heap := h, time_reads := time_reads s + 1, timer_mem := added_timer fn arg delay t s, timer_links := l\<rparr>"
  have "expiry ?s' t = sint ?T" by (simp add: added_timer_def expiry_def)
  then have "timer_queue ?s' (before_greater (expiry s) (expiry ?s' t) t q) (insert (t, n) L)"
    using n(2) l(2) c by (auto simp: timer_queue_def set_before_greater)
  then show ?thesis using tq' n(1) l(1) by (intro exI[of _ ?s'] exI[of _ n]) auto
qed

lemma timer_add_Inr:
  assumes tq: "timer_queue s q L" and a: "timer_add fn arg delay s = Inr s'"
  shows "\<exists>t n. t \<notin> set q \<and> timer_queue s' (before_greater (expiry s) (expiry s' t) t q) (insert (t, n) L) \<and>
    timer_mem s' = added_timer fn arg delay t s"
proof -
  obtain t h where k: "kmalloc (of_nat SIZEOF_TIMER) (heap s) = Inr (t, h)"
    using a by (auto simp: timer_add_def bindF_eq_Inr_iff)
  show ?thesis using timer_add_queue[OF tq k, of fn arg delay] a by auto
qed

text \<open>The queue keeps the contract of a keyed queue; what is added is a callback, its argument and a delay.\<close>

interpretation tq: keyed_queue "\<lambda>s q. \<exists>L. timer_queue s q L" expiry
    "\<lambda>(fn, arg, delay). timer_add fn arg delay"
proof unfold_locales
  fix s s' :: "'a timers_scheme" and q x
  assume "\<exists>L. timer_queue s q L" and a: "(case x of (fn, arg, delay) \<Rightarrow> timer_add fn arg delay) s = Inr s'"
  then obtain L fn arg delay where L: "timer_queue s q L" and x: "x = (fn, arg, delay)" by (cases x) auto
  obtain t n where t: "t \<notin> set q" "timer_queue s' (before_greater (expiry s) (expiry s' t) t q) (insert (t, n) L)"
    "timer_mem s' = added_timer fn arg delay t s"
    using timer_add_Inr[OF L, of fn arg delay s'] a x by auto
  have "\<forall>b \<in> set q. expiry s' b = expiry s b" using t(1,3) by (auto simp: expiry_def added_timer_def)
  then show "\<exists>a. a \<notin> set q \<and> (\<forall>b \<in> set q. expiry s' b = expiry s b) \<and>
      (\<exists>L. timer_queue s' (before_greater (expiry s) (expiry s' a) a q) L)"
    using t(1,2) by blast
qed

section \<open>The handler\<close>

lemma sint_small:
  assumes "unat (x :: u64) < 2 ^ 63"
  shows "sint x = int (unat x)"
proof -
  have "int (unat x) < int (2 ^ 63)" using assms by (simp only: of_nat_less_iff)
  then have "int (unat x) < 2 ^ 63" by (simp only: of_nat_power of_nat_numeral)
  moreover have "- (2 ^ 63) \<le> int (unat x)" by (rule order_trans[OF _ of_nat_0_le_iff]) simp
  moreover have "sint x = signed_take_bit 63 (int (unat x))" by (simp add: sint_uint)
  ultimately show ?thesis using signed_take_bit_int_eq_self[of 63 "int (unat x)"] by (simp only:)
qed

text \<open>The uptime at the \<open>i\<close>-th reading of the counter, for a counter that does not run backwards.\<close>

definition uptime :: "'z timers_scheme \<Rightarrow> nat \<Rightarrow> int" where
  "uptime s i = sint (rdtime s i div TIME_FREQ (qemu s))"

definition clock_ok :: "'z timers_scheme \<Rightarrow> bool" where
  "clock_ok s \<longleftrightarrow> (\<forall>i j. i \<le> j \<longrightarrow> rdtime s i \<le> rdtime s j)"

lemma uptime_mono:
  assumes "clock_ok s" and "i \<le> j"
  shows "uptime s i \<le> uptime s j"
proof -
  have u: "uptime s i = int (unat (rdtime s i) div unat (TIME_FREQ (qemu s)))" for i
  proof -
    have "unat (rdtime s i div TIME_FREQ (qemu s)) = unat (rdtime s i) div unat (TIME_FREQ (qemu s))"
      by (simp add: unat_div_distrib)
    moreover have "unat (rdtime s i) div unat (TIME_FREQ (qemu s)) \<le> unat (rdtime s i) div 2"
      by (rule div_le_mono2) (simp_all add: TIME_FREQ_def)
    moreover have "unat (rdtime s i) div 2 < 2 ^ 63"
      by (rule less_mult_imp_div_less) (use unsigned_less[of "rdtime s i"] in simp)
    ultimately have "unat (rdtime s i div TIME_FREQ (qemu s)) < 2 ^ 63" by (simp only: order_le_less_trans)
    then show ?thesis by (simp add: uptime_def sint_small unat_div_distrib)
  qed
  have "unat (rdtime s i) \<le> unat (rdtime s j)" using assms by (simp add: clock_ok_def word_le_nat_alt)
  then show ?thesis unfolding u by (simp add: div_le_mono)
qed

text \<open>What a run of the handler may change.\<close>

definition timer_frame :: "'z timers_scheme \<Rightarrow> 'z timers_scheme \<Rightarrow> bool" where
  "timer_frame s s' \<longleftrightarrow> (\<exists>h n l k. s' = s\<lparr>heap := h, lsr_reads := n, uart_thr := uart_thr s',
     timer_links := l, time_reads := k\<rparr>)"

lemma timer_frame_fields:
  assumes "timer_frame s s'"
  shows "ram s' = ram s" "timer_mem s' = timer_mem s" "rdtime s' = rdtime s" "qemu s' = qemu s"
    "uart_lsr s' = uart_lsr s" "stie s' = stie s" "next_tick s' = next_tick s" "sie s' = sie s"
    "run_links s' = run_links s" "tasks s' = tasks s" "tp s' = tp s" "timers.more s' = timers.more s"
proof -
  obtain h n l k where e: "s' = s\<lparr>heap := h, lsr_reads := n, uart_thr := uart_thr s', timer_links := l, time_reads := k\<rparr>"
    using assms by (auto simp: timer_frame_def)
  show "ram s' = ram s" "timer_mem s' = timer_mem s" "rdtime s' = rdtime s" "qemu s' = qemu s"
    "uart_lsr s' = uart_lsr s" "stie s' = stie s" "next_tick s' = next_tick s" "sie s' = sie s"
    "run_links s' = run_links s" "tasks s' = tasks s" "tp s' = tp s" "timers.more s' = timers.more s"
    by (subst e; simp)+
qed

lemma timer_frame_trans:
  assumes "timer_frame s s1" and "timer_frame s1 s2"
  shows "timer_frame s s2"
proof -
  obtain h n l k where 1: "s1 = s\<lparr>heap := h, lsr_reads := n, uart_thr := uart_thr s1, timer_links := l, time_reads := k\<rparr>"
    using assms(1) by (auto simp: timer_frame_def)
  obtain h' n' l' k' where 2: "s2 = s1\<lparr>heap := h', lsr_reads := n', uart_thr := uart_thr s2, timer_links := l', time_reads := k'\<rparr>"
    using assms(2) by (auto simp: timer_frame_def)
  have "s2 = s\<lparr>heap := h', lsr_reads := n', uart_thr := uart_thr s2, timer_links := l', time_reads := k'\<rparr>"
    by (subst 2, subst 1) simp
  then show ?thesis unfolding timer_frame_def by blast
qed

text \<open>The loop runs the timers from the front, until it finds one that is not due.\<close>

lemma timer_loop_runs:
  assumes "timer_queue s q L" and "tx_ready s" and "\<forall>t \<in> set q. cstr (ram s) (tm_arg (timer_mem s t)) (msg t)"
  shows "\<exists>n s' L'. timer_loop s = Some s' \<and> n \<le> length q \<and> timer_queue s' (drop n q) L' \<and>
    L' = {c \<in> L. fst c \<notin> set (take n q)} \<and>
    uart_thr s' = uart_thr s @ concat (map (\<lambda>t. crlf (msg t)) (take n q)) \<and>
    (\<forall>i < n. expiry s (q ! i) \<le> uptime s (time_reads s + i)) \<and>
    (n < length q \<longrightarrow> uptime s (time_reads s + n) < expiry s (q ! n)) \<and> timer_frame s s' \<and>
    time_reads s \<le> time_reads s'"
  using assms
proof (induction q arbitrary: s L)
  case Nil
  have "list_empty TimerQueue (timer_links s)"
    using Nil(1) list_empty_dlist[of "timer_links s" TimerQueue "[]"] by (simp add: timer_queue_def)
  then have "timer_loop s = Some s" by (subst timer_loop.simps) simp
  moreover have "timer_frame s s"
    unfolding timer_frame_def
    by (intro exI[of _ "heap s"] exI[of _ "lsr_reads s"] exI[of _ "timer_links s"] exI[of _ "time_reads s"]) simp
  ultimately show ?case using Nil(1) by auto
next
  case (Cons t q)
  have d: "dlist (timer_links s) TimerQueue (TimerList t # map TimerList q)" and m: "mm_inv (heap s) L"
    and c: "\<And>u. u \<in> set (t # q) \<Longrightarrow> \<exists>n. (u, n) \<in> L" using Cons(2) by (auto simp: timer_queue_def)
  have dist: "t \<notin> set q" using timer_queue_distinct[OF Cons(2)] by simp
  let ?s1 = "s\<lparr>time_reads := time_reads s + 1\<rparr>"
  have e: "\<not> list_empty TimerQueue (timer_links s)" "list_first_entry TimerQueue (timer_links s) = TimerList t"
    using list_empty_dlist[OF d] list_first_dlist[OF d] by simp_all
  have step: "timer_loop s = (if uptime s (time_reads s) < expiry s t then Some ?s1
      else Option.bind (uart_puts (tm_arg (timer_mem s t)) ?s1) (\<lambda>s2.
             let s3 = s2\<lparr>timer_links := list_del_init (TimerList t) (timer_links s2)\<rparr>
             in timer_loop (s3\<lparr>heap := kfree t (heap s3)\<rparr>)))"
    using e by (subst timer_loop.simps)
      (cases "tm_func (timer_mem s t)"; simp add: get_uptime_def read_time_def uptime_def expiry_def Let_def)
  show ?case
  proof (cases "uptime s (time_reads s) < expiry s t")
    case True
    have "timer_frame s ?s1"
      unfolding timer_frame_def
      by (intro exI[of _ "heap s"] exI[of _ "lsr_reads s"] exI[of _ "timer_links s"] exI[of _ "time_reads s + 1"]) simp
    moreover have "timer_queue ?s1 (t # q) L" using Cons(2) by (simp add: timer_queue_def)
    ultimately show ?thesis using True step by (intro exI[of _ 0] exI[of _ ?s1] exI[of _ L]) simp
  next
    case False
    have "tx_ready ?s1" "cstr (ram ?s1) (tm_arg (timer_mem s t)) (msg t)"
      using Cons(3,4) by (simp_all add: tx_ready_def)
    then obtain s2 where s2: "uart_puts (tm_arg (timer_mem s t)) ?s1 = Some s2" "sends (crlf (msg t)) ?s1 s2"
      using uart_puts_sends by blast
    obtain n2 where s2': "s2 = ?s1\<lparr>lsr_reads := n2, uart_thr := uart_thr s @ crlf (msg t)\<rparr>"
      using s2(2) by (auto simp: sends_def)
    obtain sz where sz: "(t, sz) \<in> L" using c[of t] by auto
    let ?l = "list_del_init (TimerList t) (timer_links s)" and ?h = "kfree t (heap s)"
    let ?s4 = "s\<lparr>heap := ?h, lsr_reads := n2, uart_thr := uart_thr s @ crlf (msg t), timer_links := ?l, time_reads := time_reads s + 1\<rparr>"
    have "s2\<lparr>timer_links := list_del_init (TimerList t) (timer_links s2)\<rparr>\<lparr>heap := kfree t (heap s2)\<rparr> = ?s4"
      by (rule timers.equality) (simp_all add: s2')
    then have loop: "timer_loop s = timer_loop ?s4" using step False s2(1) by (simp add: Let_def)
    have "dlist ?l TimerQueue (map TimerList q)" using dlist_delete[of _ _ "[]"] d by simp
    moreover have "mm_inv ?h (L - {(t, sz)})" by (rule kfree_chunk[OF m sz])
    moreover have "\<exists>n. (u, n) \<in> L - {(t, sz)}" if "u \<in> set q" for u using c[of u] that dist by auto
    ultimately have tq: "timer_queue ?s4 q (L - {(t, sz)})" by (simp add: timer_queue_def)
    have f4: "timer_frame s ?s4" unfolding timer_frame_def by (intro exI) simp
    have "tx_ready ?s4" "\<forall>u \<in> set q. cstr (ram ?s4) (tm_arg (timer_mem ?s4 u)) (msg u)"
      using Cons(3,4) by (simp_all add: tx_ready_def)
    from Cons(1)[OF tq this] obtain n s' L' where IH: "timer_loop ?s4 = Some s'" "n \<le> length q"
      "timer_queue s' (drop n q) L'" "L' = {c \<in> L - {(t, sz)}. fst c \<notin> set (take n q)}"
      "uart_thr s' = uart_thr ?s4 @ concat (map (\<lambda>t. crlf (msg t)) (take n q))"
      "\<forall>i < n. expiry ?s4 (q ! i) \<le> uptime ?s4 (time_reads ?s4 + i)"
      "n < length q \<longrightarrow> uptime ?s4 (time_reads ?s4 + n) < expiry ?s4 (q ! n)" "timer_frame ?s4 s'"
      "time_reads ?s4 \<le> time_reads s'"
      by (elim exE conjE) (rule that)
    have g: "expiry ?s4 = expiry s" "uptime ?s4 = uptime s" by (simp_all add: fun_eq_iff expiry_def uptime_def)
    have due: "\<forall>i < Suc n. expiry s ((t # q) ! i) \<le> uptime s (time_reads s + i)"
      using IH(6) False unfolding g by (auto simp: less_Suc_eq_0_disj)
    have next_one: "Suc n < length (t # q) \<longrightarrow> uptime s (time_reads s + Suc n) < expiry s ((t # q) ! Suc n)"
      using IH(7) unfolding g by simp
    have L': "L' = {c \<in> L. fst c \<notin> set (take (Suc n) (t # q))}"
    proof -
      have "fst c = t \<longleftrightarrow> c = (t, sz)" if "c \<in> L" for c
        using ha.same_address[OF m _ sz, of "snd c"] that by (cases c) auto
      then show ?thesis unfolding IH(4) by (intro set_eqI) (simp, blast)
    qed
    have out: "uart_thr s' = uart_thr s @ concat (map (\<lambda>t. crlf (msg t)) (take (Suc n) (t # q)))"
      using IH(5) by simp
    have "timer_loop s = Some s'" "Suc n \<le> length (t # q)" "timer_queue s' (drop (Suc n) (t # q)) L'"
      using loop IH(1-3) by simp_all
    moreover have "time_reads s \<le> time_reads s'" using IH(9) by simp
    ultimately show ?thesis using L' out due next_one timer_frame_trans[OF f4 IH(8)] by blast
  qed
qed

text \<open>A sequence of calls of \<open>set_timeout\<close>, each with a message and a delay.\<close>

primrec set_timeouts :: "(u64 \<times> u32) list \<Rightarrow> 'z timers_scheme \<Rightarrow> fault + 'z timers_scheme" where
  "set_timeouts [] s = Inr s"
| "set_timeouts (x # xs) s = bindF (set_timeout (fst x) (snd x) s) (\<lambda>s1. set_timeouts xs s1)"

lemma set_timeouts_adds:
  "set_timeouts xs s = tq.adds (map (\<lambda>x. (UART_PUTS, fst x, snd x)) xs) s"
proof (induction xs arbitrary: s)
  case (Cons x xs)
  then show ?case by (cases x) (simp add: set_timeout_def bindF_def split: sum.split)
qed simp

text \<open>C26: whatever the order in which timeouts are set, the queue is ordered by their times, and timeouts of
  the same time stay in the order in which they were set: the queue is the stable sort of the old queue
  followed by the new timers.\<close>

theorem timeouts_sorted:
  assumes "timer_queue s q L" and "sorted (map (expiry s) q)" and "set_timeouts xs s = Inr s'"
  shows "\<exists>as L'. length as = length xs \<and> timer_queue s' (sort_key (expiry s') (q @ as)) L' \<and>
    (\<forall>t \<in> set q. expiry s' t = expiry s t)"
proof -
  have "tq.adds (map (\<lambda>x. (UART_PUTS, fst x, snd x)) xs) s = Inr s'"
    using assms(3) by (simp only: set_timeouts_adds)
  then show ?thesis using tq.adds_sorted[OF _ assms(2)] assms(1) by fastforce
qed

text \<open>What the handler leaves alone.\<close>

definition handler_frame :: "'z timers_scheme \<Rightarrow> 'z timers_scheme \<Rightarrow> bool" where
  "handler_frame s s' \<longleftrightarrow> (\<exists>h n out l k. s' = s\<lparr>heap := h, lsr_reads := n, uart_thr := out, timer_links := l,
     time_reads := k, stie := True, next_tick := rdtime s (time_reads s) + TIME_FREQ (qemu s) div 32\<rparr>)"

lemma timer_irq_handler_runs:
  assumes tq: "timer_queue s q L" and so: "sorted (map (expiry s) q)" and tx: "tx_ready s" and ck: "clock_ok s"
    and msg: "\<forall>t \<in> set q. cstr (ram s) (tm_arg (timer_mem s t)) (msg t)"
  shows "\<exists>s' n now L'. timer_irq_handler s = Some s' \<and> n \<le> length q \<and> time_reads s < now \<and>
    (\<forall>t \<in> set (take n q). expiry s t \<le> uptime s now) \<and> (\<forall>t \<in> set (drop n q). uptime s now < expiry s t) \<and>
    timer_queue s' (drop n q) L' \<and> L' = {c \<in> L. fst c \<notin> set (take n q)} \<and> timer_mem s' = timer_mem s \<and>
    uart_thr s' = uart_thr s @ concat (map (\<lambda>t. crlf (msg t)) (take n q)) \<and>
    handler_frame s s' \<and> time_reads s \<le> time_reads s'"
proof -
  let ?s1 = "s\<lparr>time_reads := time_reads s + 1, next_tick := rdtime s (time_reads s) + TIME_FREQ (qemu s) div 32\<rparr>"
  have tq1: "timer_queue ?s1 q L" using tq by (simp add: timer_queue_def)
  have e: "expiry ?s1 = expiry s" "uptime ?s1 = uptime s" by (simp_all add: fun_eq_iff expiry_def uptime_def)
  have "tx_ready ?s1" "\<forall>t \<in> set q. cstr (ram ?s1) (tm_arg (timer_mem ?s1 t)) (msg t)"
    using tx msg by (simp_all add: tx_ready_def)
  from timer_loop_runs[OF tq1 this] obtain n s' L' where r: "timer_loop ?s1 = Some s'" "n \<le> length q"
    "timer_queue s' (drop n q) L'" "L' = {c \<in> L. fst c \<notin> set (take n q)}"
    "uart_thr s' = uart_thr ?s1 @ concat (map (\<lambda>t. crlf (msg t)) (take n q))"
    "\<forall>i < n. expiry ?s1 (q ! i) \<le> uptime ?s1 (time_reads ?s1 + i)"
    "n < length q \<longrightarrow> uptime ?s1 (time_reads ?s1 + n) < expiry ?s1 (q ! n)" "timer_frame ?s1 s'"
    "time_reads ?s1 \<le> time_reads s'"
    by (elim exE conjE) (rule that)
  let ?now = "time_reads s + 1 + n"
  have due: "\<forall>t \<in> set (take n q). expiry s t \<le> uptime s ?now"
  proof
    fix t assume "t \<in> set (take n q)"
    then obtain i where i: "i < n" "t = q ! i" by (auto simp: in_set_conv_nth)
    have "expiry s t \<le> uptime s (time_reads s + 1 + i)" using r(6) i unfolding e by simp
    also have "\<dots> \<le> uptime s ?now" using i(1) by (intro uptime_mono[OF ck]) simp
    finally show "expiry s t \<le> uptime s ?now" .
  qed
  have late: "\<forall>t \<in> set (drop n q). uptime s ?now < expiry s t"
  proof
    fix t assume "t \<in> set (drop n q)"
    then obtain i where "i < length (drop n q)" "t = drop n q ! i" unfolding in_set_conv_nth by blast
    then have i: "n + i < length q" "t = q ! (n + i)" by (simp_all add: less_diff_conv add.commute)
    have "uptime s ?now < expiry s (q ! n)" using r(7) i(1) unfolding e by simp
    also have "\<dots> \<le> expiry s t" using sorted_nth_mono[OF so, of n "n + i"] i by simp
    finally show "uptime s ?now < expiry s t" .
  qed
  have "timer_irq_handler s = Some (s'\<lparr>stie := True\<rparr>)"
    using r(1) by (simp add: timer_irq_handler_def read_time_def set_next_tick_def enable_timer_interrupt_def Let_def)
  moreover have "timer_queue (s'\<lparr>stie := True\<rparr>) (drop n q) L'" using r(3) by (simp add: timer_queue_def)
  moreover have "timer_mem (s'\<lparr>stie := True\<rparr>) = timer_mem s" using timer_frame_fields(2)[OF r(8)] by simp
  moreover have "handler_frame s (s'\<lparr>stie := True\<rparr>)"
  proof -
    obtain h n l k where e: "s' = ?s1\<lparr>heap := h, lsr_reads := n, uart_thr := uart_thr s', timer_links := l, time_reads := k\<rparr>"
      using r(8) by (auto simp: timer_frame_def)
    show ?thesis
      unfolding handler_frame_def by (intro exI, rule timers.equality) (subst e, simp)+
  qed
  ultimately show ?thesis
    using r(2,4,5,9) due late
    by (intro exI[of _ "s'\<lparr>stie := True\<rparr>"] exI[of _ n] exI[of _ ?now] exI[of _ L']) simp
qed

text \<open>C27: the handler of the timer interrupt returns, when the transmitter becomes ready again and again. It
  has run exactly the timers that are due, in the order of their times, so their messages went out one
  after the other; they are out of the queue and their memory is free again, the others are in the
  queue as before, and the interrupt is enabled for a thirty-second of a second later.\<close>

theorem timer_irq_handler_correct:
  assumes tq: "timer_queue s q L" and so: "sorted (map (expiry s) q)" and tx: "tx_ready s" and ck: "clock_ok s"
    and msg: "\<forall>t \<in> set q. cstr (ram s) (tm_arg (timer_mem s t)) (msg t)"
  shows "\<exists>s' n now L'. timer_irq_handler s = Some s' \<and> n \<le> length q \<and> time_reads s < now \<and>
    (\<forall>t \<in> set (take n q). expiry s t \<le> uptime s now) \<and> (\<forall>t \<in> set (drop n q). uptime s now < expiry s t) \<and>
    timer_queue s' (drop n q) L' \<and> L' = {c \<in> L. fst c \<notin> set (take n q)} \<and> timer_mem s' = timer_mem s \<and>
    uart_thr s' = uart_thr s @ concat (map (\<lambda>t. crlf (msg t)) (take n q)) \<and>
    stie s' \<and> next_tick s' = rdtime s (time_reads s) + TIME_FREQ (qemu s) div 32"
proof -
  obtain s' n now L' where r: "timer_irq_handler s = Some s'" "n \<le> length q" "time_reads s < now"
    "\<forall>t \<in> set (take n q). expiry s t \<le> uptime s now" "\<forall>t \<in> set (drop n q). uptime s now < expiry s t"
    "timer_queue s' (drop n q) L'" "L' = {c \<in> L. fst c \<notin> set (take n q)}" "timer_mem s' = timer_mem s"
    "uart_thr s' = uart_thr s @ concat (map (\<lambda>t. crlf (msg t)) (take n q))"
    and e: "handler_frame s s'"
    using timer_irq_handler_runs[OF assms] by (elim exE conjE) (rule that)
  have "stie s'" "next_tick s' = rdtime s (time_reads s) + TIME_FREQ (qemu s) div 32" using e by (auto simp: handler_frame_def)
  with r show ?thesis by blast
qed

text \<open>Timeouts in a machine with free memory.\<close>

lemma timer_add_plenty:
  assumes "timer_queue s q L" and "plenty (Suc n) (heap s)"
  shows "\<exists>h t l L'. plenty n h \<and> t \<notin> set q \<and>
    timer_add fn arg delay s = Inr (s\<lparr>heap := h, time_reads := time_reads s + 1,
      timer_mem := added_timer fn arg delay t s, timer_links := l\<rparr>) \<and>
    timer_queue (s\<lparr>heap := h, time_reads := time_reads s + 1, timer_mem := added_timer fn arg delay t s, timer_links := l\<rparr>)
      (before_greater (expiry s) (sint (fst (get_uptime s) + scast delay)) t q) L'"
proof -
  have "0 < (of_nat SIZEOF_TIMER :: u32)" "unat (of_nat SIZEOF_TIMER :: u32) \<le> 2 ^ 22"
    by (simp_all add: SIZEOF_TIMER_def)
  from plenty_kmalloc[OF assms(2) this] obtain t h where k: "kmalloc (of_nat SIZEOF_TIMER) (heap s) = Inr (t, h)" "plenty n h"
    by blast
  obtain s' m l where r: "timer_add fn arg delay s = Inr s'" "t \<notin> set q"
    "timer_queue s' (before_greater (expiry s) (expiry s' t) t q) (insert (t, m) L)"
    and e: "s' = s\<lparr>heap := h, time_reads := time_reads s + 1,
      timer_mem := added_timer fn arg delay t s, timer_links := l\<rparr>"
    using timer_add_queue[OF assms(1) k(1), of fn arg delay] by (elim exE conjE) (rule that)
  have "expiry s' t = sint (fst (get_uptime s) + scast delay)" by (simp add: e expiry_def added_timer_def)
  then show ?thesis
    using k(2) r(1-3) e by (intro exI[of _ h] exI[of _ t] exI[of _ l] exI[of _ "insert (t, m) L"]) simp
qed

text \<open>Two timeouts, after nine and after two seconds, on a clock that stands at five when it is read next.\<close>

definition example_clock :: "nat \<Rightarrow> u64" where
  "example_clock i = (if i < 2 then 0 else 50000000)"

lemma two_timeouts:
  assumes q: "timer_queue s [] {}" and pl: "plenty 1280 (heap s)"
    and c: "rdtime s = example_clock" "time_reads s = 0" "qemu s"
  obtains h t u m l L where
    "set_timeouts [(0x100, 9), (0x200, 2)] s =
      Inr (s\<lparr>heap := h, time_reads := 2, timer_mem := m, timer_links := l\<rparr>)"
    "plenty 1278 h" "t \<noteq> u" "tm_arg (m u) = 0x200" "tm_arg (m t) = 0x100"
    "sint (tm_time (m u)) = 2" "sint (tm_time (m t)) = 9"
    "timer_queue (s\<lparr>heap := h, time_reads := 2, timer_mem := m, timer_links := l\<rparr>) [u, t] L"
proof -
  have "plenty (Suc 1279) (heap s)" using pl by simp
  from timer_add_plenty[OF q this, of UART_PUTS "0x100" 9]
  obtain h1 t l1 L1 where
    1: "plenty 1279 h1" and t: "t \<notin> set ([] :: u64 list)"
    and a1: "timer_add UART_PUTS 0x100 9 s = Inr (s\<lparr>heap := h1, time_reads := time_reads s + 1,
      timer_mem := added_timer UART_PUTS 0x100 9 t s, timer_links := l1\<rparr>)"
    and q1: "timer_queue (s\<lparr>heap := h1, time_reads := time_reads s + 1,
      timer_mem := added_timer UART_PUTS 0x100 9 t s, timer_links := l1\<rparr>)
      (before_greater (expiry s) (sint (fst (get_uptime s) + scast (9 :: u32))) t []) L1"
    by (elim exE conjE) (rule that)
  let ?s1 = "s\<lparr>heap := h1, time_reads := time_reads s + 1, timer_mem := added_timer UART_PUTS 0x100 9 t s, timer_links := l1\<rparr>"
  have q1': "timer_queue ?s1 [t] L1" using q1 by (simp add: before_greater_def)
  have "plenty (Suc 1278) (heap ?s1)" using 1 by simp
  from timer_add_plenty[OF q1' this, of UART_PUTS "0x200" 2] obtain h2 u l2 L where
    2: "plenty 1278 h2" and u: "u \<notin> set [t]"
    and a2: "timer_add UART_PUTS 0x200 2 ?s1 = Inr (?s1\<lparr>heap := h2, time_reads := time_reads ?s1 + 1,
      timer_mem := added_timer UART_PUTS 0x200 2 u ?s1, timer_links := l2\<rparr>)"
    and q2: "timer_queue (?s1\<lparr>heap := h2, time_reads := time_reads ?s1 + 1,
      timer_mem := added_timer UART_PUTS 0x200 2 u ?s1, timer_links := l2\<rparr>)
      (before_greater (expiry ?s1) (sint (fst (get_uptime ?s1) + scast (2 :: u32))) u [t]) L"
    by (elim exE conjE) (rule that)
  let ?m = "added_timer UART_PUTS 0x200 2 u ?s1"
  let ?s2 = "s\<lparr>heap := h2, time_reads := 2, timer_mem := ?m, timer_links := l2\<rparr>"
  have s2: "?s1\<lparr>heap := h2, time_reads := time_reads ?s1 + 1, timer_mem := ?m, timer_links := l2\<rparr> = ?s2"
    by (rule timers.equality) (simp_all add: c)
  have m: "tm_arg (?m u) = 0x200" "tm_arg (?m t) = 0x100" "sint (tm_time (?m u)) = 2" "sint (tm_time (?m t)) = 9"
    "expiry ?s1 t = 9" "sint (fst (get_uptime ?s1) + scast (2 :: u32)) = 2"
    using u by (simp_all add: added_timer_def get_uptime_def read_time_def expiry_def c example_clock_def)
  have "before_greater (expiry ?s1) 2 u [t] = [u, t]"
    unfolding before_greater_def by (simp only: takeWhile.simps dropWhile.simps m(5)) simp
  then have "timer_queue ?s2 [u, t] L" using q2 unfolding s2 m(6) by (simp only:)
  moreover have "set_timeouts [(0x100, 9), (0x200, 2)] s = Inr ?s2"
    unfolding set_timeouts.simps set_timeout_def fst_conv snd_conv a1 bindF_simps a2[unfolded s2] ..
  moreover have "t \<noteq> u" using u by simp
  ultimately show thesis using that[OF _ 2 _ m(1-4)] by blast
qed

definition example_timers :: timers where
  "example_timers = console.extend (example_console\<lparr>ram := (\<lambda>_. 0)(0x100 := 0x41, 0x200 := 0x42)\<rparr>)
     (timers.fields (\<lambda>_. \<lparr>tm_func = UART_PUTS, tm_arg = 0, tm_time = 0\<rparr>) (\<lambda>n. \<lparr>prv = n, nxt = n\<rparr>)
       example_clock 0 True False 0)"

lemma example_timers_fields:
  "heap example_timers = mem_init_free boot_mm" "ram example_timers = (\<lambda>_. 0)(0x100 := 0x41, 0x200 := 0x42)"
  "uart_thr example_timers = []" "uart_lsr example_timers = (\<lambda>_. 0x21)" "time_reads example_timers = 0"
  "rdtime example_timers = example_clock" "qemu example_timers"
  "timer_links example_timers = (\<lambda>n. \<lparr>prv = n, nxt = n\<rparr>)"
  by (simp_all add: example_timers_def example_console_def example_sched_def sched.defs console.defs timers.defs)

lemma example_timers_queue: "timer_queue example_timers [] {}"
  using boot_mm_inv[of boot_mm] by (simp add: timer_queue_def example_timers_fields dlist_def)

lemma example_timers_plenty: "plenty 1280 (heap example_timers)"
  using boot_plenty[of boot_mm] by (simp add: example_timers_fields)

lemmas example_timeouts =
  two_timeouts[OF example_timers_queue example_timers_plenty example_timers_fields(6,5,7)]

theorem timeouts_sorted_witness:
  "\<exists>s a b L. set_timeouts [(0x100, 9), (0x200, 2)] example_timers = Inr s \<and>
     timer_queue s (sort_key (expiry s) [a, b]) L"
proof -
  obtain s where s: "set_timeouts [(0x100, 9), (0x200, 2)] example_timers = Inr s"
    by (rule example_timeouts) blast
  from timeouts_sorted[OF example_timers_queue _ s] obtain as L where
    "length as = Suc (Suc 0)" "timer_queue s (sort_key (expiry s) as) L" by auto
  moreover from this(1) obtain a b where "as = [a, b]" by (auto simp: length_Suc_conv)
  ultimately show ?thesis using s by blast
qed

theorem timer_irq_handler_correct_witness:
  "\<exists>s s' t L. set_timeouts [(0x100, 9), (0x200, 2)] example_timers = Inr s \<and>
     timer_irq_handler s = Some s' \<and> uart_thr s' = [0x42] \<and> timer_queue s' [t] L \<and> stie s' \<and>
     next_tick s' = 50312500"
proof -
  obtain h t u m l L where st: "set_timeouts [(0x100, 9), (0x200, 2)] example_timers =
      Inr (example_timers\<lparr>heap := h, time_reads := 2, timer_mem := m, timer_links := l\<rparr>)"
    and m: "t \<noteq> u" "tm_arg (m u) = 0x200" "tm_arg (m t) = 0x100" "sint (tm_time (m u)) = 2" "sint (tm_time (m t)) = 9"
    and q: "timer_queue (example_timers\<lparr>heap := h, time_reads := 2, timer_mem := m, timer_links := l\<rparr>) [u, t] L"
    by (rule example_timeouts)
  let ?s = "example_timers\<lparr>heap := h, time_reads := 2, timer_mem := m, timer_links := l\<rparr>"
  have e: "expiry ?s u = 2" "expiry ?s t = 9" using m by (simp_all add: expiry_def)
  have so: "sorted (map (expiry ?s) [u, t])" using e by simp
  have tx: "tx_ready ?s" by (auto simp: tx_ready_def example_timers_fields)
  have ck: "clock_ok ?s" by (simp add: clock_ok_def example_timers_fields example_clock_def)
  have msg: "\<forall>v \<in> set [u, t]. cstr (ram ?s) (tm_arg (timer_mem ?s v)) (if v = u then [0x42] else [0x41])"
    using m by (simp add: example_timers_fields)
  from timer_irq_handler_correct[OF q so tx ck msg] obtain s' n now L' where
    r: "timer_irq_handler ?s = Some s'" "n \<le> length [u, t]" "time_reads ?s < now"
    "\<forall>v \<in> set (take n [u, t]). expiry ?s v \<le> uptime ?s now" "\<forall>v \<in> set (drop n [u, t]). uptime ?s now < expiry ?s v"
    "timer_queue s' (drop n [u, t]) L'"
    "uart_thr s' = uart_thr ?s @ concat (map (\<lambda>v. crlf (if v = u then [0x42] else [0x41])) (take n [u, t]))"
    "stie s'" "next_tick s' = rdtime ?s (time_reads ?s) + TIME_FREQ (qemu ?s) div 32"
    by (elim exE conjE) (rule that)
  have up: "uptime ?s now = 5" using r(3) by (simp add: uptime_def example_timers_fields example_clock_def TIME_FREQ_def)
  have "n = 1"
  proof (rule ccontr)
    assume "n \<noteq> 1"
    then consider "n = 0" | "n = 2" using r(2) by force
    then show False using r(4,5) by cases (simp_all add: up e)
  qed
  then show ?thesis
    using r(1,6-9) st by (intro exI[of _ ?s] exI[of _ s'] exI[of _ t] exI[of _ L'])
      (simp add: example_timers_fields example_clock_def TIME_FREQ_def)
qed

end
