(* ===== verification/Signal.thy ===== *)
theory Signal
  imports Sched
begin

text \<open>
  Saved registers and signals: \<open>struct pt_regs\<close> of \<open>include/traps.h\<close>, its offsets in \<open>include/asm.h\<close>,
  \<open>copy_user\<close> of \<open>src/mm.c\<close>, and \<open>src/signal.c\<close>. The saved registers lie in memory, on the kernel stack,
  at the address the handlers are given; a register is a 64-bit word at its offset. Addresses below
  \<open>PAGE_OFFSET\<close> are those of the current address space.

  A shift \<open>1 << sig\<close> is an \<open>int\<close> shift whose result is sign-extended; out of \<open>0..31\<close> it has no result. The
  bit \<open>sstatus.SUM\<close> that \<open>copy_user\<close> sets and clears again is not part of the state.
\<close>

section \<open>Saved registers\<close>

text \<open>The fields of \<open>struct pt_regs\<close>, in its order.\<close>

datatype reg =
    EPC | RA | SP | GP | TP | T0 | T1 | T2 | S0 | S1 | A0 | A1 | A2 | A3 | A4 | A5 | A6 | A7
  | S2 | S3 | S4 | S5 | S6 | S7 | S8 | S9 | S10 | S11 | T3 | T4 | T5 | T6
  | STATUS | BADADDR | CAUSE | ORIG_A0

definition pt_regs :: "reg list" where
  "pt_regs = [EPC, RA, SP, GP, TP, T0, T1, T2, S0, S1, A0, A1, A2, A3, A4, A5, A6, A7,
     S2, S3, S4, S5, S6, S7, S8, S9, S10, S11, T3, T4, T5, T6, STATUS, BADADDR, CAUSE, ORIG_A0]"

text \<open>The offsets that \<open>entry.S\<close> uses.\<close>

fun PT :: "reg \<Rightarrow> nat" where
  "PT EPC = 0" | "PT RA = 8" | "PT SP = 16" | "PT GP = 24" | "PT TP = 32"
| "PT T0 = 40" | "PT T1 = 48" | "PT T2 = 56" | "PT S0 = 64" | "PT S1 = 72"
| "PT A0 = 80" | "PT A1 = 88" | "PT A2 = 96" | "PT A3 = 104" | "PT A4 = 112"
| "PT A5 = 120" | "PT A6 = 128" | "PT A7 = 136" | "PT S2 = 144" | "PT S3 = 152"
| "PT S4 = 160" | "PT S5 = 168" | "PT S6 = 176" | "PT S7 = 184" | "PT S8 = 192"
| "PT S9 = 200" | "PT S10 = 208" | "PT S11 = 216" | "PT T3 = 224" | "PT T4 = 232"
| "PT T5 = 240" | "PT T6 = 248" | "PT STATUS = 256" | "PT BADADDR = 264" | "PT CAUSE = 272"
| "PT ORIG_A0 = 280"

definition PT_SIZE_ON_STACK :: nat where "PT_SIZE_ON_STACK = 288"

definition get_reg :: "reg \<Rightarrow> u64 \<Rightarrow> mem \<Rightarrow> u64" where
  "get_reg r regs m = load64 m (regs + of_nat (PT r))"

definition set_reg :: "reg \<Rightarrow> u64 \<Rightarrow> u64 \<Rightarrow> mem \<Rightarrow> mem" where
  "set_reg r v regs m = store64 (regs + of_nat (PT r)) v m"

definition upd_ram :: "(mem \<Rightarrow> mem) \<Rightarrow> 'z sched_scheme \<Rightarrow> 'z sched_scheme" where
  "upd_ram f s = s\<lparr>ram := f (ram s)\<rparr>"

section \<open>Signals\<close>

definition NSIG :: nat where "NSIG = 32"

text \<open>\<open>struct sigframe\<close>: \<open>signo\<close> at offset 0, \<open>ucontext\<close> at offset 8.\<close>

definition SIGFRAME_UCONTEXT :: u64 where "SIGFRAME_UCONTEXT = 8"
definition SIZEOF_SIGFRAME :: u64 where "SIZEOF_SIGFRAME = 296"

definition copy_user :: "u64 \<Rightarrow> u64 \<Rightarrow> nat \<Rightarrow> 'z sched_scheme \<Rightarrow> fault + 'z sched_scheme" where
  "copy_user dst src n s =
     bindF (of_loop (memcpy (ram s) dst src (int n))) (\<lambda>(_, m). Inr (s\<lparr>ram := m\<rparr>))"

text \<open>\<open>1 << sig\<close> and \<open>~(1 << sig)\<close>, as the \<open>unsigned long\<close> they become.\<close>

definition sig_bit :: "u32 \<Rightarrow> fault + u64" where
  "sig_bit sig = (if unat sig < 32 then Inr (scast (push_bit (unat sig) 1 :: u32)) else Inl Bad_Shift)"

definition sig_mask :: "u32 \<Rightarrow> fault + u64" where
  "sig_mask sig = (if unat sig < 32 then Inr (scast (NOT (push_bit (unat sig) 1) :: u32)) else Inl Bad_Shift)"

definition sys_signal :: "u32 \<Rightarrow> u64 \<Rightarrow> 'z sched_scheme \<Rightarrow> fault + u64 \<times> 'z sched_scheme" where
  "sys_signal sig handler s =
     (if unat sig < NSIG then
        Inr (0, upd_task (get_current s) (\<lambda>t. t\<lparr>sighand := (sighand t)(unat sig := handler)\<rparr>) s)
      else Inl Bad_Index)"

definition sys_sigreturn :: "u64 \<Rightarrow> 'z sched_scheme \<Rightarrow> fault + u64 \<times> 'z sched_scheme" where
  "sys_sigreturn regs s =
     (let frame = get_reg SP regs (ram s)
      in bindF (copy_user regs (frame + SIGFRAME_UCONTEXT) PT_SIZE_ON_STACK s) (\<lambda>s1.
           let signo = load32 (ram s1) frame
           in bindF (sig_mask signo) (\<lambda>mask.
                let s2 = upd_task (get_current s1) (\<lambda>t. t\<lparr>blocked := blocked t AND mask\<rparr>) s1
                in Inr (get_reg A0 regs (ram s2), s2))))"

definition sys_kill :: "u64 \<Rightarrow> u32 \<Rightarrow> 'z sched_scheme \<Rightarrow> fault + u64 \<times> 'z sched_scheme" where
  "sys_kill p sig s =
     bindF (find_task_by_pid (ucast p) s) (\<lambda>task.
       if task = 0 then Inr (- 1, s)
       else bindF (sig_bit sig) (\<lambda>b.
         if blocked (tasks s task) AND b \<noteq> 0 then Inr (0, s)
         else
           let s1 = upd_task task (\<lambda>t. t\<lparr>blocked := blocked t OR b\<rparr>) s;
               s2 = upd_task task (\<lambda>t. t\<lparr>pending := pending t OR b\<rparr>) s1
           in Inr (0, s2)))"

text \<open>
  The body of the loop of \<open>do_signal\<close> for a pending signal, up to its \<open>return\<close>. \<open>sigreturn_fn\<close> is the
  address of \<open>sigreturn\<close>. When \<open>kthread_exit\<close> switches away, the line after it is pending.
\<close>

definition deliver ::
    "u64 \<Rightarrow> u32 \<Rightarrow> u64 \<Rightarrow> 'z sched_scheme \<Rightarrow> fault + ctl \<times> 'z sched_scheme" where
  "deliver sigreturn_fn sig regs s =
     bindF (sig_mask sig) (\<lambda>mask.
       let s1 = upd_task (get_current s) (\<lambda>t. t\<lparr>pending := pending t AND mask\<rparr>) s;
           handler = sighand (tasks s1 (get_current s1)) (unat sig)
       in if handler = SIG_DFL then
            case kthread_exit s1 of
              (Switch, s2) \<Rightarrow> Inr (Switch, s2)
            | (Stay, s2) \<Rightarrow>
                Inr (Stay, upd_task (get_current s2) (\<lambda>t. t\<lparr>blocked := blocked t AND mask\<rparr>) s2)
          else
            let frame = get_reg SP regs (ram s1) - SIZEOF_SIGFRAME;
                s2 = upd_ram (store32 frame sig) s1
            in bindF (copy_user (frame + SIGFRAME_UCONTEXT) regs PT_SIZE_ON_STACK s2) (\<lambda>s3.
                 let s4 = upd_ram (set_reg EPC handler regs) s3;
                     s5 = upd_ram (set_reg RA sigreturn_fn regs) s4;
                     s6 = upd_ram (set_reg SP (frame AND NOT 0xf) regs) s5
                 in Inr (Stay, s6)))"

function do_signal_from ::
    "u64 \<Rightarrow> nat \<Rightarrow> u64 \<Rightarrow> 'z sched_scheme \<Rightarrow> fault + ctl \<times> 'z sched_scheme" where
  "do_signal_from sigreturn_fn sig regs s =
     (if sig < NSIG then
        bindF (sig_bit (of_nat sig)) (\<lambda>b.
          if pending (tasks s (get_current s)) AND b \<noteq> 0
          then deliver sigreturn_fn (of_nat sig) regs s
          else do_signal_from sigreturn_fn (sig + 1) regs s)
      else Inr (Stay, s))"
  by pat_completeness auto
termination by (relation "measure (\<lambda>(f, sig, r, s). NSIG - sig)") auto

declare do_signal_from.simps [simp del]

definition do_signal :: "u64 \<Rightarrow> u64 \<Rightarrow> 'z sched_scheme \<Rightarrow> fault + ctl \<times> 'z sched_scheme" where
  "do_signal sigreturn_fn regs s = do_signal_from sigreturn_fn 0 regs s"

section \<open>Ranges of memory\<close>

text \<open>The ranges \<open>[a, a + n)\<close> and \<open>[b, b + m)\<close> do not meet.\<close>

definition disjoint_ranges :: "u64 \<Rightarrow> nat \<Rightarrow> u64 \<Rightarrow> nat \<Rightarrow> bool" where
  "disjoint_ranges a n b m \<longleftrightarrow> n \<le> unat (b - a) \<and> m \<le> unat (a - b)"

lemma disjoint_ranges_sym: "disjoint_ranges a n b m \<Longrightarrow> disjoint_ranges b m a n"
  by (simp add: disjoint_ranges_def)

lemma disjoint_rangesD:
  assumes "disjoint_ranges a n b m" and "unat (x - a) < n"
  shows "m \<le> unat (x - b)"
proof -
  have d: "n \<le> unat (b - a)" "m \<le> unat (a - b)" using assms(1) by (simp_all add: disjoint_ranges_def)
  have "0 < unat (b - a)" using d(1) assms(2) by linarith
  then have "unat (- (b - a)) = 2 ^ 64 - unat (b - a)" by (rule unat_minus_swap)
  then have "unat (a - b) = 2 ^ 64 - unat (b - a)" by simp
  moreover have "unat (b - a) < 2 ^ 64" using unsigned_less[of "b - a"] by simp
  ultimately have "unat (x - a) + unat (a - b) < 2 ^ 64" using d(1) assms(2) by linarith
  then have "unat (x - a) + unat (a - b) < 2 ^ LENGTH(64)" by simp
  then have "unat ((x - a) + (a - b)) = unat (x - a) + unat (a - b)" by (rule unat_add_lem[THEN iffD1])
  then have "unat (x - b) = unat (x - a) + unat (a - b)" by (simp only: diff_add_cancel add_diff_eq)
  then show ?thesis using d(2) by linarith
qed

lemma copy_user_result:
  assumes "n < 2 ^ 64" and "n \<le> unat (dst - src)"
  shows "copy_user dst src n s =
    Inr (s\<lparr>ram := (\<lambda>x. if unat (x - dst) < n then ram s (src + (x - dst)) else ram s x)\<rparr>)"
  using memcpy_loop_bytes[OF assms(1), of dst src "ram s"] assms(2)
  by (simp add: copy_user_def memcpy_def)

text \<open>Registers: at multiples of eight inside the frame.\<close>

lemma PT_bound: "PT r + 8 \<le> PT_SIZE_ON_STACK"
  by (cases r) (simp_all add: PT_SIZE_ON_STACK_def)

lemma PT_dvd: "8 dvd PT r"
  by (cases r) simp_all

lemma PT_inj: "PT r = PT q \<Longrightarrow> r = q"
  by (cases r; cases q; simp)

lemma reg_offset_unat:
  fixes regs :: u64
  assumes "i < 8"
  shows "unat (regs + of_nat (PT r) + of_nat i - regs) = PT r + i"
    and "unat (regs + of_nat (PT r) + of_nat i - regs) < PT_SIZE_ON_STACK"
proof -
  show e: "unat (regs + of_nat (PT r) + of_nat i - regs) = PT r + i"
    using offset_in_range[OF PT_bound[of r] _ assms, of regs] by (simp add: PT_SIZE_ON_STACK_def)
  show "unat (regs + of_nat (PT r) + of_nat i - regs) < PT_SIZE_ON_STACK"
    unfolding e using PT_bound[of r] assms by linarith
qed

lemma regs_apart:
  fixes regs :: u64
  assumes "r \<noteq> q"
  shows "apart8 (regs + of_nat (PT q)) (regs + of_nat (PT r))"
proof -
  have *: "8 \<le> unat (of_nat (PT a) - of_nat (PT b) :: u64)" if "a \<noteq> b" for a b
  proof -
    obtain x y where xy: "PT a = 8 * x" "PT b = 8 * y" using PT_dvd by (metis dvdE)
    have "x \<noteq> y" using that xy PT_inj by metis
    have lt: "PT a < 288" "PT b < 288" using PT_bound[of a] PT_bound[of b] by (simp_all add: PT_SIZE_ON_STACK_def)
    have u: "unat (of_nat (PT a) :: u64) = PT a" "unat (of_nat (PT b) :: u64) = PT b"
      using lt by (simp_all add: unat_small)
    show ?thesis
    proof (cases "PT b \<le> PT a")
      case True
      then show ?thesis using xy \<open>x \<noteq> y\<close> u by (simp add: unat_sub_if')
    next
      case False
      then show ?thesis using u lt by (simp add: unat_sub_if')
    qed
  qed
  show ?thesis using *[OF assms] *[OF assms[symmetric]] by (simp add: apart8_def)
qed

lemma get_set_reg [simp]: "get_reg r regs (set_reg q v regs m) = (if r = q then v else get_reg r regs m)"
  using load_store_apart[OF regs_apart[of r q regs]] by (simp add: get_reg_def set_reg_def)

text \<open>Registers under a write elsewhere, and copies of the whole frame.\<close>

lemma get_reg_frame:
  assumes d: "disjoint_ranges regs PT_SIZE_ON_STACK a n" and m: "\<And>x. n \<le> unat (x - a) \<Longrightarrow> m' x = m x"
  shows "get_reg r regs m' = get_reg r regs m"
  unfolding get_reg_def
  by (rule load64_cong) (use disjoint_rangesD[OF d reg_offset_unat(2)] m in blast)

lemma get_reg_copy:
  "get_reg r dst (\<lambda>x. if unat (x - dst) < PT_SIZE_ON_STACK then m (src + (x - dst)) else m x) =
   get_reg r src m"
  unfolding get_reg_def by (rule load_memcpy[OF PT_bound]) (simp add: PT_SIZE_ON_STACK_def)

lemma store32_outside: "n \<le> unat (x - a) \<Longrightarrow> 4 \<le> n \<Longrightarrow> store32 a v m x = m x"
  by (simp add: store32_def)

lemma set_reg_outside:
  assumes "PT_SIZE_ON_STACK \<le> unat (x - regs)"
  shows "set_reg r v regs m x = m x"
proof -
  have "\<not> unat (x - (regs + of_nat (PT r))) < 8"
  proof
    assume l: "unat (x - (regs + of_nat (PT r))) < 8"
    let ?i = "unat (x - (regs + of_nat (PT r)))"
    have "x = regs + of_nat (PT r) + of_nat ?i" by simp
    then have "unat (x - regs) < PT_SIZE_ON_STACK" using reg_offset_unat(2)[OF l, of regs r] by simp
    then show False using assms by simp
  qed
  then show ?thesis by (simp add: set_reg_def store64_def)
qed

section \<open>Signal sets\<close>

declare push_bit_of_1 [simp del]

text \<open>
  A signal set is an \<open>unsigned long\<close> built from \<open>int\<close> bits: its upper half repeats bit 31.
\<close>

definition signals :: "u64 \<Rightarrow> nat set" where
  "signals w = {k. k < NSIG \<and> bit w k}"

definition sigset_ok :: "u64 \<Rightarrow> bool" where
  "sigset_ok w \<longleftrightarrow> scast (ucast w :: u32) = w"

lemma sigset_okD:
  assumes "sigset_ok w" and "32 \<le> n" and "n < 64"
  shows "bit w n \<longleftrightarrow> bit w 31"
proof -
  have "bit w n \<longleftrightarrow> bit (scast (ucast w :: u32) :: u64) n" using assms(1) by (simp add: sigset_ok_def)
  also have "\<dots> \<longleftrightarrow> bit w 31" using assms by (simp add: bit_simps min_def)
  finally show ?thesis .
qed

lemma sigset_okI: "(\<And>n. 32 \<le> n \<Longrightarrow> n < 64 \<Longrightarrow> bit w n \<longleftrightarrow> bit w 31) \<Longrightarrow> sigset_ok w"
  unfolding sigset_ok_def
proof (rule bit_word_eqI)
  fix n assume h: "\<And>n. 32 \<le> n \<Longrightarrow> n < 64 \<Longrightarrow> bit w n \<longleftrightarrow> bit w 31" and n: "n < LENGTH(64)"
  have "bit (scast (ucast w :: u32) :: u64) n \<longleftrightarrow> bit w (min 31 n)" using n by (simp add: bit_simps min_def)
  also have "\<dots> \<longleftrightarrow> bit w n"
  proof (cases "n \<le> 31")
    case False
    then have "bit w n \<longleftrightarrow> bit w 31" using n by (intro h) simp_all
    moreover have "min 31 n = 31" using False by simp
    ultimately show ?thesis by (simp only:)
  qed (simp add: min_def)
  finally show "bit (scast (ucast w :: u32) :: u64) n \<longleftrightarrow> bit w n" .
qed

lemma sig_bit_small:
  assumes "k < 32"
  shows "sig_bit (of_nat k) = Inr (scast (push_bit k 1 :: u32))"
    and "sig_mask (of_nat k) = Inr (scast (NOT (push_bit k 1) :: u32))"
proof -
  have "unat (of_nat k :: u32) = k" using assms by (simp add: unat_of_nat take_bit_nat_eq_self)
  then show "sig_bit (of_nat k) = Inr (scast (push_bit k 1 :: u32))"
    and "sig_mask (of_nat k) = Inr (scast (NOT (push_bit k 1) :: u32))"
    using assms by (simp_all add: sig_bit_def sig_mask_def)
qed

lemma bit_sig_bit:
  "k < 32 \<Longrightarrow> bit (scast (push_bit k 1 :: u32) :: u64) n \<longleftrightarrow> n < 64 \<and> (n = k \<or> k = 31 \<and> 31 \<le> n)"
  by (auto simp: bit_simps min_def)

lemma bit_sig_mask:
  "k < 32 \<Longrightarrow> bit (scast (NOT (push_bit k 1) :: u32) :: u64) n \<longleftrightarrow> n < 64 \<and> n \<noteq> k \<and> (k = 31 \<longrightarrow> n < 31)"
  by (auto simp: bit_simps min_def)

lemma sig_member:
  assumes "k < 32" and w: "sigset_ok w"
  shows "w AND scast (push_bit k 1 :: u32) \<noteq> 0 \<longleftrightarrow> k \<in> signals w"
proof -
  have "w AND scast (push_bit k 1 :: u32) \<noteq> 0 \<longleftrightarrow> (\<exists>n. bit w n \<and> n < 64 \<and> (n = k \<or> k = 31 \<and> 31 \<le> n))"
    using bit_sig_bit[OF assms(1)] by (auto simp: bit_eq_iff bit_simps)
  also have "\<dots> \<longleftrightarrow> bit w k"
  proof
    assume "\<exists>n. bit w n \<and> n < 64 \<and> (n = k \<or> k = 31 \<and> 31 \<le> n)"
    then obtain n where n: "bit w n" "n < 64" "n = k \<or> k = 31 \<and> 31 \<le> n" by blast
    show "bit w k"
    proof (cases "n = k")
      case False
      then have "k = 31" "32 \<le> n" using n(3) by auto
      then show ?thesis using sigset_okD[OF w, of n] n by simp
    qed (use n in simp)
  qed (use assms in auto)
  finally show ?thesis using assms(1) by (simp add: signals_def NSIG_def)
qed

lemma signals_set:
  assumes "k < 32"
  shows "signals (w OR scast (push_bit k 1 :: u32)) = insert k (signals w)"
    and "sigset_ok w \<Longrightarrow> sigset_ok (w OR scast (push_bit k 1 :: u32))"
    and "signals (w AND scast (NOT (push_bit k 1) :: u32)) = signals w - {k}"
    and "sigset_ok w \<Longrightarrow> sigset_ok (w AND scast (NOT (push_bit k 1) :: u32))"
proof -
  note b = bit_sig_bit[OF assms] bit_sig_mask[OF assms]
  show "signals (w OR scast (push_bit k 1 :: u32)) = insert k (signals w)"
    using assms by (auto simp: signals_def NSIG_def bit_or_iff b)
  show "signals (w AND scast (NOT (push_bit k 1) :: u32)) = signals w - {k}"
    using assms by (auto simp: signals_def NSIG_def bit_and_iff b)
  show "sigset_ok w \<Longrightarrow> sigset_ok (w OR scast (push_bit k 1 :: u32))"
    by (rule sigset_okI) (use assms in \<open>auto simp: bit_or_iff b sigset_okD\<close>)
  show "sigset_ok w \<Longrightarrow> sigset_ok (w AND scast (NOT (push_bit k 1) :: u32))"
    by (rule sigset_okI) (use assms in \<open>auto simp: bit_and_iff b sigset_okD\<close>)
qed

lemma sigset_zero [simp]: "sigset_ok 0" "signals 0 = {}"
  by (simp_all add: sigset_ok_def signals_def)

section \<open>The handlers, branch by branch\<close>

text \<open>\<open>do_signal\<close> looks for the lowest pending signal.\<close>

lemma do_signal_none:
  assumes "signals (pending (tasks s (tp s))) \<inter> {sig..} = {}" and "sigset_ok (pending (tasks s (tp s)))"
  shows "do_signal_from f sig regs s = Inr (Stay, s)"
  using assms
proof (induction "NSIG - sig" arbitrary: sig)
  case 0
  then show ?case by (simp add: do_signal_from.simps)
next
  case (Suc n)
  have lt: "sig < 32" using Suc(2) by (simp add: NSIG_def)
  have "signals (pending (tasks s (tp s))) \<inter> {Suc sig..} = {}" using Suc(3) by auto
  then have "do_signal_from f (Suc sig) regs s = Inr (Stay, s)" using Suc by simp
  moreover have "sig \<notin> signals (pending (tasks s (tp s)))" using Suc(3) by auto
  ultimately show ?case
    using lt sig_bit_small(1)[OF lt] sig_member[OF lt Suc(4)]
    by (simp add: do_signal_from.simps[of f sig] get_current_def)
qed

lemma do_signal_lowest:
  assumes "k \<in> signals (pending (tasks s (tp s)))" and "signals (pending (tasks s (tp s))) \<inter> {sig..<k} = {}"
    and "sig \<le> k" and "sigset_ok (pending (tasks s (tp s)))"
  shows "do_signal_from f sig regs s = deliver f (of_nat k) regs s"
  using assms
proof (induction "k - sig" arbitrary: sig)
  case 0
  then have k: "sig = k" "k < 32" by (simp_all add: signals_def NSIG_def)
  then show ?case
    using sig_bit_small(1)[OF k(2)] sig_member[OF k(2) 0(5)] 0(2)
    by (simp add: do_signal_from.simps[of f k] get_current_def NSIG_def)
next
  case (Suc n)
  have "k < 32" using Suc(3) by (simp add: signals_def NSIG_def)
  then have lt: "sig < 32" using Suc(2) by linarith
  have "do_signal_from f (Suc sig) regs s = deliver f (of_nat k) regs s"
    using Suc by (intro Suc(1)) auto
  moreover have "sig \<notin> signals (pending (tasks s (tp s)))" using Suc(2) Suc(4) by auto
  ultimately show ?case
    using lt sig_bit_small(1)[OF lt] sig_member[OF lt Suc(6)]
    by (simp add: do_signal_from.simps[of f sig] get_current_def NSIG_def)
qed

section \<open>Signal frames\<close>

lemma disjoint_ranges_part:
  assumes d: "disjoint_ranges a n b m" and le: "i + k \<le> m" and "0 < k"
  shows "disjoint_ranges a n (b + of_nat i) k"
proof -
  have m: "m \<le> unat (a - b)" using d by (simp add: disjoint_ranges_def)
  moreover have "unat (a - b) < 2 ^ 64" using unsigned_less[of "a - b"] by simp
  ultimately have i: "i < 2 ^ 64" using le by linarith
  have "unat (b + of_nat i - b) < m" using le \<open>0 < k\<close> unat_small[OF i] by simp
  then have "n \<le> unat (b + of_nat i - a)" using disjoint_rangesD[OF disjoint_ranges_sym[OF d]] by blast
  moreover have "unat ((a - b) - of_nat i) = unat (a - b) - i"
    using m le unat_small[OF i] by (simp add: unat_sub_if')
  then have "k \<le> unat (a - (b + of_nat i))" using m le by (simp add: diff_diff_eq)
  ultimately show ?thesis by (simp add: disjoint_ranges_def)
qed

text \<open>What a delivery leaves in memory: \<open>sig\<close> and the registers of \<open>m\<close> in the frame, the new registers.\<close>

definition frame_holds :: "u64 \<Rightarrow> u64 \<Rightarrow> nat \<Rightarrow> mem \<Rightarrow> mem \<Rightarrow> bool" where
  "frame_holds frame regs sig m m' \<longleftrightarrow>
     load32 m' frame = of_nat sig \<and>
     (\<forall>r. get_reg r (frame + SIGFRAME_UCONTEXT) m' = get_reg r regs m)"

lemma deliver_handler:
  fixes regs :: u64
  assumes k: "k < 32" and hd: "sighand (tasks s (tp s)) k \<noteq> SIG_DFL"
    and fr: "frame = get_reg SP regs (ram s) - SIZEOF_SIGFRAME"
    and d: "disjoint_ranges regs PT_SIZE_ON_STACK frame 296"
  defines "s1 \<equiv> upd_task (tp s) (\<lambda>t. t\<lparr>pending := pending t AND scast (NOT (push_bit k 1) :: u32)\<rparr>) s"
  shows "\<exists>m. deliver f (of_nat k) regs s = Inr (Stay, s1\<lparr>ram := m\<rparr>) \<and> frame_holds frame regs k (ram s) m \<and>
    (\<forall>r. get_reg r regs m = (if r = EPC then sighand (tasks s (tp s)) k else if r = RA then f
       else if r = SP then frame AND NOT 0xf else get_reg r regs (ram s)))"
proof -
  let ?m1 = "store32 frame (of_nat k) (ram s)" and ?u = "frame + SIGFRAME_UCONTEXT"
  define m2 where "m2 = (\<lambda>x. if unat (x - ?u) < PT_SIZE_ON_STACK then ?m1 (regs + (x - ?u)) else ?m1 x)"
  let ?m = "set_reg SP (frame AND NOT 0xf) regs (set_reg RA f regs (set_reg EPC (sighand (tasks s (tp s)) k) regs m2))"
  have u: "?u = frame + of_nat 8" by (simp add: SIGFRAME_UCONTEXT_def)
  have d4: "disjoint_ranges regs PT_SIZE_ON_STACK frame 4"
    using d by (simp add: disjoint_ranges_def)
  have du: "disjoint_ranges regs PT_SIZE_ON_STACK ?u PT_SIZE_ON_STACK"
    unfolding u by (rule disjoint_ranges_part[OF d]) (simp_all add: PT_SIZE_ON_STACK_def)
  have ur: "PT_SIZE_ON_STACK \<le> unat (?u - regs)" using du by (simp add: disjoint_ranges_def)
  have kk: "unat (of_nat k :: u32) = k" using k by (simp add: unat_of_nat take_bit_nat_eq_self)
  have rs: "ram (upd_ram (store32 frame (of_nat k)) s1) = ?m1" by (simp add: upd_ram_def s1_def)
  have cp: "copy_user ?u regs PT_SIZE_ON_STACK (upd_ram (store32 frame (of_nat k)) s1) =
      Inr ((upd_ram (store32 frame (of_nat k)) s1)\<lparr>ram := m2\<rparr>)"
    using copy_user_result[OF _ ur, of "upd_ram (store32 frame (of_nat k)) s1"] rs
    by (simp only: m2_def) (simp add: PT_SIZE_ON_STACK_def)
  have run: "deliver f (of_nat k) regs s = Inr (Stay, s1\<lparr>ram := ?m\<rparr>)"
    using cp hd fr by (simp add: deliver_def sig_bit_small(2)[OF k] kk get_current_def Let_def s1_def upd_ram_def)
  have r1: "get_reg r regs ?m1 = get_reg r regs (ram s)" for r
    by (rule get_reg_frame[OF d4]) (simp add: store32_outside)
  have r2: "get_reg r regs m2 = get_reg r regs ?m1" for r
    by (rule get_reg_frame[OF du]) (simp add: m2_def)
  have out: "?m x = m2 x" if "PT_SIZE_ON_STACK \<le> unat (x - regs)" for x
    using that by (simp add: set_reg_outside)
  have "get_reg r ?u ?m = get_reg r ?u m2" for r
    by (rule get_reg_frame[OF disjoint_ranges_sym[OF du]]) (rule out)
  moreover have "get_reg r ?u m2 = get_reg r regs ?m1" for r unfolding m2_def by (rule get_reg_copy)
  moreover have "load32 ?m frame = load32 ?m1 frame"
  proof (rule load32_cong)
    fix i :: nat assume i: "i < 4"
    have "unat (frame + of_nat i - frame) < 4" using i unat_small[of i] by simp
    then have "PT_SIZE_ON_STACK \<le> unat (frame + of_nat i - regs)"
      by (rule disjoint_rangesD[OF disjoint_ranges_sym[OF d4]])
    then have "?m (frame + of_nat i) = m2 (frame + of_nat i)" by (rule out)
    moreover have "\<not> unat (of_nat i - 8 :: u64) < PT_SIZE_ON_STACK"
      using i unat_small[of i] by (simp add: unat_sub_if' PT_SIZE_ON_STACK_def)
    ultimately show "?m (frame + of_nat i) = ?m1 (frame + of_nat i)"
      by (simp add: m2_def SIGFRAME_UCONTEXT_def)
  qed
  ultimately have "frame_holds frame regs k (ram s) ?m" by (simp add: frame_holds_def r1)
  then show ?thesis using run r1 r2 by (intro exI[of _ ?m]) simp
qed

text \<open>\<open>sys_sigreturn\<close> loads the registers that lie behind the stack pointer.\<close>

lemma sys_sigreturn_loads:
  assumes d: "disjoint_ranges regs PT_SIZE_ON_STACK frame 296" and sp: "get_reg SP regs (ram s) = frame"
  shows "\<exists>m. (\<forall>r. get_reg r regs m = get_reg r (frame + SIGFRAME_UCONTEXT) (ram s)) \<and>
    sys_sigreturn regs s = bindF (sig_mask (load32 (ram s) frame)) (\<lambda>mask.
      Inr (get_reg A0 (frame + SIGFRAME_UCONTEXT) (ram s),
        upd_task (tp s) (\<lambda>t. t\<lparr>blocked := blocked t AND mask\<rparr>) (s\<lparr>ram := m\<rparr>)))"
proof -
  let ?u = "frame + SIGFRAME_UCONTEXT"
  define m where "m = (\<lambda>x. if unat (x - regs) < PT_SIZE_ON_STACK then ram s (?u + (x - regs)) else ram s x)"
  have u: "?u = frame + of_nat 8" by (simp add: SIGFRAME_UCONTEXT_def)
  have "disjoint_ranges regs PT_SIZE_ON_STACK ?u PT_SIZE_ON_STACK"
    unfolding u by (rule disjoint_ranges_part[OF d]) (simp_all add: PT_SIZE_ON_STACK_def)
  then have "PT_SIZE_ON_STACK \<le> unat (regs - ?u)" by (simp add: disjoint_ranges_def)
  then have cp: "copy_user regs ?u PT_SIZE_ON_STACK s = Inr (s\<lparr>ram := m\<rparr>)"
    by (subst copy_user_result) (simp_all add: PT_SIZE_ON_STACK_def m_def)
  have regs: "get_reg r regs m = get_reg r ?u (ram s)" for r unfolding m_def by (rule get_reg_copy)
  have d4: "disjoint_ranges regs PT_SIZE_ON_STACK frame 4" using d by (simp add: disjoint_ranges_def)
  have "load32 m frame = load32 (ram s) frame"
  proof (rule load32_cong)
    fix i :: nat assume "i < 4"
    then have "unat (frame + of_nat i - frame) < 4" using unat_small[of i] by simp
    then have "PT_SIZE_ON_STACK \<le> unat (frame + of_nat i - regs)"
      by (rule disjoint_rangesD[OF disjoint_ranges_sym[OF d4]])
    then show "m (frame + of_nat i) = ram s (frame + of_nat i)" by (simp add: m_def)
  qed
  then show ?thesis
    using regs cp sp by (intro exI[of _ m]) (simp add: sys_sigreturn_def Let_def get_current_def)
qed

lemma frame_holds_cong:
  assumes "\<And>x. unat (x - frame) < 296 \<Longrightarrow> m2 x = m1 x" and "frame_holds frame regs sig m m1"
  shows "frame_holds frame regs sig m m2"
proof -
  have "load32 m2 frame = load32 m1 frame"
    by (rule load32_cong, rule assms(1)) (use unat_small in simp)
  moreover have "get_reg r (frame + SIGFRAME_UCONTEXT) m2 = get_reg r (frame + SIGFRAME_UCONTEXT) m1" for r
    unfolding get_reg_def
  proof (rule load64_cong, rule assms(1))
    fix i :: nat assume "i < 8"
    then have "8 + PT r + i < 296" using PT_bound[of r] by (simp add: PT_SIZE_ON_STACK_def)
    moreover from this have "unat (of_nat (8 + PT r + i) :: u64) = 8 + PT r + i" by (intro unat_small) simp
    moreover have "frame + SIGFRAME_UCONTEXT + of_nat (PT r) + of_nat i - frame = of_nat (8 + PT r + i)"
      by (simp add: SIGFRAME_UCONTEXT_def)
    ultimately show "unat (frame + SIGFRAME_UCONTEXT + of_nat (PT r) + of_nat i - frame) < 296"
      by (simp only:)
  qed
  ultimately show ?thesis using assms(2) by (simp add: frame_holds_def)
qed

lemma do_signal_handler:
  fixes regs :: u64
  assumes ok: "sigset_ok (pending (tasks s (tp s)))"
    and k: "k \<in> signals (pending (tasks s (tp s)))" "\<forall>i \<in> signals (pending (tasks s (tp s))). k \<le> i"
    and hd: "sighand (tasks s (tp s)) k \<noteq> SIG_DFL"
    and fr: "frame = get_reg SP regs (ram s) - SIZEOF_SIGFRAME"
    and d: "disjoint_ranges regs PT_SIZE_ON_STACK frame 296"
  shows "\<exists>m. do_signal f regs s = Inr (Stay, (upd_task (tp s) (\<lambda>t. t\<lparr>pending := pending t AND
       scast (NOT (push_bit k 1) :: u32)\<rparr>) s)\<lparr>ram := m\<rparr>) \<and>
    frame_holds frame regs k (ram s) m \<and>
    (\<forall>r. get_reg r regs m = (if r = EPC then sighand (tasks s (tp s)) k else if r = RA then f
       else if r = SP then frame AND NOT 0xf else get_reg r regs (ram s)))"
proof -
  have "k < 32" using k(1) by (simp add: signals_def NSIG_def)
  moreover have "do_signal f regs s = deliver f (of_nat k) regs s"
    unfolding do_signal_def by (rule do_signal_lowest[OF k(1) _ _ ok]) (use k(2) in force)+
  ultimately show ?thesis using deliver_handler[OF _ hd fr d, of f] by simp
qed

lemma frame_align:
  fixes sp :: u64
  shows "sp AND 0xf = 8 \<Longrightarrow> (sp - 296) AND NOT 0xf = sp - 296"
    and "sp AND 0xf = 0 \<Longrightarrow> (sp - 296) AND NOT 0xf = sp - 296 - 8"
proof -
  have m: "x AND 0xf = take_bit 4 x" for x :: u64 by (simp add: take_bit_eq_mask mask_eq_exp_minus_1)
  have n: "x AND NOT 0xf = x - take_bit 4 x" for x :: u64
  proof -
    have "NOT x AND take_bit 4 x = 0" by (rule bit_word_eqI) (auto simp: bit_simps)
    then have "x - take_bit 4 x = x AND NOT (take_bit 4 x)" by (rule disjunctive_diff_eq_and_not)
    also have "\<dots> = x AND NOT 0xf" unfolding m[symmetric] by (rule bit_word_eqI) (auto simp: bit_simps)
    finally show ?thesis ..
  qed
  have d: "take_bit 4 (x - 304) = 0" "take_bit 4 (x - 296 - 8) = 0" "take_bit 4 (x + 8 - 296) = 0" if "take_bit 4 x = 0" for x :: u64
  proof -
    have "2 ^ 4 dvd x" using that by (simp add: take_bit_eq_0_iff)
    moreover have "(2 ^ 4 :: u64) dvd 304" using dvd_triv_left[of "2 ^ 4 :: u64" 19] by simp
    ultimately have "2 ^ 4 dvd x - 304" by (rule dvd_diff)
    then show "take_bit 4 (x - 304) = 0" "take_bit 4 (x - 296 - 8) = 0"
      by (simp_all add: take_bit_eq_0_iff)
    have "(2 ^ 4 :: u64) dvd 288" using dvd_triv_left[of "2 ^ 4 :: u64" 18] by simp
    with \<open>2 ^ 4 dvd x\<close> have "2 ^ 4 dvd x - 288" by (rule dvd_diff)
    moreover have "x + 8 - 296 = x - 288" by simp
    ultimately show "take_bit 4 (x + 8 - 296) = 0" by (simp only: take_bit_eq_0_iff)
  qed
  have e: "take_bit 4 (x + 8) = 8" if "take_bit 4 x = 0" for x :: u64
  proof -
    have "x AND take_bit 4 y = take_bit 4 x AND take_bit 4 y" for y :: u64
      by (rule bit_word_eqI) (auto simp: bit_simps)
    from this[of 8] have "x AND 8 = 0" using that by simp
    then have "x + 8 = x OR 8" by (rule disjunctive_add_eq_or)
    then show ?thesis using that by (simp add: take_bit_or)
  qed
  show "sp AND 0xf = 8 \<Longrightarrow> (sp - 296) AND NOT 0xf = sp - 296"
  proof -
    assume "sp AND 0xf = 8"
    then have e: "sp - 8 = sp AND NOT 0xf" by (simp only: m n)
    have "(x AND NOT y) AND y = 0" for x y :: u64 by (rule bit_word_eqI) (auto simp: bit_simps)
    then have "take_bit 4 (sp - 8) = 0" by (simp only: m[symmetric] e)
    from d(3)[OF this] have "take_bit 4 (sp - 296) = 0" by simp
    then show "(sp - 296) AND NOT 0xf = sp - 296" by (simp only: n) simp
  qed
  show "(sp - 296) AND NOT 0xf = sp - 296 - 8" if "sp AND 0xf = 0"
  proof -
    have z: "take_bit 4 sp = 0" using that by (simp only: m)
    have "take_bit 4 (sp - 296) = 8" using e[OF d(2)[OF z]] by simp
    then show ?thesis by (simp only: n)
  qed
qed

section \<open>What the operations do\<close>

text \<open>C22: the offsets of \<open>asm.h\<close> are those of the fields of \<open>struct pt_regs\<close> in the order of
  \<open>traps.h\<close>, the 36 registers fill the frame that \<open>entry.S\<close> makes, and a write to one of them is read
  back and changes no other.\<close>

theorem regs_layout:
  "map PT pt_regs = map (\<lambda>i. 8 * i) [0..<36] \<and> set pt_regs = UNIV \<and>
   PT_SIZE_ON_STACK = 8 * length pt_regs \<and>
   get_reg r regs (set_reg q v regs m) = (if r = q then v else get_reg r regs m)"
proof -
  have "x \<in> set pt_regs" for x by (cases x) (simp_all add: pt_regs_def)
  then show ?thesis by (auto simp: pt_regs_def PT_SIZE_ON_STACK_def upt_rec)
qed

text \<open>\<open>sys_kill\<close> marks a signal as pending and blocked for the task with the given pid, at most once
  until it is unblocked: a blocked signal changes nothing. With no such task it returns -1. Other tasks,
  other signals and the run queue are left alone, and signals out of 0..31 are shifts without a result.\<close>

theorem sys_kill_correct:
  assumes inv: "sched_inv s q L" and t: "t \<in> set q" "pid (tasks s t) = scast (ucast p :: u32)"
    and ok: "sigset_ok (blocked (tasks s t))" "sigset_ok (pending (tasks s t))" and sig: "sig < NSIG"
  shows "\<exists>s'. sys_kill p (of_nat sig) s = Inr (0, s') \<and> sched_inv s' q L \<and>
    signals (blocked (tasks s' t)) = insert sig (signals (blocked (tasks s t))) \<and>
    signals (pending (tasks s' t)) = signals (pending (tasks s t)) \<union>
      (if sig \<in> signals (blocked (tasks s t)) then {} else {sig}) \<and>
    sigset_ok (blocked (tasks s' t)) \<and> sigset_ok (pending (tasks s' t)) \<and>
    (\<forall>u. u \<noteq> t \<longrightarrow> tasks s' u = tasks s u) \<and>
    sys_kill p (of_nat sig) s' = Inr (0, s')"
proof -
  have k: "sig < 32" using sig by (simp add: NSIG_def)
  let ?b = "scast (push_bit sig 1 :: u32) :: u64"
  have found: "find_task_by_pid (ucast p) s' = Inr t"
    if "sched_inv s' q L" "pid (tasks s' t) = scast (ucast p :: u32)" for s' :: "'a sched_scheme"
    using find_task_member[OF that(1) t(1) that(2)] .
  have nz: "t \<noteq> 0" using inv t(1) chunk_not_null unfolding sched_inv_def by blast
  note mem = sig_member[OF k ok(1)]
  show ?thesis
  proof (cases "sig \<in> signals (blocked (tasks s t))")
    case True
    then have "sys_kill p (of_nat sig) s = Inr (0, s)"
      using found[OF inv t(2)] nz sig_bit_small(1)[OF k] mem by (simp add: sys_kill_def)
    then show ?thesis using True inv ok by (intro exI[of _ s]) auto
  next
    case False
    let ?s1 = "upd_task t (\<lambda>t. t\<lparr>blocked := blocked t OR ?b\<rparr>) s"
    let ?s2 = "upd_task t (\<lambda>t. t\<lparr>pending := pending t OR ?b\<rparr>) ?s1"
    have run: "sys_kill p (of_nat sig) s = Inr (0, ?s2)"
      using False found[OF inv t(2)] nz sig_bit_small(1)[OF k] mem by (simp add: sys_kill_def Let_def)
    have b: "blocked (tasks ?s2 t) = blocked (tasks s t) OR ?b" "pending (tasks ?s2 t) = pending (tasks s t) OR ?b"
      "pid (tasks ?s2 t) = scast (ucast p :: u32)" "\<And>u. u \<noteq> t \<Longrightarrow> tasks ?s2 u = tasks s u"
      using t(2) by simp_all
    have inv': "sched_inv ?s2 q L" by (rule sched_inv_upd_task, rule sched_inv_upd_task, rule inv) simp_all
    note ok' = signals_set(2)[OF k ok(1)] signals_set(2)[OF k ok(2)]
    have "sig \<in> signals (blocked (tasks ?s2 t))" by (simp add: signals_set(1)[OF k])
    then have again: "sys_kill p (of_nat sig) ?s2 = Inr (0, ?s2)"
      using found[OF inv' b(3)] nz sig_bit_small(1)[OF k] sig_member[OF k ok'(1)] by (simp add: sys_kill_def)
    show ?thesis
      using run again inv' b(4) ok' False
      by (intro exI[of _ ?s2]) (simp only: b(1,2) signals_set(1)[OF k], auto)
  qed
qed

theorem sys_kill_correct_witness:
  "\<exists>t s s'. kthread_create 0x1234 empty_sched = Inr (t, s) \<and> sys_kill 0 9 s = Inr (0, s') \<and>
     signals (pending (tasks s' t)) = {9} \<and> sys_kill 0 9 s' = Inr (0, s')"
proof -
  obtain t s where c: "kthread_create 0x1234 empty_sched = Inr (t, s)" by (rule empty_sched_create)
  have n: "nr_threads empty_sched = 0" by (simp add: empty_sched_def)
  obtain L where i: "sched_inv s ([] @ [t]) L"
    using kthread_create_inv(1)[OF empty_sched_inv _ c] n by auto
  have t: "t \<in> set ([] @ [t])" by simp
  have p: "pid (tasks s t) = scast (ucast (0 :: u64) :: u32)" using c n by (elim kthread_create_Inr) simp
  have z: "blocked (tasks s t) = 0" "pending (tasks s t) = 0" using c by (elim kthread_create_Inr; simp)+
  have ok: "sigset_ok (blocked (tasks s t))" "sigset_ok (pending (tasks s t))" by (simp_all add: z)
  obtain s' where "sys_kill 0 (of_nat 9) s = Inr (0, s')" "sys_kill 0 (of_nat 9) s' = Inr (0, s')"
    "signals (pending (tasks s' t)) = signals (pending (tasks s t)) \<union>
      (if 9 \<in> signals (blocked (tasks s t)) then {} else {9})"
    using sys_kill_correct[OF i t p ok, of 9] by (auto simp: NSIG_def)
  then show ?thesis using c z by auto
qed

text \<open>C19: \<open>do_signal\<close> delivers the lowest pending signal and no other: it stops being pending, the frame
  below the stack pointer holds its number and the saved registers, and the task goes on in its handler,
  with \<open>sigreturn\<close> as the return address and the stack pointer rounded down to sixteen. Every other
  register is as it was.\<close>

theorem do_signal_correct:
  fixes regs :: u64
  assumes ok: "sigset_ok (pending (tasks s (tp s)))"
    and k: "k \<in> signals (pending (tasks s (tp s)))" "\<forall>i \<in> signals (pending (tasks s (tp s))). k \<le> i"
    and hd: "sighand (tasks s (tp s)) k \<noteq> SIG_DFL"
    and fr: "frame = get_reg SP regs (ram s) - SIZEOF_SIGFRAME"
    and d: "disjoint_ranges regs PT_SIZE_ON_STACK frame 296"
  shows "\<exists>s'. do_signal f regs s = Inr (Stay, s') \<and>
    signals (pending (tasks s' (tp s))) = signals (pending (tasks s (tp s))) - {k} \<and>
    frame_holds frame regs k (ram s) (ram s') \<and>
    (\<forall>r. get_reg r regs (ram s') = (if r = EPC then sighand (tasks s (tp s)) k else if r = RA then f
       else if r = SP then frame AND NOT 0xf else get_reg r regs (ram s)))"
proof -
  have "k < 32" using k(1) by (simp add: signals_def NSIG_def)
  moreover obtain m where "do_signal f regs s = Inr (Stay, (upd_task (tp s) (\<lambda>t. t\<lparr>pending := pending t AND
       scast (NOT (push_bit k 1) :: u32)\<rparr>) s)\<lparr>ram := m\<rparr>)" "frame_holds frame regs k (ram s) m"
    "\<And>r. get_reg r regs m = (if r = EPC then sighand (tasks s (tp s)) k else if r = RA then f
       else if r = SP then frame AND NOT 0xf else get_reg r regs (ram s))"
    using do_signal_handler[OF ok k hd fr d, of f] by blast
  ultimately show ?thesis using signals_set(3) by simp
qed

text \<open>Task 2 handles signals at \<open>0x5000\<close>; signals 10 and 12 are pending. Its registers are at \<open>0x1000\<close>.\<close>

definition signal_sched :: "u64 \<Rightarrow> sched" where
  "signal_sched sp = example_sched
     \<lparr>tasks := example_task(2 := (example_task 2)
        \<lparr>sighand := (\<lambda>_. 0x5000), blocked := 0x1400, pending := 0x1400\<rparr>),
      ram := set_reg SP sp 0x1000 (\<lambda>_. 0)\<rparr>"

lemma signals_example: "signals 0x1400 = {10, 12}" "sigset_ok 0x1400"
proof -
  have "k \<in> signals 0x1400 \<longleftrightarrow> k \<in> {10, 12}" for k
  proof (cases "k < 32")
    case True
    then have "k \<in> set [0..<32]" by simp
    then show ?thesis by (simp add: upt_rec) (elim disjE; simp add: signals_def NSIG_def bit_numeral_rec)
  qed (auto simp: signals_def NSIG_def)
  then show "signals 0x1400 = {10, 12}" by blast
  show "sigset_ok 0x1400" by (simp add: sigset_ok_def)
qed

lemma signal_sched_fields:
  "tp (signal_sched sp) = 2" "pending (tasks (signal_sched sp) 2) = 0x1400"
  "blocked (tasks (signal_sched sp) 2) = 0x1400"
  "sighand (tasks (signal_sched sp) 2) k = 0x5000" "get_reg SP 0x1000 (ram (signal_sched sp)) = sp"
  by (simp_all add: signal_sched_def example_sched_def)

theorem do_signal_correct_witness:
  "\<exists>s'. do_signal 0x7000 0x1000 (signal_sched 0x8008) = Inr (Stay, s') \<and>
     signals (pending (tasks s' 2)) = {12} \<and> get_reg EPC 0x1000 (ram s') = 0x5000 \<and>
     get_reg RA 0x1000 (ram s') = 0x7000 \<and> load32 (ram s') (0x8008 - 296) = 10"
proof -
  have "disjoint_ranges 0x1000 PT_SIZE_ON_STACK (0x8008 - 296) 296"
    by (simp add: disjoint_ranges_def PT_SIZE_ON_STACK_def)
  then obtain s' where "do_signal 0x7000 0x1000 (signal_sched 0x8008) = Inr (Stay, s')"
    "signals (pending (tasks s' 2)) = {10, 12} - {10}"
    "frame_holds (0x8008 - 296) 0x1000 10 (ram (signal_sched 0x8008)) (ram s')"
    "\<forall>r. get_reg r 0x1000 (ram s') = (if r = EPC then 0x5000 else if r = RA then 0x7000
       else if r = SP then (0x8008 - 296) AND NOT 0xf else get_reg r 0x1000 (ram (signal_sched 0x8008)))"
    using do_signal_correct[where s = "signal_sched 0x8008" and k = 10 and frame = "0x8008 - 296" and regs = "0x1000" and f = "0x7000"]
    unfolding signal_sched_fields signals_example SIZEOF_SIGFRAME_def SIG_DFL_def
    by (auto simp: signals_example)
  then show ?thesis by (intro exI[of _ s']) (auto simp: frame_holds_def)
qed

text \<open>C20: a signal handler returns to where the task was. When the stack pointer lies eight above a
  multiple of sixteen, \<open>sys_sigreturn\<close>, called with the stack pointer the handler was entered with and
  the frame untouched, restores every saved register and unblocks the signal.\<close>

theorem sigreturn_restores:
  fixes regs :: u64
  assumes ok: "sigset_ok (pending (tasks s (tp s)))"
    and k: "k \<in> signals (pending (tasks s (tp s)))" "\<forall>i \<in> signals (pending (tasks s (tp s))). k \<le> i"
    and hd: "sighand (tasks s (tp s)) k \<noteq> SIG_DFL"
    and fr: "frame = get_reg SP regs (ram s) - SIZEOF_SIGFRAME"
    and d: "disjoint_ranges regs PT_SIZE_ON_STACK frame 296"
    and align: "get_reg SP regs (ram s) AND 0xf = 8"
    and run: "do_signal f regs s = Inr (Stay, s')"
    and sp: "get_reg SP regs (ram t) = get_reg SP regs (ram s')"
    and kept: "\<forall>x. unat (x - frame) < 296 \<longrightarrow> ram t x = ram s' x"
  shows "\<exists>t'. sys_sigreturn regs t = Inr (get_reg A0 regs (ram s), t') \<and>
    (\<forall>r. get_reg r regs (ram t') = get_reg r regs (ram s)) \<and>
    signals (blocked (tasks t' (tp t))) = signals (blocked (tasks t (tp t))) - {k}"
proof -
  have k32: "k < 32" using k(1) by (simp add: signals_def NSIG_def)
  obtain m where m: "do_signal f regs s = Inr (Stay, (upd_task (tp s) (\<lambda>t. t\<lparr>pending := pending t AND
       scast (NOT (push_bit k 1) :: u32)\<rparr>) s)\<lparr>ram := m\<rparr>)" "frame_holds frame regs k (ram s) m"
    "\<And>r. get_reg r regs m = (if r = EPC then sighand (tasks s (tp s)) k else if r = RA then f
       else if r = SP then frame AND NOT 0xf else get_reg r regs (ram s))"
    using do_signal_handler[OF ok k hd fr d, of f] by blast
  have m': "ram s' = m" using run m(1) by auto
  have "frame AND NOT 0xf = frame" using frame_align(1)[OF align] fr by (simp add: SIZEOF_SIGFRAME_def)
  then have "get_reg SP regs (ram t) = frame" using sp m(3)[of SP] by (simp add: m')
  from sys_sigreturn_loads[OF d this] obtain m2 where m2:
    "\<forall>r. get_reg r regs m2 = get_reg r (frame + SIGFRAME_UCONTEXT) (ram t)"
    "sys_sigreturn regs t = bindF (sig_mask (load32 (ram t) frame)) (\<lambda>mask.
      Inr (get_reg A0 (frame + SIGFRAME_UCONTEXT) (ram t),
        upd_task (tp t) (\<lambda>t. t\<lparr>blocked := blocked t AND mask\<rparr>) (t\<lparr>ram := m2\<rparr>)))"
    by (elim exE conjE) (rule that)
  have "frame_holds frame regs k (ram s) (ram t)"
    by (rule frame_holds_cong[OF _ m(2)]) (use kept m' in blast)
  then have f: "load32 (ram t) frame = of_nat k"
    "\<And>r. get_reg r (frame + SIGFRAME_UCONTEXT) (ram t) = get_reg r regs (ram s)"
    by (simp_all add: frame_holds_def)
  show ?thesis
    using m2 by (simp add: f sig_bit_small(2)[OF k32] signals_set(3)[OF k32])
qed

theorem sigreturn_restores_witness:
  "\<exists>s' t'. do_signal 0x7000 0x1000 (signal_sched 0x8008) = Inr (Stay, s') \<and>
     sys_sigreturn 0x1000 s' = Inr (0, t') \<and> get_reg SP 0x1000 (ram t') = 0x8008 \<and>
     get_reg EPC 0x1000 (ram t') = 0"
proof -
  let ?s = "signal_sched 0x8008"
  have d: "disjoint_ranges 0x1000 PT_SIZE_ON_STACK (0x8008 - SIZEOF_SIGFRAME) 296"
    by (simp add: disjoint_ranges_def PT_SIZE_ON_STACK_def SIZEOF_SIGFRAME_def)
  have z: "get_reg A0 0x1000 (ram ?s) = 0" "get_reg EPC 0x1000 (ram ?s) = 0"
  proof -
    have "get_reg r 0x1000 (\<lambda>_. 0) = 0" for r
      unfolding get_reg_def by (rule bit_word_eqI) (simp add: bit_load64)
    then show "get_reg A0 0x1000 (ram ?s) = 0" "get_reg EPC 0x1000 (ram ?s) = 0"
      by (simp_all add: signal_sched_def)
  qed
  have ok: "sigset_ok (pending (tasks ?s (tp ?s)))" "10 \<in> signals (pending (tasks ?s (tp ?s)))"
    "\<forall>i \<in> signals (pending (tasks ?s (tp ?s))). 10 \<le> i" "sighand (tasks ?s (tp ?s)) 10 \<noteq> SIG_DFL"
    by (simp_all add: signal_sched_fields signals_example SIG_DFL_def)
  have fr: "0x8008 - SIZEOF_SIGFRAME = get_reg SP 0x1000 (ram ?s) - SIZEOF_SIGFRAME" "get_reg SP 0x1000 (ram ?s) AND 0xf = 8"
    by (simp_all add: signal_sched_fields)
  obtain s' where run: "do_signal 0x7000 0x1000 ?s = Inr (Stay, s')"
    using do_signal_handler[OF ok fr(1) d, of "0x7000"] by blast
  from sigreturn_restores[OF ok fr(1) d fr(2) run refl] show ?thesis
    using run z by (auto simp: signal_sched_fields)
qed

lemma PT_nth: "i < 36 \<Longrightarrow> PT (pt_regs ! i) = 8 * i"
proof -
  have "map PT pt_regs = map (\<lambda>i. 8 * i) [0..<36]" by (simp add: pt_regs_def upt_rec)
  moreover have "length pt_regs = 36" by (simp add: pt_regs_def)
  ultimately show "i < 36 \<Longrightarrow> ?thesis" using nth_map[of i pt_regs PT] nth_map[of i "[0..<36]" "\<lambda>i. 8 * i"]
    by simp
qed

text \<open>When the stack pointer was a multiple of sixteen, as the calling convention keeps it, rounding
  moves it eight below the frame, and \<open>sys_sigreturn\<close> reads the registers one place off: the task would
  go on at the address whose low half is the number of the signal, with its old program counter in
  \<open>ra\<close> and every register in the next one's place.\<close>

theorem sigreturn_misaligned:
  fixes regs :: u64
  assumes ok: "sigset_ok (pending (tasks s (tp s)))"
    and k: "k \<in> signals (pending (tasks s (tp s)))" "\<forall>i \<in> signals (pending (tasks s (tp s))). k \<le> i"
    and hd: "sighand (tasks s (tp s)) k \<noteq> SIG_DFL"
    and fr: "frame = get_reg SP regs (ram s) - SIZEOF_SIGFRAME"
    and d: "disjoint_ranges regs PT_SIZE_ON_STACK (frame - 8) 304"
    and align: "get_reg SP regs (ram s) AND 0xf = 0"
    and run: "do_signal f regs s = Inr (Stay, s')"
    and sp: "get_reg SP regs (ram t) = get_reg SP regs (ram s')"
    and kept: "\<forall>x. unat (x - frame) < 296 \<longrightarrow> ram t x = ram s' x"
    and ret: "sys_sigreturn regs t = Inr (a, t')"
  shows "ucast (get_reg EPC regs (ram t')) = (of_nat k :: u32) \<and>
    (\<forall>i < 35. get_reg (pt_regs ! Suc i) regs (ram t') = get_reg (pt_regs ! i) regs (ram s))"
proof -
  have "disjoint_ranges regs PT_SIZE_ON_STACK (frame - 8 + of_nat 8) 296"
    by (rule disjoint_ranges_part[OF d]) simp_all
  then have d': "disjoint_ranges regs PT_SIZE_ON_STACK frame 296" by simp
  have d8: "disjoint_ranges regs PT_SIZE_ON_STACK (frame - 8) 296" using d by (simp add: disjoint_ranges_def)
  obtain m where m: "do_signal f regs s = Inr (Stay, (upd_task (tp s) (\<lambda>t. t\<lparr>pending := pending t AND
       scast (NOT (push_bit k 1) :: u32)\<rparr>) s)\<lparr>ram := m\<rparr>)" "frame_holds frame regs k (ram s) m"
    "\<And>r. get_reg r regs m = (if r = EPC then sighand (tasks s (tp s)) k else if r = RA then f
       else if r = SP then frame AND NOT 0xf else get_reg r regs (ram s))"
    using do_signal_handler[OF ok k hd fr d', of f] by blast
  have m': "ram s' = m" using run m(1) by auto
  have "frame AND NOT 0xf = frame - 8" using frame_align(2)[OF align] fr by (simp add: SIZEOF_SIGFRAME_def)
  then have "get_reg SP regs (ram t) = frame - 8" using sp m(3)[of SP] by (simp add: m')
  from sys_sigreturn_loads[OF d8 this] obtain m2 where m2:
    "\<forall>r. get_reg r regs m2 = get_reg r (frame - 8 + SIGFRAME_UCONTEXT) (ram t)"
    "sys_sigreturn regs t = bindF (sig_mask (load32 (ram t) (frame - 8))) (\<lambda>mask.
      Inr (get_reg A0 (frame - 8 + SIGFRAME_UCONTEXT) (ram t),
        upd_task (tp t) (\<lambda>t. t\<lparr>blocked := blocked t AND mask\<rparr>) (t\<lparr>ram := m2\<rparr>)))"
    by (elim exE conjE) (rule that)
  have "ram t' = m2" using ret m2(2) by (cases "sig_mask (load32 (ram t) (frame - 8))") auto
  then have g: "get_reg r regs (ram t') = get_reg r frame (ram t)" for r
    using m2(1) by (simp add: SIGFRAME_UCONTEXT_def)
  have "frame_holds frame regs k (ram s) (ram t)"
    by (rule frame_holds_cong[OF _ m(2)]) (use kept m' in blast)
  then have f: "load32 (ram t) frame = of_nat k"
    "\<And>r. get_reg r (frame + SIGFRAME_UCONTEXT) (ram t) = get_reg r regs (ram s)"
    by (simp_all add: frame_holds_def)
  have "ucast (get_reg EPC regs (ram t')) = (of_nat k :: u32)"
    unfolding g by (simp add: get_reg_def ucast_load64 f)
  moreover have "get_reg (pt_regs ! Suc i) regs (ram t') = get_reg (pt_regs ! i) regs (ram s)" if "i < 35" for i
    unfolding g f(2)[symmetric] using PT_nth[of i] PT_nth[of "Suc i"] that
    by (simp add: get_reg_def SIGFRAME_UCONTEXT_def algebra_simps)
  ultimately show ?thesis by blast
qed

theorem sigreturn_misaligned_witness:
  "\<exists>s' t t'. do_signal 0x7000 0x1000 (signal_sched 0x8000) = Inr (Stay, s') \<and>
     sys_sigreturn 0x1000 t = Inr (get_reg A0 0x1000 (ram t'), t') \<and>
     t = s'\<lparr>ram := store32 (0x8000 - SIZEOF_SIGFRAME - 8) 5 (ram s')\<rparr> \<and>
     ucast (get_reg EPC 0x1000 (ram t')) = (10 :: u32) \<and> get_reg GP 0x1000 (ram t') = 0x8000"
proof -
  let ?s = "signal_sched 0x8000" and ?f = "0x8000 - SIZEOF_SIGFRAME"
  have d: "disjoint_ranges 0x1000 PT_SIZE_ON_STACK (?f - 8) 304"
    "disjoint_ranges 0x1000 PT_SIZE_ON_STACK ?f 296" "disjoint_ranges 0x1000 PT_SIZE_ON_STACK (?f - 8) 296"
    "disjoint_ranges 0x1000 PT_SIZE_ON_STACK (?f - 8) 4" "disjoint_ranges ?f 296 (?f - 8) 4"
    by (simp_all add: disjoint_ranges_def PT_SIZE_ON_STACK_def SIZEOF_SIGFRAME_def)
  have ok: "sigset_ok (pending (tasks ?s (tp ?s)))" "10 \<in> signals (pending (tasks ?s (tp ?s)))"
    "\<forall>i \<in> signals (pending (tasks ?s (tp ?s))). 10 \<le> i" "sighand (tasks ?s (tp ?s)) 10 \<noteq> SIG_DFL"
    by (simp_all add: signal_sched_fields signals_example SIG_DFL_def)
  have fr: "?f = get_reg SP 0x1000 (ram ?s) - SIZEOF_SIGFRAME" "get_reg SP 0x1000 (ram ?s) AND 0xf = 0"
    by (simp_all add: signal_sched_fields)
  obtain s' where run: "do_signal 0x7000 0x1000 ?s = Inr (Stay, s')"
    and regs: "get_reg SP 0x1000 (ram s') = ?f AND NOT 0xf"
    using do_signal_handler[OF ok fr(1) d(2), of "0x7000"] by auto
  let ?m = "store32 (?f - 8) 5 (ram s')"
  let ?t = "s'\<lparr>ram := ?m\<rparr>"
  have sp: "get_reg SP 0x1000 (ram ?t) = get_reg SP 0x1000 (ram s')"
    using get_reg_frame[OF d(4), of ?m "ram s'"] by (simp add: store32_outside)
  have kept: "\<forall>x. unat (x - ?f) < 296 \<longrightarrow> ram ?t x = ram s' x"
  proof (intro allI impI)
    fix x assume "unat (x - ?f) < 296"
    then have "4 \<le> unat (x - (?f - 8))" by (rule disjoint_rangesD[OF d(5)])
    then show "ram ?t x = ram s' x" using store32_outside[of 4] by simp
  qed
  have "?f AND NOT 0xf = ?f - 8" by (simp add: SIZEOF_SIGFRAME_def)
  then have "get_reg SP 0x1000 (ram ?t) = ?f - 8" by (simp only: sp regs)
  from sys_sigreturn_loads[OF d(3) this] obtain m2 where m2:
    "\<forall>r. get_reg r 0x1000 m2 = get_reg r (?f - 8 + SIGFRAME_UCONTEXT) (ram ?t)"
    "sys_sigreturn 0x1000 ?t = bindF (sig_mask (load32 (ram ?t) (?f - 8))) (\<lambda>mask.
      Inr (get_reg A0 (?f - 8 + SIGFRAME_UCONTEXT) (ram ?t),
        upd_task (tp ?t) (\<lambda>t. t\<lparr>blocked := blocked t AND mask\<rparr>) (?t\<lparr>ram := m2\<rparr>)))"
    by (elim exE conjE) (rule that)
  have "load32 (ram ?t) (?f - 8) = of_nat 5" by simp
  then have "\<exists>t'. sys_sigreturn 0x1000 ?t = Inr (get_reg A0 0x1000 m2, t') \<and> ram t' = m2"
    using m2 sig_bit_small(2)[of 5] by simp
  then obtain t' where ret: "sys_sigreturn 0x1000 ?t = Inr (get_reg A0 0x1000 (ram t'), t')" by metis
  note w = sigreturn_misaligned[OF ok fr(1) d(1) fr(2) run sp kept ret]
  have "get_reg (pt_regs ! Suc 2) 0x1000 (ram t') = get_reg (pt_regs ! 2) 0x1000 (ram ?s)"
    using w[THEN conjunct2, THEN spec, of 2] by simp
  moreover have "ucast (get_reg EPC 0x1000 (ram t')) = (10 :: u32)" using w[THEN conjunct1] by simp
  moreover have "pt_regs ! Suc 2 = GP" "pt_regs ! 2 = SP" by (simp_all add: pt_regs_def)
  ultimately show ?thesis using run ret by (auto simp: signal_sched_fields)
qed

text \<open>C21: a pending signal whose handler is the default one ends the task: \<open>do_signal\<close> makes it a zombie and
  gives the processor to the next task of the run queue, and the next \<open>kill_zombies\<close> takes it, and no
  running task, out of the queue.\<close>

theorem default_signal_kills:
  assumes q: "runqueue s q" and j: "j < length q" and cur: "tp s = q ! j" and two: "1 < length q"
    and alive: "\<forall>t \<in> set q. tstate (tasks s t) \<noteq> TASK_ZOMBIE"
    and ok: "sigset_ok (pending (tasks s (tp s)))"
    and k: "k \<in> signals (pending (tasks s (tp s)))" "\<forall>i \<in> signals (pending (tasks s (tp s))). k \<le> i"
    and dfl: "sighand (tasks s (tp s)) k = SIG_DFL"
  shows "\<exists>s1 s2. do_signal f regs s = Inr (Switch, s1) \<and> tp s1 = q ! (Suc j mod length q) \<and>
    kill_zombies s1 = Inr s2 \<and> runqueue s2 (filter (\<lambda>t. t \<noteq> tp s) q)"
proof -
  have k32: "k < 32" using k(1) by (simp add: signals_def NSIG_def)
  have kk: "unat (of_nat k :: u32) = k" using k32 by (simp add: unat_of_nat take_bit_nat_eq_self)
  let ?s0 = "upd_task (tp s) (\<lambda>t. t\<lparr>pending := pending t AND scast (NOT (push_bit k 1) :: u32)\<rparr>) s"
  let ?sz = "upd_task (tp s) (\<lambda>t. t\<lparr>tstate := TASK_ZOMBIE\<rparr>) ?s0"
  let ?n = "q ! (Suc j mod length q)"
  let ?s1 = "switch_to (q ! j) ?n (switch_mm (pgd (tasks ?sz ?n)) 8 ?sz)"
  have qz: "runqueue ?sz q" "tp ?sz = q ! j" using q cur by (simp_all add: runqueue_def)
  have "kthread_exit ?s0 = (Switch, ?s1)"
    using schedule_queue[OF qz(1) j qz(2)] two by (simp add: kthread_exit_def get_current_def)
  moreover have "do_signal f regs s = deliver f (of_nat k) regs s"
    unfolding do_signal_def by (rule do_signal_lowest[OF k(1) _ _ ok]) (use k(2) in force)+
  ultimately have run: "do_signal f regs s = Inr (Switch, ?s1)"
    using dfl by (simp add: deliver_def sig_bit_small(2)[OF k32] kk get_current_def Let_def)
  have q1: "runqueue ?s1 q" using q by (simp add: runqueue_def switch_to_fields)
  have z: "tstate (tasks ?s1 t) = (if t = tp s then TASK_ZOMBIE else tstate (tasks s t))" for t
    by (simp add: switch_to_fields cur)
  have "tstate (tasks ?s1 t) \<noteq> TASK_ZOMBIE \<longleftrightarrow> t \<noteq> tp s" if "t \<in> set q" for t
    unfolding z using alive that by simp
  then have "filter (\<lambda>t. tstate (tasks ?s1 t) \<noteq> TASK_ZOMBIE) q = filter (\<lambda>t. t \<noteq> tp s) q"
    by (rule filter_cong[OF refl])
  then obtain h where "kill_zombies ?s1 = Inr (?s1\<lparr>run_links := h\<rparr>)"
    "runqueue (?s1\<lparr>run_links := h\<rparr>) (filter (\<lambda>t. t \<noteq> tp s) q)"
    using kill_zombies_queue[OF q1] by auto
  then show ?thesis using run by (intro exI[of _ ?s1] exI[of _ "?s1\<lparr>run_links := h\<rparr>"]) (simp add: switch_to_fields)
qed

theorem default_signal_kills_witness:
  "\<exists>s1 s2. do_signal 0x7000 0x1000 (example_sched\<lparr>tasks := (\<lambda>t. (example_task 1)\<lparr>pending := 0x1400\<rparr>)\<rparr>) =
       Inr (Switch, s1) \<and> tp s1 = 3 \<and> kill_zombies s1 = Inr s2 \<and> runqueue s2 [1, 3]"
proof -
  let ?s = "example_sched\<lparr>tasks := (\<lambda>t. (example_task 1)\<lparr>pending := 0x1400\<rparr>)\<rparr>"
  have q: "runqueue ?s [1, 2, 3]" using example_queue by (simp add: runqueue_def)
  have t: "tp ?s = [1, 2, 3] ! 1" and tp: "tp example_sched = 2" by (simp_all add: example_sched_def)
  show ?thesis
    using default_signal_kills[OF q _ t, of 10 "0x7000" "0x1000"]
    by (simp add: signals_example example_task_def SIG_DFL_def tp)
qed

end
