(* ===== verification/Irq.thy ===== *)
theory Irq
  imports Timer Signal
begin

text \<open>
  Interrupts, \<open>src/irq.c\<close>: the handler \<open>do_irq\<close> and its queue of tasks, ordered by priority, that run with
  interrupts enabled.

  \<open>do_irq\<close> calls \<open>schedule\<close> for a timer interrupt. When that switches away, what \<open>do_irq\<close> has left to do,
  \<open>do_irq_rest\<close> (\<open>do_irq_timer\<close> and then \<open>do_irq_tasks\<close>), is pending until the task is scheduled again. An interrupt
  that comes while a task runs is another call of \<open>do_irq\<close>, in a state whose queue has a running task.
\<close>

section \<open>State\<close>

text \<open>The only handler that is ever queued is that of the timer.\<close>

datatype irq_handler = TIMER_IRQ_HANDLER

record irq_task =
  iq_handler :: irq_handler
  iq_priority :: u32
  iq_running :: u32

datatype irq_node = IrqTasks | IrqList (irq_of: u64)

record irqs = timers +
  irq_mem :: "u64 \<Rightarrow> irq_task"
  irq_links :: "irq_node links"

definition SIZEOF_IRQ_TASK :: nat where "SIZEOF_IRQ_TASK = 32"

definition IRQ_CAUSE :: "u64 \<Rightarrow> u64" where "IRQ_CAUSE x = x AND NOT (push_bit 63 1)"
definition IRQ_S_TIMER :: u64 where "IRQ_S_TIMER = 5"
definition IRQ_S_EXT :: u64 where "IRQ_S_EXT = 9"

section \<open>The operations\<close>

definition irq_init :: "'z irqs_scheme \<Rightarrow> 'z irqs_scheme" where
  "irq_init s = s\<lparr>irq_links := INIT_LIST_HEAD IrqTasks (irq_links s)\<rparr>"

definition enable_interrupt :: "'z sched_scheme \<Rightarrow> 'z sched_scheme" where
  "enable_interrupt s = s\<lparr>sie := True\<rparr>"

definition disable_interrupt :: "'z sched_scheme \<Rightarrow> 'z sched_scheme" where
  "disable_interrupt s = s\<lparr>sie := False\<rparr>"

definition irq_add_task :: "irq_handler \<Rightarrow> u32 \<Rightarrow> 'z irqs_scheme \<Rightarrow> fault + 'z irqs_scheme" where
  "irq_add_task callback prio s =
     bindF (kmalloc (of_nat SIZEOF_IRQ_TASK) (heap s)) (\<lambda>(task, h).
       let s1 = s\<lparr>heap := h\<rparr>;
           s2 = s1\<lparr>irq_mem := (irq_mem s1)(task := \<lparr>iq_handler = callback, iq_priority = prio, iq_running = 0\<rparr>)\<rparr>;
           s3 = s2\<lparr>irq_links := INIT_LIST_HEAD (IrqList task) (irq_links s2)\<rparr>
       in bindF (of_loop (list_search (\<lambda>pos. sint (iq_priority (irq_mem s3 task)) < sint (iq_priority (irq_mem s3 (irq_of pos))))
            IrqTasks (irq_links s3))) (\<lambda>r.
            case r of
              Some pos \<Rightarrow> Inr (s3\<lparr>irq_links := list_add_tail (IrqList task) pos (irq_links s3)\<rparr>)
            | None \<Rightarrow> Inr (s3\<lparr>irq_links := list_add_tail (IrqList task) IrqTasks (irq_links s3)\<rparr>)))"

fun run_handler :: "irq_handler \<Rightarrow> 'z irqs_scheme \<Rightarrow> 'z irqs_scheme option" where
  "run_handler TIMER_IRQ_HANDLER s = timer_irq_handler s"

text \<open>The loop at the end of \<open>do_irq\<close>.\<close>

partial_function (option) irq_loop :: "'z irqs_scheme \<Rightarrow> 'z irqs_scheme option" where
  "irq_loop s =
     (if list_empty IrqTasks (irq_links s) then Some s
      else
        let head = irq_of (list_first_entry IrqTasks (irq_links s))
        in if iq_running (irq_mem s head) \<noteq> 0 then Some s
           else
             let s1 = disable_interrupt s;
                 s2 = s1\<lparr>irq_mem := (irq_mem s1)(head := (irq_mem s1 head)\<lparr>iq_running := 1\<rparr>)\<rparr>;
                 s3 = enable_interrupt s2
             in Option.bind (run_handler (iq_handler (irq_mem s3 head)) s3) (\<lambda>s4.
                  let s5 = disable_interrupt s4;
                      s6 = s5\<lparr>irq_links := list_del_init (IrqList head) (irq_links s5)\<rparr>;
                      s7 = s6\<lparr>heap := kfree head (heap s6)\<rparr>
                  in irq_loop (enable_interrupt s7)))"

definition do_irq_tasks :: "'z irqs_scheme \<Rightarrow> fault + ctl \<times> 'z irqs_scheme" where
  "do_irq_tasks s = bindF (of_loop (irq_loop (enable_interrupt s))) (\<lambda>s1. Inr (Stay, s1))"

definition do_irq_timer :: "'z irqs_scheme \<Rightarrow> fault + 'z irqs_scheme" where
  "do_irq_timer s = irq_add_task TIMER_IRQ_HANDLER 1 (disable_timer_interrupt s)"

text \<open>What \<open>do_irq\<close> does for a timer interrupt once \<open>schedule\<close> has returned to it.\<close>

definition do_irq_rest :: "'z irqs_scheme \<Rightarrow> fault + ctl \<times> 'z irqs_scheme" where
  "do_irq_rest s = bindF (do_irq_timer s) do_irq_tasks"

definition do_irq :: "u64 \<Rightarrow> 'z irqs_scheme \<Rightarrow> fault + ctl \<times> 'z irqs_scheme" where
  "do_irq regs s =
     (let s1 = disable_interrupt s;
          cause = IRQ_CAUSE (get_reg CAUSE regs (ram s1))
      in if cause = IRQ_S_TIMER then
           case schedule s1 of
             (Switch, s2) \<Rightarrow> Inr (Switch, s2)
           | (Stay, s2) \<Rightarrow> do_irq_rest s2
         else if cause = IRQ_S_EXT then
           bindF (printk ''do_irq: external interrupt\<newline>'' [] s1) do_irq_tasks
         else
           bindF (printk ''do_irq: unknown interrupt cause (%d)\<newline>''
             [IRQ_CAUSE (get_reg CAUSE regs (ram s1))] s1) do_irq_tasks)"

section \<open>The queue of tasks\<close>

definition irq_queue :: "'z irqs_scheme \<Rightarrow> u64 list \<Rightarrow> chunk set \<Rightarrow> bool" where
  "irq_queue s q L \<longleftrightarrow>
     dlist (irq_links s) IrqTasks (map IrqList q) \<and> mm_inv (heap s) L \<and> (\<forall>t \<in> set q. \<exists>n. (t, n) \<in> L)"

definition urgency :: "'z irqs_scheme \<Rightarrow> u64 \<Rightarrow> int" where
  "urgency s t = sint (iq_priority (irq_mem s t))"

definition added_task :: "irq_handler \<Rightarrow> u32 \<Rightarrow> u64 \<Rightarrow> 'z irqs_scheme \<Rightarrow> u64 \<Rightarrow> irq_task" where
  "added_task callback prio t s = (irq_mem s)(t := \<lparr>iq_handler = callback, iq_priority = prio, iq_running = 0\<rparr>)"

lemma irq_queue_distinct: "irq_queue s q L \<Longrightarrow> distinct q"
  unfolding irq_queue_def dlist_def by (simp add: distinct_map)

lemma irq_add_task_eq:
  assumes d: "dlist (irq_links s) IrqTasks (map IrqList q)" and tq': "t \<notin> set q"
    and k: "kmalloc (of_nat SIZEOF_IRQ_TASK) (heap s) = Inr (t, h)"
  shows "\<exists>l. irq_add_task callback prio s = Inr (s\<lparr>heap := h, irq_mem := added_task callback prio t s, irq_links := l\<rparr>) \<and>
    dlist l IrqTasks (map IrqList (before_greater (urgency s) (sint prio) t q))"
proof -
  let ?mem = "added_task callback prio t s"
  let ?P = "\<lambda>pos. sint (iq_priority (?mem t)) < sint (iq_priority (?mem (irq_of pos)))"
  let ?h = "INIT_LIST_HEAD (IrqList t) (irq_links s)"
  have nq: "IrqList t \<notin> set (IrqTasks # map IrqList q)" using tq' by auto
  have d': "dlist ?h IrqTasks (map IrqList q)" by (rule INIT_LIST_HEAD_other[OF d nq])
  let ?pos = "case find ?P (map IrqList q) of Some pos \<Rightarrow> pos | None \<Rightarrow> IrqTasks"
  let ?s3 = "s\<lparr>heap := h, irq_mem := ?mem, irq_links := ?h\<rparr>"
  have run: "irq_add_task callback prio s = bindF (of_loop (list_search (\<lambda>pos. sint (iq_priority (irq_mem ?s3 t)) <
        sint (iq_priority (irq_mem ?s3 (irq_of pos)))) IrqTasks (irq_links ?s3))) (\<lambda>r.
          case r of
            Some pos \<Rightarrow> Inr (?s3\<lparr>irq_links := list_add_tail (IrqList t) pos (irq_links ?s3)\<rparr>)
          | None \<Rightarrow> Inr (?s3\<lparr>irq_links := list_add_tail (IrqList t) IrqTasks (irq_links ?s3)\<rparr>))"
    by (simp add: irq_add_task_def k added_task_def Let_def del: fun_upd_apply cong: option.case_cong)
  have f: "irq_links ?s3 = ?h" "irq_mem ?s3 = ?mem" by simp_all
  have "irq_add_task callback prio s = Inr (s\<lparr>heap := h, irq_mem := ?mem, irq_links := list_add_tail (IrqList t) ?pos ?h\<rparr>)"
    unfolding run f list_search_dlist[OF d'] of_loop_simps bindF_simps
    by (cases "find ?P (map IrqList q)") (simp_all del: fun_upd_apply)
  moreover have "takeWhile (\<lambda>x. \<not> ?P x) (map IrqList q) @ IrqList t # dropWhile (\<lambda>x. \<not> ?P x) (map IrqList q) =
      map IrqList (before_greater (urgency s) (sint prio) t q)"
  proof -
    have "iq_priority (?mem b) = iq_priority (irq_mem s b)" if "b \<in> set q" for b
      using that tq' by (auto simp: added_task_def)
    moreover have "iq_priority (?mem t) = prio" by (simp add: added_task_def)
    ultimately show ?thesis
      unfolding takeWhile_map_inj before_greater_def urgency_def
      by (simp add: not_less cong: takeWhile_cong dropWhile_cong)
  qed
  ultimately show ?thesis using insert_before_dlist[OF d' nq, of ?P] by auto
qed

lemma irq_add_task_queue:
  assumes iq: "irq_queue s q L" and k: "kmalloc (of_nat SIZEOF_IRQ_TASK) (heap s) = Inr (t, h)"
  shows "\<exists>l n. irq_add_task callback prio s = Inr (s\<lparr>heap := h, irq_mem := added_task callback prio t s, irq_links := l\<rparr>) \<and>
    t \<notin> set q \<and> (t, n) \<notin> L \<and> mm_inv h (insert (t, n) L) \<and>
    irq_queue (s\<lparr>heap := h, irq_mem := added_task callback prio t s, irq_links := l\<rparr>)
      (before_greater (urgency s) (sint prio) t q) (insert (t, n) L)"
proof -
  have d: "dlist (irq_links s) IrqTasks (map IrqList q)" and m: "mm_inv (heap s) L"
    and c: "\<forall>t \<in> set q. \<exists>n. (t, n) \<in> L" using iq by (simp_all add: irq_queue_def)
  obtain n where n: "(t, n) \<notin> L" "mm_inv h (insert (t, n) L)"
    using kmalloc_chunk[OF m _ k] by (auto simp: SIZEOF_IRQ_TASK_def)
  have tq': "t \<notin> set q"
  proof
    assume "t \<in> set q"
    then obtain n' where "(t, n') \<in> L" using c by blast
    then have "n' = n" using ha.same_address[OF n(2), of t n' n] by simp
    then show False using n(1) \<open>(t, n') \<in> L\<close> by simp
  qed
  obtain l where l: "irq_add_task callback prio s = Inr (s\<lparr>heap := h, irq_mem := added_task callback prio t s, irq_links := l\<rparr>)"
    "dlist l IrqTasks (map IrqList (before_greater (urgency s) (sint prio) t q))"
    using irq_add_task_eq[OF d tq' k] by blast
  have "irq_queue (s\<lparr>heap := h, irq_mem := added_task callback prio t s, irq_links := l\<rparr>)
      (before_greater (urgency s) (sint prio) t q) (insert (t, n) L)"
    using n(2) l(2) c by (auto simp: irq_queue_def set_before_greater)
  then show ?thesis using tq' n l(1) by blast
qed

interpretation iq: keyed_queue "\<lambda>s q. \<exists>L. irq_queue s q L" urgency "\<lambda>(callback, prio). irq_add_task callback prio"
proof unfold_locales
  fix s s' :: "'a irqs_scheme" and q x
  assume "\<exists>L. irq_queue s q L" and a: "(case x of (callback, prio) \<Rightarrow> irq_add_task callback prio) s = Inr s'"
  then obtain L callback prio where L: "irq_queue s q L" and x: "x = (callback, prio)" by (cases x) auto
  have a': "irq_add_task callback prio s = Inr s'" using a x by simp
  obtain t h where k: "kmalloc (of_nat SIZEOF_IRQ_TASK) (heap s) = Inr (t, h)"
    using a' by (auto simp: irq_add_task_def bindF_eq_Inr_iff)
  obtain l n where t: "s' = s\<lparr>heap := h, irq_mem := added_task callback prio t s, irq_links := l\<rparr>" "t \<notin> set q"
    "irq_queue s' (before_greater (urgency s) (sint prio) t q) (insert (t, n) L)"
    using irq_add_task_queue[OF L k, of callback prio] a' by auto
  have "urgency s' t = sint prio" "\<forall>b \<in> set q. urgency s' b = urgency s b"
    using t(1,2) by (auto simp: urgency_def added_task_def)
  then show "\<exists>a. a \<notin> set q \<and> (\<forall>b \<in> set q. urgency s' b = urgency s b) \<and>
      (\<exists>L. irq_queue s' (before_greater (urgency s) (urgency s' a) a q) L)"
    using t(2,3) by (intro exI[of _ t] conjI exI[of _ "insert (t, n) L"]) simp_all
qed

section \<open>What the handler does\<close>

lemma schedule_alone: "runqueue s [tp s] \<Longrightarrow> schedule s = (Stay, s)"
  using schedule_queue[of s "[tp s]" 0] by simp

text \<open>The loop ends at an empty queue or at a task that is running.\<close>

lemma irq_loop_stop:
  assumes "irq_queue s q L" and "\<forall>h r. q = h # r \<longrightarrow> iq_running (irq_mem s h) \<noteq> 0"
  shows "irq_loop s = Some s"
proof (cases q)
  case Nil
  then have "list_empty IrqTasks (irq_links s)"
    using assms(1) list_empty_dlist[of "irq_links s" IrqTasks "[]"] by (simp add: irq_queue_def)
  then show ?thesis by (subst irq_loop.simps) simp
next
  case (Cons h r)
  then have d: "dlist (irq_links s) IrqTasks (IrqList h # map IrqList r)"
    using assms(1) by (simp add: irq_queue_def)
  have "\<not> list_empty IrqTasks (irq_links s)" "list_first_entry IrqTasks (irq_links s) = IrqList h"
    using list_empty_dlist[OF d] list_first_dlist[OF d] by simp_all
  moreover have "iq_running (irq_mem s h) \<noteq> 0" using assms(2) Cons by blast
  ultimately show ?thesis by (subst irq_loop.simps) (simp add: Let_def)
qed

text \<open>
  What a task that the loop starts sees: its flag is set and interrupts are enabled.
\<close>

definition running :: "u64 \<Rightarrow> 'z irqs_scheme \<Rightarrow> 'z irqs_scheme" where
  "running t s = s\<lparr>irq_mem := (irq_mem s)(t := (irq_mem s t)\<lparr>iq_running := 1\<rparr>), sie := True\<rparr>"

lemma irq_loop_head:
  assumes q: "irq_queue s (t # r) L" and run: "iq_running (irq_mem s t) = 0"
  shows "irq_loop s = Option.bind (timer_irq_handler (running t s)) (\<lambda>s4.
    irq_loop (s4\<lparr>irq_links := list_del_init (IrqList t) (irq_links s4), heap := kfree t (heap s4), sie := True\<rparr>))"
proof -
  have d: "dlist (irq_links s) IrqTasks (IrqList t # map IrqList r)" using q by (simp add: irq_queue_def)
  have e: "\<not> list_empty IrqTasks (irq_links s)" "list_first_entry IrqTasks (irq_links s) = IrqList t"
    using list_empty_dlist[OF d] list_first_dlist[OF d] by simp_all
  have r: "enable_interrupt ((disable_interrupt s)\<lparr>irq_mem := (irq_mem (disable_interrupt s))(t :=
      (irq_mem (disable_interrupt s) t)\<lparr>iq_running := 1\<rparr>)\<rparr>) = running t s"
    by (rule irqs.equality) (simp_all add: enable_interrupt_def disable_interrupt_def running_def)
  have c: "enable_interrupt ((disable_interrupt s4)\<lparr>irq_links := list_del_init (IrqList t) (irq_links (disable_interrupt s4))\<rparr>
      \<lparr>heap := kfree t (heap ((disable_interrupt s4)\<lparr>irq_links := list_del_init (IrqList t) (irq_links (disable_interrupt s4))\<rparr>))\<rparr>) =
    s4\<lparr>irq_links := list_del_init (IrqList t) (irq_links s4), heap := kfree t (heap s4), sie := True\<rparr>" for s4 :: "'a irqs_scheme"
    by (rule irqs.equality) (simp_all add: enable_interrupt_def disable_interrupt_def)
  have h: "run_handler hd x = timer_irq_handler x" for hd and x :: "'a irqs_scheme" by (cases hd) simp
  have "irq_loop s = Option.bind (timer_irq_handler (running t s)) (\<lambda>s4. irq_loop (enable_interrupt ((disable_interrupt s4)\<lparr>irq_links := list_del_init (IrqList t) (irq_links (disable_interrupt s4))\<rparr>
      \<lparr>heap := kfree t (heap ((disable_interrupt s4)\<lparr>irq_links := list_del_init (IrqList t) (irq_links (disable_interrupt s4))\<rparr>))\<rparr>)))"
    by (subst irq_loop.simps) (simp only: e run h r Let_def if_False if_True irq_node.sel not_True_eq_False simp_thms)
  then show ?thesis unfolding c .
qed

text \<open>The state in which \<open>do_irq\<close> starts its tasks after a timer interrupt.\<close>

definition irq_added :: "u64 \<Rightarrow> mm \<Rightarrow> irq_node links \<Rightarrow> 'z irqs_scheme \<Rightarrow> 'z irqs_scheme" where
  "irq_added t h l s = s\<lparr>heap := h, irq_mem := added_task TIMER_IRQ_HANDLER 1 t s, irq_links := l, stie := False, sie := True\<rparr>"

lemma irq_add_task_sie:
  "irq_add_task callback prio (s\<lparr>sie := b, stie := c\<rparr>) =
    bindF (irq_add_task callback prio s) (\<lambda>s'. Inr (s'\<lparr>sie := b, stie := c\<rparr>))"
  by (auto simp: irq_add_task_def bindF_def Let_def split: sum.splits option.splits)

text \<open>It does not matter whether interrupts are enabled when \<open>do_irq\<close> goes on.\<close>

lemma do_irq_rest_sie: "do_irq_rest (s\<lparr>sie := b\<rparr>) = do_irq_rest s"
proof -
  have "do_irq_tasks (x\<lparr>sie := b, stie := c\<rparr>) = do_irq_tasks (x\<lparr>sie := sie s, stie := c\<rparr>)" for c and x :: "'a irqs_scheme"
    by (simp add: do_irq_tasks_def enable_interrupt_def)
  then show ?thesis
    using irq_add_task_sie[of TIMER_IRQ_HANDLER 1 False b s] irq_add_task_sie[of TIMER_IRQ_HANDLER 1 False "sie s" s]
    by (cases "irq_add_task TIMER_IRQ_HANDLER 1 s")
      (simp_all add: do_irq_rest_def do_irq_timer_def disable_timer_interrupt_def)
qed

text \<open>With another task in the run queue \<open>do_irq\<close> switches away and leaves the rest to the time after.\<close>

lemma do_irq_timer_cases:
  assumes q: "runqueue s rq" "i < length rq" "tp s = rq ! i"
    and cause: "IRQ_CAUSE (get_reg CAUSE regs (ram s)) = IRQ_S_TIMER"
  defines "succ \<equiv> rq ! (Suc i mod length rq)"
  shows "do_irq regs s = (if length rq = 1 then do_irq_rest s
    else Inr (Switch, switch_to (tp s) succ (switch_mm (pgd (tasks s succ)) 8 (disable_interrupt s))))"
proof -
  have q': "runqueue (disable_interrupt s) rq" "tp (disable_interrupt s) = rq ! i"
    using q by (simp_all add: disable_interrupt_def runqueue_def)
  show ?thesis
    using schedule_queue[OF q'(1) q(2) q'(2)] cause do_irq_rest_sie[of False s] q(3)
    by (simp add: do_irq_def disable_interrupt_def Let_def succ_def)
qed

lemma do_irq_rest_adds:
  assumes iq: "irq_queue s q L" and k: "kmalloc (of_nat SIZEOF_IRQ_TASK) (heap s) = Inr (t, h)"
  shows "\<exists>l n. do_irq_rest s = bindF (of_loop (irq_loop (irq_added t h l s))) (\<lambda>s1. Inr (Stay, s1)) \<and>
    t \<notin> set q \<and> (t, n) \<notin> L \<and> mm_inv h (insert (t, n) L) \<and>
    irq_queue (irq_added t h l s) (before_greater (urgency s) 1 t q) (insert (t, n) L)"
proof -
  let ?s1 = "disable_timer_interrupt s"
  have f: "?s1 = s\<lparr>stie := False\<rparr>" by (simp add: disable_timer_interrupt_def)
  have iq1: "irq_queue ?s1 q L" and k1: "kmalloc (of_nat SIZEOF_IRQ_TASK) (heap ?s1) = Inr (t, h)"
    using iq k by (simp_all add: f irq_queue_def)
  obtain l n where l: "irq_add_task TIMER_IRQ_HANDLER 1 ?s1 =
      Inr (?s1\<lparr>heap := h, irq_mem := added_task TIMER_IRQ_HANDLER 1 t ?s1, irq_links := l\<rparr>)"
    "t \<notin> set q" "(t, n) \<notin> L" "mm_inv h (insert (t, n) L)"
    "irq_queue (?s1\<lparr>heap := h, irq_mem := added_task TIMER_IRQ_HANDLER 1 t ?s1, irq_links := l\<rparr>)
      (before_greater (urgency ?s1) (sint (1 :: u32)) t q) (insert (t, n) L)"
    using irq_add_task_queue[OF iq1 k1, of TIMER_IRQ_HANDLER 1] by blast
  have e: "enable_interrupt (?s1\<lparr>heap := h, irq_mem := added_task TIMER_IRQ_HANDLER 1 t ?s1, irq_links := l\<rparr>) =
      irq_added t h l s"
    by (rule irqs.equality) (simp_all add: f enable_interrupt_def irq_added_def added_task_def)
  have lv: "urgency ?s1 = urgency s" by (simp add: f fun_eq_iff urgency_def)
  have "do_irq_rest s = bindF (of_loop (irq_loop (irq_added t h l s))) (\<lambda>s1. Inr (Stay, s1))"
    using l(1) e by (simp add: do_irq_rest_def do_irq_timer_def do_irq_tasks_def)
  moreover have "irq_queue (irq_added t h l s) (before_greater (urgency s) 1 t q) (insert (t, n) L)"
    using l(5) unfolding lv by (simp add: irq_queue_def irq_added_def)
  ultimately show ?thesis using l(2-4) by blast
qed

text \<open>The two queues together, and what their tasks rely on. The second state has run interrupt tasks.\<close>

definition idle_queues :: "'z irqs_scheme \<Rightarrow> u64 list \<Rightarrow> u64 list \<Rightarrow> chunk set \<Rightarrow> bool" where
  "idle_queues s r q L \<longleftrightarrow> irq_queue s r L \<and> (\<forall>u \<in> set r. iq_running (irq_mem s u) = 0) \<and>
     timer_queue s q L \<and> set r \<inter> set q = {} \<and> sorted (map (expiry s) q) \<and> tx_ready s \<and> clock_ok s"

definition tasks_run :: "'z irqs_scheme \<Rightarrow> 'z irqs_scheme \<Rightarrow> bool" where
  "tasks_run s s' \<longleftrightarrow> sie s' \<and> stie s' \<and> time_reads s \<le> time_reads s' \<and> rdtime s' = rdtime s \<and> qemu s' = qemu s \<and>
     timer_mem s' = timer_mem s \<and> ram s' = ram s"

text \<open>One turn of the loop: the task at the head runs the timers that are due and is given back.\<close>

lemma irq_loop_turn:
  assumes iq: "idle_queues s (t # r) q L" and msg: "\<forall>t \<in> set q. cstr (ram s) (tm_arg (timer_mem s t)) (msg t)"
  shows "\<exists>s' n now L'. irq_loop s = irq_loop s' \<and> n \<le> length q \<and> time_reads s < now \<and>
    (\<forall>t \<in> set (take n q). expiry s t \<le> uptime s now) \<and> (\<forall>t \<in> set (drop n q). uptime s now < expiry s t) \<and>
    uart_thr s' = uart_thr s @ concat (map (\<lambda>t. crlf (msg t)) (take n q)) \<and>
    L' = {c \<in> L. fst c \<notin> insert t (set (take n q))} \<and> idle_queues s' r (drop n q) L' \<and> tasks_run s s' \<and>
    next_tick s' = rdtime s (time_reads s) + TIME_FREQ (qemu s) div 32"
proof -
  let ?r = "running t s"
  have i: "irq_queue s (t # r) L" "\<forall>u \<in> set (t # r). iq_running (irq_mem s u) = 0" "timer_queue s q L"
    "set (t # r) \<inter> set q = {}" "sorted (map (expiry s) q)" "tx_ready s" "clock_ok s"
    using iq by (simp_all add: idle_queues_def)
  have f: "ram ?r = ram s" "timer_links ?r = timer_links s" "heap ?r = heap s" "timer_mem ?r = timer_mem s"
    "rdtime ?r = rdtime s" "qemu ?r = qemu s" "uart_lsr ?r = uart_lsr s" "uart_thr ?r = uart_thr s"
    "time_reads ?r = time_reads s" "irq_links ?r = irq_links s" "\<And>u. u \<noteq> t \<Longrightarrow> irq_mem ?r u = irq_mem s u"
    by (simp_all add: running_def)
  have e: "expiry ?r = expiry s" "uptime ?r = uptime s" by (simp_all add: fun_eq_iff expiry_def uptime_def f)
  have "timer_queue ?r q L" "sorted (map (expiry ?r) q)" "tx_ready ?r" "clock_ok ?r"
    "\<forall>t \<in> set q. cstr (ram ?r) (tm_arg (timer_mem ?r t)) (msg t)"
    using i msg by (simp_all add: e f timer_queue_def tx_ready_def clock_ok_def)
  from timer_irq_handler_runs[OF this] obtain s4 n now L4 where h4:
    "timer_irq_handler ?r = Some s4" "n \<le> length q" "time_reads ?r < now"
    "\<forall>t \<in> set (take n q). expiry ?r t \<le> uptime ?r now" "\<forall>t \<in> set (drop n q). uptime ?r now < expiry ?r t"
    "timer_queue s4 (drop n q) L4" "L4 = {c \<in> L. fst c \<notin> set (take n q)}" "timer_mem s4 = timer_mem ?r"
    "uart_thr s4 = uart_thr ?r @ concat (map (\<lambda>t. crlf (msg t)) (take n q))" "handler_frame ?r s4"
    "time_reads ?r \<le> time_reads s4"
    by (elim exE conjE) (rule that)
  have g: "irq_links s4 = irq_links s" "stie s4" "next_tick s4 = rdtime s (time_reads s) + TIME_FREQ (qemu s) div 32"
    "irq_mem s4 = irq_mem ?r" "ram s4 = ram s" "rdtime s4 = rdtime s" "qemu s4 = qemu s" "uart_lsr s4 = uart_lsr s"
    using h4(10) f by (auto simp: handler_frame_def)
  let ?s5 = "s4\<lparr>irq_links := list_del_init (IrqList t) (irq_links s4), heap := kfree t (heap s4), sie := True\<rparr>"
  let ?L = "{c \<in> L. fst c \<notin> insert t (set (take n q))}"
  obtain m where m: "(t, m) \<in> L" using i(1) by (auto simp: irq_queue_def)
  have mm: "mm_inv (heap s) L" using i(1) by (simp add: irq_queue_def)
  have m4: "(t, m) \<in> L4" using m i(4) h4(7) by (auto dest: in_set_takeD)
  have "fst c = t \<longleftrightarrow> c = (t, m)" if "c \<in> L" for c
    using ha.same_address[OF mm _ m, of "snd c"] that by (cases c) auto
  then have L: "?L = L4 - {(t, m)}" unfolding h4(7) by blast
  have inv: "mm_inv (kfree t (heap s4)) ?L" unfolding L using kfree_chunk[OF _ m4] h4(6) by (simp add: timer_queue_def)
  have dist: "t \<notin> set r" using irq_queue_distinct[OF i(1)] by simp
  have "dlist (list_del_init (IrqList t) (irq_links s4)) IrqTasks (map IrqList r)"
    using dlist_delete[of "irq_links s" IrqTasks "[]"] i(1) by (simp add: irq_queue_def g)
  moreover have "\<exists>n. (u, n) \<in> ?L" if u: "u \<in> set r" for u
  proof -
    obtain k where "(u, k) \<in> L" using u i(1) by (auto simp: irq_queue_def)
    moreover have "u \<notin> set (take n q)" using u i(4) by (auto dest: in_set_takeD)
    ultimately show ?thesis using u dist by auto
  qed
  ultimately have iq5: "irq_queue ?s5 r ?L" using inv by (simp add: irq_queue_def)
  have "\<exists>n. (u, n) \<in> ?L" if u: "u \<in> set (drop n q)" for u
  proof -
    have "u \<noteq> t" using u i(4) by (auto dest: in_set_dropD)
    then show ?thesis using u h4(6) unfolding L timer_queue_def by blast
  qed
  then have "timer_queue ?s5 (drop n q) ?L" using h4(6) inv by (simp add: timer_queue_def)
  moreover have "\<forall>u \<in> set r. iq_running (irq_mem ?s5 u) = 0" unfolding g(4)
    using i(2) dist by (auto simp: running_def g)
  moreover have "set r \<inter> set (drop n q) = {}" using i(4) by (auto dest: in_set_dropD)
  moreover have "expiry ?s5 = expiry s" by (simp add: fun_eq_iff expiry_def h4(8) f)
  then have "sorted (map (expiry ?s5) (drop n q))" using i(5) by (simp add: sorted_wrt_drop flip: drop_map)
  moreover have "tx_ready ?s5" "clock_ok ?s5" using i(6,7) by (simp_all add: tx_ready_def clock_ok_def g)
  ultimately have idle: "idle_queues ?s5 r (drop n q) ?L" using iq5 by (simp add: idle_queues_def)
  have run: "tasks_run s ?s5" using h4(8,11) g f by (simp add: tasks_run_def)
  have loop: "irq_loop s = irq_loop ?s5" using irq_loop_head[OF i(1)] i(2) h4(1) by simp
  have out: "uart_thr ?s5 = uart_thr s @ concat (map (\<lambda>t. crlf (msg t)) (take n q))" using h4(9) f(8) by simp
  have tick: "next_tick ?s5 = rdtime s (time_reads s) + TIME_FREQ (qemu s) div 32" using g(3) by simp
  show ?thesis
    by (intro exI conjI, rule loop, rule h4(2), rule h4(3)[unfolded f], rule h4(4)[unfolded e], rule h4(5)[unfolded e],
      rule out, rule refl, rule idle, rule run, rule tick)
qed

text \<open>All of the queue is worked off.\<close>

lemma irq_loop_runs:
  assumes "r \<noteq> []" and "idle_queues s r q L" and "\<forall>t \<in> set q. cstr (ram s) (tm_arg (timer_mem s t)) (msg t)"
  shows "\<exists>s' n now k L'. irq_loop s = Some s' \<and> n \<le> length q \<and> time_reads s < now \<and>
    (\<forall>t \<in> set (take n q). expiry s t \<le> uptime s now) \<and> (\<forall>t \<in> set (drop n q). uptime s now < expiry s t) \<and>
    uart_thr s' = uart_thr s @ concat (map (\<lambda>t. crlf (msg t)) (take n q)) \<and>
    L' = {c \<in> L. fst c \<notin> set r \<union> set (take n q)} \<and> idle_queues s' [] (drop n q) L' \<and> tasks_run s s' \<and>
    next_tick s' = rdtime s k + TIME_FREQ (qemu s) div 32 \<and> time_reads s \<le> k \<and> (length r = 1 \<longrightarrow> k = time_reads s)"
  using assms
proof (induction r arbitrary: s q L rule: list_nonempty_induct)
  case (single t)
  from irq_loop_turn[OF single] obtain s' n now L' where r: "irq_loop s = irq_loop s'" "n \<le> length q" "time_reads s < now"
    "\<forall>t \<in> set (take n q). expiry s t \<le> uptime s now" "\<forall>t \<in> set (drop n q). uptime s now < expiry s t"
    "uart_thr s' = uart_thr s @ concat (map (\<lambda>t. crlf (msg t)) (take n q))"
    "L' = {c \<in> L. fst c \<notin> insert t (set (take n q))}" "idle_queues s' [] (drop n q) L'" "tasks_run s s'"
    "next_tick s' = rdtime s (time_reads s) + TIME_FREQ (qemu s) div 32"
    by (elim exE conjE) (rule that)
  have "irq_queue s' [] L'" using r(8) by (simp add: idle_queues_def)
  then have "irq_loop s' = Some s'" by (rule irq_loop_stop) simp
  with r show ?case by (intro exI[of _ s'] exI[of _ n] exI[of _ now] exI[of _ "time_reads s"] exI[of _ L']) simp
next
  case (cons t r)
  from irq_loop_turn[OF cons(3,4)] obtain s1 n now L1 where r: "irq_loop s = irq_loop s1" "n \<le> length q" "time_reads s < now"
    "\<forall>t \<in> set (take n q). expiry s t \<le> uptime s now" "\<forall>t \<in> set (drop n q). uptime s now < expiry s t"
    "uart_thr s1 = uart_thr s @ concat (map (\<lambda>t. crlf (msg t)) (take n q))"
    "L1 = {c \<in> L. fst c \<notin> insert t (set (take n q))}" "idle_queues s1 r (drop n q) L1" "tasks_run s s1"
    by (elim exE conjE) (rule that)
  have f: "time_reads s \<le> time_reads s1" "rdtime s1 = rdtime s" "qemu s1 = qemu s" "timer_mem s1 = timer_mem s" "ram s1 = ram s"
    using r(9) by (simp_all add: tasks_run_def)
  have e: "expiry s1 = expiry s" "uptime s1 = uptime s" by (simp_all add: fun_eq_iff expiry_def uptime_def f)
  have "\<forall>t \<in> set (drop n q). cstr (ram s1) (tm_arg (timer_mem s1 t)) (msg t)"
    using cons(4) by (auto simp: f dest: in_set_dropD)
  from cons(2)[OF r(8) this] obtain s' n' now' k L' where r': "irq_loop s1 = Some s'" "n' \<le> length (drop n q)"
    "time_reads s1 < now'"
    "\<forall>t \<in> set (take n' (drop n q)). expiry s1 t \<le> uptime s1 now'" "\<forall>t \<in> set (drop n' (drop n q)). uptime s1 now' < expiry s1 t"
    "uart_thr s' = uart_thr s1 @ concat (map (\<lambda>t. crlf (msg t)) (take n' (drop n q)))"
    "L' = {c \<in> L1. fst c \<notin> set r \<union> set (take n' (drop n q))}" "idle_queues s' [] (drop n' (drop n q)) L'" "tasks_run s1 s'"
    "next_tick s' = rdtime s1 k + TIME_FREQ (qemu s1) div 32" "time_reads s1 \<le> k"
    by (elim exE conjE) (rule that)
  have ck: "clock_ok s" using cons(3) by (simp add: idle_queues_def)
  let ?now = "max now now'"
  have up: "uptime s now \<le> uptime s ?now" "uptime s now' \<le> uptime s ?now" by (intro uptime_mono[OF ck]; simp)+
  have tk: "take (n + n') q = take n q @ take n' (drop n q)" by (simp add: take_add)
  have due: "\<forall>t \<in> set (take (n + n') q). expiry s t \<le> uptime s ?now"
    using r(4) r'(4) up unfolding tk e by fastforce
  have "uptime s ?now = uptime s now \<or> uptime s ?now = uptime s now'" by (simp add: max_def)
  moreover have "set (drop n' (drop n q)) \<subseteq> set (drop n q)" by (rule set_drop_subset)
  ultimately have late: "\<forall>t \<in> set (drop (n + n') q). uptime s ?now < expiry s t"
    using r(5) r'(5) unfolding e by (fastforce simp: add.commute)
  have "L' = {c \<in> L. fst c \<notin> set (t # r) \<union> set (take (n + n') q)}" unfolding r'(7) r(7) tk by auto
  moreover have "tasks_run s s'" using r'(9) r(9) f by (simp add: tasks_run_def)
  moreover have "idle_queues s' [] (drop (n + n') q) L'" using r'(8) by (simp add: add.commute)
  moreover have "irq_loop s = Some s'" "n + n' \<le> length q" "time_reads s < ?now" "time_reads s \<le> k" "length (t # r) \<noteq> 1"
    "uart_thr s' = uart_thr s @ concat (map (\<lambda>t. crlf (msg t)) (take (n + n') q))"
    "next_tick s' = rdtime s k + TIME_FREQ (qemu s) div 32"
    using r(1-3,6) r'(1,2,6,10,11) f cons(1) by (simp_all add: tk)
  ultimately show ?case using due late
    by (intro exI[of _ s'] exI[of _ "n + n'"] exI[of _ ?now] exI[of _ k] exI[of _ L']) simp
qed

text \<open>C28: a timer interrupt. Unless the current task is the only one, \<open>do_irq\<close> first switches to the next task of
  the run queue, to its page table and the context it last saved. What \<open>do_irq\<close> has left to do when \<open>schedule\<close>
  returns, at once or when the task is scheduled again, is then done to its end, if no interrupt task is already
  running: the interrupt tasks that wait and the new one have run, their queue is empty and their memory
  is given back. The timers that were due have run in the order of their times and are gone, the others are still
  queued, both enable bits are set and the next interrupt is programmed for a thirty-second of a second after the
  counter was read.\<close>

theorem do_irq_timer_correct:
  assumes iq: "irq_queue s r L" and idle: "\<forall>u \<in> set r. iq_running (irq_mem s u) = 0"
    and tq: "timer_queue s q L" and apart: "set r \<inter> set q = {}" and so: "sorted (map (expiry s) q)"
    and tx: "tx_ready s" and ck: "clock_ok s"
    and msg: "\<forall>t \<in> set q. cstr (ram s) (tm_arg (timer_mem s t)) (msg t)"
    and k: "kmalloc (of_nat SIZEOF_IRQ_TASK) (heap s) = Inr (t, h)"
  shows "\<exists>s' n now k L'. do_irq_rest s = Inr (Stay, s') \<and>
    (\<forall>regs rq i. runqueue s rq \<longrightarrow> i < length rq \<longrightarrow> tp s = rq ! i \<longrightarrow> IRQ_CAUSE (get_reg CAUSE regs (ram s)) = IRQ_S_TIMER \<longrightarrow>
      do_irq regs s = (if length rq = 1 then Inr (Stay, s')
        else let succ = rq ! (Suc i mod length rq)
             in Inr (Switch, switch_to (tp s) succ (switch_mm (pgd (tasks s succ)) 8 (disable_interrupt s))))) \<and>
    n \<le> length q \<and> time_reads s < now \<and>
    (\<forall>t \<in> set (take n q). expiry s t \<le> uptime s now) \<and> (\<forall>t \<in> set (drop n q). uptime s now < expiry s t) \<and>
    uart_thr s' = uart_thr s @ concat (map (\<lambda>t. crlf (msg t)) (take n q)) \<and>
    irq_queue s' [] L' \<and> timer_queue s' (drop n q) L' \<and> L' = {c \<in> L. fst c \<notin> set r \<union> set (take n q)} \<and>
    sie s' \<and> stie s' \<and>
    next_tick s' = rdtime s k + TIME_FREQ (qemu s) div 32 \<and> time_reads s \<le> k \<and> (r = [] \<longrightarrow> k = time_reads s)"
proof -
  obtain l m where add: "do_irq_rest s = bindF (of_loop (irq_loop (irq_added t h l s))) (\<lambda>s1. Inr (Stay, s1))"
    "t \<notin> set r" "(t, m) \<notin> L" "mm_inv h (insert (t, m) L)"
    "irq_queue (irq_added t h l s) (before_greater (urgency s) 1 t r) (insert (t, m) L)"
    using do_irq_rest_adds[OF iq k] by blast
  let ?s1 = "irq_added t h l s" and ?r = "before_greater (urgency s) 1 t r" and ?L = "insert (t, m) L"
  have f: "timer_links ?s1 = timer_links s" "heap ?s1 = h" "timer_mem ?s1 = timer_mem s" "rdtime ?s1 = rdtime s"
    "qemu ?s1 = qemu s" "uart_lsr ?s1 = uart_lsr s" "ram ?s1 = ram s" "uart_thr ?s1 = uart_thr s"
    "time_reads ?s1 = time_reads s" "irq_mem ?s1 = added_task TIMER_IRQ_HANDLER 1 t s"
    by (simp_all add: irq_added_def)
  have e: "expiry ?s1 = expiry s" "uptime ?s1 = uptime s" by (simp_all add: fun_eq_iff expiry_def uptime_def f)
  have "length (takeWhile P r) + length (dropWhile P r) = length r" for P
    by (simp only: takeWhile_dropWhile_id flip: length_append)
  then have sr: "set ?r = insert t (set r)" "?r \<noteq> []" "length ?r = Suc (length r)"
    using set_before_greater[of "urgency s" 1 t r] by (simp_all add: before_greater_def del: set_append)
  have tq': "t \<notin> set q"
  proof
    assume "t \<in> set q"
    then obtain n' where "(t, n') \<in> L" using tq by (auto simp: timer_queue_def)
    then show False using ha.same_address[OF add(4), of t n' m] add(3) by auto
  qed
  have "idle_queues ?s1 ?r q ?L"
    using add(2,4,5) idle tq apart so tx ck tq'
    by (auto simp: idle_queues_def e f sr added_task_def timer_queue_def tx_ready_def clock_ok_def)
  moreover have "\<forall>t \<in> set q. cstr (ram ?s1) (tm_arg (timer_mem ?s1 t)) (msg t)" using msg by (simp add: f)
  note irq_loop_runs[OF sr(2) calculation this]
  then obtain s' n now k L' where run: "irq_loop ?s1 = Some s'" "n \<le> length q" "time_reads ?s1 < now"
    "\<forall>t \<in> set (take n q). expiry ?s1 t \<le> uptime ?s1 now" "\<forall>t \<in> set (drop n q). uptime ?s1 now < expiry ?s1 t"
    "uart_thr s' = uart_thr ?s1 @ concat (map (\<lambda>t. crlf (msg t)) (take n q))"
    "L' = {c \<in> ?L. fst c \<notin> set ?r \<union> set (take n q)}" "idle_queues s' [] (drop n q) L'" "tasks_run ?s1 s'"
    "next_tick s' = rdtime ?s1 k + TIME_FREQ (qemu ?s1) div 32" "time_reads ?s1 \<le> k" "length ?r = 1 \<longrightarrow> k = time_reads ?s1"
    by (elim exE conjE) (rule that)
  have "fst c \<noteq> t" if "c \<in> L" for c
    using ha.same_address[OF add(4), of t "snd c" m] add(3) that by (cases c) auto
  then have L: "L' = {c \<in> L. fst c \<notin> set r \<union> set (take n q)}" unfolding run(7) sr by auto
  have rest: "do_irq_rest s = Inr (Stay, s')" using add(1) run(1) by simp
  have q': "irq_queue s' [] L'" "timer_queue s' (drop n q) L'" and b: "sie s'" "stie s'"
    using run(8,9) by (simp_all add: idle_queues_def tasks_run_def)
  have k0: "r = [] \<longrightarrow> k = time_reads s" using run(12) sr(3) by (simp add: f)
  have first: "\<forall>regs rq i. runqueue s rq \<longrightarrow> i < length rq \<longrightarrow> tp s = rq ! i \<longrightarrow> IRQ_CAUSE (get_reg CAUSE regs (ram s)) = IRQ_S_TIMER \<longrightarrow>
      do_irq regs s = (if length rq = 1 then Inr (Stay, s')
        else let succ = rq ! (Suc i mod length rq)
             in Inr (Switch, switch_to (tp s) succ (switch_mm (pgd (tasks s succ)) 8 (disable_interrupt s))))"
    using do_irq_timer_cases[of s] rest by (simp add: Let_def)
  show ?thesis
    by (intro exI conjI, rule rest, rule first, rule run(2), rule run(3)[unfolded f], rule run(4)[unfolded e],
      rule run(5)[unfolded e], rule run(6)[unfolded f], rule q'(1), rule q'(2), rule L, rule b(1), rule b(2),
      rule run(10)[unfolded f], rule run(11)[unfolded f], rule k0)
qed

text \<open>The handler of the timer is not entered again while it runs. A timer interrupt that comes while an
  interrupt task of the same priority, or a more urgent one, is running only queues its task, behind
  the running one: no timer runs, nothing is sent, and timer interrupts stay off until the queue is
  worked off.\<close>

theorem do_irq_not_reentered:
  assumes iq: "irq_queue s (u # r) L" and run: "iq_running (irq_mem s u) \<noteq> 0" and lv: "urgency s u \<le> 1"
    and alone: "runqueue s [tp s]" and cause: "IRQ_CAUSE (get_reg CAUSE regs (ram s)) = IRQ_S_TIMER"
    and k: "kmalloc (of_nat SIZEOF_IRQ_TASK) (heap s) = Inr (t, h)"
  shows "\<exists>s' L'. do_irq regs s = Inr (Stay, s') \<and> irq_queue s' (u # before_greater (urgency s) 1 t r) L' \<and>
    iq_running (irq_mem s' t) = 0 \<and> irq_mem s' u = irq_mem s u \<and> uart_thr s' = uart_thr s \<and>
    timer_links s' = timer_links s \<and> timer_mem s' = timer_mem s \<and> sie s' \<and> \<not> stie s'"
proof -
  obtain l m where add: "do_irq regs s = bindF (of_loop (irq_loop (irq_added t h l s))) (\<lambda>s1. Inr (Stay, s1))"
    "t \<notin> set (u # r)" "irq_queue (irq_added t h l s) (before_greater (urgency s) 1 t (u # r)) (insert (t, m) L)"
    using do_irq_rest_adds[OF iq k] do_irq_timer_cases[OF alone _ _ cause, of 0] by auto
  let ?s1 = "irq_added t h l s"
  have q: "before_greater (urgency s) 1 t (u # r) = u # before_greater (urgency s) 1 t r"
    using lv by (simp add: before_greater_def)
  have "irq_mem ?s1 u = irq_mem s u" "iq_running (irq_mem ?s1 t) = 0"
    using add(2) by (auto simp: irq_added_def added_task_def)
  moreover have "irq_loop ?s1 = Some ?s1"
    using add(3) run calculation(1) unfolding q by (intro irq_loop_stop) auto
  ultimately show ?thesis
    using add(1,3) unfolding q by (intro exI[of _ ?s1] exI[of _ "insert (t, m) L"]) (simp add: irq_added_def)
qed

text \<open>Task 2 is alone; its registers, at \<open>0x1000\<close>, show a timer interrupt.\<close>

definition example_irqs :: irqs where
  "example_irqs = timers.extend (example_timers
      \<lparr>run_links := list_add_tail (TaskList 2) RunQueue (\<lambda>n. \<lparr>prv = n, nxt = n\<rparr>),
       ram := set_reg CAUSE 0x8000000000000005 0x1000 (ram example_timers)\<rparr>)
     (irqs.fields (\<lambda>_. \<lparr>iq_handler = TIMER_IRQ_HANDLER, iq_priority = 0, iq_running = 0\<rparr>) (\<lambda>n. \<lparr>prv = n, nxt = n\<rparr>))"

lemma example_irqs_fields:
  "heap example_irqs = mem_init_free boot_mm" "tp example_irqs = 2"
  "ram example_irqs = set_reg CAUSE 0x8000000000000005 0x1000 ((\<lambda>_. 0)(0x100 := 0x41, 0x200 := 0x42))"
  "uart_thr example_irqs = []" "uart_lsr example_irqs = (\<lambda>_. 0x21)" "time_reads example_irqs = 0"
  "rdtime example_irqs = example_clock" "qemu example_irqs"
  "timer_links example_irqs = (\<lambda>n. \<lparr>prv = n, nxt = n\<rparr>)" "irq_links example_irqs = (\<lambda>n. \<lparr>prv = n, nxt = n\<rparr>)"
  "run_links example_irqs = list_add_tail (TaskList 2) RunQueue (\<lambda>n. \<lparr>prv = n, nxt = n\<rparr>)"
  by (simp_all add: example_irqs_def example_timers_def example_console_def example_sched_def
      sched.defs console.defs timers.defs irqs.defs)

lemma example_irqs_inv:
  "timer_queue example_irqs [] {}" "irq_queue example_irqs [] {}" "plenty 1280 (heap example_irqs)"
  "runqueue example_irqs [tp example_irqs]"
  "IRQ_CAUSE (get_reg CAUSE 0x1000 (ram example_irqs)) = IRQ_S_TIMER"
  using boot_mm_inv[of boot_mm] boot_plenty[of boot_mm]
  by (simp_all add: timer_queue_def irq_queue_def runqueue_def example_irqs_fields dlist_def list_add_tail_def
      IRQ_CAUSE_def IRQ_S_TIMER_def)

lemma example_irqs_strings:
  "cstr (ram example_irqs) 0x100 [0x41]" "cstr (ram example_irqs) 0x200 [0x42]"
  by (simp_all add: example_irqs_fields set_reg_outside PT_SIZE_ON_STACK_def)

definition with_task :: "u64 \<Rightarrow> 'z sched_scheme \<Rightarrow> 'z sched_scheme" where
  "with_task t s = s\<lparr>run_links := list_add_tail (TaskList t) RunQueue (run_links s)\<rparr>"

lemma irq_task_size: "0 < (of_nat SIZEOF_IRQ_TASK :: u32)" "unat (of_nat SIZEOF_IRQ_TASK :: u32) \<le> 2 ^ 22"
  by (simp_all add: SIZEOF_IRQ_TASK_def)

text \<open>With the task alone \<open>do_irq\<close> handles the interrupt; with a second task, 3, it switches to that one first.\<close>

theorem do_irq_timer_correct_witness:
  "\<exists>s s' s2 s3 t L. set_timeouts [(0x100, 9), (0x200, 2)] example_irqs = Inr s \<and>
     do_irq 0x1000 s = Inr (Stay, s') \<and> uart_thr s' = [0x42] \<and> timer_queue s' [t] L \<and> irq_queue s' [] L \<and> stie s' \<and>
     do_irq 0x1000 (with_task 3 s) = Inr (Switch, s2) \<and> tp s2 = 3 \<and>
     do_irq_rest (with_task 3 s) = Inr (Stay, s3) \<and> uart_thr s3 = [0x42]"
proof -
  obtain h t u m l L where st: "set_timeouts [(0x100, 9), (0x200, 2)] example_irqs =
      Inr (example_irqs\<lparr>heap := h, time_reads := 2, timer_mem := m, timer_links := l\<rparr>)"
    and pl: "plenty 1278 h"
    and m: "t \<noteq> u" "tm_arg (m u) = 0x200" "tm_arg (m t) = 0x100" "sint (tm_time (m u)) = 2" "sint (tm_time (m t)) = 9"
    and q: "timer_queue (example_irqs\<lparr>heap := h, time_reads := 2, timer_mem := m, timer_links := l\<rparr>) [u, t] L"
    by (rule two_timeouts[OF example_irqs_inv(1,3) example_irqs_fields(7,6,8)])
  let ?s = "example_irqs\<lparr>heap := h, time_reads := 2, timer_mem := m, timer_links := l\<rparr>"
  have "plenty (Suc 1277) h" using pl by simp
  then obtain t' h' where k: "kmalloc (of_nat SIZEOF_IRQ_TASK) h = Inr (t', h')"
    by (rule plenty_kmalloc[OF _ irq_task_size]) blast
  have cause: "IRQ_CAUSE (get_reg CAUSE 0x1000 (ram ?s)) = IRQ_S_TIMER" using example_irqs_inv(5) by simp
  have run: "\<exists>s' L'. do_irq_rest x = Inr (Stay, s') \<and> uart_thr s' = [0x42] \<and> timer_queue s' [t] L' \<and> irq_queue s' [] L' \<and> stie s' \<and>
      (\<forall>rq. runqueue x rq \<longrightarrow> 0 < length rq \<longrightarrow> tp x = rq ! 0 \<longrightarrow> do_irq 0x1000 x = (if length rq = 1 then Inr (Stay, s')
        else let succ = rq ! (Suc 0 mod length rq)
             in Inr (Switch, switch_to (tp x) succ (switch_mm (pgd (tasks x succ)) 8 (disable_interrupt x)))))"
    if x: "x = ?s\<lparr>run_links := rl\<rparr>" for x rl
  proof -
    have e: "expiry x u = 2" "expiry x t = 9" using m by (simp_all add: x expiry_def)
    have so: "sorted (map (expiry x) [u, t])" using e by simp
    have tx: "tx_ready x" by (auto simp: x tx_ready_def example_irqs_fields)
    have ck: "clock_ok x" by (simp add: x clock_ok_def example_irqs_fields example_clock_def)
    have msg: "\<forall>v \<in> set [u, t]. cstr (ram x) (tm_arg (timer_mem x v)) (if v = u then [0x42] else [0x41])"
      using m example_irqs_strings by (simp add: x)
    have tq: "timer_queue x [u, t] L" using q by (simp add: x timer_queue_def)
    have iq: "irq_queue x [] L" using q example_irqs_inv(2) by (simp add: x irq_queue_def timer_queue_def)
    have idle: "\<forall>v \<in> set []. iq_running (irq_mem x v) = 0" and apart: "set [] \<inter> set [u, t] = {}" by simp_all
    have kx: "kmalloc (of_nat SIZEOF_IRQ_TASK) (heap x) = Inr (t', h')" using k by (simp add: x)
    from do_irq_timer_correct[OF iq idle tq apart so tx ck msg kx] obtain s' n now L' where
      r: "do_irq_rest x = Inr (Stay, s')"
      "\<forall>regs rq i. runqueue x rq \<longrightarrow> i < length rq \<longrightarrow> tp x = rq ! i \<longrightarrow> IRQ_CAUSE (get_reg CAUSE regs (ram x)) = IRQ_S_TIMER \<longrightarrow>
        do_irq regs x = (if length rq = 1 then Inr (Stay, s')
          else let succ = rq ! (Suc i mod length rq)
               in Inr (Switch, switch_to (tp x) succ (switch_mm (pgd (tasks x succ)) 8 (disable_interrupt x))))"
      "n \<le> length [u, t]" "time_reads x < now"
      "\<forall>v \<in> set (take n [u, t]). expiry x v \<le> uptime x now" "\<forall>v \<in> set (drop n [u, t]). uptime x now < expiry x v"
      "uart_thr s' = uart_thr x @ concat (map (\<lambda>v. crlf (if v = u then [0x42] else [0x41])) (take n [u, t]))"
      "irq_queue s' [] L'" "timer_queue s' (drop n [u, t]) L'" "stie s'"
      by (elim exE conjE) (rule that)
    have up: "uptime x now = 5" using r(4) by (simp add: x uptime_def example_irqs_fields example_clock_def TIME_FREQ_def)
    have "n = 1"
    proof (rule ccontr)
      assume "n \<noteq> 1"
      then consider "n = 0" | "n = 2" using r(3) by force
      then show False using r(5,6) by cases (simp_all add: up e)
    qed
    then have "uart_thr s' = [0x42]" "timer_queue s' [t] L'" using r(7,9) by (simp_all add: x example_irqs_fields)
    then show ?thesis using r(1,2,8,10) cause by (intro exI[of _ s'] exI[of _ L']) (simp add: x)
  qed
  have x1: "?s = ?s\<lparr>run_links := run_links ?s\<rparr>" and
    x2: "with_task 3 ?s = ?s\<lparr>run_links := run_links (with_task 3 ?s)\<rparr>" by (simp_all add: with_task_def)
  have rq: "runqueue ?s [2]" "tp ?s = 2" and rq2: "runqueue (with_task 3 ?s) [2, 3]" "tp (with_task 3 ?s) = 2"
    by (simp_all add: runqueue_def with_task_def example_irqs_fields dlist_def list_add_tail_def)
  obtain s' L' where 1: "uart_thr s' = [0x42]" "timer_queue s' [t] L'" "irq_queue s' [] L'" "stie s'" "do_irq 0x1000 ?s = Inr (Stay, s')"
    using run[OF x1] rq by (elim exE conjE) (erule_tac x = "[2]" in allE, simp)
  obtain s3 s2 where 2: "do_irq_rest (with_task 3 ?s) = Inr (Stay, s3)" "uart_thr s3 = [0x42]"
    "do_irq 0x1000 (with_task 3 ?s) = Inr (Switch, s2)" "tp s2 = 3"
    using run[OF x2] rq2 by (elim exE conjE) (erule_tac x = "[2, 3]" in allE, simp add: Let_def switch_to_fields)
  show ?thesis by (intro exI conjI, rule st, rule 1(5), rule 1(1), rule 1(2), rule 1(3), rule 1(4), rule 2(3), rule 2(4),
    rule 2(1), rule 2(2))
qed

theorem do_irq_not_reentered_witness:
  "\<exists>s u t s' L. irq_add_task TIMER_IRQ_HANDLER 1 example_irqs = Inr s \<and>
     do_irq 0x1000 (running u s) = Inr (Stay, s') \<and> irq_queue s' [u, t] L \<and>
     iq_running (irq_mem s' u) = 1 \<and> iq_running (irq_mem s' t) = 0"
proof -
  have "plenty (Suc (Suc 1278)) (heap example_irqs)" using example_irqs_inv(3) by simp
  then obtain u h where k: "kmalloc (of_nat SIZEOF_IRQ_TASK) (heap example_irqs) = Inr (u, h)" "plenty (Suc 1278) h"
    by (rule plenty_kmalloc[OF _ irq_task_size])
  obtain l n where a: "irq_add_task TIMER_IRQ_HANDLER 1 example_irqs =
      Inr (example_irqs\<lparr>heap := h, irq_mem := added_task TIMER_IRQ_HANDLER 1 u example_irqs, irq_links := l\<rparr>)"
    and q: "irq_queue (example_irqs\<lparr>heap := h, irq_mem := added_task TIMER_IRQ_HANDLER 1 u example_irqs, irq_links := l\<rparr>)
      (before_greater (urgency example_irqs) (sint (1 :: u32)) u []) {(u, n)}"
    using irq_add_task_queue[OF example_irqs_inv(2) k(1), of TIMER_IRQ_HANDLER 1] by auto
  let ?s = "example_irqs\<lparr>heap := h, irq_mem := added_task TIMER_IRQ_HANDLER 1 u example_irqs, irq_links := l\<rparr>"
  let ?r = "running u ?s"
  have f: "heap ?r = h" "irq_links ?r = l" "ram ?r = ram example_irqs" "run_links ?r = run_links example_irqs"
    "tp ?r = tp example_irqs" "iq_running (irq_mem ?r u) = 1" "urgency ?r u = 1"
    by (simp_all add: running_def added_task_def urgency_def)
  have iq: "irq_queue ?r [u] {(u, n)}" using q by (simp add: before_greater_def irq_queue_def f)
  have alone: "runqueue ?r [tp ?r]" using example_irqs_inv(4) by (simp add: runqueue_def f)
  have cause: "IRQ_CAUSE (get_reg CAUSE 0x1000 (ram ?r)) = IRQ_S_TIMER" using example_irqs_inv(5) by (simp add: f)
  have "plenty (Suc 1278) (heap ?r)" using k(2) by (simp add: f)
  then obtain t h' where k': "kmalloc (of_nat SIZEOF_IRQ_TASK) (heap ?r) = Inr (t, h')"
    by (rule plenty_kmalloc[OF _ irq_task_size]) blast
  have "iq_running (irq_mem ?r u) \<noteq> 0" "urgency ?r u \<le> 1" by (simp_all add: f)
  from do_irq_not_reentered[OF iq this alone cause k'] obtain s' L' where
    "do_irq 0x1000 ?r = Inr (Stay, s')" "irq_queue s' (u # before_greater (urgency ?r) 1 t []) L'"
    "iq_running (irq_mem s' t) = 0" "irq_mem s' u = irq_mem ?r u" by blast
  then show ?thesis using a f(6) by (intro exI[of _ ?s] exI[of _ u] exI[of _ t] exI[of _ s'] exI[of _ L'])
    (simp add: before_greater_def)
qed

end
