(* ===== verification/Vm.thy ===== *)
theory Vm
  imports Irq
begin

text \<open>
  Virtual memory, \<open>src/vm.c\<close>: three-level page tables in the byte memory, the areas of an address space,
  and the page fault handler with demand paging and copy-on-write.

  A \<open>struct mm_struct\<close> lies in its task, so it is named by the task. An area is a
  \<open>struct vm_area_struct\<close>, in the list \<open>mm.mmap\<close> of its task. The instructions \<open>sfence.vma\<close> have no
  effect on this state.
\<close>

section \<open>State\<close>

record vm_area =
  vm_start :: u64
  vm_end :: u64
  vm_mm :: u64
  vm_flags :: u64
  vm_file :: u64

record vms = irqs +
  vma_mem :: "u64 \<Rightarrow> vm_area"

definition SIZEOF_VMA :: nat where "SIZEOF_VMA = 56"

definition HPAGE_SIZE :: u64 where "HPAGE_SIZE = push_bit 30 1"
definition HPAGE_NR :: u64 where "HPAGE_NR = HPAGE_SIZE div of_nat PAGE_SIZE"

definition PAGE_PRESENT :: u64 where "PAGE_PRESENT = push_bit 0 1"
definition PAGE_READ :: u64 where "PAGE_READ = push_bit 1 1"
definition PAGE_WRITE :: u64 where "PAGE_WRITE = push_bit 2 1"
definition PAGE_EXEC :: u64 where "PAGE_EXEC = push_bit 3 1"
definition PAGE_USER :: u64 where "PAGE_USER = push_bit 4 1"
definition PAGE_ACCESSED :: u64 where "PAGE_ACCESSED = push_bit 6 1"
definition PAGE_DIRTY :: u64 where "PAGE_DIRTY = push_bit 7 1"

definition VM_READ :: u64 where "VM_READ = 0x1"
definition VM_WRITE :: u64 where "VM_WRITE = 0x2"
definition VM_EXEC :: u64 where "VM_EXEC = 0x4"

definition EXC_SYSCALL :: u64 where "EXC_SYSCALL = 8"
definition EXC_INST_PAGE_FAULT :: u64 where "EXC_INST_PAGE_FAULT = 12"
definition EXC_LOAD_PAGE_FAULT :: u64 where "EXC_LOAD_PAGE_FAULT = 13"
definition EXC_STORE_PAGE_FAULT :: u64 where "EXC_STORE_PAGE_FAULT = 15"

section \<open>Page tables\<close>

text \<open>\<open>(addr >> (12 + 9 * level)) & 0x1ff\<close>, \<open>&pte[idx]\<close>, and the address an entry holds.\<close>

definition pt_index :: "nat \<Rightarrow> u64 \<Rightarrow> u64" where
  "pt_index level addr = drop_bit (12 + 9 * level) addr AND 0x1ff"

definition pt_entry :: "u64 \<Rightarrow> u64 \<Rightarrow> u64" where
  "pt_entry pte idx = pte + 8 * idx"

definition pte_to_virt :: "u64 \<Rightarrow> u64" where
  "pte_to_virt pte = phys_to_virt (push_bit 2 (pte AND NOT 0x3ff))"

function setup_vm_loop :: "nat \<Rightarrow> u64 \<Rightarrow> mem \<Rightarrow> mem" where
  "setup_vm_loop i pg m =
     (if i < NUM_PAGES div unat HPAGE_NR then
        setup_vm_loop (i + 1) pg (store64 (pt_entry pg (256 + of_nat i))
          (push_bit 10 (of_nat i * HPAGE_NR) OR PAGE_PRESENT OR PAGE_READ OR PAGE_WRITE OR PAGE_EXEC OR
           PAGE_DIRTY OR PAGE_ACCESSED) m)
      else m)"
  by pat_completeness auto
termination by (relation "measure (\<lambda>(i, pg, m). NUM_PAGES div unat HPAGE_NR - i)") auto

declare setup_vm_loop.simps [simp del]

text \<open>\<open>setup_vm\<close> runs before the page table is in use: \<open>pg_dir\<close> is the physical address then.\<close>

definition setup_vm :: "'z sched_scheme \<Rightarrow> 'z sched_scheme" where
  "setup_vm s = s\<lparr>ram := setup_vm_loop 0 (pg_dir s) (ram s), satp := push_bit 60 8 OR drop_bit 12 (pg_dir s)\<rparr>"

text \<open>\<open>if (pte[idx] == 0)\<close>: a fresh page of zeros, entered at \<open>entry\<close>.\<close>

definition new_table :: "u64 \<Rightarrow> 'z sched_scheme \<Rightarrow> fault + 'z sched_scheme" where
  "new_table entry s =
     bindF (kmalloc (of_nat PAGE_SIZE) (heap s)) (\<lambda>(page, h).
       bindF (of_loop (memset (ram s) page 0 (int PAGE_SIZE))) (\<lambda>(_, m).
         Inr (s\<lparr>heap := h, ram := store64 entry (drop_bit 2 (virt_to_phys page) OR PAGE_PRESENT) m\<rparr>)))"

primrec pagewalk_from ::
    "nat \<Rightarrow> u64 \<Rightarrow> u64 \<Rightarrow> u64 \<Rightarrow> u64 \<Rightarrow> 'z sched_scheme \<Rightarrow> fault + 'z sched_scheme" where
  "pagewalk_from 0 pte va pa prot s =
     Inr (s\<lparr>ram := store64 (pt_entry pte (pt_index 0 va)) (drop_bit 2 pa OR prot) (ram s)\<rparr>)"
| "pagewalk_from (Suc level) pte va pa prot s =
     (let e = pt_entry pte (pt_index (Suc level) va)
      in bindF (if load64 (ram s) e = 0 then new_table e s else Inr s) (\<lambda>s1.
           pagewalk_from level (pte_to_virt (load64 (ram s1) e)) va pa prot s1))"

definition pagewalk :: "u64 \<Rightarrow> u64 \<Rightarrow> u64 \<Rightarrow> u64 \<Rightarrow> 'z sched_scheme \<Rightarrow> fault + 'z sched_scheme" where
  "pagewalk mm va pa prot s = pagewalk_from 2 (pgd (tasks s mm)) va pa prot s"

text \<open>The counter is an \<open>int\<close>, compared with an \<open>unsigned long\<close>.\<close>

partial_function (option) map_pages_loop ::
    "u64 \<Rightarrow> u64 \<Rightarrow> u64 \<Rightarrow> u64 \<Rightarrow> u64 \<Rightarrow> u32 \<Rightarrow> 'z sched_scheme \<Rightarrow> (fault + 'z sched_scheme) option" where
  "map_pages_loop mm va len pa prot i s =
     (if scast i < len then
        case pagewalk mm (va + scast i) (pa + scast i) prot s of
          Inl e \<Rightarrow> Some (Inl e)
        | Inr s1 \<Rightarrow> map_pages_loop mm va len pa prot (i + of_nat PAGE_SIZE) s1
      else Some (Inr s))"

definition map_pages :: "u64 \<Rightarrow> u64 \<Rightarrow> u64 \<Rightarrow> u64 \<Rightarrow> u64 \<Rightarrow> 'z sched_scheme \<Rightarrow> fault + 'z sched_scheme" where
  "map_pages mm va len pa prot s =
     (case map_pages_loop mm va len pa prot 0 s of None \<Rightarrow> Inl No_Return | Some r \<Rightarrow> r)"

primrec pte_alloc_from :: "nat \<Rightarrow> u64 \<Rightarrow> u64 \<Rightarrow> 'z sched_scheme \<Rightarrow> fault + u64 \<times> 'z sched_scheme" where
  "pte_alloc_from 0 pte addr s = Inr (pt_entry pte (pt_index 0 addr), s)"
| "pte_alloc_from (Suc level) pte addr s =
     (let e = pt_entry pte (pt_index (Suc level) addr)
      in bindF (if load64 (ram s) e = 0 then new_table e s else Inr s) (\<lambda>s1.
           pte_alloc_from level (pte_to_virt (load64 (ram s1) e)) addr s1))"

definition pte_alloc_map :: "u64 \<Rightarrow> u64 \<Rightarrow> 'z sched_scheme \<Rightarrow> fault + u64 \<times> 'z sched_scheme" where
  "pte_alloc_map mm addr s = pte_alloc_from 2 (pgd (tasks s mm)) addr s"

definition mk_pte :: "u64 \<Rightarrow> u64 \<Rightarrow> u64" where
  "mk_pte page flags =
     (let page_prot = PAGE_DIRTY OR PAGE_ACCESSED OR PAGE_USER OR PAGE_PRESENT;
          page_prot = (if flags AND VM_READ \<noteq> 0 then page_prot OR PAGE_READ else page_prot);
          page_prot = (if flags AND VM_WRITE \<noteq> 0 then page_prot OR PAGE_WRITE else page_prot);
          page_prot = (if flags AND VM_EXEC \<noteq> 0 then page_prot OR PAGE_EXEC else page_prot)
      in drop_bit 2 (virt_to_phys page) OR page_prot)"

section \<open>Areas\<close>

definition vm_mmap :: "u64 \<Rightarrow> u64 \<Rightarrow> u64 \<Rightarrow> u64 \<Rightarrow> u64 \<Rightarrow> 'z vms_scheme \<Rightarrow> fault + 'z vms_scheme" where
  "vm_mmap mm file addr len prot s =
     bindF (kmalloc (of_nat SIZEOF_VMA) (heap s)) (\<lambda>(vma, h).
       let s1 = s\<lparr>heap := h\<rparr>;
           s2 = s1\<lparr>vma_mem := (vma_mem s1)(vma := \<lparr>vm_start = addr, vm_end = addr + len, vm_mm = mm,
                    vm_flags = prot, vm_file = file\<rparr>)\<rparr>
       in Inr (s2\<lparr>vma_links := list_add_tail (VmaList vma) (MmapHead mm) (vma_links s2)\<rparr>))"

text \<open>The null pointer when no area has the address.\<close>

definition find_vma :: "u64 \<Rightarrow> u64 \<Rightarrow> 'z vms_scheme \<Rightarrow> fault + u64" where
  "find_vma mm addr s =
     bindF (of_loop (list_search (\<lambda>pos. vm_start (vma_mem s (vma_of pos)) \<le> addr \<and>
        addr < vm_end (vma_mem s (vma_of pos))) (MmapHead mm) (vma_links s)))
       (\<lambda>r. Inr (case r of Some pos \<Rightarrow> vma_of pos | None \<Rightarrow> 0))"

definition access_error :: "u64 \<Rightarrow> u64 \<Rightarrow> 'z vms_scheme \<Rightarrow> fault + bool \<times> 'z vms_scheme" where
  "access_error cause vma s =
     (if cause = EXC_INST_PAGE_FAULT then Inr (\<not> (vm_flags (vma_mem s vma) AND VM_EXEC \<noteq> 0), s)
      else if cause = EXC_LOAD_PAGE_FAULT then Inr (\<not> (vm_flags (vma_mem s vma) AND (VM_READ OR VM_WRITE) \<noteq> 0), s)
      else if cause = EXC_STORE_PAGE_FAULT then Inr (\<not> (vm_flags (vma_mem s vma) AND VM_WRITE \<noteq> 0), s)
      else bindF (printk ''access_error: unhandled cause %ld\<newline>'' [cause] s) (\<lambda>s1. Inr (False, s1)))"

section \<open>Copying an address space\<close>

text \<open>The walk down both tables for one address; the last level shares the page.\<close>

definition share_page :: "u64 \<Rightarrow> u64 \<Rightarrow> 'z sched_scheme \<Rightarrow> 'z sched_scheme" where
  "share_page se de s =
     (let s1 = s\<lparr>ram := store64 se (load64 (ram s) se AND NOT PAGE_WRITE) (ram s)\<rparr>;
          s2 = s1\<lparr>ram := store64 de (load64 (ram s1) se) (ram s1)\<rparr>
      in s2\<lparr>heap := get_page (virt_to_page (pte_to_virt (load64 (ram s2) se))) (heap s2)\<rparr>)"

primrec copy_page_from :: "nat \<Rightarrow> u64 \<Rightarrow> u64 \<Rightarrow> u64 \<Rightarrow> 'z sched_scheme \<Rightarrow> fault + 'z sched_scheme" where
  "copy_page_from 0 src_pt dst_pt addr s =
     (let se = pt_entry src_pt (pt_index 0 addr); de = pt_entry dst_pt (pt_index 0 addr)
      in if load64 (ram s) se \<noteq> 0 \<and> load64 (ram s) de = 0
         then bindF (new_table de s) (\<lambda>s1. Inr (share_page se de s1))
         else Inr s)"
| "copy_page_from (Suc level) src_pt dst_pt addr s =
     (let se = pt_entry src_pt (pt_index (Suc level) addr); de = pt_entry dst_pt (pt_index (Suc level) addr)
      in bindF (if load64 (ram s) se \<noteq> 0 \<and> load64 (ram s) de = 0 then new_table de s else Inr s) (\<lambda>s1.
           copy_page_from level (pte_to_virt (load64 (ram s1) se)) (pte_to_virt (load64 (ram s1) de)) addr s1))"

partial_function (option) copy_page_range_loop ::
    "u64 \<Rightarrow> u64 \<Rightarrow> u64 \<Rightarrow> 'z vms_scheme \<Rightarrow> (fault + 'z vms_scheme) option" where
  "copy_page_range_loop dst_vma src_vma addr s =
     (if addr < vm_end (vma_mem s src_vma) then
        case copy_page_from 2 (pgd (tasks s (vm_mm (vma_mem s src_vma)))) (pgd (tasks s (vm_mm (vma_mem s dst_vma)))) addr s of
          Inl e \<Rightarrow> Some (Inl e)
        | Inr s1 \<Rightarrow> copy_page_range_loop dst_vma src_vma (addr + of_nat PAGE_SIZE) s1
      else Some (Inr s))"

definition copy_page_range :: "u64 \<Rightarrow> u64 \<Rightarrow> 'z vms_scheme \<Rightarrow> fault + 'z vms_scheme" where
  "copy_page_range dst_vma src_vma s =
     (case copy_page_range_loop dst_vma src_vma (vm_start (vma_mem s src_vma)) s of
        None \<Rightarrow> Inl No_Return | Some r \<Rightarrow> r)"

definition dup_vma :: "u64 \<Rightarrow> vma_node \<Rightarrow> 'z vms_scheme \<Rightarrow> fault + 'z vms_scheme" where
  "dup_vma mm pos s =
     (let old_vma = vma_of pos
      in bindF (kmalloc (of_nat SIZEOF_VMA) (heap s)) (\<lambda>(vma, h).
           let s1 = s\<lparr>heap := h\<rparr>;
               s2 = s1\<lparr>vma_mem := (vma_mem s1)(vma := vma_mem s1 old_vma)\<rparr>;
               s3 = s2\<lparr>vma_mem := (vma_mem s2)(vma := (vma_mem s2 vma)\<lparr>vm_mm := mm\<rparr>)\<rparr>
           in bindF (copy_page_range vma old_vma s3) (\<lambda>s4.
                Inr (s4\<lparr>vma_links := list_add_tail (VmaList vma) (MmapHead mm) (vma_links s4)\<rparr>))))"

definition dup_mmap :: "u64 \<Rightarrow> u64 \<Rightarrow> 'z vms_scheme \<Rightarrow> fault + 'z vms_scheme" where
  "dup_mmap mm oldmm s =
     (case list_for_each_do vma_links (dup_vma mm) (MmapHead oldmm) (nxt (vma_links s (MmapHead oldmm))) s of
        None \<Rightarrow> Inl No_Return | Some r \<Rightarrow> r)"

section \<open>Page faults\<close>

text \<open>The page of a demand fault, with the contents of the file or zeros.\<close>

definition demand_page :: "u64 \<Rightarrow> u64 \<Rightarrow> u64 \<Rightarrow> 'z vms_scheme \<Rightarrow> fault + 'z vms_scheme" where
  "demand_page vma addr pte s =
     bindF (kmalloc (of_nat PAGE_SIZE) (heap s)) (\<lambda>(page, h).
       let s1 = s\<lparr>heap := h\<rparr>;
           area = vma_mem s1 vma
       in bindF (of_loop (if vm_file area \<noteq> 0
                 then memcpy (ram s1) page (vm_file area + (addr - vm_start area)) (int PAGE_SIZE)
                 else memset (ram s1) page 0 (int PAGE_SIZE))) (\<lambda>(_, m).
            Inr (s1\<lparr>ram := store64 pte (mk_pte page (vm_flags area)) m\<rparr>)))"

definition copy_on_write :: "u64 \<Rightarrow> u64 \<Rightarrow> 'z vms_scheme \<Rightarrow> fault + 'z vms_scheme" where
  "copy_on_write vma pte s =
     (let old_page = virt_to_page (pte_to_virt (load64 (ram s) pte))
      in if 1 < refcount (mem_map (heap s) old_page) then
           let (new_page, h) = alloc_pages 0 (heap s);
               s1 = s\<lparr>heap := h\<rparr>
           in bindF (page_to_virt new_page) (\<lambda>new_addr.
                bindF (of_loop (memcpy (ram s1) new_addr (page_addr old_page) (int PAGE_SIZE))) (\<lambda>(_, m).
                  let s2 = s1\<lparr>ram := store64 pte (mk_pte new_addr (vm_flags (vma_mem s1 vma))) m\<rparr>
                  in Inr (s2\<lparr>heap := put_page old_page (heap s2)\<rparr>)))
         else Inr (s\<lparr>ram := store64 pte (load64 (ram s) pte OR PAGE_WRITE) (ram s)\<rparr>))"

definition do_page_fault :: "u64 \<Rightarrow> 'z vms_scheme \<Rightarrow> fault + ctl \<times> 'z vms_scheme" where
  "do_page_fault regs s =
     (let badaddr = (\<lambda>s. get_reg BADADDR regs (ram s)); cause = (\<lambda>s. get_reg CAUSE regs (ram s))
      in bindF (printk ''page fault at %p (%ld)\<newline>'' [badaddr s, cause s] s) (\<lambda>s1.
           let mm = get_current s1
           in bindF (find_vma mm (badaddr s1) s1) (\<lambda>vma.
                bindF (if vma = 0 then Inr (True, s1) else access_error (cause s1) vma s1) (\<lambda>(bad, s2).
                  if bad then bindF (printk ''Segmentation fault\<newline>'' [] s2) (\<lambda>s3. Inr (kthread_exit s3))
                  else
                    let addr = badaddr s2 AND NOT (of_nat PAGE_SIZE - 1)
                    in bindF (pte_alloc_map mm addr s2) (\<lambda>(pte, s3).
                         if load64 (ram s3) pte = 0 then
                           bindF (demand_page vma addr pte s3) (\<lambda>s4. Inr (Stay, s4))
                         else if cause s3 = 15 \<and> load64 (ram s3) pte AND PAGE_WRITE = 0 then
                           bindF (copy_on_write vma pte s3) (\<lambda>s4. Inr (Stay, s4))
                         else
                           bindF (printk ''do_page_fault: unhandled page fault (%ld)\<newline>'' [cause s3] s3)
                             (\<lambda>s4. Inl No_Return))))))"

end
