(* ===== verification/Paging.thy ===== *)
theory Paging
  imports Vm
begin

text \<open>
  Page tables as a map. A three-level table in memory stands for a function from page numbers to entries,
  \<open>lookup\<close>; the lemmas show that the operations of \<open>Vm\<close> act on the table as on this function:
  \<open>pte_alloc_map\<close> leaves it unchanged and returns the place of one entry, and a write there changes it
  for that page and no other. \<open>ptab\<close> is the shape that makes this true: the tables are distinct pages
  of the memory, an entry that is not zero points to a table of the next level, and no two entries to
  the same one.
\<close>

section \<open>Pages of the direct map\<close>

definition dm_page :: "u64 \<Rightarrow> bool" where
  "dm_page a \<longleftrightarrow> (\<exists>p < NUM_PAGES. a = page_addr p)"

lemma dm_page_apart:
  assumes "dm_page a" and "dm_page b" and "a \<noteq> b"
  shows "disjoint_ranges a 4096 b 4096"
proof -
  obtain p q where p: "a = page_addr p" "p < NUM_PAGES" and q: "b = page_addr q" "q < NUM_PAGES"
    using assms(1,2) by (auto simp: dm_page_def)
  have *: "disjoint_ranges (page_addr p) 4096 (page_addr q) 4096" if "p < q" "q < NUM_PAGES" for p q
  proof -
    have u: "unat (page_addr q - page_addr p) = (q - p) * 4096" using unat_page_diff[of p q] that by simp
    then have "unat (- (page_addr q - page_addr p)) = 2 ^ 64 - (q - p) * 4096"
      using unat_minus_swap[of "page_addr q - page_addr p"] that by simp
    moreover have "1 \<le> q - p" "q - p < 0x140000" using that by (simp_all add: NUM_PAGES_def)
    ultimately have "4096 \<le> unat (- (page_addr q - page_addr p))" by simp
    moreover have "4096 \<le> unat (page_addr q - page_addr p)" unfolding u using \<open>1 \<le> q - p\<close> by simp
    ultimately have "4096 \<le> unat (- (page_addr q - page_addr p))" "4096 \<le> unat (page_addr q - page_addr p)" .
    then show ?thesis by (simp add: disjoint_ranges_def)
  qed
  have "p \<noteq> q" using assms(3) p q by auto
  then consider "p < q" | "q < p" by linarith
  then show ?thesis using *[of p q] *[of q p] p q disjoint_ranges_sym by cases blast+
qed

text \<open>An entry made for a page leads back to it.\<close>

lemma page_phys_bits:
  assumes "dm_page a"
  shows "\<And>n. n < 12 \<Longrightarrow> \<not> bit (virt_to_phys a) n"
proof -
  obtain p where "a = page_addr p" using assms by (auto simp: dm_page_def)
  then have "virt_to_phys a = push_bit 12 (of_nat p)"
    by (simp add: page_addr_def PAGE_SIZE_def push_bit_eq_mult)
  then show "\<not> bit (virt_to_phys a) n" if "n < 12" for n using that by (simp add: bit_simps)
qed

lemma pte_to_virt_page:
  assumes "dm_page a" and prot: "\<And>n. 10 \<le> n \<Longrightarrow> \<not> bit prot n"
  shows "pte_to_virt (drop_bit 2 (virt_to_phys a) OR prot) = a"
proof -
  let ?x = "virt_to_phys a"
  have m: "(0x3ff :: u64) = mask 10" by (simp add: mask_eq_exp_minus_1)
  have "push_bit 2 ((drop_bit 2 ?x OR prot) AND NOT 0x3ff) = ?x"
  proof (rule bit_word_eqI)
    fix n assume n: "n < LENGTH(64)"
    show "bit (push_bit 2 ((drop_bit 2 ?x OR prot) AND NOT 0x3ff)) n \<longleftrightarrow> bit ?x n"
    proof (cases "n < 12")
      case True
      then have "2 \<le> n \<longrightarrow> n - 2 < 10" by linarith
      then show ?thesis using True page_phys_bits[OF assms(1) True] unfolding m by (auto simp: bit_simps)
    next
      case False
      then obtain j where j: "n = j + 12" using le_Suc_ex[of 12 n] by (auto simp: add.commute)
      then show ?thesis using n prot[of "j + 10"] unfolding m j by (auto simp: bit_simps add.commute)
    qed
  qed
  then show ?thesis by (simp add: pte_to_virt_def)
qed

section \<open>Entries\<close>

definition ent :: "u64 \<Rightarrow> nat \<Rightarrow> u64" where
  "ent t i = t + of_nat (8 * i)"

lemma ent_offset:
  assumes "i < 512" and "k < 8"
  shows "unat (ent t i + of_nat k - t) = 8 * i + k"
proof -
  have "ent t i + of_nat k - t = of_nat (8 * i + k)" by (simp add: ent_def)
  moreover have "8 * i + k < 2 ^ 64" using assms by simp
  ultimately show ?thesis using unat_small[of "8 * i + k"] by (simp only:)
qed

lemma ent_in_page: "i < 512 \<Longrightarrow> k < 8 \<Longrightarrow> unat (ent t i + of_nat k - t) < 4096"
  by (simp add: ent_offset)

lemma ent_apart_pages:
  assumes "dm_page t" and "dm_page u" and "t \<noteq> u" and "i < 512" and "j < 512"
  shows "apart8 (ent t i) (ent u j)"
proof -
  have d: "disjoint_ranges t 4096 u 4096" by (rule dm_page_apart[OF assms(1-3)])
  have "disjoint_ranges (t + of_nat (8 * i)) 8 u 4096"
    by (rule disjoint_ranges_sym, rule disjoint_ranges_part[OF disjoint_ranges_sym[OF d]]) (use assms(4) in simp_all)
  then have "disjoint_ranges (t + of_nat (8 * i)) 8 (u + of_nat (8 * j)) 8"
    by (rule disjoint_ranges_part) (use assms(5) in simp_all)
  then show ?thesis by (simp add: disjoint_ranges_def apart8_def ent_def)
qed

lemma ent_apart_index:
  assumes "i < 512" and "j < 512" and "i \<noteq> j"
  shows "apart8 (ent t i) (ent t j)"
proof -
  have *: "8 \<le> unat (ent t j - ent t i) \<and> 8 \<le> unat (ent t i - ent t j)" if "i < j" "j < 512" for i j
  proof -
    have "ent t j - ent t i = of_nat (8 * j) - of_nat (8 * i)" by (simp add: ent_def)
    also have "\<dots> = of_nat (8 * j - 8 * i)" using that by (simp add: of_nat_diff)
    finally have u: "unat (ent t j - ent t i) = 8 * j - 8 * i" using that unat_small[of "8 * j - 8 * i"] by simp
    then have "unat (- (ent t j - ent t i)) = 2 ^ 64 - (8 * j - 8 * i)"
      using unat_minus_swap[of "ent t j - ent t i"] that by simp
    then have "unat (ent t i - ent t j) = 2 ^ 64 - (8 * j - 8 * i)" by simp
    then show ?thesis using u that by simp linarith
  qed
  consider "i < j" | "j < i" using assms(3) by linarith
  then show ?thesis using *[of i j] *[of j i] assms(1,2) by cases (auto simp: apart8_def)
qed

lemma ent_eq:
  assumes "dm_page t" and "dm_page u" and "i < 512" and "j < 512" and "ent t i = ent u j"
  shows "t = u \<and> i = j"
proof -
  have na: "\<not> apart8 x x" for x by (simp add: apart8_def)
  have "t = u" using ent_apart_pages[OF assms(1,2) _ assms(3,4)] assms(5) na[of "ent u j"] by auto
  moreover have "i = j" using ent_apart_index[OF assms(3,4), of t] assms(5) na[of "ent u j"] calculation by auto
  ultimately show ?thesis ..
qed

text \<open>Loads of entries, after a write to an entry and under writes outside the table.\<close>

lemma load_ent_store:
  assumes "dm_page t" and "dm_page u" and "i < 512" and "j < 512"
  shows "load64 (store64 (ent u j) v m) (ent t i) = (if t = u \<and> i = j then v else load64 m (ent t i))"
proof (cases "t = u \<and> i = j")
  case False
  then have "apart8 (ent u j) (ent t i)"
    using ent_apart_pages[OF assms(2,1) _ assms(4,3)] ent_apart_index[OF assms(4,3), of u] by auto
  then show ?thesis unfolding if_not_P[OF False] by (rule load_store_apart)
qed simp

lemma load_ent_frame:
  assumes "dm_page t" and "i < 512" and "\<And>x. unat (x - t) < 4096 \<Longrightarrow> m' x = m x"
  shows "load64 m' (ent t i) = load64 m (ent t i)"
  by (rule load64_cong, rule assms(3)) (use ent_in_page[OF assms(2)] in blast)

text \<open>The index of an address, as a number.\<close>

definition pt_idx :: "nat \<Rightarrow> u64 \<Rightarrow> nat" where
  "pt_idx l va = unat va div 2 ^ (12 + 9 * l) mod 512"

lemma pt_idx_less: "pt_idx l va < 512"
  by (simp add: pt_idx_def)

lemma unat_drop_bit: "unat (drop_bit n (x :: u64)) = unat x div 2 ^ n"
  unfolding unat_drop_bit_eq by (rule drop_bit_eq_div)

lemma pt_entry_ent: "pt_entry t (pt_index l va) = ent t (pt_idx l va)"
proof -
  have m: "(0x1ff :: u64) = mask 9" by (simp add: mask_eq_exp_minus_1)
  have "unat (pt_index l va) = unat (drop_bit (12 + 9 * l) va) mod 2 ^ 9"
    unfolding pt_index_def m take_bit_eq_mask[symmetric] unsigned_take_bit_eq by (rule take_bit_eq_mod)
  then have "unat (pt_index l va) = pt_idx l va" unfolding unat_drop_bit by (simp add: pt_idx_def)
  then have "pt_index l va = of_nat (pt_idx l va)" by (metis of_nat_unat ucast_id)
  then show ?thesis by (simp add: pt_entry_def ent_def)
qed

text \<open>Addresses of user space: below \<open>2 ^ 38\<close>. Their page number is what the three indices say.\<close>

definition user :: "u64 \<Rightarrow> bool" where
  "user va \<longleftrightarrow> unat va < 2 ^ 38"

definition page_no :: "u64 \<Rightarrow> nat" where
  "page_no va = unat va div 4096"

lemma pt_idx_user: "user va \<Longrightarrow> pt_idx 2 va < 256"
  unfolding user_def pt_idx_def by (simp add: less_mult_imp_div_less)

lemma page_no_indices:
  assumes "user va"
  shows "page_no va = pt_idx 2 va * 2 ^ 18 + pt_idx 1 va * 2 ^ 9 + pt_idx 0 va"
proof -
  obtain p where p: "p = unat va div 4096" by simp
  obtain a where a: "a = p div 512" by simp
  obtain b where b: "b = a div 512" by simp
  have lt: "p < 2 ^ 26" unfolding p using assms by (simp add: user_def less_mult_imp_div_less)
  have e: "pt_idx 0 va = p mod 512" "pt_idx 1 va = a mod 512" "pt_idx 2 va = b mod 512"
    by (simp_all add: pt_idx_def a b p div_mult2_eq[symmetric])
  have "b < 512" unfolding b a using lt by (simp add: less_mult_imp_div_less)
  then have "b mod 512 = b" by simp
  moreover have "p = a * 512 + p mod 512" "a = b * 512 + a mod 512" unfolding a b by simp_all
  ultimately show ?thesis unfolding page_no_def p[symmetric] e by simp
qed

section \<open>Tables\<close>

text \<open>
  The tables of an address space, by their level: \<open>lv 2\<close> is the root alone. Of the root only the entries
  below 256 are the user's, the others map the kernel and are the same in all address spaces.
\<close>

definition width :: "nat \<Rightarrow> nat" where
  "width l = (if l = 2 then 256 else 512)"

definition child :: "mem \<Rightarrow> u64 \<Rightarrow> nat \<Rightarrow> u64" where
  "child m t i = pte_to_virt (load64 m (ent t i))"

definition used_ents :: "mem \<Rightarrow> (nat \<Rightarrow> u64 set) \<Rightarrow> nat \<Rightarrow> (u64 \<times> nat) set" where
  "used_ents m lv l = {(t, i). t \<in> lv l \<and> i < width l \<and> load64 m (ent t i) \<noteq> 0}"

definition ptab :: "mem \<Rightarrow> (nat \<Rightarrow> u64 set) \<Rightarrow> bool" where
  "ptab m lv \<longleftrightarrow>
     (\<forall>l \<le> 2. \<forall>t \<in> lv l. dm_page t) \<and>
     (\<forall>l \<le> 2. \<forall>k \<le> 2. l \<noteq> k \<longrightarrow> lv l \<inter> lv k = {}) \<and>
     (\<forall>l < 2. (\<lambda>(t, i). child m t i) ` used_ents m lv (Suc l) \<subseteq> lv l \<and>
        inj_on (\<lambda>(t, i). child m t i) (used_ents m lv (Suc l)))"

lemma ptabI:
  assumes "\<And>l t. l \<le> 2 \<Longrightarrow> t \<in> lv l \<Longrightarrow> dm_page t" and "\<And>l k. l \<le> 2 \<Longrightarrow> k \<le> 2 \<Longrightarrow> l \<noteq> k \<Longrightarrow> lv l \<inter> lv k = {}"
    and "\<And>l t i. l < 2 \<Longrightarrow> (t, i) \<in> used_ents m lv (Suc l) \<Longrightarrow> child m t i \<in> lv l"
    and "\<And>l t i u j. l < 2 \<Longrightarrow> (t, i) \<in> used_ents m lv (Suc l) \<Longrightarrow> (u, j) \<in> used_ents m lv (Suc l) \<Longrightarrow>
      child m t i = child m u j \<Longrightarrow> (t, i) = (u, j)"
  shows "ptab m lv"
  unfolding ptab_def inj_on_def using assms by (intro conjI allI impI ballI) auto

lemma ptabD:
  assumes "ptab m lv"
  shows "l \<le> 2 \<Longrightarrow> t \<in> lv l \<Longrightarrow> dm_page t"
    and "l \<le> 2 \<Longrightarrow> k \<le> 2 \<Longrightarrow> l \<noteq> k \<Longrightarrow> t \<in> lv l \<Longrightarrow> t \<notin> lv k"
    and "l < 2 \<Longrightarrow> (t, i) \<in> used_ents m lv (Suc l) \<Longrightarrow> child m t i \<in> lv l"
    and "l < 2 \<Longrightarrow> (t, i) \<in> used_ents m lv (Suc l) \<Longrightarrow> (u, j) \<in> used_ents m lv (Suc l) \<Longrightarrow>
      child m t i = child m u j \<Longrightarrow> t = u \<and> i = j"
proof -
  note p = assms[unfolded ptab_def]
  show "l \<le> 2 \<Longrightarrow> t \<in> lv l \<Longrightarrow> dm_page t" using p by blast
  show "l \<le> 2 \<Longrightarrow> k \<le> 2 \<Longrightarrow> l \<noteq> k \<Longrightarrow> t \<in> lv l \<Longrightarrow> t \<notin> lv k" using p by blast
  assume l: "l < 2"
  have i: "(\<lambda>(t, i). child m t i) ` used_ents m lv (Suc l) \<subseteq> lv l"
    "inj_on (\<lambda>(t, i). child m t i) (used_ents m lv (Suc l))" using p l by blast+
  show "(t, i) \<in> used_ents m lv (Suc l) \<Longrightarrow> child m t i \<in> lv l" using i(1) by force
  show "(t, i) \<in> used_ents m lv (Suc l) \<Longrightarrow> (u, j) \<in> used_ents m lv (Suc l) \<Longrightarrow>
      child m t i = child m u j \<Longrightarrow> t = u \<and> i = j"
    using inj_onD[OF i(2), of "(t, i)" "(u, j)"] by simp
qed

lemma width_le: "i < width l \<Longrightarrow> i < 512"
  by (simp add: width_def split: if_splits)

lemma pt_idx_width: "user va \<Longrightarrow> l \<le> 2 \<Longrightarrow> pt_idx l va < width l"
  using pt_idx_user[of va] pt_idx_less[of l va] by (simp add: width_def)

text \<open>The walk: the place of the entry of an address, if all tables on the way are there, and the entry.\<close>

primrec walk :: "nat \<Rightarrow> mem \<Rightarrow> u64 \<Rightarrow> u64 \<Rightarrow> u64 option" where
  "walk 0 m t va = Some (ent t (pt_idx 0 va))"
| "walk (Suc l) m t va =
     (if load64 m (ent t (pt_idx (Suc l) va)) = 0 then None else walk l m (child m t (pt_idx (Suc l) va)) va)"

definition look :: "nat \<Rightarrow> mem \<Rightarrow> u64 \<Rightarrow> u64 \<Rightarrow> u64" where
  "look l m t va = (case walk l m t va of None \<Rightarrow> 0 | Some e \<Rightarrow> load64 m e)"

lemma look_0: "look 0 m t va = load64 m (ent t (pt_idx 0 va))"
  by (simp add: look_def)

lemma look_Suc: "look (Suc l) m t va =
    (if load64 m (ent t (pt_idx (Suc l) va)) = 0 then 0 else look l m (child m t (pt_idx (Suc l) va)) va)"
  by (simp add: look_def)

definition lookup :: "mem \<Rightarrow> u64 \<Rightarrow> u64 \<Rightarrow> u64" where
  "lookup m pg va = look 2 m pg va"

text \<open>Where a walk ends: in an entry of a table of the last level, which determines the page number.\<close>

lemma walk_leaf:
  assumes "ptab m lv" and "t \<in> lv l" and "l \<le> 2" and "user va" and "walk l m t va = Some e"
  shows "\<exists>u \<in> lv 0. e = ent u (pt_idx 0 va)"
  using assms
proof (induction l arbitrary: t)
  case (Suc l)
  let ?i = "pt_idx (Suc l) va"
  have "(t, ?i) \<in> used_ents m lv (Suc l)"
    using Suc.prems pt_idx_width[of va "Suc l"] by (auto simp: used_ents_def split: if_splits)
  then have "child m t ?i \<in> lv l" using ptabD(3)[OF Suc.prems(1)] Suc.prems(3) by simp
  then show ?case using Suc.IH[of "child m t ?i"] Suc.prems by (auto split: if_splits)
qed auto

lemma walk_same:
  assumes "ptab m lv" and "t \<in> lv l" and "u \<in> lv l" and "l \<le> 2" and "user va" and "user vb"
    and "walk l m t va = Some e" and "walk l m u vb = Some e"
  shows "t = u \<and> (\<forall>k \<le> l. pt_idx k va = pt_idx k vb)"
  using assms
proof (induction l arbitrary: t u)
  case 0
  have "dm_page t" "dm_page u" using ptabD(1)[OF 0(1), of 0] 0(2,3) by simp_all
  moreover have "ent t (pt_idx 0 va) = ent u (pt_idx 0 vb)" using 0(7,8) by simp
  ultimately show ?case using ent_eq[of t u, OF _ _ pt_idx_less pt_idx_less] by simp
next
  case (Suc l)
  let ?i = "pt_idx (Suc l) va" and ?j = "pt_idx (Suc l) vb"
  have l: "l < 2" using Suc.prems(4) by simp
  have used: "(t, ?i) \<in> used_ents m lv (Suc l)" "(u, ?j) \<in> used_ents m lv (Suc l)"
    using Suc.prems pt_idx_width[of va "Suc l"] pt_idx_width[of vb "Suc l"]
    by (auto simp: used_ents_def split: if_splits)
  have "child m t ?i = child m u ?j \<and> (\<forall>k \<le> l. pt_idx k va = pt_idx k vb)"
  proof (rule Suc.IH[OF Suc.prems(1)])
    show "child m t ?i \<in> lv l" "child m u ?j \<in> lv l" using ptabD(3)[OF Suc.prems(1) l] used by blast+
    show "walk l m (child m t ?i) va = Some e" "walk l m (child m u ?j) vb = Some e"
      using Suc.prems(7,8) by (auto split: if_splits)
  qed (use Suc.prems l in simp_all)
  then show ?case using ptabD(4)[OF Suc.prems(1) l used] by (auto simp: le_Suc_eq)
qed

lemma walk_page:
  assumes "ptab m lv" and "lv 2 = {pg}" and "user va" and "user vb"
    and "walk 2 m pg va = Some e" and "walk 2 m pg vb = Some e"
  shows "page_no va = page_no vb"
  using walk_same[OF assms(1) _ _ _ assms(3-6)] assms(2) page_no_indices[OF assms(3)] page_no_indices[OF assms(4)]
  by simp

lemma page_no_idx:
  assumes "page_no va = page_no vb"
  shows "pt_idx l va = pt_idx l vb"
proof -
  have "pt_idx l v = page_no v div 2 ^ (9 * l) mod 512" for v
    by (simp add: pt_idx_def page_no_def div_mult2_eq[symmetric] power_add)
  then show ?thesis using assms by simp
qed

lemma walk_page_no: "page_no va = page_no vb \<Longrightarrow> walk l m t va = walk l m t vb"
  by (induction l arbitrary: t) (simp_all add: page_no_idx[of va vb])

section \<open>Writes\<close>

text \<open>An entry of the last level: the tables stay, and the entry is another one for the pages that lead there.\<close>

lemma ptab_cong:
  assumes "ptab m lv" and "\<And>l t i. 0 < l \<Longrightarrow> l \<le> 2 \<Longrightarrow> t \<in> lv l \<Longrightarrow> i < width l \<Longrightarrow>
    load64 m' (ent t i) = load64 m (ent t i)"
  shows "ptab m' lv"
proof -
  have c: "child m' t i = child m t i" if "(t, i) \<in> used_ents m lv (Suc l)" "l < 2" for t i l
    using assms(2)[of "Suc l" t i] that by (simp add: child_def used_ents_def)
  have u: "used_ents m' lv (Suc l) = used_ents m lv (Suc l)" if "l < 2" for l
    using assms(2)[of "Suc l"] that by (auto simp: used_ents_def)
  show ?thesis
  proof (rule ptabI)
    fix l t i assume l: "l < 2" "(t, i) \<in> used_ents m' lv (Suc l)"
    then have t: "(t, i) \<in> used_ents m lv (Suc l)" using u by simp
    then show "child m' t i \<in> lv l" using ptabD(3)[OF assms(1) l(1)] c l(1) by simp
    fix v j assume w: "(v, j) \<in> used_ents m' lv (Suc l)" and e: "child m' t i = child m' v j"
    then have v: "(v, j) \<in> used_ents m lv (Suc l)" using u l(1) by simp
    then show "(t, i) = (v, j)" using ptabD(4)[OF assms(1) l(1) t v] e c[OF t] c[OF v] l(1) by simp
  qed (use ptabD(1,2)[OF assms(1)] in blast)+
qed

lemma walk_cong:
  assumes "ptab m lv" and "\<And>l t i. 0 < l \<Longrightarrow> l \<le> 2 \<Longrightarrow> t \<in> lv l \<Longrightarrow> i < width l \<Longrightarrow>
    load64 m' (ent t i) = load64 m (ent t i)"
  shows "l \<le> 2 \<Longrightarrow> t \<in> lv l \<Longrightarrow> user va \<Longrightarrow> walk l m' t va = walk l m t va"
proof (induction l arbitrary: t)
  case (Suc l)
  let ?i = "pt_idx (Suc l) va"
  have e: "load64 m' (ent t ?i) = load64 m (ent t ?i)"
    using assms(2)[of "Suc l" t ?i] Suc.prems pt_idx_width[of va "Suc l"] by simp
  show ?case
  proof (cases "load64 m (ent t ?i) = 0")
    case False
    then have "(t, ?i) \<in> used_ents m lv (Suc l)" using Suc.prems pt_idx_width[of va "Suc l"] by (simp add: used_ents_def)
    then have "child m t ?i \<in> lv l" using ptabD(3)[OF assms(1)] Suc.prems(1) by simp
    then show ?thesis using Suc e False by (simp add: child_def)
  qed (simp add: e)
qed simp

lemma leaf_store_entries:
  assumes "ptab m lv" and "u \<in> lv 0" and "j < 512" and "0 < l" and "l \<le> 2" and "t \<in> lv l" and "i < width l"
  shows "load64 (store64 (ent u j) v m) (ent t i) = load64 m (ent t i)"
  using load_ent_store[OF ptabD(1)[OF assms(1,5,6)] ptabD(1)[OF assms(1) _ assms(2)] width_le[OF assms(7)] assms(3)]
    ptabD(2)[OF assms(1), of 0 l u] assms by auto

lemma leaf_store:
  assumes p: "ptab m lv" "lv 2 = {pg}" and va: "user va" and w: "walk 2 m pg va = Some e"
  shows "ptab (store64 e v m) lv"
    and "user vb \<Longrightarrow> walk 2 (store64 e v m) pg vb = walk 2 m pg vb"
    and "user vb \<Longrightarrow> lookup (store64 e v m) pg vb = (if page_no vb = page_no va then v else lookup m pg vb)"
proof -
  obtain u where u: "u \<in> lv 0" "e = ent u (pt_idx 0 va)" using walk_leaf[OF p(1) _ _ va w] p(2) by auto
  note c = leaf_store_entries[OF p(1) u(1) pt_idx_less, of _ _ _ 0 va v, folded u(2)]
  show "ptab (store64 e v m) lv" by (rule ptab_cong[OF p(1) c])
  show wb: "walk 2 (store64 e v m) pg vb = walk 2 m pg vb" if "user vb" for vb
    by (rule walk_cong[OF p(1) c]) (use that p(2) in simp_all)
  assume vb: "user vb"
  show "lookup (store64 e v m) pg vb = (if page_no vb = page_no va then v else lookup m pg vb)"
  proof (cases "page_no vb = page_no va")
    case True
    then have "walk 2 m pg vb = Some e" using w walk_page_no[of vb va] by simp
    then show ?thesis using True wb[OF vb] by (simp add: lookup_def look_def)
  next
    case False
    show ?thesis
    proof (cases "walk 2 m pg vb")
      case (Some f)
      then have "e \<noteq> f" using walk_page[OF p vb va _ w] False by auto
      obtain t where t: "t \<in> lv 0" "f = ent t (pt_idx 0 vb)" using walk_leaf[OF p(1) _ _ vb Some] p(2) by auto
      have "load64 (store64 e v m) f = load64 m f"
        using load_ent_store[of t u "pt_idx 0 vb" "pt_idx 0 va" v m] ptabD(1)[OF p(1), of 0] t u \<open>e \<noteq> f\<close> pt_idx_less
        by (auto split: if_splits)
      then show ?thesis using Some wb[OF vb] False by (simp add: lookup_def look_def)
    qed (use wb[OF vb] False in \<open>simp add: lookup_def look_def\<close>)
  qed
qed

text \<open>Memory outside the tables.\<close>

lemma ptab_frame:
  assumes p: "ptab m lv" and m: "\<And>l t x. l \<le> 2 \<Longrightarrow> t \<in> lv l \<Longrightarrow> unat (x - t) < 4096 \<Longrightarrow> m' x = m x"
  shows "ptab m' lv"
    and "l \<le> 2 \<Longrightarrow> t \<in> lv l \<Longrightarrow> user va \<Longrightarrow> walk l m' t va = walk l m t va"
    and "l \<le> 2 \<Longrightarrow> t \<in> lv l \<Longrightarrow> user va \<Longrightarrow> look l m' t va = look l m t va"
proof -
  have e: "load64 m' (ent t i) = load64 m (ent t i)" if "l \<le> 2" "t \<in> lv l" "i < width l" for l t i
    using load_ent_frame[OF ptabD(1)[OF p that(1,2)] width_le[OF that(3)]] m[OF that(1,2)] by blast
  show "ptab m' lv" by (rule ptab_cong[OF p e]) auto
  have w: "walk l m' t va = walk l m t va" if "l \<le> 2" "t \<in> lv l" "user va" for l t va
    by (rule walk_cong[OF p e that]) auto
  show "l \<le> 2 \<Longrightarrow> t \<in> lv l \<Longrightarrow> user va \<Longrightarrow> walk l m' t va = walk l m t va" by (rule w)
  assume l: "l \<le> 2" "t \<in> lv l" "user va"
  have "load64 m' f = load64 m f" if f: "walk l m t va = Some f" for f
  proof -
    obtain u where u: "u \<in> lv 0" "f = ent u (pt_idx 0 va)" using walk_leaf[OF p l(2,1,3) f] by auto
    show ?thesis using e[of 0 u "pt_idx 0 va"] u pt_idx_width[OF l(3), of 0] by simp
  qed
  then show "look l m' t va = look l m t va" using w[OF l] by (auto simp: look_def split: option.split)
qed

section \<open>Fresh pages\<close>

lemma alloc_page_heap:
  assumes "mm_inv s L" and "alloc_pages 0 s = (Some p, s')"
  shows "p < NUM_PAGES" and "page_addr p \<notin> fst ` L" and "mm_inv s' (insert (page_addr p, 4096) L)"
    and "refcount (mem_map s' p) = 1" and "q \<noteq> p \<Longrightarrow> refcount (mem_map s' q) = refcount (mem_map s q)"
proof -
  obtain F C A P S U where inv: "heap_inv s F C A P S U" and L: "L = page_chunk ` P \<union> obj_chunk ` U"
    using assms(1) by (auto simp: mm_inv_def)
  show "p < NUM_PAGES" by (rule fresh_page(1)[OF inv assms(2)])
  obtain F' j where i: "heap_inv s' F' C (insert (p, 0) A) (insert (p, 0) P) S U"
    using page_take(1)[OF inv assms(2)] by blast
  have "insert (page_addr p, 4096) L = page_chunk ` insert (p, 0) P \<union> obj_chunk ` U"
    by (simp add: L PAGE_SIZE_def)
  then show m: "mm_inv s' (insert (page_addr p, 4096) L)" using i unfolding mm_inv_def by blast
  have n: "(page_addr p, 4096) \<notin> L"
    using page_chunk_in[OF inv fresh_page(1)[OF inv assms(2)], of 0] page_take(2)[OF inv assms(2)] L
    by (simp add: PAGE_SIZE_def)
  show "page_addr p \<notin> fst ` L"
  proof
    assume "page_addr p \<in> fst ` L"
    then obtain k where k: "(page_addr p, k) \<in> L" by auto
    then have "k = 4096" using ha.same_address[OF m, of "page_addr p" k 4096] by simp
    then show False using k n by simp
  qed
  note al = alloc_pages_inv[OF heap_invD(1)[OF inv] assms(2)]
  show "refcount (mem_map s' p) = 1" by (rule al(7))
  show "q \<noteq> p \<Longrightarrow> refcount (mem_map s' q) = refcount (mem_map s q)" using al(2) by (simp add: only_orders_def)
qed

lemma kmalloc_page_alloc:
  "kmalloc (of_nat PAGE_SIZE) s = Inr (a, s') \<longleftrightarrow> (\<exists>p. alloc_pages 0 s = (Some p, s') \<and> a = page_addr p)"
proof -
  have o: "kmalloc_order 0 4096 = Inr 0" by (simp add: kmalloc_order.simps PAGE_SIZE_def)
  have "kmalloc (of_nat PAGE_SIZE) s = (let (page, s1) = alloc_pages 0 s
      in bindF (page_to_virt page) (\<lambda>addr. Inr (addr, s1)))"
    using o by (simp add: kmalloc_def PAGE_SIZE_def CACHE_MAX_INDEX_def CACHE_MIN_SIZE_def)
  then show ?thesis
    by (auto simp: bindF_def page_to_virt_def split: prod.splits option.splits)
qed

lemma kmalloc_page:
  assumes "mm_inv s L" and "kmalloc (of_nat PAGE_SIZE) s = Inr (a, s')"
  shows "dm_page a" and "a \<notin> fst ` L" and "mm_inv s' (insert (a, 4096) L)"
    and "refcount (mem_map s' (virt_to_page a)) = 1"
    and "q \<noteq> virt_to_page a \<Longrightarrow> refcount (mem_map s' q) = refcount (mem_map s q)"
proof -
  obtain p where p: "alloc_pages 0 s = (Some p, s')" "a = page_addr p" using assms(2) kmalloc_page_alloc by blast
  note al = alloc_page_heap[OF assms(1) p(1)]
  have v: "virt_to_page a = p" using page_addr_page(1)[OF al(1)] p(2) by simp
  show "dm_page a" using al(1) p(2) by (auto simp: dm_page_def)
  show "a \<notin> fst ` L" "mm_inv s' (insert (a, 4096) L)" using al(2,3) p(2) by simp_all
  show "refcount (mem_map s' (virt_to_page a)) = 1" unfolding v by (rule al(4))
  show "q \<noteq> virt_to_page a \<Longrightarrow> refcount (mem_map s' q) = refcount (mem_map s q)" unfolding v by (rule al(5))
qed

text \<open>Which memory may have changed, in pages, and what is not in them.\<close>

definition only_in :: "u64 set \<Rightarrow> mem \<Rightarrow> mem \<Rightarrow> bool" where
  "only_in P m m' \<longleftrightarrow> (\<forall>x. m' x \<noteq> m x \<longrightarrow> (\<exists>p \<in> P. unat (x - p) < 4096))"

lemma only_in_refl: "only_in P m m"
  by (simp add: only_in_def)

lemma only_in_trans:
  assumes "only_in P m m1" and "only_in Q m1 m2" and "P \<subseteq> R" and "Q \<subseteq> R"
  shows "only_in R m m2"
  using assms unfolding only_in_def by (metis subsetD)

lemma only_in_mono: "only_in P m m' \<Longrightarrow> P \<subseteq> Q \<Longrightarrow> only_in Q m m'"
  unfolding only_in_def by blast

lemma store_ent_only_in:
  assumes "i < 512"
  shows "only_in {t} m (store64 (ent t i) v m)"
proof -
  have "unat (x - t) < 4096" if x: "unat (x - ent t i) < 8" for x
  proof -
    have "ent t i + of_nat (unat (x - ent t i)) = x" by simp
    then show ?thesis using ent_in_page[OF assms x, of t] by (simp only:)
  qed
  then show ?thesis by (auto simp: only_in_def store64_def split: if_splits)
qed

lemma chunk_byte:
  assumes "mm_inv h L" and "(a, n) \<in> L" and "unat (x - a) < n"
  shows "unat (virt_to_phys x) \<in> chunk_bytes (a, n)"
proof -
  have "unat (virt_to_phys a) + n - 1 \<in> chunk_bytes (a, n)" using assms(3) by simp
  then have "unat (virt_to_phys a) + n - 1 < NUM_PAGES * PAGE_SIZE" using ha.in_memory[OF assms(1,2)] by blast
  then have lt: "unat (virt_to_phys a) + unat (x - a) < 2 ^ LENGTH(64)"
    using assms(3) by (simp add: NUM_PAGES_def PAGE_SIZE_def)
  have "virt_to_phys x = virt_to_phys a + (x - a)" by (simp add: virt_to_phys_def)
  then have "unat (virt_to_phys x) = unat (virt_to_phys a) + unat (x - a)"
    using unat_add_lem[THEN iffD1, OF lt] by simp
  then show ?thesis using assms(3) by simp
qed

lemma chunk_kept:
  assumes m: "mm_inv h L" and c: "(c, n) \<in> L" and P: "only_in P m m'" "\<And>p. p \<in> P \<Longrightarrow> (p, 4096) \<in> L" "c \<notin> P"
    and x: "unat (x - c) < n"
  shows "m' x = m x"
proof (rule ccontr)
  assume "m' x \<noteq> m x"
  then obtain p where p: "p \<in> P" "unat (x - p) < 4096" using P(1) by (auto simp: only_in_def)
  have "(c, n) \<noteq> (p, 4096)" using p(1) P(3) by auto
  then have "chunk_bytes (c, n) \<inter> chunk_bytes (p, 4096) = {}"
    using ha.chunks_disjoint[OF m c P(2)[OF p(1)]] by blast
  then show False using chunk_byte[OF m c x] chunk_byte[OF m P(2)[OF p(1)] p(2)] by blast
qed

section \<open>Address spaces\<close>

text \<open>The page table of an address space, whose tables are pages of the heap.\<close>

definition as_inv :: "'z sched_scheme \<Rightarrow> u64 \<Rightarrow> (nat \<Rightarrow> u64 set) \<Rightarrow> chunk set \<Rightarrow> bool" where
  "as_inv s pg lv L \<longleftrightarrow> mm_inv (heap s) L \<and> ptab (ram s) lv \<and> lv 2 = {pg} \<and> (\<forall>l \<le> 2. \<forall>t \<in> lv l. (t, 4096) \<in> L)"

definition tables :: "(nat \<Rightarrow> u64 set) \<Rightarrow> u64 set" where
  "tables lv = lv 0 \<union> lv 1 \<union> lv 2"

lemma le_2: "l \<le> (2 :: nat) \<longleftrightarrow> l = 0 \<or> l = 1 \<or> l = 2"
  by auto

lemma as_invD:
  assumes "as_inv s pg lv L"
  shows "mm_inv (heap s) L" and "ptab (ram s) lv" and "lv 2 = {pg}" and "t \<in> tables lv \<Longrightarrow> (t, 4096) \<in> L"
    and "l \<le> 2 \<Longrightarrow> t \<in> lv l \<Longrightarrow> t \<in> tables lv" and "l \<le> 2 \<Longrightarrow> t \<in> lv l \<Longrightarrow> (t, 4096) \<in> L"
  using assms by (auto simp: as_inv_def tables_def le_2)

text \<open>An address space outside the changed pages.\<close>

lemma as_inv_frame:
  assumes a: "as_inv s pg lv L" and m: "mm_inv (heap s') L'" and L: "L \<subseteq> L'"
    and P: "only_in P (ram s) (ram s')" "\<And>p. p \<in> P \<Longrightarrow> (p, 4096) \<in> L'" "P \<inter> tables lv = {}"
  shows "as_inv s' pg lv L'" and "user va \<Longrightarrow> walk 2 (ram s') pg va = walk 2 (ram s) pg va"
    and "user va \<Longrightarrow> lookup (ram s') pg va = lookup (ram s) pg va"
proof -
  have k: "ram s' x = ram s x" if "l \<le> 2" "t \<in> lv l" "unat (x - t) < 4096" for l t x
  proof (rule chunk_kept[OF m _ P(1,2) _ that(3)])
    show "(t, 4096) \<in> L'" using as_invD(6)[OF a that(1,2)] L by blast
    show "t \<notin> P" using as_invD(5)[OF a that(1,2)] P(3) by blast
  qed
  note f = ptab_frame[OF as_invD(2)[OF a] k]
  have "(t, 4096) \<in> L'" if "l \<le> 2" "t \<in> lv l" for l t using as_invD(6)[OF a that] L by (rule subsetD[rotated])
  then show "as_inv s' pg lv L'" using f(1) m as_invD(3)[OF a] by (simp add: as_inv_def)
  show "user va \<Longrightarrow> walk 2 (ram s') pg va = walk 2 (ram s) pg va" using f(2)[where l = 2 and t = pg and va = va] as_invD(3)[OF a] by simp
  show "user va \<Longrightarrow> lookup (ram s') pg va = lookup (ram s) pg va"
    using f(3)[where l = 2 and t = pg and va = va] as_invD(3)[OF a] by (simp add: lookup_def)
qed

section \<open>A new table\<close>

lemma table_entry:
  assumes "dm_page a"
  shows "pte_to_virt (drop_bit 2 (virt_to_phys a) OR PAGE_PRESENT) = a"
    and "drop_bit 2 (virt_to_phys a) OR PAGE_PRESENT \<noteq> 0"
proof -
  show "pte_to_virt (drop_bit 2 (virt_to_phys a) OR PAGE_PRESENT) = a"
    by (rule pte_to_virt_page[OF assms]) (auto simp: PAGE_PRESENT_def bit_simps)
  have "bit (drop_bit 2 (virt_to_phys a) OR PAGE_PRESENT) 0" by (simp add: PAGE_PRESENT_def bit_simps)
  then show "drop_bit 2 (virt_to_phys a) OR PAGE_PRESENT \<noteq> 0" by (metis bit_0_eq bot_apply bot_bool_def)
qed

definition zero_page :: "u64 \<Rightarrow> mem \<Rightarrow> mem" where
  "zero_page a m = (\<lambda>x. if unat (x - a) < 4096 then 0 else m x)"

lemma memset_page: "memset m a 0 (int PAGE_SIZE) = Some (a, zero_page a m)"
proof -
  have "(4096 :: nat) < 2 ^ 64" by simp
  from memset_loop_bytes[OF this, of m a 0] show ?thesis by (simp add: memset_def PAGE_SIZE_def zero_page_def)
qed

lemma zero_page_only_in: "only_in {a} m (zero_page a m)"
  by (auto simp: only_in_def zero_page_def)

lemma load_zero_page:
  assumes "dm_page a" and "dm_page u" and "j < 512"
  shows "load64 (zero_page a m) (ent u j) = (if u = a then 0 else load64 m (ent u j))"
proof (cases "u = a")
  case True
  then show ?thesis using load_memset_zero[of "8 * j" 4096 a m] assms(3) by (simp add: zero_page_def ent_def)
next
  case False
  have "zero_page a m x = m x" if "unat (x - u) < 4096" for x
    using disjoint_rangesD[OF dm_page_apart[OF assms(2,1) False] that] by (simp add: zero_page_def)
  then have "load64 (zero_page a m) (ent u j) = load64 m (ent u j)" by (rule load_ent_frame[OF assms(2,3)])
  then show ?thesis using False by simp
qed

text \<open>What \<open>new_table\<close> leaves in the entries.\<close>

definition table_added :: "u64 \<Rightarrow> nat \<Rightarrow> u64 \<Rightarrow> mem \<Rightarrow> mem" where
  "table_added t i a m = store64 (ent t i) (drop_bit 2 (virt_to_phys a) OR PAGE_PRESENT) (zero_page a m)"

lemma new_table_added:
  assumes "kmalloc (of_nat PAGE_SIZE) (heap s) = Inr (a, h)"
  shows "new_table (ent t i) s = Inr (s\<lparr>heap := h, ram := table_added t i a (ram s)\<rparr>)"
  using assms by (simp add: new_table_def memset_page table_added_def)

lemma load_table_added:
  assumes "dm_page t" and "dm_page a" and "t \<noteq> a" and "i < 512" and "dm_page u" and "j < 512"
  shows "load64 (table_added t i a m) (ent u j) =
    (if u = t \<and> j = i then drop_bit 2 (virt_to_phys a) OR PAGE_PRESENT
     else if u = a then 0 else load64 m (ent u j))"
  unfolding table_added_def load_ent_store[OF assms(5,1,6,4)] load_zero_page[OF assms(2,5,6)] by (rule refl)

lemma table_added_only_in:
  assumes "i < 512"
  shows "only_in {t, a} m (table_added t i a m)"
  unfolding table_added_def
  by (rule only_in_trans[OF zero_page_only_in store_ent_only_in[OF assms]]) auto

lemma walk_empty:
  assumes "\<And>j. j < 512 \<Longrightarrow> load64 m (ent p j) = 0"
  shows "look l m p va = 0"
  using assms pt_idx_less by (cases l) (simp_all add: look_0 look_Suc)

lemma table_added_look:
  assumes p: "ptab m lv" and l: "l < 2" and t: "t \<in> lv (Suc l)" "i < width (Suc l)" "load64 m (ent t i) = 0"
    and a: "dm_page a" "\<And>k. k \<le> 2 \<Longrightarrow> a \<notin> lv k"
  shows "n \<le> 2 \<Longrightarrow> u \<in> lv n \<Longrightarrow> user va \<Longrightarrow> look n (table_added t i a m) u va = look n m u va"
proof (induction n arbitrary: u)
  have dt: "dm_page t" and ta: "t \<noteq> a" using ptabD(1)[OF p, of "Suc l" t] t(1) a(2)[of "Suc l"] l by auto
  note e = load_table_added[OF dt a(1) ta width_le[OF t(2)]]
  have ua: "u \<noteq> a" if "u \<in> lv n" "n \<le> 2" for u n using a(2) that by auto
  case 0
  have "u \<noteq> t" using ptabD(2)[OF p, of 0 "Suc l" u] 0 t(1) l by auto
  then show ?case
    using e[OF ptabD(1)[OF p 0(1,2)] pt_idx_less] ua[OF 0(2,1)] by (simp add: look_0)
next
  have dt: "dm_page t" and ta: "t \<noteq> a" using ptabD(1)[OF p, of "Suc l" t] t(1) a(2)[of "Suc l"] l by auto
  note e = load_table_added[OF dt a(1) ta width_le[OF t(2)]]
  case (Suc n)
  let ?j = "pt_idx (Suc n) va" and ?m = "table_added t i a m"
  have du: "dm_page u" by (rule ptabD(1)[OF p Suc.prems(1,2)])
  have ua: "u \<noteq> a" using a(2)[OF Suc.prems(1)] Suc.prems(2) by auto
  show ?case
  proof (cases "u = t \<and> ?j = i")
    case True
    have "load64 ?m (ent u ?j) \<noteq> 0" "child ?m u ?j = a"
      using e[OF du pt_idx_less[of "Suc n" va]] True table_entry[OF a(1)] by (simp_all add: child_def)
    moreover have "look n ?m a va = 0" by (rule walk_empty) (use e[OF a(1)] ta in auto)
    ultimately show ?thesis using True t(3) by (simp add: look_Suc)
  next
    case False
    then have le: "load64 ?m (ent u ?j) = load64 m (ent u ?j)" using e[OF du pt_idx_less] ua by auto
    show ?thesis
    proof (cases "load64 m (ent u ?j) = 0")
      case nz: False
      then have "(u, ?j) \<in> used_ents m lv (Suc n)"
        using Suc.prems pt_idx_width[of va "Suc n"] by (simp add: used_ents_def)
      then have "child m u ?j \<in> lv n" using ptabD(3)[OF p] Suc.prems(1) by simp
      then show ?thesis using Suc.IH[of "child m u ?j"] Suc.prems le nz by (simp add: look_Suc child_def)
    qed (simp add: look_Suc le)
  qed
qed

lemma table_added_used:
  assumes p: "ptab m lv" and l: "l < 2" and t: "t \<in> lv (Suc l)" "i < width (Suc l)" "load64 m (ent t i) = 0"
    and a: "dm_page a" "\<forall>k \<le> 2. a \<notin> lv k"
    and k: "k < 2" and u: "(u, j) \<in> used_ents (table_added t i a m) (lv(l := insert a (lv l))) (Suc k)"
  shows "(u, j) = (t, i) \<and> k = l \<or> (u, j) \<in> used_ents m lv (Suc k) \<and> child (table_added t i a m) u j = child m u j"
proof -
  let ?m = "table_added t i a m" and ?lv = "lv(l := insert a (lv l))"
  have dt: "dm_page t" and ta: "t \<noteq> a" using ptabD(1)[OF p, of "Suc l" t] t(1) a(2) l by auto
  note e = load_table_added[OF dt a(1) ta width_le[OF t(2)], of _ _ m]
  have uj: "u \<in> ?lv (Suc k)" "j < width (Suc k)" "load64 ?m (ent u j) \<noteq> 0" using u by (simp_all add: used_ents_def)
  have "u \<noteq> a"
  proof
    assume "u = a"
    then have "load64 ?m (ent u j) = 0" using e[OF a(1) width_le[OF uj(2)]] ta by auto
    then show False using uj(3) by simp
  qed
  then have ul: "u \<in> lv (Suc k)" using uj(1) by (auto split: if_splits)
  have du: "dm_page u" using ptabD(1)[OF p _ ul] k by simp
  show ?thesis
  proof (cases "(u, j) = (t, i)")
    case True
    then have "k = l" using ptabD(2)[OF p, of "Suc k" "Suc l" u] ul t(1) k l by auto
    then show ?thesis using True by simp
  next
    case False
    then have "load64 ?m (ent u j) = load64 m (ent u j)" using e[OF du width_le[OF uj(2)]] \<open>u \<noteq> a\<close> by auto
    then show ?thesis using ul uj(2,3) by (simp add: used_ents_def child_def)
  qed
qed

lemma table_added_ptab:
  assumes p: "ptab m lv" and l: "l < 2" and t: "t \<in> lv (Suc l)" "i < width (Suc l)" "load64 m (ent t i) = 0"
    and a: "dm_page a" "\<And>k. k \<le> 2 \<Longrightarrow> a \<notin> lv k"
  shows "ptab (table_added t i a m) (lv(l := insert a (lv l)))"
proof -
  let ?m = "table_added t i a m" and ?lv = "lv(l := insert a (lv l))"
  have dt: "dm_page t" and ta: "t \<noteq> a" using ptabD(1)[OF p, of "Suc l" t] t(1) a(2)[of "Suc l"] l by auto
  have "load64 ?m (ent t i) = drop_bit 2 (virt_to_phys a) OR PAGE_PRESENT"
    using load_table_added[OF dt a(1) ta width_le[OF t(2)] dt width_le[OF t(2)]] by simp
  then have ct: "child ?m t i = a" using table_entry(1)[OF a(1)] by (simp add: child_def)
  have al: "\<forall>k \<le> 2. a \<notin> lv k" using a(2) by blast
  note old = table_added_used[OF p l t a(1) al]
  have na: "child m u j \<noteq> a" if "(u, j) \<in> used_ents m lv (Suc k)" "k < 2" for u j k
    using ptabD(3)[OF p that(2,1)] a(2)[of k] that(2) by auto
  show ?thesis
  proof (rule ptabI)
    show "dm_page u" if "k \<le> 2" "u \<in> ?lv k" for k u
      using that a(1) ptabD(1)[OF p that(1)] by (auto split: if_splits)
    show "?lv k \<inter> ?lv n = {}" if "k \<le> 2" "n \<le> 2" "k \<noteq> n" for k n
      using ptabD(2)[OF p that] a(2)[OF that(1)] a(2)[OF that(2)] that(3) by auto
    fix k u j assume k: "k < 2" and u: "(u, j) \<in> used_ents ?m ?lv (Suc k)"
    show "child ?m u j \<in> ?lv k" using old[OF k u] ptabD(3)[OF p k, of u j] ct by auto
    fix v n assume v: "(v, n) \<in> used_ents ?m ?lv (Suc k)" and c: "child ?m u j = child ?m v n"
    show "(u, j) = (v, n)"
      using old[OF k u] old[OF k v] c ct na[OF _ k, of u j] na[OF _ k, of v n] ptabD(4)[OF p k, of u j v n] by auto
  qed
qed

lemma tables_insert: "l \<le> 2 \<Longrightarrow> tables (lv(l := insert a (lv l))) = insert a (tables lv)"
  by (auto simp: tables_def le_2)

lemma new_table_as:
  assumes as: "as_inv s pg lv L" and l: "l < 2" and t: "t \<in> lv (Suc l)" "i < width (Suc l)" "load64 (ram s) (ent t i) = 0"
    and k: "kmalloc (of_nat PAGE_SIZE) (heap s) = Inr (a, h)"
  defines "s' \<equiv> s\<lparr>heap := h, ram := table_added t i a (ram s)\<rparr>"
  shows "as_inv s' pg (lv(l := insert a (lv l))) (insert (a, 4096) L)"
    and "a \<notin> tables lv" and "load64 (ram s') (ent t i) \<noteq> 0" and "child (ram s') t i = a"
    and "user va \<Longrightarrow> lookup (ram s') pg va = lookup (ram s) pg va"
    and "only_in {t, a} (ram s) (ram s')"
proof -
  note ai = as_invD[OF as] and km = kmalloc_page[OF as_invD(1)[OF as] k]
  show na: "a \<notin> tables lv" using km(2) ai(4)[of a] image_eqI[of a fst] by force
  then have al: "\<And>k. k \<le> 2 \<Longrightarrow> a \<notin> lv k" using ai(5) by blast
  have p: "ptab (ram s') (lv(l := insert a (lv l)))"
    using table_added_ptab[OF ai(2) l t km(1) al] by (simp add: s'_def)
  show "as_inv s' pg (lv(l := insert a (lv l))) (insert (a, 4096) L)"
    unfolding as_inv_def
  proof (intro conjI allI impI ballI)
    fix n u assume "n \<le> 2" "u \<in> (lv(l := insert a (lv l))) n"
    then show "(u, 4096) \<in> insert (a, 4096) L" using ai(6)[of n u] by (auto split: if_splits)
  qed (use p km(3) ai(3) l in \<open>simp_all add: s'_def\<close>)
  have dt: "dm_page t" and ta: "t \<noteq> a" using ptabD(1)[OF ai(2), of "Suc l" t] t(1) al[of "Suc l"] l by auto
  have e: "load64 (ram s') (ent t i) = drop_bit 2 (virt_to_phys a) OR PAGE_PRESENT"
    using load_table_added[OF dt km(1) ta width_le[OF t(2)] dt width_le[OF t(2)]] by (simp add: s'_def)
  then show "load64 (ram s') (ent t i) \<noteq> 0" "child (ram s') t i = a"
    using table_entry[OF km(1)] by (simp_all add: child_def)
  show "user va \<Longrightarrow> lookup (ram s') pg va = lookup (ram s) pg va"
    using table_added_look[OF ai(2) l t km(1) al, of 2 pg va] ai(3) by (simp add: lookup_def s'_def)
  show "only_in {t, a} (ram s) (ram s')" using table_added_only_in[OF width_le[OF t(2)]] by (simp add: s'_def)
qed

section \<open>Growing a page table\<close>

text \<open>
  What the operations that add tables have in common: pages are taken from the heap, entries that are
  in use stay, and for the user no page is mapped another way.
\<close>

definition grows :: "'z sched_scheme \<Rightarrow> u64 \<Rightarrow> (nat \<Rightarrow> u64 set) \<Rightarrow> chunk set \<Rightarrow>
    'z sched_scheme \<Rightarrow> (nat \<Rightarrow> u64 set) \<Rightarrow> chunk set \<Rightarrow> bool" where
  "grows s pg lv L s' lv' L' \<longleftrightarrow>
     as_inv s' pg lv' L' \<and> (\<exists>h m. s' = s\<lparr>heap := h, ram := m\<rparr>) \<and> L \<subseteq> L' \<and> (\<forall>k \<le> 2. lv k \<subseteq> lv' k) \<and>
     tables lv' \<inter> fst ` L \<subseteq> tables lv \<and> only_in (tables lv') (ram s) (ram s') \<and>
     (\<forall>va. user va \<longrightarrow> lookup (ram s') pg va = lookup (ram s) pg va) \<and>
     (\<forall>k t i. 0 < k \<and> (t, i) \<in> used_ents (ram s) lv k \<longrightarrow> k \<le> 2 \<longrightarrow> load64 (ram s') (ent t i) = load64 (ram s) (ent t i)) \<and>
     (\<forall>p \<in> fst ` L. dm_page p \<longrightarrow>
        refcount (mem_map (heap s') (virt_to_page p)) = refcount (mem_map (heap s) (virt_to_page p)))"

lemma growsD:
  assumes "grows s pg lv L s' lv' L'"
  shows "as_inv s' pg lv' L'" and "\<exists>h m. s' = s\<lparr>heap := h, ram := m\<rparr>" and "L \<subseteq> L'" and "k \<le> 2 \<Longrightarrow> lv k \<subseteq> lv' k"
    and "p \<in> tables lv' \<Longrightarrow> p \<in> fst ` L \<Longrightarrow> p \<in> tables lv" and "only_in (tables lv') (ram s) (ram s')"
    and "user va \<Longrightarrow> lookup (ram s') pg va = lookup (ram s) pg va"
    and "0 < k \<Longrightarrow> (t, i) \<in> used_ents (ram s) lv k \<Longrightarrow> k \<le> 2 \<Longrightarrow> load64 (ram s') (ent t i) = load64 (ram s) (ent t i)"
    and "p \<in> fst ` L \<Longrightarrow> dm_page p \<Longrightarrow>
        refcount (mem_map (heap s') (virt_to_page p)) = refcount (mem_map (heap s) (virt_to_page p))"
  using assms unfolding grows_def by blast+

lemma grows_refl:
  assumes "as_inv s pg lv L"
  shows "grows s pg lv L s lv L"
proof -
  have "\<exists>h m. s = s\<lparr>heap := h, ram := m\<rparr>" by (rule exI[of _ "heap s"], rule exI[of _ "ram s"]) simp
  then show ?thesis using assms only_in_refl unfolding grows_def by blast
qed

lemma grows_trans:
  assumes g: "grows s pg lv L s1 lv1 L1" and h: "grows s1 pg lv1 L1 s2 lv2 L2"
  shows "grows s pg lv L s2 lv2 L2"
proof -
  note a = growsD[OF g] and b = growsD[OF h]
  have t1: "tables lv1 \<subseteq> tables lv2" using b(4)[of 0] b(4)[of 1] b(4)[of 2] by (auto simp: tables_def)
  obtain h1 m1 h2 m2 where "s1 = s\<lparr>heap := h1, ram := m1\<rparr>" "s2 = s1\<lparr>heap := h2, ram := m2\<rparr>"
    using a(2) b(2) by blast
  then have "s2 = s\<lparr>heap := h2, ram := m2\<rparr>" by simp
  then have "\<exists>h m. s2 = s\<lparr>heap := h, ram := m\<rparr>" by blast
  moreover have "lv k \<subseteq> lv2 k" if "k \<le> 2" for k using a(4)[OF that] b(4)[OF that] by blast
  moreover have "tables lv2 \<inter> fst ` L \<subseteq> tables lv"
  proof
    fix p assume p: "p \<in> tables lv2 \<inter> fst ` L"
    then have "p \<in> tables lv1" using b(5)[of p] a(3) by auto
    then show "p \<in> tables lv" using a(5) p by blast
  qed
  moreover have "only_in (tables lv2) (ram s) (ram s2)" by (rule only_in_trans[OF a(6) b(6) t1 order_refl])
  moreover have "lookup (ram s2) pg va = lookup (ram s) pg va" if "user va" for va using a(7)[OF that] b(7)[OF that] by simp
  moreover have "load64 (ram s2) (ent t i) = load64 (ram s) (ent t i)"
    if k: "0 < k" "k \<le> 2" and u: "(t, i) \<in> used_ents (ram s) lv k" for k t i
  proof -
    have e: "load64 (ram s1) (ent t i) = load64 (ram s) (ent t i)" by (rule a(8)[OF k(1) u k(2)])
    then have "(t, i) \<in> used_ents (ram s1) lv1 k" using u a(4)[OF k(2)] by (auto simp: used_ents_def)
    from b(8)[OF k(1) this k(2)] e show ?thesis by simp
  qed
  moreover have "refcount (mem_map (heap s2) (virt_to_page p)) = refcount (mem_map (heap s) (virt_to_page p))"
    if p: "p \<in> fst ` L" "dm_page p" for p
  proof -
    have "p \<in> fst ` L1" using p(1) a(3) by blast
    then show ?thesis using a(9)[OF p] b(9)[OF _ p(2)] by simp
  qed
  ultimately show ?thesis unfolding grows_def using b(1) order_trans[OF a(3) b(3)] by blast
qed

lemma dm_page_inj:
  assumes "dm_page a" and "dm_page b" and "virt_to_page a = virt_to_page b"
  shows "a = b"
  using assms page_addr_page(1) unfolding dm_page_def by metis

lemma new_table_grows_by:
  assumes as: "as_inv s pg lv L" and l: "l < 2" and t: "t \<in> lv (Suc l)" "i < width (Suc l)" "load64 (ram s) (ent t i) = 0"
    and k: "kmalloc (of_nat PAGE_SIZE) (heap s) = Inr (a, h)" and s': "s' = s\<lparr>heap := h, ram := table_added t i a (ram s)\<rparr>"
  shows "grows s pg lv L s' (lv(l := insert a (lv l))) (insert (a, 4096) L)"
proof -
  note ai = as_invD[OF as] and km = kmalloc_page[OF as_invD(1)[OF as] k]
  note nt = new_table_as[OF as l t k, folded s']
  have dt: "dm_page t" using ptabD(1)[OF ai(2), of "Suc l" t] t(1) l by simp
  have ta: "t \<noteq> a" using nt(2) ai(5)[of "Suc l" t] t(1) l by auto
  have tb: "tables (lv(l := insert a (lv l))) = insert a (tables lv)" using tables_insert[of l lv a] l by simp
  show ?thesis
    unfolding grows_def
  proof (intro conjI allI impI ballI)
    show "as_inv s' pg (lv(l := insert a (lv l))) (insert (a, 4096) L)" by (rule nt(1))
    show "\<exists>h m. s' = s\<lparr>heap := h, ram := m\<rparr>" using s' by blast
    show "tables (lv(l := insert a (lv l))) \<inter> fst ` L \<subseteq> tables lv" unfolding tb using km(2) by auto
    show "only_in (tables (lv(l := insert a (lv l)))) (ram s) (ram s')"
      by (rule only_in_mono[OF nt(6)]) (use tb ai(5)[of "Suc l" t] t(1) l in auto)
    fix k u j assume u: "0 < k \<and> (u, j) \<in> used_ents (ram s) lv k" and k2: "k \<le> 2"
    then have uj: "u \<in> lv k" "j < width k" "load64 (ram s) (ent u j) \<noteq> 0" by (simp_all add: used_ents_def)
    have "u \<noteq> a" using nt(2) ai(5)[OF k2 uj(1)] by auto
    then show "load64 (ram s') (ent u j) = load64 (ram s) (ent u j)"
      using load_table_added[OF dt km(1) ta width_le[OF t(2)] ptabD(1)[OF ai(2) k2 uj(1)] width_le[OF uj(2)], of "ram s"]
        uj(3) t(3) s' by auto
  next
    fix p assume p: "p \<in> fst ` L" "dm_page p"
    then have "virt_to_page p \<noteq> virt_to_page a" using dm_page_inj[OF p(2) km(1)] km(2) by auto
    then show "refcount (mem_map (heap s') (virt_to_page p)) = refcount (mem_map (heap s) (virt_to_page p))"
      using km(5) s' by simp
  qed (use nt(5) in auto)
qed

lemma new_table_grows:
  assumes as: "as_inv s pg lv L" and l: "l < 2" and t: "t \<in> lv (Suc l)" "i < width (Suc l)" "load64 (ram s) (ent t i) = 0"
    and n: "new_table (ent t i) s = Inr s'"
  shows "\<exists>lv' L'. grows s pg lv L s' lv' L' \<and> load64 (ram s') (ent t i) \<noteq> 0"
proof -
  obtain a h where k: "kmalloc (of_nat PAGE_SIZE) (heap s) = Inr (a, h)"
    using n by (auto simp: new_table_def bindF_def split: sum.splits)
  then have s': "s' = s\<lparr>heap := h, ram := table_added t i a (ram s)\<rparr>" using new_table_added[OF k, of t i] n by simp
  show ?thesis using new_table_grows_by[OF as l t k s'] new_table_as(3)[OF as l t k, folded s'] by blast
qed

lemma table_step:
  assumes as: "as_inv s pg lv L" and l: "l < 2" and t: "t \<in> lv (Suc l)" "i < width (Suc l)"
    and n: "(if load64 (ram s) (ent t i) = 0 then new_table (ent t i) s else Inr s) = Inr s1"
  shows "\<exists>lv' L'. grows s pg lv L s1 lv' L' \<and> (t, i) \<in> used_ents (ram s1) lv' (Suc l) \<and> child (ram s1) t i \<in> lv' l"
proof -
  obtain lv' L' where g: "grows s pg lv L s1 lv' L'" and e: "load64 (ram s1) (ent t i) \<noteq> 0"
  proof (cases "load64 (ram s) (ent t i) = 0")
    case True
    then show thesis using new_table_grows[OF as l t True, of s1] n that by auto
  next
    case False
    then have "s1 = s" using n by simp
    then show thesis using that[of lv L] grows_refl[OF as] False by simp
  qed
  have u: "(t, i) \<in> used_ents (ram s1) lv' (Suc l)" using growsD(4)[OF g, of "Suc l"] t l e by (auto simp: used_ents_def)
  then have "child (ram s1) t i \<in> lv' l" using ptabD(3)[OF as_invD(2)[OF growsD(1)[OF g]] l] by blast
  then show ?thesis using g u by blast
qed

lemma pte_alloc_from_grows:
  assumes "as_inv s pg lv L" and "l \<le> 2" and "t \<in> lv l" and "user va" and "pte_alloc_from l t va s = Inr (pte, s')"
  shows "\<exists>lv' L'. grows s pg lv L s' lv' L' \<and> walk l (ram s') t va = Some pte"
  using assms
proof (induction l arbitrary: t s lv L)
  case 0
  then have "s' = s" "pte = ent t (pt_idx 0 va)" by (auto simp: pt_entry_ent)
  then show ?case using grows_refl[OF 0(1)] by auto
next
  case (Suc l)
  let ?i = "pt_idx (Suc l) va"
  have l: "l < 2" using Suc.prems(2) by simp
  obtain s1 where s1: "(if load64 (ram s) (ent t ?i) = 0 then new_table (ent t ?i) s else Inr s) = Inr s1"
    and r: "pte_alloc_from l (child (ram s1) t ?i) va s1 = Inr (pte, s')"
    using Suc.prems(5) by (auto simp: pt_entry_ent bindF_eq_Inr_iff child_def Let_def)
  obtain lv1 L1 where g: "grows s pg lv L s1 lv1 L1" and u: "(t, ?i) \<in> used_ents (ram s1) lv1 (Suc l)"
    and c: "child (ram s1) t ?i \<in> lv1 l"
    using table_step[OF Suc.prems(1) l Suc.prems(3) pt_idx_width[OF Suc.prems(4,2)] s1] by blast
  obtain lv' L' where h: "grows s1 pg lv1 L1 s' lv' L'" and w: "walk l (ram s') (child (ram s1) t ?i) va = Some pte"
    using Suc.IH[OF growsD(1)[OF g] _ c Suc.prems(4) r] l by auto
  have "load64 (ram s') (ent t ?i) = load64 (ram s1) (ent t ?i)" by (rule growsD(8)[OF h _ u]) (use l in simp_all)
  moreover have "load64 (ram s1) (ent t ?i) \<noteq> 0" using u by (simp add: used_ents_def)
  ultimately have "walk (Suc l) (ram s') t va = Some pte" using w by (simp add: child_def)
  then show ?case using grows_trans[OF g h] by blast
qed

lemma plenty_le: "plenty n s \<Longrightarrow> m \<le> n \<Longrightarrow> plenty m s"
  unfolding plenty_def by (meson order_trans)

lemma page_size_word: "0 < (of_nat PAGE_SIZE :: u32)" "unat (of_nat PAGE_SIZE :: u32) \<le> 2 ^ 22"
  by (simp_all add: PAGE_SIZE_def)

lemma pte_alloc_from_total:
  "plenty (n + l) (heap s) \<Longrightarrow> \<exists>pte s'. pte_alloc_from l t va s = Inr (pte, s') \<and> plenty n (heap s')"
proof (induction l arbitrary: t s)
  case (Suc l)
  let ?e = "ent t (pt_idx (Suc l) va)"
  obtain s1 where s1: "(if load64 (ram s) ?e = 0 then new_table ?e s else Inr s) = Inr s1" "plenty (n + l) (heap s1)"
  proof (cases "load64 (ram s) ?e = 0")
    case True
    have "plenty (Suc (n + l)) (heap s)" using Suc.prems by simp
    then obtain a h where k: "kmalloc (of_nat PAGE_SIZE) (heap s) = Inr (a, h)" "plenty (n + l) h"
      by (rule plenty_kmalloc[OF _ page_size_word])
    then show thesis using that[of "s\<lparr>heap := h, ram := table_added t (pt_idx (Suc l) va) a (ram s)\<rparr>"]
        new_table_added[OF k(1), of t "pt_idx (Suc l) va"] True by simp
  next
    case False
    then show thesis using that[of s] plenty_le[OF Suc.prems] by simp
  qed
  show ?case using Suc.IH[OF s1(2), of "child (ram s1) t (pt_idx (Suc l) va)"] s1(1)
    by (simp add: pt_entry_ent child_def Let_def)
qed simp

lemma as_inv_leaf_store:
  assumes a: "as_inv s pg lv L" and va: "user va" and w: "walk 2 (ram s) pg va = Some e"
  shows "as_inv (s\<lparr>ram := store64 e v (ram s)\<rparr>) pg lv L"
    and "only_in (tables lv) (ram s) (store64 e v (ram s))"
proof -
  note d = as_invD[OF a]
  show "as_inv (s\<lparr>ram := store64 e v (ram s)\<rparr>) pg lv L"
    using leaf_store(1)[OF d(2,3) va w] d(1,3,6) unfolding as_inv_def by simp
  obtain u where u: "u \<in> lv 0" "e = ent u (pt_idx 0 va)" using walk_leaf[OF d(2) _ _ va w] d(3) by auto
  show "only_in (tables lv) (ram s) (store64 e v (ram s))"
    unfolding u(2) by (rule only_in_mono[OF store_ent_only_in[OF pt_idx_less]]) (use u(1) in \<open>auto simp: tables_def\<close>)
qed

lemma pte_alloc_map_grows:
  assumes "as_inv s (pgd (tasks s mm)) lv L" and "user va" and "pte_alloc_map mm va s = Inr (pte, s')"
  shows "\<exists>lv' L'. grows s (pgd (tasks s mm)) lv L s' lv' L' \<and> walk 2 (ram s') (pgd (tasks s mm)) va = Some pte"
  using pte_alloc_from_grows[OF assms(1) _ _ assms(2), of 2] assms(3) as_invD(3)[OF assms(1)]
  by (simp add: pte_alloc_map_def)

text \<open>The two walks that add tables are one.\<close>

lemma pagewalk_is_pte_alloc:
  "pagewalk mm va pa prot s =
     bindF (pte_alloc_map mm va s) (\<lambda>(pte, s1). Inr (s1\<lparr>ram := store64 pte (drop_bit 2 pa OR prot) (ram s1)\<rparr>))"
proof -
  have "pagewalk_from l t va pa prot s =
      bindF (pte_alloc_from l t va s) (\<lambda>(pte, s1). Inr (s1\<lparr>ram := store64 pte (drop_bit 2 pa OR prot) (ram s1)\<rparr>))"
    for l t and s :: "'a sched_scheme"
    by (induction l arbitrary: t s) (simp_all add: Let_def bindF_def split: sum.split)
  then show ?thesis by (simp add: pagewalk_def pte_alloc_map_def)
qed

lemma pagewalk_as:
  assumes a: "as_inv s (pgd (tasks s mm)) lv L" and va: "user va" and p: "pagewalk mm va pa prot s = Inr s'"
  shows "\<exists>lv' L'. as_inv s' (pgd (tasks s mm)) lv' L' \<and> L \<subseteq> L' \<and> tasks s' = tasks s \<and>
    (\<forall>vb. user vb \<longrightarrow> lookup (ram s') (pgd (tasks s mm)) vb =
      (if page_no vb = page_no va then drop_bit 2 pa OR prot else lookup (ram s) (pgd (tasks s mm)) vb))"
proof -
  let ?pg = "pgd (tasks s mm)"
  obtain pte s1 where r: "pte_alloc_map mm va s = Inr (pte, s1)"
    and s': "s' = s1\<lparr>ram := store64 pte (drop_bit 2 pa OR prot) (ram s1)\<rparr>"
    using p unfolding pagewalk_is_pte_alloc by (auto simp: bindF_eq_Inr_iff)
  obtain lv' L' where g: "grows s ?pg lv L s1 lv' L'" and w: "walk 2 (ram s1) ?pg va = Some pte"
    using pte_alloc_map_grows[OF a va r] by blast
  note d = as_invD[OF growsD(1)[OF g]]
  have "as_inv s' ?pg lv' L'" using as_inv_leaf_store(1)[OF growsD(1)[OF g] va w] s' by simp
  moreover have "lookup (ram s') ?pg vb = (if page_no vb = page_no va then drop_bit 2 pa OR prot else lookup (ram s) ?pg vb)"
    if "user vb" for vb
    using leaf_store(3)[OF d(2,3) va w that] growsD(7)[OF g that] s' by simp
  moreover have "tasks s' = tasks s" using growsD(2)[OF g] s' by auto
  ultimately show ?thesis using growsD(3)[OF g] by blast
qed

lemma pagewalk_total:
  assumes "plenty (n + 2) (heap s)"
  shows "\<exists>s'. pagewalk mm va pa prot s = Inr s' \<and> plenty n (heap s')"
  using pte_alloc_from_total[OF assms, of "pgd (tasks s mm)" va] unfolding pagewalk_is_pte_alloc
  by (auto simp: pte_alloc_map_def)

section \<open>Mapping a range\<close>

definition page_index :: "u64 \<Rightarrow> u64 \<Rightarrow> nat" where
  "page_index va vb = page_no vb - page_no va"

lemma page_no_add:
  assumes "unat va + 4096 * j < 2 ^ 38"
  shows "page_no (va + of_nat (4096 * j)) = page_no va + j" and "user (va + of_nat (4096 * j))"
proof -
  have j: "unat (of_nat (4096 * j) :: u64) = 4096 * j" using assms by (intro unat_small) simp
  then have "unat (va + of_nat (4096 * j)) = unat va + 4096 * j" using assms by (simp add: unat_plus_if')
  then show "page_no (va + of_nat (4096 * j)) = page_no va + j" "user (va + of_nat (4096 * j))"
    using assms by (simp_all add: page_no_def user_def)
qed

lemma scast_counter:
  assumes "n < 2 ^ 31"
  shows "scast (of_nat n :: u32) = (of_nat n :: u64)"
proof -
  have "sint (of_nat n :: u32) = int n"
    using assms by (simp add: signed_of_nat signed_take_bit_int_eq_self)
  then have "of_int (sint (of_nat n :: u32)) = (of_nat n :: u64)" by simp
  then show ?thesis by (simp only: scast_eq)
qed

text \<open>The loop, from page \<open>j\<close> on, of \<open>n\<close> pages in all.\<close>

lemma mapped_step:
  fixes f :: "nat \<Rightarrow> 'b"
  assumes one: "\<forall>vb. user vb \<longrightarrow> l1 vb = (if page_no vb = page_no va + j then f j else l0 vb)" and j: "j < n"
    and rest: "\<forall>vb. user vb \<longrightarrow> l2 vb =
      (if page_no va + Suc j \<le> page_no vb \<and> page_no vb < page_no va + n then f (page_index va vb) else l1 vb)"
  shows "\<forall>vb. user vb \<longrightarrow> l2 vb =
      (if page_no va + j \<le> page_no vb \<and> page_no vb < page_no va + n then f (page_index va vb) else l0 vb)"
proof (intro allI impI)
  fix vb assume vb: "user vb"
  show "l2 vb = (if page_no va + j \<le> page_no vb \<and> page_no vb < page_no va + n then f (page_index va vb) else l0 vb)"
  proof (cases "page_no vb = page_no va + j")
    case True
    then have "page_index va vb = j" by (simp add: page_index_def)
    then show ?thesis using True one rest vb j by auto
  next
    case False
    then have "(page_no va + Suc j \<le> page_no vb) = (page_no va + j \<le> page_no vb)" by linarith
    then show ?thesis using False one rest vb by simp
  qed
qed

lemma pagewalk_budget:
  assumes "j < n"
  shows "plenty (2 * (n - j)) (heap s) \<Longrightarrow> \<exists>s1. pagewalk mm va pa prot s = Inr s1 \<and> plenty (2 * (n - Suc j)) (heap s1)"
proof -
  assume "plenty (2 * (n - j)) (heap s)"
  moreover have "2 * (n - j) = 2 * (n - Suc j) + 2" using assms by simp
  ultimately show ?thesis using pagewalk_total[of "2 * (n - Suc j)" s mm va pa prot] by auto
qed

lemma map_pages_loop_correct:
  assumes "n * 4096 < 2 ^ 31" and "n = (unat len + 4095) div 4096"
    and "unat va + 4096 * n < 2 ^ 38"
  shows "j \<le> n \<Longrightarrow> as_inv s (pgd (tasks s mm)) lv L \<Longrightarrow>
    \<exists>r. map_pages_loop mm va len pa prot (of_nat (4096 * j)) s = Some r \<and>
      (plenty (2 * (n - j)) (heap s) \<longrightarrow> (\<exists>s'. r = Inr s')) \<and>
      (\<forall>s'. r = Inr s' \<longrightarrow> (\<exists>lv' L'. as_inv s' (pgd (tasks s mm)) lv' L' \<and> L \<subseteq> L') \<and>
        (\<forall>vb. user vb \<longrightarrow> lookup (ram s') (pgd (tasks s mm)) vb =
          (if page_no va + j \<le> page_no vb \<and> page_no vb < page_no va + n
           then drop_bit 2 (pa + of_nat (4096 * page_index va vb)) OR prot
           else lookup (ram s) (pgd (tasks s mm)) vb)))"
proof (induction "n - j" arbitrary: j s lv L)
  case 0
  then have j: "j = n" by simp
  have "scast (of_nat (4096 * n) :: u32) = (of_nat (4096 * n) :: u64)" using scast_counter[of "4096 * n"] assms(1) by simp
  moreover have "\<not> of_nat (4096 * n) < len"
    using assms(1) unat_small[of "4096 * n"] assms(2) by (simp add: word_less_nat_alt)
  ultimately have "map_pages_loop mm va len pa prot (of_nat (4096 * j)) s = Some (Inr s)"
    unfolding j by (subst map_pages_loop.simps) simp
  then show ?case using 0(3) j by auto
next
  case (Suc k)
  let ?pg = "pgd (tasks s mm)" and ?va = "va + of_nat (4096 * j)" and ?pa = "pa + of_nat (4096 * j)"
  have j: "j < n" using Suc.hyps(2) by simp
  have c: "scast (of_nat (4096 * j) :: u32) = (of_nat (4096 * j) :: u64)"
    using scast_counter[of "4096 * j"] assms(1) j by simp
  have "Suc j \<le> (unat len + 4095) div 4096" using j assms(2) by simp
  then have "4096 * Suc j \<le> unat len + 4095" by (metis Suc_le_mono less_eq_div_iff_mult_less_eq mult.commute zero_less_numeral)
  then have "unat (of_nat (4096 * j) :: u64) < unat len" using assms(1) j unat_small[of "4096 * j"] by simp
  then have lt: "of_nat (4096 * j) < len" by (simp add: word_less_nat_alt)
  have nx: "of_nat (4096 * j) + of_nat PAGE_SIZE = (of_nat (4096 * Suc j) :: u32)" by (simp add: PAGE_SIZE_def)
  have step: "map_pages_loop mm va len pa prot (of_nat (4096 * j)) s =
      (case pagewalk mm ?va ?pa prot s of Inl e \<Rightarrow> Some (Inl e)
       | Inr s1 \<Rightarrow> map_pages_loop mm va len pa prot (of_nat (4096 * Suc j)) s1)"
    by (subst map_pages_loop.simps) (simp only: c lt nx if_True)
  have "unat va + 4096 * j < 2 ^ 38" using assms(3) j by linarith
  note va = page_no_add[OF this]
  show ?case
  proof (cases "pagewalk mm ?va ?pa prot s")
    case (Inl e)
    then have "\<not> plenty (2 * (n - j)) (heap s)" using pagewalk_budget[OF j, of s mm ?va ?pa prot] by auto
    then show ?thesis using step Inl by simp
  next
    case (Inr s1)
    obtain lv1 L1 where w: "as_inv s1 ?pg lv1 L1" "L \<subseteq> L1" "tasks s1 = tasks s"
      "\<forall>vb. user vb \<longrightarrow> lookup (ram s1) ?pg vb =
        (if page_no vb = page_no va + j then drop_bit 2 ?pa OR prot else lookup (ram s) ?pg vb)"
      using pagewalk_as[OF Suc.prems(2) va(2) Inr] unfolding va(1) by blast
    have "k = n - Suc j" "Suc j \<le> n" using Suc.hyps(2) j by simp_all
    from Suc.hyps(1)[OF this, of s1 lv1 L1] w(1,3) obtain r where
      r: "map_pages_loop mm va len pa prot (of_nat (4096 * Suc j)) s1 = Some r"
        "plenty (2 * (n - Suc j)) (heap s1) \<longrightarrow> (\<exists>s'. r = Inr s')"
        "\<forall>s'. r = Inr s' \<longrightarrow> (\<exists>lv' L'. as_inv s' ?pg lv' L' \<and> L1 \<subseteq> L') \<and>
          (\<forall>vb. user vb \<longrightarrow> lookup (ram s') ?pg vb =
            (if page_no va + Suc j \<le> page_no vb \<and> page_no vb < page_no va + n
             then drop_bit 2 (pa + of_nat (4096 * page_index va vb)) OR prot else lookup (ram s1) ?pg vb))" by auto
    have pl: "plenty (2 * (n - j)) (heap s) \<longrightarrow> (\<exists>s'. r = Inr s')"
      using pagewalk_budget[OF j, of s mm ?va ?pa prot] Inr r(2) by auto
    have "(\<exists>lv' L'. as_inv s' ?pg lv' L' \<and> L \<subseteq> L') \<and>
        (\<forall>vb. user vb \<longrightarrow> lookup (ram s') ?pg vb =
          (if page_no va + j \<le> page_no vb \<and> page_no vb < page_no va + n
           then drop_bit 2 (pa + of_nat (4096 * page_index va vb)) OR prot else lookup (ram s) ?pg vb))"
      if s': "r = Inr s'" for s'
    proof
      obtain lv' L' where "as_inv s' ?pg lv' L'" "L1 \<subseteq> L'" using r(3) s' by blast
      then show "\<exists>lv' L'. as_inv s' ?pg lv' L' \<and> L \<subseteq> L'" using order_trans[OF w(2)] by blast
      show "\<forall>vb. user vb \<longrightarrow> lookup (ram s') ?pg vb =
          (if page_no va + j \<le> page_no vb \<and> page_no vb < page_no va + n
           then drop_bit 2 (pa + of_nat (4096 * page_index va vb)) OR prot else lookup (ram s) ?pg vb)"
        by (rule mapped_step[where f = "\<lambda>i. drop_bit 2 (pa + of_nat (4096 * i)) OR prot", OF w(4) j]) (use r(3) s' in blast)
    qed
    then show ?thesis using r(1) pl step Inr by auto
  qed
qed

section \<open>The page table as a map\<close>

lemma as_inv_fresh:
  assumes "mm_inv (heap s) L" and "(pg, 4096) \<in> L" and "dm_page pg"
    and "\<And>i. i < 256 \<Longrightarrow> load64 (ram s) (ent pg i) = 0"
  shows "as_inv s pg (\<lambda>l. if l = 2 then {pg} else {}) L" and "user va \<Longrightarrow> lookup (ram s) pg va = 0"
proof -
  have "used_ents (ram s) (\<lambda>l. if l = 2 then {pg} else {}) l = {}" for l
    using assms(4) by (auto simp: used_ents_def width_def)
  then show "as_inv s pg (\<lambda>l. if l = 2 then {pg} else {}) L"
    unfolding as_inv_def ptab_def using assms(1-3) by auto
  assume "user va"
  then have "load64 (ram s) (ent pg (pt_idx 2 va)) = 0" by (intro assms(4) pt_idx_user)
  then show "lookup (ram s) pg va = 0" by (simp add: lookup_def look_def numeral_2_eq_2)
qed

text \<open>A task with an empty page table.\<close>

lemma load_zero: "load64 (\<lambda>_. 0) a = 0"
  by (rule bit_word_eqI) (simp add: bit_load64)

lemma empty_space:
  assumes "plenty (Suc n) (heap s)"
  shows "\<exists>pg h lv L. kmalloc (of_nat PAGE_SIZE) (heap s) = Inr (pg, h) \<and> plenty n h \<and>
    as_inv (s\<lparr>heap := h, ram := (\<lambda>_. 0), tasks := (tasks s)(mm := (tasks s mm)\<lparr>pgd := pg\<rparr>)\<rparr>) pg lv L \<and>
    (\<forall>va. user va \<longrightarrow> lookup (\<lambda>_. 0) pg va = 0)"
proof -
  obtain L where L: "mm_inv (heap s) L" using plenty_inv[OF assms] by blast
  obtain pg h where k: "kmalloc (of_nat PAGE_SIZE) (heap s) = Inr (pg, h)" "plenty n h"
    by (rule plenty_kmalloc[OF assms page_size_word])
  note km = kmalloc_page[OF L k(1)]
  let ?s = "s\<lparr>heap := h, ram := (\<lambda>_. 0), tasks := (tasks s)(mm := (tasks s mm)\<lparr>pgd := pg\<rparr>)\<rparr>"
  have "mm_inv (heap ?s) (insert (pg, 4096) L)" "(pg, 4096) \<in> insert (pg, 4096) L"
    "\<And>i. i < 256 \<Longrightarrow> load64 (ram ?s) (ent pg i) = 0" using km(3) by (simp_all add: load_zero)
  note f = as_inv_fresh[OF this(1,2) km(1) this(3)]
  show ?thesis using k f(1) f(2)[simplified] by blast
qed

definition example_vms :: vms where
  "example_vms = irqs.extend example_irqs
     (vms.fields (\<lambda>_. \<lparr>vm_start = 0, vm_end = 0, vm_mm = 0, vm_flags = 0, vm_file = 0\<rparr>))"

text \<open>The task at \<open>0x100\<close> has an empty page table at \<open>pg\<close>, the first page the heap gives.\<close>

definition example_space :: "u64 \<Rightarrow> vms" where
  "example_space pg = example_vms\<lparr>heap := (case kmalloc (of_nat PAGE_SIZE) (heap example_vms) of
       Inl _ \<Rightarrow> heap example_vms | Inr r \<Rightarrow> snd r), ram := (\<lambda>_. 0),
     tasks := (tasks example_vms)(0x100 := (tasks example_vms 0x100)\<lparr>pgd := pg\<rparr>)\<rparr>"

lemma example_space_inv:
  "\<exists>pg lv L. as_inv (example_space pg) (pgd (tasks (example_space pg) 0x100)) lv L \<and>
     plenty 1279 (heap (example_space pg)) \<and> (\<forall>va. user va \<longrightarrow> lookup (ram (example_space pg)) pg va = 0) \<and>
     pgd (tasks (example_space pg) 0x100) = pg"
proof -
  have "plenty (Suc 1279) (heap example_vms)"
    using boot_plenty[of boot_mm] by (simp add: example_vms_def example_irqs_fields irqs.defs)
  from empty_space[OF this, of "0x100"] obtain pg h lv L where
    s: "kmalloc (of_nat PAGE_SIZE) (heap example_vms) = Inr (pg, h)" "plenty 1279 h"
      "as_inv (example_vms\<lparr>heap := h, ram := (\<lambda>_. 0), tasks := (tasks example_vms)(0x100 := (tasks example_vms 0x100)\<lparr>pgd := pg\<rparr>)\<rparr>) pg lv L"
      "\<forall>va. user va \<longrightarrow> lookup (\<lambda>_. 0) pg va = 0" by blast
  have "example_space pg = example_vms\<lparr>heap := h, ram := (\<lambda>_. 0),
      tasks := (tasks example_vms)(0x100 := (tasks example_vms 0x100)\<lparr>pgd := pg\<rparr>)\<rparr>"
    by (simp add: example_space_def s(1))
  then show ?thesis using s(2-4) by (intro exI[of _ pg] exI[of _ lv] exI[of _ L]) simp
qed

text \<open>C10: \<open>pte_alloc_map\<close> returns the place where the entry of an address is kept, when the heap has the two
  pages that this may take: the entry there is the present one, no address is mapped another way than
  before, and whatever is written there becomes the entry of exactly the addresses of that page.\<close>

theorem pte_alloc_map_correct:
  assumes as: "as_inv s (pgd (tasks s mm)) lv L" and va: "user va" and p: "plenty 2 (heap s)"
  shows "\<exists>pte s'. pte_alloc_map mm va s = Inr (pte, s') \<and>
    load64 (ram s') pte = lookup (ram s) (pgd (tasks s mm)) va \<and>
    (\<forall>vb. user vb \<longrightarrow> lookup (ram s') (pgd (tasks s mm)) vb = lookup (ram s) (pgd (tasks s mm)) vb) \<and>
    (\<forall>v. \<exists>lv' L'. as_inv (s'\<lparr>ram := store64 pte v (ram s')\<rparr>) (pgd (tasks s mm)) lv' L' \<and> L \<subseteq> L' \<and>
      (\<forall>vb. user vb \<longrightarrow> lookup (store64 pte v (ram s')) (pgd (tasks s mm)) vb =
        (if page_no vb = page_no va then v else lookup (ram s) (pgd (tasks s mm)) vb)))"
proof -
  let ?pg = "pgd (tasks s mm)"
  have "plenty (0 + 2) (heap s)" using p by (simp only: add_0)
  then obtain pte s' where r: "pte_alloc_map mm va s = Inr (pte, s')"
    using pte_alloc_from_total[of 0 2 s ?pg va] by (auto simp: pte_alloc_map_def)
  obtain lv' L' where g: "grows s ?pg lv L s' lv' L'" and w: "walk 2 (ram s') ?pg va = Some pte"
    using pte_alloc_map_grows[OF as va r] by blast
  note d = as_invD[OF growsD(1)[OF g]]
  have "load64 (ram s') pte = lookup (ram s) ?pg va"
    using growsD(7)[OF g va] w by (simp add: lookup_def look_def)
  moreover have "lookup (store64 pte v (ram s')) ?pg vb = (if page_no vb = page_no va then v else lookup (ram s) ?pg vb)"
    if "user vb" for v vb
    using leaf_store(3)[OF d(2,3) va w that] growsD(7)[OF g that] by simp
  ultimately show ?thesis
    using r growsD(3,7)[OF g] as_inv_leaf_store(1)[OF growsD(1)[OF g] va w] by blast
qed

theorem pte_alloc_map_correct_witness:
  "\<exists>s' pg pte. pte_alloc_map 0x100 0x1000 (example_space pg) = Inr (pte, s') \<and>
     lookup (ram s') pg 0x1000 = 0 \<and> lookup (store64 pte 0x21 (ram s')) pg 0x1234 = 0x21 \<and>
     lookup (store64 pte 0x21 (ram s')) pg 0x2000 = 0"
proof -
  obtain pg lv L where s: "as_inv (example_space pg) (pgd (tasks (example_space pg) 0x100)) lv L"
      "plenty 1279 (heap (example_space pg))" "\<forall>va. user va \<longrightarrow> lookup (ram (example_space pg)) pg va = 0"
      "pgd (tasks (example_space pg) 0x100) = pg"
    using example_space_inv by blast
  have u: "user 0x1000" "user 0x1234" "user 0x2000" "page_no 0x1234 = page_no 0x1000" "page_no 0x2000 \<noteq> page_no 0x1000"
    by (simp_all add: user_def page_no_def)
  have "plenty 2 (heap (example_space pg))" by (rule plenty_le[OF s(2)]) simp
  from pte_alloc_map_correct[OF s(1) u(1) this] obtain pte s' where r:
    "pte_alloc_map 0x100 0x1000 (example_space pg) = Inr (pte, s')"
    "\<forall>vb. user vb \<longrightarrow> lookup (ram s') pg vb = lookup (ram (example_space pg)) pg vb"
    "\<forall>v vb. user vb \<longrightarrow> lookup (store64 pte v (ram s')) pg vb =
        (if page_no vb = page_no 0x1000 then v else lookup (ram (example_space pg)) pg vb)"
    unfolding s(4) by blast
  show ?thesis using r s(3) u by (intro exI[of _ s'] exI[of _ pg] exI[of _ pte]) simp
qed

text \<open>For an aligned range these are the pages that its bytes lie in, and with an aligned frame and a protection of ten
  bits an entry leads to the frame and carries the protection.\<close>

lemma pages_of_range:
  assumes n: "n = (unat len + 4095) div 4096" and va: "unat va + 4096 * n < 2 ^ 38" and al: "4096 dvd unat (va :: u64)"
  shows "page_no va \<le> page_no vb \<and> page_no vb < page_no va + n \<longleftrightarrow> (\<exists>i < unat (len :: u64). page_no (va + of_nat i) = page_no vb)"
proof -
  have l: "unat len \<le> 4096 * n" unfolding n by simp
  have pn: "page_no (va + of_nat i) = page_no va + i div 4096" if "i < unat len" for i
  proof -
    have i: "unat va + i < 2 ^ 38" using that l va by linarith
    then have "unat (va + of_nat i) = unat va + i" using unat_small[of i] by (simp add: unat_plus_if')
    then show ?thesis using al by (simp add: page_no_def div_plus_div_distrib_dvd_left)
  qed
  show ?thesis
  proof
    assume m: "page_no va \<le> page_no vb \<and> page_no vb < page_no va + n"
    let ?i = "4096 * (page_no vb - page_no va)"
    have "page_no vb - page_no va + 1 \<le> n" using m by linarith
    then have "?i + 4096 \<le> 4096 * n" by (simp add: algebra_simps) 
    also have "4096 * n \<le> unat len + 4095" unfolding n by simp
    finally have l: "?i < unat len" by linarith
    have "page_no (va + of_nat ?i) = page_no vb" unfolding pn[OF l] using m by simp
    then show "\<exists>i < unat len. page_no (va + of_nat i) = page_no vb" using l by blast
  next
    assume "\<exists>i < unat len. page_no (va + of_nat i) = page_no vb"
    then obtain i where i: "i < unat len" "page_no vb = page_no va + i div 4096" using pn by metis
    have "i div 4096 < n" using i(1) l by (simp add: less_mult_imp_div_less mult.commute)
    then show "page_no va \<le> page_no vb \<and> page_no vb < page_no va + n" using i(2) by simp
  qed
qed

lemma aligned_entry:
  fixes pa prot :: u64 and i :: nat
  assumes al: "4096 dvd unat pa" and pr: "prot < 1024"
  defines "a \<equiv> pa + of_nat (4096 * i)"
  shows "pte_to_virt (drop_bit 2 a OR prot) = phys_to_virt a" and "(drop_bit 2 a OR prot) AND 0x3ff = prot"
proof -
  have m: "(0x3ff :: u64) = mask 10" by (simp add: mask_eq_exp_minus_1)
  have z: "take_bit 12 pa = 0" using al by (simp add: take_bit_eq_mod word_arith_nat_mod dvd_eq_mod_eq_0)
  have w: "(of_nat (4096 * i) :: u64) = push_bit 12 (of_nat i)" by (simp add: push_bit_eq_mult)
  have "pa = push_bit 12 (drop_bit 12 pa)" using bits_ident[of 12 pa] by (simp only: z add_0_right)
  then have "a = push_bit 12 (drop_bit 12 pa + of_nat i)" unfolding a_def w push_bit_add by (simp only:)
  then have "take_bit 12 a = 0" by (simp only: take_bit_push_bit diff_self_eq_0 take_bit_0 push_bit_of_0)
  then have low: "\<not> bit a n" if "n < 12" for n by (metis bit_0_eq bit_take_bit_iff bot_apply bot_bool_def that)
  have "unat prot < 2 ^ 10" using pr by (simp add: word_less_nat_alt)
  then have "unat (take_bit 10 prot) = unat prot" unfolding unsigned_take_bit_eq by (rule take_bit_nat_eq_self)
  then have "take_bit 10 prot = prot" by (simp only: word_unat_eq_iff)
  then have high: "\<not> bit prot n" if "10 \<le> n" for n by (metis bit_take_bit_iff not_less that)
  have "push_bit 2 ((drop_bit 2 a OR prot) AND NOT 0x3ff) = a"
  proof (rule bit_word_eqI)
    fix n assume n: "n < LENGTH(64)"
    show "bit (push_bit 2 ((drop_bit 2 a OR prot) AND NOT 0x3ff)) n \<longleftrightarrow> bit a n"
    proof (cases "n < 12")
      case True
      then have "2 \<le> n \<longrightarrow> n - 2 < 10" by linarith
      then show ?thesis using True low[OF True] unfolding m by (auto simp: bit_simps)
    next
      case False
      then obtain j where j: "n = j + 12" using le_Suc_ex[of 12 n] by (auto simp: add.commute)
      then show ?thesis using n high[of "j + 10"] unfolding m by (auto simp: bit_simps add.commute)
    qed
  qed
  then show "pte_to_virt (drop_bit 2 a OR prot) = phys_to_virt a" by (simp add: pte_to_virt_def)
  show "(drop_bit 2 a OR prot) AND 0x3ff = prot"
  proof (rule bit_word_eqI)
    fix n assume "n < LENGTH(64)"
    show "bit ((drop_bit 2 a OR prot) AND 0x3ff) n \<longleftrightarrow> bit prot n"
      using high[of n] low[of "2 + n"] unfolding m by (cases "n < 10") (auto simp: bit_simps)
  qed
qed

text \<open>C11: \<open>map_pages\<close> of a range of \<open>n\<close> pages, below two gigabytes, ends. It enters the \<open>n\<close> pages from the one of \<open>va\<close>
  on, each with the address at the same distance from \<open>pa\<close> and the protection; no other page is mapped another way.
  When \<open>va\<close> is aligned, these are exactly the pages that the bytes of the range lie in (an unaligned \<open>va\<close> can miss
  the last one). When \<open>pa\<close> is aligned and the protection has ten bits, each entry leads to the frame and carries the
  protection (bits of an unaligned \<open>pa\<close> would fall into it).\<close>

theorem map_pages_correct:
  assumes as: "as_inv s (pgd (tasks s mm)) lv L" and n: "n = (unat len + 4095) div 4096" "n * 4096 < 2 ^ 31"
    and va: "unat va + 4096 * n < 2 ^ 38" and p: "plenty (2 * n) (heap s)"
  shows "(\<exists>s' lv' L'. map_pages mm va len pa prot s = Inr s' \<and> as_inv s' (pgd (tasks s mm)) lv' L' \<and> L \<subseteq> L' \<and>
      (\<forall>vb. user vb \<longrightarrow> lookup (ram s') (pgd (tasks s mm)) vb =
        (if page_no va \<le> page_no vb \<and> page_no vb < page_no va + n
         then drop_bit 2 (pa + of_nat (4096 * page_index va vb)) OR prot
         else lookup (ram s) (pgd (tasks s mm)) vb))) \<and>
    (4096 dvd unat va \<longrightarrow> (\<forall>vb. page_no va \<le> page_no vb \<and> page_no vb < page_no va + n \<longleftrightarrow>
      (\<exists>i < unat len. page_no (va + of_nat i) = page_no vb))) \<and>
    (4096 dvd unat pa \<and> prot < 1024 \<longrightarrow> (\<forall>i. pte_to_virt (drop_bit 2 (pa + of_nat (4096 * i)) OR prot) = phys_to_virt (pa + of_nat (4096 * i)) \<and>
      (drop_bit 2 (pa + of_nat (4096 * i)) OR prot) AND 0x3ff = prot))"
proof -
  have "0 \<le> n" by simp
  from map_pages_loop_correct[OF n(2,1) va this as, of pa prot] obtain r where
    r: "map_pages_loop mm va len pa prot 0 s = Some r" "\<exists>s'. r = Inr s'"
      "\<forall>s'. r = Inr s' \<longrightarrow> (\<exists>lv' L'. as_inv s' (pgd (tasks s mm)) lv' L' \<and> L \<subseteq> L') \<and>
        (\<forall>vb. user vb \<longrightarrow> lookup (ram s') (pgd (tasks s mm)) vb =
          (if page_no va \<le> page_no vb \<and> page_no vb < page_no va + n
           then drop_bit 2 (pa + of_nat (4096 * page_index va vb)) OR prot
           else lookup (ram s) (pgd (tasks s mm)) vb))"
    using p by auto
  have "\<exists>s' lv' L'. map_pages mm va len pa prot s = Inr s' \<and> as_inv s' (pgd (tasks s mm)) lv' L' \<and> L \<subseteq> L' \<and>
      (\<forall>vb. user vb \<longrightarrow> lookup (ram s') (pgd (tasks s mm)) vb =
        (if page_no va \<le> page_no vb \<and> page_no vb < page_no va + n
         then drop_bit 2 (pa + of_nat (4096 * page_index va vb)) OR prot
         else lookup (ram s) (pgd (tasks s mm)) vb))"
    using r unfolding map_pages_def by (elim exE) simp
  then show ?thesis using pages_of_range[OF n(1) va] aligned_entry[of pa prot] by blast
qed

theorem map_pages_correct_witness:
  "\<exists>s' pg. map_pages 0x100 0x1000 0x1001 0x10000000 0x17 (example_space pg) = Inr s' \<and>
     lookup (ram s') pg 0x1000 = 0x4000017 \<and> lookup (ram s') pg 0x2ff8 = 0x4000417 \<and> lookup (ram s') pg 0x3000 = 0"
proof -
  obtain pg lv L where s: "as_inv (example_space pg) (pgd (tasks (example_space pg) 0x100)) lv L"
      "plenty 1279 (heap (example_space pg))" "\<forall>va. user va \<longrightarrow> lookup (ram (example_space pg)) pg va = 0"
      "pgd (tasks (example_space pg) 0x100) = pg"
    using example_space_inv by blast
  have pl: "plenty (2 * 2) (heap (example_space pg))" by (rule plenty_le[OF s(2)]) simp
  have u: "user 0x1000" "user 0x2ff8" "user 0x3000" by (simp_all add: user_def)
  have n: "2 = (unat (0x1001 :: u64) + 4095) div 4096" "2 * 4096 < (2 :: nat) ^ 31"
    "unat (0x1000 :: u64) + 4096 * 2 < 2 ^ 38" by simp_all
  from map_pages_correct[OF s(1) n pl, of "0x10000000" "0x17"] obtain s' where
    r: "map_pages 0x100 0x1000 0x1001 0x10000000 0x17 (example_space pg) = Inr s'"
      "\<forall>vb. user vb \<longrightarrow> lookup (ram s') pg vb =
        (if page_no 0x1000 \<le> page_no vb \<and> page_no vb < page_no 0x1000 + 2
         then drop_bit 2 (0x10000000 + of_nat (4096 * page_index 0x1000 vb)) OR 0x17
         else lookup (ram (example_space pg)) pg vb)"
    unfolding s(4) by blast
  have "lookup (ram s') pg 0x1000 = 0x4000017" "lookup (ram s') pg 0x2ff8 = 0x4000417" "lookup (ram s') pg 0x3000 = 0"
    using r(2) u s(3) by (simp_all add: page_no_def page_index_def drop_bit_eq_div)
  then show ?thesis using r(1) by blast
qed

end
