(* ===== verification/Faults.thy ===== *)
theory Faults
  imports Paging
begin

text \<open>
  Page faults, \<open>do_page_fault\<close> of \<open>src/vm.c\<close>: which area has the address and what it permits, a page for an
  address that has none, a page of its own for a write to a shared page, and the end of the task that has
  no right to the address.
\<close>

section \<open>Messages\<close>

lemma vprintk_plain:
  assumes "tx_ready s" and "\<forall>c \<in> set cs. c \<noteq> 0x25"
  shows "\<exists>s1. sends (crlf cs) s s1 \<and> vprintk (cs @ fmt) args s = vprintk fmt args s1"
  using assms
proof (induction cs arbitrary: s)
  case Nil
  then show ?case using sends_refl by fastforce
next
  case (Cons c cs)
  obtain s1 where s1: "uart_putc c s = Some s1" "sends (crlf [c]) s s1" using uart_putc_sends[OF Cons.prems(1)] by blast
  have "tx_ready s1" using sends_fields(3)[OF s1(2)] Cons.prems(1) by simp
  then obtain s2 where s2: "sends (crlf cs) s1 s2" "vprintk (cs @ fmt) args s1 = vprintk fmt args s2"
    using Cons.IH Cons.prems(2) by auto
  have "vprintk ((c # cs) @ fmt) args s = vprintk fmt args s2"
    using Cons.prems(2) s1(1) s2(2) by (simp add: vprintk.simps)
  moreover have "sends (crlf (c # cs)) s s2" using sends_trans[OF s1(2) s2(1)] by simp
  ultimately show ?case by blast
qed

lemma vprintk_p:
  assumes "tx_ready s"
  shows "\<exists>cs s1. sends cs s s1 \<and> vprintk (0x25 # 0x70 # fmt) (a # args) s = vprintk fmt args s1"
proof -
  obtain s1 where s1: "uart_write (chars ''0x'') s = Some s1" "sends (crlf (chars ''0x'')) s s1"
    using uart_write_sends[OF assms] by blast
  have "tx_ready s1" using sends_fields(3)[OF s1(2)] assms by simp
  then obtain s2 cs where s2: "uart_write (map (\<lambda>i. digits ! unat (drop_bit 60 (push_bit (4 * i) a))) [0..<16]) s1 = Some s2"
      "sends cs s1 s2" using uart_write_sends by blast
  have "printptr a s = Inr s2" using s1(1) s2(1) by (simp add: printptr_def)
  then have "vprintk (0x25 # 0x70 # fmt) (a # args) s = vprintk fmt args s2"
    by (subst vprintk.simps) (simp add: starts_def chars_def)
  then show ?thesis using sends_trans[OF s1(2) s2(2)] by blast
qed

lemma vprintk_ld:
  assumes "tx_ready s" and "\<bar>sint a\<bar> < 10 ^ 15"
  shows "\<exists>cs s1. sends cs s s1 \<and> vprintk (0x25 # 0x6c # 0x64 # fmt) (a # args) s = vprintk fmt args s1"
proof -
  obtain s1 cs where s1: "printint a 10 True s = Inr s1" "sends cs s s1" using printint_decimal[OF assms] by blast
  then have "vprintk (0x25 # 0x6c # 0x64 # fmt) (a # args) s = vprintk fmt args s1"
    by (subst vprintk.simps) (simp add: starts_def chars_def)
  then show ?thesis using s1(2) by blast
qed

lemma printk_plain:
  assumes "tx_ready s" and "\<forall>c \<in> set (chars cs). c \<noteq> 0x25"
  shows "\<exists>s1. sends (crlf (chars cs)) s s1 \<and> printk cs args s = Inr s1"
  using vprintk_plain[OF assms, of "[]" args] by (simp add: printk_def vprintk_nil)

lemma fault_message:
  assumes t: "tx_ready s" and c: "\<bar>sint cause\<bar> < 10 ^ 15"
  shows "\<exists>cs s'. sends cs s s' \<and> printk ''page fault at %p (%ld)\<newline>'' [addr, cause] s = Inr s'"
proof -
  have fmt: "chars ''page fault at %p (%ld)\<newline>'' =
      chars ''page fault at '' @ 0x25 # 0x70 # chars '' ('' @ 0x25 # 0x6c # 0x64 # chars '')\<newline>'' @ []"
    by (simp add: chars_def)
  obtain s1 where s1: "sends (crlf (chars ''page fault at '')) s s1"
    "vprintk (chars ''page fault at %p (%ld)\<newline>'') [addr, cause] s =
      vprintk (0x25 # 0x70 # chars '' ('' @ 0x25 # 0x6c # 0x64 # chars '')\<newline>'' @ []) [addr, cause] s1"
    using vprintk_plain[OF t, of "chars ''page fault at ''"] unfolding fmt by (force simp: chars_def)
  note t1 = sends_fields(3)[OF s1(1), THEN iffD2, OF t]
  obtain d1 s2 where s2: "sends d1 s1 s2" "vprintk (0x25 # 0x70 # chars '' ('' @ 0x25 # 0x6c # 0x64 # chars '')\<newline>'' @ []) [addr, cause] s1 =
      vprintk (chars '' ('' @ 0x25 # 0x6c # 0x64 # chars '')\<newline>'' @ []) [cause] s2"
    using vprintk_p[OF t1] by blast
  note t2 = sends_fields(3)[OF s2(1), THEN iffD2, OF t1]
  obtain s3 where s3: "sends (crlf (chars '' ('')) s2 s3"
    "vprintk (chars '' ('' @ 0x25 # 0x6c # 0x64 # chars '')\<newline>'' @ []) [cause] s2 =
      vprintk (0x25 # 0x6c # 0x64 # chars '')\<newline>'' @ []) [cause] s3"
    using vprintk_plain[OF t2, of "chars '' (''"] by (force simp: chars_def)
  note t3 = sends_fields(3)[OF s3(1), THEN iffD2, OF t2]
  obtain d2 s4 where s4: "sends d2 s3 s4"
    "vprintk (0x25 # 0x6c # 0x64 # chars '')\<newline>'' @ []) [cause] s3 = vprintk (chars '')\<newline>'' @ []) [] s4"
    using vprintk_ld[OF t3 c] by blast
  note t4 = sends_fields(3)[OF s4(1), THEN iffD2, OF t3]
  obtain s5 where s5: "sends (crlf (chars '')\<newline>'')) s4 s5"
    "vprintk (chars '')\<newline>'' @ []) [] s4 = vprintk [] [] s5"
    using vprintk_plain[OF t4, of "chars '')\<newline>''"] by (force simp: chars_def)
  have "printk ''page fault at %p (%ld)\<newline>'' [addr, cause] s = Inr s5"
    using s1(2) s2(2) s3(2) s4(2) s5(2) by (simp add: printk_def vprintk_nil)
  then show ?thesis
    using sends_trans[OF s1(1) sends_trans[OF s2(1) sends_trans[OF s3(1) sends_trans[OF s4(1) s5(1)]]]] by blast
qed

section \<open>Entries of the last level\<close>

definition prot_of :: "bool \<Rightarrow> bool \<Rightarrow> bool \<Rightarrow> u64" where
  "prot_of r w x = 0xd1 OR (if r then 2 else 0) OR (if w then 4 else 0) OR (if x then 8 else 0)"

lemma mk_pte_prot: "mk_pte a f = drop_bit 2 (virt_to_phys a) OR prot_of (bit f 0) (bit f 1) (bit f 2)"
proof -
  have b: "f AND VM_READ \<noteq> 0 \<longleftrightarrow> bit f 0" "f AND VM_WRITE \<noteq> 0 \<longleftrightarrow> bit f 1" "f AND VM_EXEC \<noteq> 0 \<longleftrightarrow> bit f 2"
    using and_exp_eq_0_iff_not_bit[of f 0] and_exp_eq_0_iff_not_bit[of f 1] and_exp_eq_0_iff_not_bit[of f 2]
    by (simp_all add: VM_READ_def VM_WRITE_def VM_EXEC_def)
  show ?thesis
    unfolding mk_pte_def Let_def b prot_of_def
    by (simp add: PAGE_DIRTY_def PAGE_ACCESSED_def PAGE_USER_def PAGE_PRESENT_def PAGE_READ_def PAGE_WRITE_def PAGE_EXEC_def
        or.assoc)
qed

lemma less_8: "n < 8 \<longleftrightarrow> n = 0 \<or> n = 1 \<or> n = 2 \<or> n = 3 \<or> n = 4 \<or> n = 5 \<or> n = 6 \<or> n = (7 :: nat)"
  by auto

lemma prot_bits:
  "bit (prot_of r w x) n \<longleftrightarrow> n = 0 \<or> n = 1 \<and> r \<or> n = 2 \<and> w \<or> n = 3 \<and> x \<or> n = 4 \<or> n = 6 \<or> n = 7"
proof (cases "n < 8")
  case True
  then show ?thesis unfolding less_8 prot_of_def by (elim disjE; cases r; cases w; cases x; simp)
next
  case False
  have "take_bit 8 (prot_of r w x) = prot_of r w x" unfolding prot_of_def by (cases r; cases w; cases x; simp)
  then have "\<not> bit (prot_of r w x) n" using False bit_take_bit_iff[of 8 "prot_of r w x" n] by simp
  then show ?thesis using False by auto
qed

lemma mk_pte_entry:
  assumes "dm_page a"
  shows "pte_to_virt (mk_pte a f) = a"
    and "mk_pte a f AND PAGE_READ \<noteq> 0 \<longleftrightarrow> f AND VM_READ \<noteq> 0"
    and "mk_pte a f AND PAGE_WRITE \<noteq> 0 \<longleftrightarrow> f AND VM_WRITE \<noteq> 0"
    and "mk_pte a f AND PAGE_EXEC \<noteq> 0 \<longleftrightarrow> f AND VM_EXEC \<noteq> 0"
    and "mk_pte a f AND PAGE_PRESENT \<noteq> 0" and "mk_pte a f AND PAGE_USER \<noteq> 0"
proof -
  note q = prot_bits
  show "pte_to_virt (mk_pte a f) = a"
    unfolding mk_pte_prot by (rule pte_to_virt_page[OF assms]) (auto simp: q)
  have b: "bit (mk_pte a f) n \<longleftrightarrow> bit (prot_of (bit f 0) (bit f 1) (bit f 2)) n" if "n < 8" for n
  proof -
    have "\<not> bit (virt_to_phys a) (n + 2)" using page_phys_bits[OF assms, of "n + 2"] that by simp
    then show ?thesis unfolding mk_pte_prot by (simp add: bit_simps add.commute)
  qed
  have e: "w AND push_bit n 1 \<noteq> 0 \<longleftrightarrow> bit w n" for w :: u64 and n
    using and_exp_eq_0_iff_not_bit[of w n] by (simp add: push_bit_eq_mult)
  have fl: "VM_READ = push_bit 0 1" "VM_WRITE = push_bit 1 1" "VM_EXEC = push_bit 2 1"
    by (simp_all add: VM_READ_def VM_WRITE_def VM_EXEC_def)
  show "mk_pte a f AND PAGE_READ \<noteq> 0 \<longleftrightarrow> f AND VM_READ \<noteq> 0"
    "mk_pte a f AND PAGE_WRITE \<noteq> 0 \<longleftrightarrow> f AND VM_WRITE \<noteq> 0"
    "mk_pte a f AND PAGE_EXEC \<noteq> 0 \<longleftrightarrow> f AND VM_EXEC \<noteq> 0"
    "mk_pte a f AND PAGE_PRESENT \<noteq> 0" "mk_pte a f AND PAGE_USER \<noteq> 0"
    unfolding PAGE_READ_def PAGE_WRITE_def PAGE_EXEC_def PAGE_PRESENT_def PAGE_USER_def fl e
    using b q by simp_all
qed

section \<open>Areas\<close>

definition areas :: "'z vms_scheme \<Rightarrow> u64 \<Rightarrow> u64 list \<Rightarrow> bool" where
  "areas s mm vs \<longleftrightarrow> dlist (vma_links s) (MmapHead mm) (map VmaList vs) \<and> 0 \<notin> set vs"

definition in_area :: "'z vms_scheme \<Rightarrow> u64 \<Rightarrow> u64 \<Rightarrow> bool" where
  "in_area s addr v \<longleftrightarrow> vm_start (vma_mem s v) \<le> addr \<and> addr < vm_end (vma_mem s v)"

lemma find_map_ctor: "find P (map f xs) = map_option f (find (\<lambda>x. P (f x)) xs)"
  by (induction xs) auto

lemma find_vma_find:
  assumes "areas s mm vs"
  shows "find_vma mm addr s = Inr (case find (in_area s addr) vs of None \<Rightarrow> 0 | Some v \<Rightarrow> v)"
proof -
  have "dlist (vma_links s) (MmapHead mm) (map VmaList vs)" using assms by (simp add: areas_def)
  from list_search_dlist[OF this] have
    "find_vma mm addr s = Inr (case map_option VmaList (find (in_area s addr) vs) of Some pos \<Rightarrow> vma_of pos | None \<Rightarrow> 0)"
    unfolding find_vma_def find_map_ctor in_area_def by simp
  then show ?thesis by (simp split: option.split)
qed

definition permits :: "u64 \<Rightarrow> u64 \<Rightarrow> bool" where
  "permits cause flags \<longleftrightarrow>
     (cause = EXC_INST_PAGE_FAULT \<longrightarrow> flags AND VM_EXEC \<noteq> 0) \<and>
     (cause = EXC_LOAD_PAGE_FAULT \<longrightarrow> flags AND VM_READ \<noteq> 0 \<or> flags AND VM_WRITE \<noteq> 0) \<and>
     (cause = EXC_STORE_PAGE_FAULT \<longrightarrow> flags AND VM_WRITE \<noteq> 0)"

definition page_fault :: "u64 \<Rightarrow> bool" where
  "page_fault cause \<longleftrightarrow> cause \<in> {EXC_INST_PAGE_FAULT, EXC_LOAD_PAGE_FAULT, EXC_STORE_PAGE_FAULT}"

lemma access_error_permits:
  assumes "page_fault cause"
  shows "access_error cause v s = Inr (\<not> permits cause (vm_flags (vma_mem s v)), s)"
proof -
  have "f AND VM_READ OR f AND VM_WRITE = 0 \<longleftrightarrow> f AND VM_READ = 0 \<and> f AND VM_WRITE = 0" for f :: u64
    by (metis or_eq_0_iff)
  then show ?thesis
    using assms
    by (auto simp: access_error_def permits_def page_fault_def EXC_INST_PAGE_FAULT_def EXC_LOAD_PAGE_FAULT_def
        EXC_STORE_PAGE_FAULT_def bit.conj_disj_distrib)
qed

section \<open>A page on demand\<close>

text \<open>Bytes in memory that is handed out and holds no table.\<close>

definition held :: "chunk set \<Rightarrow> u64 set \<Rightarrow> u64 \<Rightarrow> bool" where
  "held L T x \<longleftrightarrow> (\<exists>c n. (c, n) \<in> L \<and> c \<notin> T \<and> unat (x - c) < n)"

lemma held_kept:
  assumes "held L T x" and "mm_inv h L'" and "L \<subseteq> L'" and "only_in P m m'"
    and "\<And>p. p \<in> P \<Longrightarrow> (p, 4096) \<in> L'" and "P \<inter> fst ` L \<subseteq> T"
  shows "m' x = m x"
proof -
  obtain c n where c: "(c, n) \<in> L" "c \<notin> T" "unat (x - c) < n" using assms(1) by (auto simp: held_def)
  have "c \<in> fst ` L" using c(1) by force
  then have "c \<notin> P" using assms(6) c(2) by blast
  then show ?thesis using chunk_kept[OF assms(2) _ assms(4,5) _ c(3)] assms(3) c(1) by blast
qed

lemma held_not_fresh:
  assumes "held L T x" and "mm_inv h (insert (a, 4096) L)" and "a \<notin> fst ` L"
  shows "4096 \<le> unat (x - a)"
proof (rule ccontr)
  assume f: "\<not> 4096 \<le> unat (x - a)"
  obtain c n where c: "(c, n) \<in> L" "unat (x - c) < n" using assms(1) by (auto simp: held_def)
  have "(c, n) \<noteq> (a, 4096)" using assms(3) c(1) by force
  then have "chunk_bytes (c, n) \<inter> chunk_bytes (a, 4096) = {}"
    using ha.chunks_disjoint[OF assms(2), of "(c, n)" "(a, 4096)"] c(1) by blast
  then show False using chunk_byte[OF assms(2) _ c(2)] chunk_byte[OF assms(2), of a 4096 x] c(1) f by auto
qed

text \<open>A fresh page that is filled and entered.\<close>

lemma fresh_page_entered:
  fixes v :: u64
  assumes a: "as_inv s pg lv L" and va: "user va" and w: "walk 2 (ram s) pg va = Some pte"
    and m: "mm_inv h (insert (a, 4096) L)" "a \<notin> fst ` L"
    and f: "only_in {a} (ram s) m0"
  defines "s' \<equiv> s\<lparr>heap := h, ram := store64 pte v m0\<rparr>"
  shows "as_inv s' pg lv (insert (a, 4096) L)"
    and "user vb \<Longrightarrow> lookup (ram s') pg vb = (if page_no vb = page_no va then v else lookup (ram s) pg vb)"
    and "unat (x - a) < 4096 \<Longrightarrow> ram s' x = m0 x"
    and "only_in (insert a (tables lv)) (ram s) (ram s')"
proof -
  let ?s0 = "s\<lparr>heap := h, ram := m0\<rparr>"
  note d = as_invD[OF a]
  have na: "a \<notin> tables lv" using d(4)[of a] m(2) by force
  have "mm_inv (heap ?s0) (insert (a, 4096) L)" "L \<subseteq> insert (a, 4096) L" "only_in {a} (ram s) (ram ?s0)"
    using m(1) f by auto
  note fr = as_inv_frame[OF a this, OF _ _, simplified]
  have as0: "as_inv ?s0 pg lv (insert (a, 4096) L)" using fr(1) na by simp
  have w0: "walk 2 (ram ?s0) pg va = Some pte" using fr(2)[OF na va] w by simp
  note d0 = as_invD[OF as0]
  show i: "as_inv s' pg lv (insert (a, 4096) L)" using as_inv_leaf_store(1)[OF as0 va w0] by (simp add: s'_def)
  show "user vb \<Longrightarrow> lookup (ram s') pg vb = (if page_no vb = page_no va then v else lookup (ram s) pg vb)"
    using leaf_store(3)[OF d0(2,3) va w0, of vb v] fr(3)[OF na, of vb] by (simp add: s'_def)
  have st: "only_in (tables lv) m0 (ram s')" using as_inv_leaf_store(2)[OF as0 va w0, of v] by (simp add: s'_def)
  show "unat (x - a) < 4096 \<Longrightarrow> ram s' x = m0 x"
    by (rule chunk_kept[OF m(1) _ st _ na]) (use d0(4) in auto)
  show "only_in (insert a (tables lv)) (ram s) (ram s')" by (rule only_in_trans[OF f st]) auto
qed

lemma add_unat_diff: "(p :: u64) + of_nat (unat (a - p)) = a"
  by simp

lemma as_inv_cong: "as_inv s pg lv L \<Longrightarrow> heap t = heap s \<Longrightarrow> ram t = ram s \<Longrightarrow> as_inv t pg lv L"
  by (simp add: as_inv_def)

lemma memcpy_loop_outside:
  "n < 2 ^ 64 \<Longrightarrow> \<exists>m'. memcpy_loop m d src (int n) = Some m' \<and> (\<forall>x. n \<le> unat (x - d) \<longrightarrow> m' x = m x)"
proof (induction n arbitrary: m d src)
  case (Suc n)
  let ?m = "m(d := m src)"
  have "n < 2 ^ 64" using Suc.prems by simp
  from Suc.IH[OF this, of ?m "d + 1" "src + 1"] obtain m' where
    m': "memcpy_loop ?m (d + 1) (src + 1) (int n) = Some m'" "\<forall>x. n \<le> unat (x - (d + 1)) \<longrightarrow> m' x = ?m x" by blast
  have "m' x = m x" if x: "Suc n \<le> unat (x - d)" for x
  proof -
    have "x \<noteq> d" using x by auto
    moreover have "unat (x - d - 1) = unat (x - d) - 1" using x by (intro unat_minus_one) auto
    then have "n \<le> unat (x - (d + 1))" using x by (simp add: diff_diff_eq)
    ultimately show ?thesis using m'(2) by simp
  qed
  moreover have "memcpy_loop m d src (int (Suc n)) = Some m'" using m'(1) by (subst memcpy_loop.simps) simp
  ultimately show ?case by blast
qed (simp add: memcpy_loop.simps)

text \<open>A copied page; its contents are those of the source when the two do not overlap.\<close>

lemma memcpy_page:
  "\<exists>m'. memcpy m a src (int PAGE_SIZE) = Some (a, m') \<and> only_in {a} m m' \<and>
    ((\<forall>i < 4096. 4096 \<le> unat (src + of_nat i - a)) \<longrightarrow> (\<forall>i < 4096. m' (a + of_nat i) = m (src + of_nat i)))"
proof -
  have n: "(4096 :: nat) < 2 ^ 64" by simp
  from memcpy_loop_outside[OF n, of m a src] obtain m' where
    m': "memcpy_loop m a src (int 4096) = Some m'" "\<forall>x. 4096 \<le> unat (x - a) \<longrightarrow> m' x = m x" by blast
  have "m' (a + of_nat i) = m (src + of_nat i)" if ap: "\<forall>i < 4096. 4096 \<le> unat (src + of_nat i - a)" and i: "i < 4096" for i
  proof -
    have "4096 \<le> unat (a - src)"
    proof (rule ccontr)
      assume "\<not> 4096 \<le> unat (a - src)"
      then have "4096 \<le> unat (src + of_nat (unat (a - src)) - a)" using ap by (simp only: not_le)
      then show False by (simp only: add_unat_diff) simp
    qed
    then have "memcpy_loop m a src (int 4096) = Some (\<lambda>x. if unat (x - a) < 4096 then m (src + (x - a)) else m x)"
      using memcpy_loop_bytes[OF n, of a src m] by blast
    then have "m' = (\<lambda>x. if unat (x - a) < 4096 then m (src + (x - a)) else m x)" using m'(1) by simp
    then show ?thesis using i unat_small[of i] by simp
  qed
  moreover have "only_in {a} m m'" unfolding only_in_def using m'(2) by (metis not_le singletonI)
  ultimately show ?thesis using m'(1) by (intro exI[of _ m']) (simp add: memcpy_def PAGE_SIZE_def)
qed

lemma demand_page_as:
  fixes s :: "'z vms_scheme" and addr v :: u64
  assumes a: "as_inv s pg lv L" and va: "user va" and w: "walk 2 (ram s) pg va = Some pte"
    and k: "kmalloc (of_nat PAGE_SIZE) (heap s) = Inr (a, h)"
  defines "src \<equiv> vm_file (vma_mem s v) + (addr - vm_start (vma_mem s v))"
  shows "\<exists>m. demand_page v addr pte s = Inr (s\<lparr>heap := h, ram := m\<rparr>) \<and>
    as_inv (s\<lparr>heap := h, ram := m\<rparr>) pg lv (insert (a, 4096) L) \<and>
    (\<forall>vb. user vb \<longrightarrow> lookup m pg vb =
      (if page_no vb = page_no va then mk_pte a (vm_flags (vma_mem s v)) else lookup (ram s) pg vb)) \<and>
    (vm_file (vma_mem s v) = 0 \<longrightarrow> (\<forall>i < 4096. m (a + of_nat i) = 0)) \<and>
    (vm_file (vma_mem s v) \<noteq> 0 \<and> (\<forall>i < 4096. 4096 \<le> unat (src + of_nat i - a)) \<longrightarrow>
      (\<forall>i < 4096. m (a + of_nat i) = ram s (src + of_nat i))) \<and>
    only_in (insert a (tables lv)) (ram s) m"
proof -
  note km = kmalloc_page[OF as_invD(1)[OF a] k]
  obtain m0 where fill: "(if vm_file (vma_mem s v) \<noteq> 0 then memcpy (ram s) a src (int PAGE_SIZE)
      else memset (ram s) a 0 (int PAGE_SIZE)) = Some (a, m0)" and f: "only_in {a} (ram s) m0"
    and z: "vm_file (vma_mem s v) = 0 \<longrightarrow> m0 = zero_page a (ram s)"
    and cp: "vm_file (vma_mem s v) \<noteq> 0 \<and> (\<forall>i < 4096. 4096 \<le> unat (src + of_nat i - a)) \<longrightarrow>
      (\<forall>i < 4096. m0 (a + of_nat i) = ram s (src + of_nat i))"
  proof (cases "vm_file (vma_mem s v) = 0")
    case True
    then show thesis by (intro that[of "zero_page a (ram s)"]) (simp_all add: memset_page zero_page_only_in)
  next
    case False
    then show thesis using that memcpy_page[of "ram s" a src] by auto
  qed
  note e = fresh_page_entered[OF a va w km(3,2) f, where v = "mk_pte a (vm_flags (vma_mem s v))", simplified]
  let ?m = "store64 pte (mk_pte a (vm_flags (vma_mem s v))) m0"
  have "demand_page v addr pte s = Inr (s\<lparr>heap := h, ram := ?m\<rparr>)"
    using k fill by (cases "vm_file (vma_mem s v) = 0") (simp_all add: demand_page_def Let_def src_def)
  moreover have in_page: "?m (a + of_nat i) = m0 (a + of_nat i)" if i: "i < 4096" for i
    using e(3)[of "a + of_nat i"] i unat_small[of i] by simp
  have "?m (a + of_nat i) = 0" if "i < 4096" "vm_file (vma_mem s v) = 0" for i
    using z that in_page unat_small[of i] by (simp add: zero_page_def)
  ultimately show ?thesis using e(1,2,4) cp in_page by (intro exI[of _ ?m] conjI allI impI) simp_all
qed

section \<open>A copy for a write\<close>

lemma put_page_shared:
  assumes "1 < refcount (mem_map h p)"
  shows "put_page p h = upd_page p (\<lambda>pg. pg\<lparr>refcount := refcount pg - 1\<rparr>) h"
proof -
  have "refcount (mem_map h p) - 1 \<noteq> 0" using assms by auto
  then show ?thesis by (simp add: put_page_def Let_def)
qed

lemma as_inv_refcount:
  assumes "as_inv s pg lv L"
  shows "as_inv (s\<lparr>heap := upd_page p (\<lambda>pg. pg\<lparr>refcount := f pg\<rparr>) (heap s)\<rparr>) pg lv L"
  using assms mm_inv_refcount unfolding as_inv_def by simp

text \<open>The page is shared: a copy is entered, and the page has one reference less.\<close>

lemma copy_on_write_shared:
  fixes s :: "'z vms_scheme"
  assumes a: "as_inv s pg lv L" and va: "user va" and w: "walk 2 (ram s) pg va = Some pte"
    and al: "alloc_pages 0 (heap s) = (Some q, h)"
    and old: "dm_page old" "(old, 4096) \<in> L" "pte_to_virt (load64 (ram s) pte) = old"
    and rc: "1 < refcount (mem_map (heap s) (virt_to_page old))"
  defines "h' \<equiv> upd_page (virt_to_page old) (\<lambda>pg. pg\<lparr>refcount := refcount pg - 1\<rparr>) h"
  shows "\<exists>m. copy_on_write v pte s = Inr (s\<lparr>heap := h', ram := m\<rparr>) \<and>
    as_inv (s\<lparr>heap := h', ram := m\<rparr>) pg lv (insert (page_addr q, 4096) L) \<and>
    (\<forall>vb. user vb \<longrightarrow> lookup m pg vb =
      (if page_no vb = page_no va then mk_pte (page_addr q) (vm_flags (vma_mem s v)) else lookup (ram s) pg vb)) \<and>
    (\<forall>i < 4096. m (page_addr q + of_nat i) = ram s (old + of_nat i)) \<and>
    only_in (insert (page_addr q) (tables lv)) (ram s) m"
proof -
  let ?a = "page_addr q" and ?fl = "vm_flags (vma_mem s v)"
  note km = alloc_page_heap[OF as_invD(1)[OF a] al]
  have dq: "dm_page ?a" using km(1) by (auto simp: dm_page_def)
  have no: "?a \<noteq> old" using km(2) old(2) by force
  have pold: "page_addr (virt_to_page old) = old" using old(1) page_addr_page(1) by (auto simp: dm_page_def)
  have vq: "virt_to_page old \<noteq> q" using pold no by auto
  have rh: "refcount (mem_map h (virt_to_page old)) = refcount (mem_map (heap s) (virt_to_page old))" by (rule km(5)[OF vq])
  let ?m0 = "\<lambda>x. if unat (x - ?a) < 4096 then ram s (old + (x - ?a)) else ram s x"
  have "4096 \<le> unat (?a - old)" using dm_page_apart[OF dq old(1) no] by (simp add: disjoint_ranges_def)
  moreover have "(4096 :: nat) < 2 ^ 64" by simp
  ultimately have cp: "memcpy (ram s) ?a old (int PAGE_SIZE) = Some (?a, ?m0)"
    using memcpy_loop_bytes[of 4096 ?a old "ram s"] by (simp add: memcpy_def PAGE_SIZE_def)
  have f: "only_in {?a} (ram s) ?m0" by (auto simp: only_in_def)
  have fresh: "mm_inv h (insert (?a, 4096) L)" "?a \<notin> fst ` L" by (rule km(3), rule km(2))
  note e = fresh_page_entered[OF a va w fresh f, where v = "mk_pte ?a ?fl"]
  let ?m = "store64 pte (mk_pte ?a ?fl) ?m0"
  have pp: "put_page (virt_to_page old) h = h'" using put_page_shared[of h "virt_to_page old"] rc rh by (simp add: h'_def)
  have "copy_on_write v pte s = Inr (s\<lparr>heap := h', ram := ?m\<rparr>)"
    using rc al cp by (simp add: copy_on_write_def Let_def old(3) page_to_virt_def pold pp)
  moreover have "as_inv (s\<lparr>heap := h', ram := ?m\<rparr>) pg lv (insert (?a, 4096) L)"
    by (rule as_inv_cong[OF as_inv_refcount[OF e(1), of "virt_to_page old" "\<lambda>pg. refcount pg - 1"]]) (simp_all add: h'_def)
  moreover have "?m (?a + of_nat i) = ram s (old + of_nat i)" if i: "i < 4096" for i
  proof -
    have u: "unat (?a + of_nat i - ?a) < 4096" using i unat_small[of i] by simp
    then show ?thesis using e(3)[OF u] by simp
  qed
  ultimately show ?thesis using e(2,4) by (intro exI[of _ ?m] conjI allI impI) simp_all
qed

text \<open>The page is not shared any more: it becomes writable where it is.\<close>

lemma copy_on_write_last:
  fixes s :: "'z vms_scheme"
  assumes a: "as_inv s pg lv L" and va: "user va" and w: "walk 2 (ram s) pg va = Some pte"
    and rc: "\<not> 1 < refcount (mem_map (heap s) (virt_to_page (pte_to_virt (load64 (ram s) pte))))"
  shows "\<exists>m. copy_on_write v pte s = Inr (s\<lparr>ram := m\<rparr>) \<and> as_inv (s\<lparr>ram := m\<rparr>) pg lv L \<and>
    (\<forall>vb. user vb \<longrightarrow> lookup m pg vb =
      (if page_no vb = page_no va then lookup (ram s) pg va OR PAGE_WRITE else lookup (ram s) pg vb)) \<and>
    only_in (tables lv) (ram s) m"
proof -
  let ?m = "store64 pte (load64 (ram s) pte OR PAGE_WRITE) (ram s)"
  have "copy_on_write v pte s = Inr (s\<lparr>ram := ?m\<rparr>)" using rc by (simp add: copy_on_write_def Let_def)
  moreover have "load64 (ram s) pte = lookup (ram s) pg va" using w by (simp add: lookup_def look_def)
  ultimately show ?thesis
    using as_inv_leaf_store[OF a va w] leaf_store(3)[OF as_invD(2,3)[OF a] va w]
    by (intro exI[of _ ?m] conjI allI impI) simp_all
qed

section \<open>The handler\<close>

definition fault_addr :: "u64 \<Rightarrow> 'z vms_scheme \<Rightarrow> u64" where
  "fault_addr regs s = get_reg BADADDR regs (ram s)"

definition fault_cause :: "u64 \<Rightarrow> 'z vms_scheme \<Rightarrow> u64" where
  "fault_cause regs s = get_reg CAUSE regs (ram s)"

text \<open>A fault of the running task: the transmitter works, the saved registers lie in memory of the heap that
  holds no table, and the heap has the pages that may be needed.\<close>

definition faulting :: "'z vms_scheme \<Rightarrow> u64 \<Rightarrow> u64 list \<Rightarrow> (nat \<Rightarrow> u64 set) \<Rightarrow> chunk set \<Rightarrow> bool" where
  "faulting s regs vs lv L \<longleftrightarrow>
     tx_ready s \<and> areas s (tp s) vs \<and> as_inv s (pgd (tasks s (tp s))) lv L \<and>
     user (fault_addr regs s) \<and> page_fault (fault_cause regs s) \<and>
     (\<forall>i < PT_SIZE_ON_STACK. held L (tables lv) (regs + of_nat i)) \<and> plenty 3 (heap s)"

lemma get_reg_held:
  assumes "\<And>i. i < PT_SIZE_ON_STACK \<Longrightarrow> m' (regs + of_nat i) = m (regs + of_nat i)"
  shows "get_reg r regs m' = get_reg r regs m"
proof -
  have "m' (regs + of_nat (PT r) + of_nat i) = m (regs + of_nat (PT r) + of_nat i)" if "i < 8" for i
    using assms[of "PT r + i"] PT_bound[of r] that by (simp add: add.assoc)
  then show ?thesis unfolding get_reg_def by (rule load64_cong)
qed

lemma page_fault_small: "page_fault c \<Longrightarrow> \<bar>sint c\<bar> < 10 ^ 15"
  by (auto simp: page_fault_def EXC_INST_PAGE_FAULT_def EXC_LOAD_PAGE_FAULT_def EXC_STORE_PAGE_FAULT_def)

definition page_base :: "u64 \<Rightarrow> u64" where
  "page_base a = a AND NOT (of_nat PAGE_SIZE - 1)"

lemma page_base_no: "page_no (page_base a) = page_no a" and page_base_user: "user a \<Longrightarrow> user (page_base a)"
proof -
  have m: "(0xfff :: u64) = mask 12" by (simp add: mask_eq_exp_minus_1)
  have "page_base a = push_bit 12 (drop_bit 12 a)"
    unfolding page_base_def PAGE_SIZE_def by (simp add: m) (rule bit_word_eqI, auto simp: bit_simps)
  then have "drop_bit 12 (page_base a) = drop_bit 12 a" by (simp only:) (rule bit_word_eqI, auto simp: bit_simps dest: bit_imp_le_length)
  then have "unat (drop_bit 12 (page_base a)) = unat (drop_bit 12 a)" by simp
  then show n: "page_no (page_base a) = page_no a" by (simp add: unat_drop_bit page_no_def)
  have "page_base a \<le> a" unfolding page_base_def by (rule word_and_le2)
  then show "user a \<Longrightarrow> user (page_base a)" by (simp add: user_def word_le_nat_alt)
qed

text \<open>Up to the search for the area.\<close>

lemma do_page_fault_search:
  assumes t: "tx_ready s" and ar: "areas s (tp s) vs" and c: "page_fault (fault_cause regs s)"
  shows "\<exists>cs s1. sends cs s s1 \<and>
    (find (in_area s (fault_addr regs s)) vs = None \<longrightarrow>
      do_page_fault regs s = bindF (printk ''Segmentation fault\<newline>'' [] s1) (\<lambda>s3. Inr (kthread_exit s3))) \<and>
    (\<forall>v. find (in_area s (fault_addr regs s)) vs = Some v \<longrightarrow>
      do_page_fault regs s = (if \<not> permits (fault_cause regs s) (vm_flags (vma_mem s v))
        then bindF (printk ''Segmentation fault\<newline>'' [] s1) (\<lambda>s3. Inr (kthread_exit s3))
        else bindF (pte_alloc_map (tp s) (page_base (fault_addr regs s)) s1) (\<lambda>(pte, s3).
          if load64 (ram s3) pte = 0 then
            bindF (demand_page v (page_base (fault_addr regs s)) pte s3) (\<lambda>s4. Inr (Stay, s4))
          else if fault_cause regs s3 = 15 \<and> load64 (ram s3) pte AND PAGE_WRITE = 0 then
            bindF (copy_on_write v pte s3) (\<lambda>s4. Inr (Stay, s4))
          else bindF (printk ''do_page_fault: unhandled page fault (%ld)\<newline>'' [fault_cause regs s3] s3)
            (\<lambda>s4. Inl No_Return))))"
proof -
  let ?b = "fault_addr regs s" and ?c = "fault_cause regs s"
  obtain cs s1 where s1: "sends cs s s1"
    "printk ''page fault at %p (%ld)\<newline>'' [get_reg BADADDR regs (ram s), get_reg CAUSE regs (ram s)] s = Inr s1"
    using fault_message[OF t page_fault_small[OF c]] unfolding fault_addr_def fault_cause_def by blast
  have e: "ram s1 = ram s" "tp s1 = tp s" "vma_links s1 = vma_links s" "vma_mem s1 = vma_mem s"
    using s1(1) by (auto simp: sends_def)
  have ar1: "areas s1 (tp s) vs" using ar e by (simp add: areas_def)
  have ia: "in_area s1 = in_area s" by (intro ext) (simp add: in_area_def e)
  have fv: "find_vma (tp s) (get_reg BADADDR regs (ram s)) s1 = Inr (case find (in_area s ?b) vs of None \<Rightarrow> 0 | Some v \<Rightarrow> v)"
    using find_vma_find[OF ar1, of "get_reg BADADDR regs (ram s)"] unfolding ia by (simp add: fault_addr_def)
  have ae: "access_error (get_reg CAUSE regs (ram s)) v s1 = Inr (\<not> permits ?c (vm_flags (vma_mem s v)), s1)" for v
    using access_error_permits[of "get_reg CAUSE regs (ram s)" v s1] c by (simp add: fault_cause_def e)
  have bad: "do_page_fault regs s = bindF (printk ''Segmentation fault\<newline>'' [] s1) (\<lambda>s3. Inr (kthread_exit s3))"
    if "find (in_area s ?b) vs = None"
    using that s1(2) fv by (simp add: do_page_fault_def get_current_def e)
  have good: "do_page_fault regs s = (if \<not> permits ?c (vm_flags (vma_mem s v))
        then bindF (printk ''Segmentation fault\<newline>'' [] s1) (\<lambda>s3. Inr (kthread_exit s3))
        else bindF (pte_alloc_map (tp s) (page_base ?b) s1) (\<lambda>(pte, s3).
          if load64 (ram s3) pte = 0 then bindF (demand_page v (page_base ?b) pte s3) (\<lambda>s4. Inr (Stay, s4))
          else if fault_cause regs s3 = 15 \<and> load64 (ram s3) pte AND PAGE_WRITE = 0 then
            bindF (copy_on_write v pte s3) (\<lambda>s4. Inr (Stay, s4))
          else bindF (printk ''do_page_fault: unhandled page fault (%ld)\<newline>'' [fault_cause regs s3] s3)
            (\<lambda>s4. Inl No_Return)))" if v: "find (in_area s ?b) vs = Some v" for v
  proof -
    have "v \<in> set vs" using v by (auto simp: find_Some_iff)
    then have "v \<noteq> 0" using ar by (auto simp: areas_def)
    moreover have fv': "find_vma (tp s) (get_reg BADADDR regs (ram s)) s1 = Inr v" using fv v by simp
    ultimately show ?thesis
      unfolding do_page_fault_def Let_def s1(2) bindF_simps get_current_def e fv' ae prod.case
        page_base_def fault_addr_def fault_cause_def
      by (simp add: e cong del: if_weak_cong)
  qed
  show ?thesis by (intro exI[of _ cs] exI[of _ s1] conjI allI impI) (erule s1(1) bad good | rule s1(1))+
qed

lemma lookup_page_no: "page_no va = page_no vb \<Longrightarrow> lookup m pg va = lookup m pg vb"
  using walk_page_no[of va vb] by (simp add: lookup_def look_def)

text \<open>What a fault that is resolved can change: the heap, memory, and what was sent.\<close>

definition fault_frame :: "'z vms_scheme \<Rightarrow> 'z vms_scheme \<Rightarrow> bool" where
  "fault_frame s s' \<longleftrightarrow> (\<exists>h m k cs. s' = s\<lparr>heap := h, ram := m, lsr_reads := k, uart_thr := uart_thr s @ cs\<rparr>)"

text \<open>After the search: the place of the entry, in a page table that maps no address another way.\<close>

lemma fault_resolved:
  assumes f: "faulting s regs vs lv L" and v: "find (in_area s (fault_addr regs s)) vs = Some v"
    and ok: "permits (fault_cause regs s) (vm_flags (vma_mem s v))"
  defines "pg \<equiv> pgd (tasks s (tp s))" and "b \<equiv> fault_addr regs s"
  shows "\<exists>s3 pte lv' L'. as_inv s3 pg lv' L' \<and> L \<subseteq> L' \<and> tables lv' \<inter> fst ` L \<subseteq> tables lv \<and>
    only_in (tables lv') (ram s) (ram s3) \<and> vma_mem s3 = vma_mem s \<and> plenty 1 (heap s3) \<and>
    fault_frame s s3 \<and>
    (\<forall>p \<in> fst ` L. dm_page p \<longrightarrow>
        refcount (mem_map (heap s3) (virt_to_page p)) = refcount (mem_map (heap s) (virt_to_page p))) \<and>
    (\<forall>vb. user vb \<longrightarrow> lookup (ram s3) pg vb = lookup (ram s) pg vb) \<and>
    walk 2 (ram s3) pg (page_base b) = Some pte \<and>
    do_page_fault regs s =
      (if lookup (ram s) pg b = 0 then bindF (demand_page v (page_base b) pte s3) (\<lambda>s4. Inr (Stay, s4))
       else if fault_cause regs s = EXC_STORE_PAGE_FAULT \<and> lookup (ram s) pg b AND PAGE_WRITE = 0 then
         bindF (copy_on_write v pte s3) (\<lambda>s4. Inr (Stay, s4))
       else bindF (printk ''do_page_fault: unhandled page fault (%ld)\<newline>'' [fault_cause regs s] s3) (\<lambda>s4. Inl No_Return))"
proof -
  note h = f[unfolded faulting_def]
  obtain cs s1 where s1: "sends cs s s1"
    "do_page_fault regs s = bindF (pte_alloc_map (tp s) (page_base b) s1) (\<lambda>(pte, s3).
          if load64 (ram s3) pte = 0 then bindF (demand_page v (page_base b) pte s3) (\<lambda>s4. Inr (Stay, s4))
          else if fault_cause regs s3 = 15 \<and> load64 (ram s3) pte AND PAGE_WRITE = 0 then
            bindF (copy_on_write v pte s3) (\<lambda>s4. Inr (Stay, s4))
          else bindF (printk ''do_page_fault: unhandled page fault (%ld)\<newline>'' [fault_cause regs s3] s3)
            (\<lambda>s4. Inl No_Return))"
    using do_page_fault_search[of s vs regs] h v ok unfolding b_def by auto
  have e: "ram s1 = ram s" "heap s1 = heap s" "tasks s1 = tasks s" "vma_mem s1 = vma_mem s"
    using s1(1) by (auto simp: sends_def)
  have as: "as_inv s1 pg lv L" by (rule as_inv_cong[of s]) (use h in \<open>simp_all add: e pg_def\<close>)
  have p1: "pgd (tasks s1 (tp s)) = pg" by (simp add: e pg_def)
  have ub: "user b" "user (page_base b)" using h page_base_user by (simp_all add: b_def)
  have "1 + 2 = (3 :: nat)" by simp
  then have "plenty (1 + 2) (heap s1)" using h unfolding e by (simp only:)
  then obtain pte s3 where r: "pte_alloc_map (tp s) (page_base b) s1 = Inr (pte, s3)" "plenty 1 (heap s3)"
    using pte_alloc_from_total[of 1 2 s1 pg "page_base b"] p1 by (auto simp: pte_alloc_map_def)
  obtain lv' L' where g: "grows s1 pg lv L s3 lv' L'" and w: "walk 2 (ram s3) pg (page_base b) = Some pte"
    using pte_alloc_map_grows[OF _ ub(2) r(1)] as unfolding p1 by blast
  note gd = growsD[OF g]
  have lk: "load64 (ram s3) pte = lookup (ram s) pg b"
    using gd(7)[OF ub(2)] w lookup_page_no[OF page_base_no, of "ram s" pg b] by (simp add: lookup_def look_def e)
  have "ram s3 (regs + of_nat i) = ram s1 (regs + of_nat i)" if i: "i < PT_SIZE_ON_STACK" for i
    by (rule held_kept[of L "tables lv", OF _ as_invD(1)[OF gd(1)] gd(3) gd(6) as_invD(4)[OF gd(1)]]) (use h i gd(5) in auto)
  then have c: "fault_cause regs s3 = fault_cause regs s"
    unfolding fault_cause_def using get_reg_held[of "ram s3" regs "ram s1" CAUSE] by (simp add: e)
  obtain h' m' where "s3 = s1\<lparr>heap := h', ram := m'\<rparr>" using gd(2) by blast
  moreover obtain k where "s1 = s\<lparr>lsr_reads := k, uart_thr := uart_thr s @ cs\<rparr>" using s1(1) by (auto simp: sends_def)
  ultimately have fr: "s3 = s\<lparr>heap := h', ram := m', lsr_reads := k, uart_thr := uart_thr s @ cs\<rparr>" by simp
  then have vm: "vma_mem s3 = vma_mem s" and ff: "fault_frame s s3" unfolding fault_frame_def by (simp, blast)
  have d: "do_page_fault regs s =
      (if lookup (ram s) pg b = 0 then bindF (demand_page v (page_base b) pte s3) (\<lambda>s4. Inr (Stay, s4))
       else if fault_cause regs s = EXC_STORE_PAGE_FAULT \<and> lookup (ram s) pg b AND PAGE_WRITE = 0 then
         bindF (copy_on_write v pte s3) (\<lambda>s4. Inr (Stay, s4))
       else bindF (printk ''do_page_fault: unhandled page fault (%ld)\<newline>'' [fault_cause regs s] s3) (\<lambda>s4. Inl No_Return))"
    unfolding s1(2) r(1) bindF_simps prod.case lk c by (simp only: EXC_STORE_PAGE_FAULT_def)
  show ?thesis
    using gd(1,3,5,6,7,9) vm ff r(2) w d e(1,2)
    by (intro exI[of _ s3] exI[of _ pte] exI[of _ lv'] exI[of _ L'] conjI) auto
qed

lemma plenty_page:
  assumes "plenty 1 h"
  shows "\<exists>a h'. kmalloc (of_nat PAGE_SIZE) h = Inr (a, h')"
proof -
  have "plenty (Suc 0) h" using assms by simp
  then show ?thesis by (rule plenty_kmalloc[OF _ page_size_word]) blast
qed

lemma held_mono:
  assumes "L \<subseteq> L'" and "T' \<inter> fst ` L \<subseteq> T" and "held L T x"
  shows "held L' T' x"
  using assms unfolding held_def by (metis (no_types, lifting) IntI fst_conv image_eqI subsetD)

text \<open>What keeps the bytes that are in use keeps every other address space.\<close>

lemma other_space_kept:
  assumes o: "as_inv s pg lv L" and d: "tables lv \<inter> T = {}" and k: "\<And>x. held L T x \<Longrightarrow> m x = ram s x" and va: "user va"
  shows "lookup m pg va = lookup (ram s) pg va"
proof -
  note a = as_invD[OF o]
  have "m x = ram s x" if "l \<le> 2" "t \<in> lv l" "unat (x - t) < 4096" for l t x
    by (rule k) (use that a(5)[OF that(1,2)] a(6)[OF that(1,2)] d in \<open>auto simp: held_def\<close>)
  from ptab_frame(3)[OF a(2) this, where l = 2 and t = pg and va = va] show ?thesis using a(3) va by (simp add: lookup_def)
qed

text \<open>C12: a permitted access to an address of an area that has no page gets one: a fresh page, entered with the rights
  of the area and with one reference, of zeros or, for a file, with the part of the file that belongs there. The file is read
  where it lies, so this holds when no frame that the fault takes from the allocator overlaps that part (the ramdisk is
  not reserved). No other page of the task is mapped another way, no page of another address space, no byte in use, page tables
  apart, changes and no reference to a page in use; tasks, queues and areas stay as they are, and a message is sent.\<close>

theorem do_page_fault_demand:
  assumes f: "faulting s regs vs lv L" and v: "find (in_area s (fault_addr regs s)) vs = Some v"
    and ok: "permits (fault_cause regs s) (vm_flags (vma_mem s v))"
    and none: "lookup (ram s) (pgd (tasks s (tp s))) (fault_addr regs s) = 0"
  defines "src \<equiv> vm_file (vma_mem s v) + (page_base (fault_addr regs s) - vm_start (vma_mem s v))"
  shows "\<exists>s' a lv' L'. do_page_fault regs s = Inr (Stay, s') \<and> as_inv s' (pgd (tasks s (tp s))) lv' L' \<and>
    a \<notin> fst ` L \<and> a \<notin> tables lv' \<and> (a, 4096) \<in> L' \<and> L \<subseteq> L' \<and> tables lv' \<inter> fst ` L \<subseteq> tables lv \<and>
    refcount (mem_map (heap s') (virt_to_page a)) = 1 \<and>
    (\<forall>vb. user vb \<longrightarrow> lookup (ram s') (pgd (tasks s (tp s))) vb =
      (if page_no vb = page_no (fault_addr regs s) then mk_pte a (vm_flags (vma_mem s v))
       else lookup (ram s) (pgd (tasks s (tp s))) vb)) \<and>
    (vm_file (vma_mem s v) = 0 \<longrightarrow> (\<forall>i < 4096. ram s' (a + of_nat i) = 0)) \<and>
    (vm_file (vma_mem s v) \<noteq> 0 \<and> (\<forall>i < 4096. \<forall>p \<in> insert a (tables lv'). 4096 \<le> unat (src + of_nat i - p)) \<longrightarrow>
      (\<forall>i < 4096. ram s' (a + of_nat i) = ram s (src + of_nat i))) \<and>
    (\<forall>x. held L (tables lv) x \<longrightarrow> ram s' x = ram s x) \<and>
    (\<forall>pg2 lv2 va. as_inv s pg2 lv2 L \<and> tables lv2 \<inter> tables lv = {} \<and> user va \<longrightarrow>
       lookup (ram s') pg2 va = lookup (ram s) pg2 va) \<and>
    (\<forall>p \<in> fst ` L. dm_page p \<longrightarrow>
       refcount (mem_map (heap s') (virt_to_page p)) = refcount (mem_map (heap s) (virt_to_page p))) \<and>
    fault_frame s s'"
proof -
  let ?pg = "pgd (tasks s (tp s))" and ?b = "fault_addr regs s"
  obtain s3 pte lv' L' where r: "as_inv s3 ?pg lv' L'" "L \<subseteq> L'" "tables lv' \<inter> fst ` L \<subseteq> tables lv"
    "only_in (tables lv') (ram s) (ram s3)" "vma_mem s3 = vma_mem s" "plenty 1 (heap s3)"
    "\<forall>vb. user vb \<longrightarrow> lookup (ram s3) ?pg vb = lookup (ram s) ?pg vb" "walk 2 (ram s3) ?pg (page_base ?b) = Some pte"
    "do_page_fault regs s = bindF (demand_page v (page_base ?b) pte s3) (\<lambda>s4. Inr (Stay, s4))"
    and rc3: "\<forall>p \<in> fst ` L. dm_page p \<longrightarrow>
      refcount (mem_map (heap s3) (virt_to_page p)) = refcount (mem_map (heap s) (virt_to_page p))"
    and fr: "fault_frame s s3"
    using fault_resolved[OF f v ok] none by auto
  have ub: "user (page_base ?b)" using f page_base_user by (simp add: faulting_def)
  obtain a h where k: "kmalloc (of_nat PAGE_SIZE) (heap s3) = Inr (a, h)" using plenty_page[OF r(6)] by blast
  note km = kmalloc_page[OF as_invD(1)[OF r(1)] k]
  obtain m where m: "demand_page v (page_base ?b) pte s3 = Inr (s3\<lparr>heap := h, ram := m\<rparr>)"
    "as_inv (s3\<lparr>heap := h, ram := m\<rparr>) ?pg lv' (insert (a, 4096) L')"
    "\<forall>vb. user vb \<longrightarrow> lookup m ?pg vb =
      (if page_no vb = page_no (page_base ?b) then mk_pte a (vm_flags (vma_mem s v)) else lookup (ram s3) ?pg vb)"
    "vm_file (vma_mem s v) = 0 \<longrightarrow> (\<forall>i < 4096. m (a + of_nat i) = 0)"
    "vm_file (vma_mem s v) \<noteq> 0 \<and> (\<forall>i < 4096. 4096 \<le> unat (src + of_nat i - a)) \<longrightarrow>
      (\<forall>i < 4096. m (a + of_nat i) = ram s3 (src + of_nat i))"
    "only_in (insert a (tables lv')) (ram s3) m"
    using demand_page_as[OF r(1) ub r(8) k, of v "page_base ?b"] unfolding r(5) src_def[symmetric]
    by (elim exE conjE) (rule that)
  have lk: "\<forall>vb. user vb \<longrightarrow> lookup m ?pg vb =
      (if page_no vb = page_no ?b then mk_pte a (vm_flags (vma_mem s v)) else lookup (ram s) ?pg vb)"
    using m(3) r(7) page_base_no[of ?b] by simp
  have na: "a \<notin> fst ` L" "a \<notin> tables lv'" using km(2) r(2) as_invD(4)[OF r(1), of a] by force+
  have kept: "m x = ram s x" if x: "held L (tables lv) x" for x
  proof -
    have o: "only_in (insert a (tables lv')) (ram s) m" by (rule only_in_trans[OF r(4) m(6)]) auto
    show ?thesis
      by (rule held_kept[OF x as_invD(1)[OF m(2)] _ o]) (use r(2,3) as_invD(4)[OF m(2)] na(1) in auto)
  qed
  have cont: "m (a + of_nat i) = ram s (src + of_nat i)"
    if "vm_file (vma_mem s v) \<noteq> 0" and ap: "\<forall>i < 4096. \<forall>p \<in> insert a (tables lv'). 4096 \<le> unat (src + of_nat i - p)"
      and i: "i < 4096" for i
  proof -
    have "ram s3 (src + of_nat i) = ram s (src + of_nat i)"
      using ap i r(4) unfolding only_in_def by (metis insertCI not_le)
    then show ?thesis using m(5) that by simp
  qed
  have rc: "refcount (mem_map h (virt_to_page p)) = refcount (mem_map (heap s) (virt_to_page p))"
    if p: "p \<in> fst ` L" "dm_page p" for p
  proof -
    have "virt_to_page p \<noteq> virt_to_page a" using dm_page_inj[OF p(2) km(1)] na(1) p(1) by auto
    from km(5)[OF this] show ?thesis using rc3 p by simp
  qed
  have other: "\<forall>pg2 lv2 va. as_inv s pg2 lv2 L \<and> tables lv2 \<inter> tables lv = {} \<and> user va \<longrightarrow>
      lookup m pg2 va = lookup (ram s) pg2 va" using other_space_kept[of s _ _ L "tables lv" m] kept by blast
  have LL: "L \<subseteq> insert (a, 4096) L'" using r(2) by blast
  obtain h0 m0 k0 cs where "s3 = s\<lparr>heap := h0, ram := m0, lsr_reads := k0, uart_thr := uart_thr s @ cs\<rparr>"
    using fr unfolding fault_frame_def by blast
  then have "s3\<lparr>heap := h, ram := m\<rparr> = s\<lparr>heap := h, ram := m, lsr_reads := k0, uart_thr := uart_thr s @ cs\<rparr>" by simp
  then have fr': "fault_frame s (s3\<lparr>heap := h, ram := m\<rparr>)" unfolding fault_frame_def by blast
  have "do_page_fault regs s = Inr (Stay, s3\<lparr>heap := h, ram := m\<rparr>)" using r(9) m(1) by simp
  then show ?thesis
    using m(2,4) lk LL r(3) na kept cont km(4) rc other fr'
    by (intro exI[of _ "s3\<lparr>heap := h, ram := m\<rparr>"] exI[of _ a] exI[of _ lv'] exI[of _ "insert (a, 4096) L'"]) simp
qed

lemma page_held:
  assumes "(p, 4096) \<in> L" and "p \<notin> T" and "i < 4096"
  shows "held L T (p + of_nat i)"
  using assms unat_small[of i] by (force simp: held_def)

lemma refcount_only:
  "refcount (mem_map (upd_page p (\<lambda>pg. pg\<lparr>refcount := f pg\<rparr>) h) q) =
    (if q = p then f (mem_map h p) else refcount (mem_map h q))"
  by simp

text \<open>The two cases of \<open>copy_on_write\<close> in the state that the walk to the entry leaves: a page that others use, and a page
  of the task alone.\<close>

lemma cow_shared:
  assumes r: "as_inv s3 pg lv' L'" "L \<subseteq> L'"
    "tables lv' \<inter> fst ` L \<subseteq> tables lv" "only_in (tables lv') (ram s) (ram s3)" "vma_mem s3 = vma_mem s" "plenty 1 (heap s3)"
    "\<forall>p \<in> fst ` L. dm_page p \<longrightarrow>
        refcount (mem_map (heap s3) (virt_to_page p)) = refcount (mem_map (heap s) (virt_to_page p))"
    "\<forall>vb. user vb \<longrightarrow> lookup (ram s3) pg vb = lookup (ram s) pg vb" "walk 2 (ram s3) pg (page_base b) = Some pte"
    and ub: "user (page_base b)" and le: "load64 (ram s3) pte = e"
    and old: "pte_to_virt e = old" "dm_page old" "(old, 4096) \<in> L" "old \<notin> tables lv"
    and sh: "1 < refcount (mem_map (heap s) (virt_to_page old))"
  shows "\<exists>s4 a. copy_on_write v pte s3 = Inr s4 \<and> as_inv s4 pg lv' (insert (a, 4096) L') \<and> a \<notin> fst ` L \<and> a \<notin> tables lv' \<and>
    (\<forall>vb. user vb \<longrightarrow> lookup (ram s4) pg vb =
       (if page_no vb = page_no b then mk_pte a (vm_flags (vma_mem s v)) else lookup (ram s) pg vb)) \<and>
    (\<forall>i < 4096. ram s4 (a + of_nat i) = ram s (old + of_nat i)) \<and>
    refcount (mem_map (heap s4) (virt_to_page old)) = refcount (mem_map (heap s) (virt_to_page old)) - 1 \<and>
    refcount (mem_map (heap s4) (virt_to_page a)) = 1 \<and> (\<forall>x. held L (tables lv) x \<longrightarrow> ram s4 x = ram s x)"
proof -
  let ?r = "refcount (mem_map (heap s) (virt_to_page old))"
  have r3: "refcount (mem_map (heap s3) (virt_to_page old)) = ?r" using r(7) old(2,3) by force
  obtain a h where k: "kmalloc (of_nat PAGE_SIZE) (heap s3) = Inr (a, h)" using plenty_page[OF r(6)] by blast
  then obtain q where q: "alloc_pages 0 (heap s3) = (Some q, h)" "a = page_addr q" using kmalloc_page_alloc by blast
  note km = kmalloc_page[OF as_invD(1)[OF r(1)] k]
  let ?h = "upd_page (virt_to_page old) (\<lambda>pg. pg\<lparr>refcount := refcount pg - 1\<rparr>) h"
  have oL: "(old, 4096) \<in> L'" using old(3) r(2) by blast
  obtain m where m: "copy_on_write v pte s3 = Inr (s3\<lparr>heap := ?h, ram := m\<rparr>)"
    "as_inv (s3\<lparr>heap := ?h, ram := m\<rparr>) pg lv' (insert (a, 4096) L')"
    "\<forall>vb. user vb \<longrightarrow> lookup m pg vb =
      (if page_no vb = page_no (page_base b) then mk_pte a (vm_flags (vma_mem s3 v)) else lookup (ram s3) pg vb)"
    "\<forall>i < 4096. m (a + of_nat i) = ram s3 (old + of_nat i)" "only_in (insert a (tables lv')) (ram s3) m"
    using copy_on_write_shared[OF r(1) ub r(9) q(1) old(2) oL _ sh[folded r3], of v] le old(1) unfolding q(2) by auto
  have na: "a \<notin> fst ` L" "a \<notin> tables lv'" using km(2) r(2) as_invD(4)[OF r(1), of a] by force+
  have vo: "virt_to_page old \<noteq> virt_to_page a" using dm_page_inj[OF old(2) km(1)] na(1) old(3) by force
  have rc: "refcount (mem_map ?h (virt_to_page old)) = ?r - 1" "refcount (mem_map ?h (virt_to_page a)) = 1"
    using km(5)[OF vo] km(4) vo r3 by (simp_all add: refcount_only)
  have kept3: "ram s3 x = ram s x" if "held L (tables lv) x" for x
    by (rule held_kept[OF that as_invD(1)[OF r(1)] r(2,4) as_invD(4)[OF r(1)] r(3)])
  have kept: "m x = ram s x" if x: "held L (tables lv) x" for x
  proof -
    have "m x = ram s3 x"
      by (rule held_kept[OF held_mono[OF r(2,3) x] as_invD(1)[OF m(2)] _ m(5)])
        (use as_invD(4)[OF m(2)] km(2) in \<open>auto simp: image_iff\<close>)
    then show ?thesis using kept3[OF x] by simp
  qed
  have cont: "m (a + of_nat i) = ram s (old + of_nat i)" if i: "i < 4096" for i
    using m(4) i kept3 page_held[OF old(3,4) i] by simp
  have lk: "lookup m pg vb = (if page_no vb = page_no b then mk_pte a (vm_flags (vma_mem s v)) else lookup (ram s) pg vb)"
    if "user vb" for vb using m(3) that r(5,8) page_base_no[of b] by simp
  show ?thesis using m(1,2) na lk cont rc kept
    by (intro exI[of _ "s3\<lparr>heap := ?h, ram := m\<rparr>"] exI[of _ a]) simp
qed

lemma cow_last:
  assumes r: "as_inv s3 pg lv' L'" "L \<subseteq> L'"
    "tables lv' \<inter> fst ` L \<subseteq> tables lv" "only_in (tables lv') (ram s) (ram s3)" "vma_mem s3 = vma_mem s" "plenty 1 (heap s3)"
    "\<forall>p \<in> fst ` L. dm_page p \<longrightarrow>
        refcount (mem_map (heap s3) (virt_to_page p)) = refcount (mem_map (heap s) (virt_to_page p))"
    "\<forall>vb. user vb \<longrightarrow> lookup (ram s3) pg vb = lookup (ram s) pg vb" "walk 2 (ram s3) pg (page_base b) = Some pte"
    and ub: "user (page_base b)" and le: "load64 (ram s3) pte = e"
    and old: "pte_to_virt e = old" "dm_page old" "(old, 4096) \<in> L" "old \<notin> tables lv"
    and sh: "\<not> 1 < refcount (mem_map (heap s) (virt_to_page old))"
  shows "\<exists>s4. copy_on_write v pte s3 = Inr s4 \<and> as_inv s4 pg lv' L' \<and>
    (\<forall>vb. user vb \<longrightarrow> lookup (ram s4) pg vb = (if page_no vb = page_no b then e OR PAGE_WRITE else lookup (ram s) pg vb)) \<and>
    (\<forall>x. held L (tables lv) x \<longrightarrow> ram s4 x = ram s x)"
proof -
  have "refcount (mem_map (heap s3) (virt_to_page old)) = refcount (mem_map (heap s) (virt_to_page old))"
    using r(7) old(2,3) by force
  then have "\<not> 1 < refcount (mem_map (heap s3) (virt_to_page (pte_to_virt (load64 (ram s3) pte))))"
    using le old(1) sh by simp
  from copy_on_write_last[OF r(1) ub r(9) this, of v] obtain m where
    m: "copy_on_write v pte s3 = Inr (s3\<lparr>ram := m\<rparr>)" "as_inv (s3\<lparr>ram := m\<rparr>) pg lv' L'"
    "\<forall>vb. user vb \<longrightarrow> lookup m pg vb =
      (if page_no vb = page_no (page_base b) then lookup (ram s3) pg (page_base b) OR PAGE_WRITE else lookup (ram s3) pg vb)"
    "only_in (tables lv') (ram s3) m" by blast
  have kept: "m x = ram s x" if x: "held L (tables lv) x" for x
  proof -
    have "m x = ram s3 x"
      by (rule held_kept[OF held_mono[OF r(2,3) x] as_invD(1)[OF r(1)] _ m(4) as_invD(4)[OF r(1)]]) auto
    also have "\<dots> = ram s x" by (rule held_kept[OF x as_invD(1)[OF r(1)] r(2,4) as_invD(4)[OF r(1)] r(3)])
    finally show ?thesis .
  qed
  have "lookup (ram s3) pg (page_base b) = e" using r(9) le by (simp add: lookup_def look_def)
  then have "lookup m pg vb = (if page_no vb = page_no b then e OR PAGE_WRITE else lookup (ram s) pg vb)"
    if "user vb" for vb using m(3) that r(8) page_base_no[of b] by simp
  then show ?thesis using m(1,2) kept by (intro exI[of _ "s3\<lparr>ram := m\<rparr>"]) simp
qed

text \<open>C13: a write to a page that is entered without the right to write, in an area with that right. If the page
  has more than one reference, the task gets a copy of its own, entered with the rights of the area, and the
  page has one reference less; otherwise the page itself becomes writable. The bytes in use stay, and so do
  the pages of any other address space.\<close>

theorem do_page_fault_copy_on_write:
  assumes f: "faulting s regs vs lv L" and v: "find (in_area s (fault_addr regs s)) vs = Some v"
    and c: "fault_cause regs s = EXC_STORE_PAGE_FAULT" and ok: "vm_flags (vma_mem s v) AND VM_WRITE \<noteq> 0"
    and e: "e = lookup (ram s) (pgd (tasks s (tp s))) (fault_addr regs s)" "e \<noteq> 0" "e AND PAGE_WRITE = 0"
    and old: "pte_to_virt e = old" "dm_page old" "(old, 4096) \<in> L" "old \<notin> tables lv"
  shows "\<exists>s' lv' L'. do_page_fault regs s = Inr (Stay, s') \<and> as_inv s' (pgd (tasks s (tp s))) lv' L' \<and> L \<subseteq> L' \<and>
    (if 1 < refcount (mem_map (heap s) (virt_to_page old)) then
       \<exists>a. a \<notin> fst ` L \<and> a \<notin> tables lv' \<and> (a, 4096) \<in> L' \<and>
         (\<forall>vb. user vb \<longrightarrow> lookup (ram s') (pgd (tasks s (tp s))) vb =
           (if page_no vb = page_no (fault_addr regs s) then mk_pte a (vm_flags (vma_mem s v))
            else lookup (ram s) (pgd (tasks s (tp s))) vb)) \<and>
         (\<forall>i < 4096. ram s' (a + of_nat i) = ram s (old + of_nat i)) \<and>
         refcount (mem_map (heap s') (virt_to_page old)) = refcount (mem_map (heap s) (virt_to_page old)) - 1 \<and>
         refcount (mem_map (heap s') (virt_to_page a)) = 1
     else \<forall>vb. user vb \<longrightarrow> lookup (ram s') (pgd (tasks s (tp s))) vb =
       (if page_no vb = page_no (fault_addr regs s) then e OR PAGE_WRITE
        else lookup (ram s) (pgd (tasks s (tp s))) vb)) \<and>
    (\<forall>x. held L (tables lv) x \<longrightarrow> ram s' x = ram s x) \<and>
    (\<forall>pg2 lv2 va. as_inv s pg2 lv2 L \<and> tables lv2 \<inter> tables lv = {} \<and> user va \<longrightarrow>
       lookup (ram s') pg2 va = lookup (ram s) pg2 va)"
proof -
  let ?pg = "pgd (tasks s (tp s))" and ?b = "fault_addr regs s"
  have "permits (fault_cause regs s) (vm_flags (vma_mem s v))"
    using c ok by (simp add: permits_def EXC_INST_PAGE_FAULT_def EXC_LOAD_PAGE_FAULT_def EXC_STORE_PAGE_FAULT_def)
  from fault_resolved[OF f v this] obtain s3 pte lv' L' where r: "as_inv s3 ?pg lv' L'" "L \<subseteq> L'"
    "tables lv' \<inter> fst ` L \<subseteq> tables lv" "only_in (tables lv') (ram s) (ram s3)" "vma_mem s3 = vma_mem s" "plenty 1 (heap s3)"
    "\<forall>p \<in> fst ` L. dm_page p \<longrightarrow>
        refcount (mem_map (heap s3) (virt_to_page p)) = refcount (mem_map (heap s) (virt_to_page p))"
    "\<forall>vb. user vb \<longrightarrow> lookup (ram s3) ?pg vb = lookup (ram s) ?pg vb" "walk 2 (ram s3) ?pg (page_base ?b) = Some pte"
    and run: "do_page_fault regs s = bindF (copy_on_write v pte s3) (\<lambda>s4. Inr (Stay, s4))"
    using c e by auto
  have ub: "user ?b" "user (page_base ?b)" using f page_base_user by (simp_all add: faulting_def)
  have "load64 (ram s3) pte = lookup (ram s3) ?pg (page_base ?b)" using r(9) by (simp add: lookup_def look_def)
  then have le: "load64 (ram s3) pte = e" using r(8) ub e(1) lookup_page_no[OF page_base_no[of ?b]] by simp
  have other: "lookup m pg2 va = lookup (ram s) pg2 va"
    if "\<forall>x. held L (tables lv) x \<longrightarrow> m x = ram s x" "as_inv s pg2 lv2 L \<and> tables lv2 \<inter> tables lv = {} \<and> user va" for m pg2 lv2 va
    using other_space_kept[of s pg2 lv2 L "tables lv" m va] that by blast
  show ?thesis
  proof (cases "1 < refcount (mem_map (heap s) (virt_to_page old))")
    case True
    from cow_shared[OF r ub(2) le old True, of v] obtain s4 a where
      m: "copy_on_write v pte s3 = Inr s4" "as_inv s4 ?pg lv' (insert (a, 4096) L')" and rest: "a \<notin> fst ` L \<and> a \<notin> tables lv' \<and>
        (\<forall>vb. user vb \<longrightarrow> lookup (ram s4) ?pg vb =
           (if page_no vb = page_no ?b then mk_pte a (vm_flags (vma_mem s v)) else lookup (ram s) ?pg vb)) \<and>
        (\<forall>i < 4096. ram s4 (a + of_nat i) = ram s (old + of_nat i)) \<and>
        refcount (mem_map (heap s4) (virt_to_page old)) = refcount (mem_map (heap s) (virt_to_page old)) - 1 \<and>
        refcount (mem_map (heap s4) (virt_to_page a)) = 1"
      and kept: "\<forall>x. held L (tables lv) x \<longrightarrow> ram s4 x = ram s x" by blast
    show ?thesis using m r(2) run True rest kept other[OF kept]
      by (intro exI[of _ s4] exI[of _ lv'] exI[of _ "insert (a, 4096) L'"] conjI) auto
  next
    case False
    from cow_last[OF r ub(2) le old False, of v] obtain s4 where m: "copy_on_write v pte s3 = Inr s4" "as_inv s4 ?pg lv' L'"
      "\<forall>vb. user vb \<longrightarrow> lookup (ram s4) ?pg vb = (if page_no vb = page_no ?b then e OR PAGE_WRITE else lookup (ram s) ?pg vb)"
      and kept: "\<forall>x. held L (tables lv) x \<longrightarrow> ram s4 x = ram s x" by blast
    show ?thesis using m r(2) run False kept other[OF kept]
      by (intro exI[of _ s4] exI[of _ lv'] exI[of _ L'] conjI) auto
  qed
qed

text \<open>C16: a task that accesses an address outside its areas, or in a way its area does not permit, is told so
  and ends: it becomes a zombie, its context is saved, and the next task of the run queue runs, with its own context
  and page table. Nothing else changes, but for what was sent. The next \<open>kill_zombies\<close> takes the task, and no live
  one, out of the queue.\<close>

theorem do_page_fault_kills:
  assumes t: "tx_ready s" and ar: "areas s (tp s) vs" and c: "page_fault (fault_cause regs s)"
    and bad: "\<forall>v. find (in_area s (fault_addr regs s)) vs = Some v \<longrightarrow> \<not> permits (fault_cause regs s) (vm_flags (vma_mem s v))"
    and q: "runqueue s q" and j: "j < length q" and cur: "tp s = q ! j" and two: "1 < length q"
  defines "n \<equiv> q ! (Suc j mod length q)"
  shows "\<exists>s' s2 k cs. do_page_fault regs s = Inr (Switch, s') \<and> n \<noteq> tp s \<and>
    s' = s\<lparr>tasks := (tasks s)(tp s := (tasks s (tp s))\<lparr>tstate := TASK_ZOMBIE, thread := cpu s\<rparr>),
      cpu := thread (tasks s n), satp := push_bit 60 8 OR drop_bit 12 (virt_to_phys (pgd (tasks s n))), tp := n,
      lsr_reads := k, uart_thr := uart_thr s @ cs @ chars ''Segmentation fault'' @ [13, 10]\<rparr> \<and>
    kill_zombies s' = Inr s2 \<and> runqueue s2 (filter (\<lambda>u. u \<noteq> tp s \<and> tstate (tasks s u) \<noteq> TASK_ZOMBIE) q)"
proof -
  obtain cs s1 where s1: "sends cs s s1"
    "do_page_fault regs s = bindF (printk ''Segmentation fault\<newline>'' [] s1) (\<lambda>s3. Inr (kthread_exit s3))"
    using do_page_fault_search[OF t ar c] bad by (cases "find (in_area s (fault_addr regs s)) vs") auto
  have "tx_ready s1" using sends_fields(3)[OF s1(1)] t by simp
  then obtain s2 where s2: "sends (crlf (chars ''Segmentation fault\<newline>'')) s1 s2" "printk ''Segmentation fault\<newline>'' [] s1 = Inr s2"
    using printk_plain[of s1 "''Segmentation fault\<newline>''" "[]"] by (force simp: chars_def)
  have m: "crlf (chars ''Segmentation fault\<newline>'') = chars ''Segmentation fault'' @ [13, 10]" by (simp add: chars_def)
  obtain k where k: "s2 = s\<lparr>lsr_reads := k, uart_thr := uart_thr s @ cs @ chars ''Segmentation fault'' @ [13, 10]\<rparr>"
    using sends_trans[OF s1(1) s2(1)] unfolding m sends_def by auto
  let ?sz = "upd_task (tp s2) (\<lambda>t. t\<lparr>tstate := TASK_ZOMBIE\<rparr>) s2"
  let ?s' = "s\<lparr>tasks := (tasks s)(tp s := (tasks s (tp s))\<lparr>tstate := TASK_ZOMBIE, thread := cpu s\<rparr>),
      cpu := thread (tasks s n), satp := push_bit 60 8 OR drop_bit 12 (virt_to_phys (pgd (tasks s n))), tp := n,
      lsr_reads := k, uart_thr := uart_thr s @ cs @ chars ''Segmentation fault'' @ [13, 10]\<rparr>"
  have "Suc j mod length q \<noteq> j" using two j by (metis Suc_lessI mod_less mod_self n_not_Suc_n not_less_zero less_one less_numeral_extra(4))
  moreover have "Suc j mod length q < length q" by (rule mod_less_divisor) (use two in linarith)
  ultimately have nt: "n \<noteq> tp s" using nth_eq_iff_index_eq[OF runqueue_distinct[OF q]] j by (simp add: n_def cur)
  have qz: "runqueue ?sz q" "tp ?sz = q ! j" using q cur by (simp_all add: runqueue_def k)
  have "kthread_exit s2 = (Switch, switch_to (q ! j) n (switch_mm (pgd (tasks ?sz n)) 8 ?sz))"
    using schedule_queue[OF qz(1) j qz(2)] two by (simp add: kthread_exit_def get_current_def n_def)
  also have "switch_to (q ! j) n (switch_mm (pgd (tasks ?sz n)) 8 ?sz) = ?s'"
    using nt by (intro vms.equality) (simp_all add: switch_to_def switch_mm_def upd_task_def k cur[symmetric] fun_eq_iff)
  finally have run: "do_page_fault regs s = Inr (Switch, ?s')" using s1(2) s2(2) by simp
  have q': "runqueue ?s' q" using q by (simp add: runqueue_def)
  have f: "filter (\<lambda>u. tstate (tasks ?s' u) \<noteq> TASK_ZOMBIE) q = filter (\<lambda>u. u \<noteq> tp s \<and> tstate (tasks s u) \<noteq> TASK_ZOMBIE) q"
    by (rule filter_cong) auto
  obtain h where "kill_zombies ?s' = Inr (?s'\<lparr>run_links := h\<rparr>)"
    "runqueue (?s'\<lparr>run_links := h\<rparr>) (filter (\<lambda>u. u \<noteq> tp s \<and> tstate (tasks s u) \<noteq> TASK_ZOMBIE) q)"
    using kill_zombies_queue[OF q'] unfolding f by blast
  then show ?thesis using run nt by (intro exI[of _ ?s'] exI[of _ "?s'\<lparr>run_links := h\<rparr>"] exI[of _ k] exI[of _ cs] conjI refl)
qed

section \<open>A task with an area of two pages\<close>

text \<open>
  The saved registers of the task that runs are in a page of the heap, as is a page \<open>d\<close> with two references.
  Its page table is empty at first.
\<close>

definition example_fault :: "u64 \<Rightarrow> u64 \<Rightarrow> u64 \<Rightarrow> u64 \<Rightarrow> u64 \<Rightarrow> mm \<Rightarrow> vms" where
  "example_fault cause addr flags pg regs h = example_vms\<lparr>heap := h,
     ram := set_reg CAUSE cause regs (set_reg BADADDR addr regs (\<lambda>_. 0)),
     tasks := (tasks example_vms)(2 := (tasks example_vms 2)\<lparr>pgd := pg\<rparr>),
     vma_links := list_add_tail (VmaList 0x500) (MmapHead 2) (\<lambda>n. \<lparr>prv = n, nxt = n\<rparr>),
     vma_mem := (\<lambda>_. \<lparr>vm_start = 0x1000, vm_end = 0x3000, vm_mm = 2, vm_flags = flags, vm_file = 0\<rparr>)\<rparr>"

lemma example_fault_fields:
  "tp (example_fault c b fl pg regs h) = 2" "heap (example_fault c b fl pg regs h) = h"
  "pgd (tasks (example_fault c b fl pg regs h) 2) = pg" "uart_thr (example_fault c b fl pg regs h) = []"
  "fault_addr regs (example_fault c b fl pg regs h) = b" "fault_cause regs (example_fault c b fl pg regs h) = c"
  "vma_mem (example_fault c b fl pg regs h) v = \<lparr>vm_start = 0x1000, vm_end = 0x3000, vm_mm = 2, vm_flags = fl, vm_file = 0\<rparr>"
  "areas (example_fault c b fl pg regs h) 2 [0x500]" "tx_ready (example_fault c b fl pg regs h)"
  by (simp_all add: example_fault_def example_vms_def irqs.defs example_irqs_fields fault_addr_def fault_cause_def areas_def
      dlist_def list_add_tail_def list_add_between_def tx_ready_def order_refl exI[where P = "\<lambda>k. n \<le> k" and x = n for n])

lemma set_reg_only_in: "only_in {regs} m (set_reg r v regs m)"
proof -
  have "PT r div 8 < 512" "8 * (PT r div 8) = PT r" by (cases r; simp)+
  then show ?thesis using store_ent_only_in[of "PT r div 8" regs m v] by (simp add: set_reg_def ent_def)
qed

lemma example_fault_inv:
  assumes "user b" and "page_fault c"
  shows "\<exists>pg regs d h lv L. faulting (example_fault c b fl pg regs h) regs [0x500] lv L \<and> plenty 1277 h \<and>
    (\<forall>va. user va \<longrightarrow> lookup (ram (example_fault c b fl pg regs h)) pg va = 0) \<and>
    dm_page d \<and> (d, 4096) \<in> L \<and> d \<notin> tables lv \<and> (regs, 4096) \<in> L \<and> regs \<noteq> d \<and> refcount (mem_map h (virt_to_page d)) = 2"
proof -
  have "plenty (Suc (Suc (Suc 1277))) (heap example_vms)"
    using boot_plenty[of boot_mm] by (simp add: example_vms_def example_irqs_fields irqs.defs)
  then obtain pg h1 where k1: "kmalloc (of_nat PAGE_SIZE) (heap example_vms) = Inr (pg, h1)" "plenty (Suc (Suc 1277)) h1"
    by (rule plenty_kmalloc[OF _ page_size_word])
  obtain regs h2 where k2: "kmalloc (of_nat PAGE_SIZE) h1 = Inr (regs, h2)" "plenty (Suc 1277) h2"
    by (rule plenty_kmalloc[OF k1(2) page_size_word])
  obtain d h3 where k3: "kmalloc (of_nat PAGE_SIZE) h2 = Inr (d, h3)" "plenty 1277 h3"
    by (rule plenty_kmalloc[OF k2(2) page_size_word])
  obtain L0 where L0: "mm_inv (heap example_vms) L0" using plenty_inv \<open>plenty (Suc (Suc (Suc 1277))) (heap example_vms)\<close> by blast
  note m1 = kmalloc_page[OF L0 k1(1)]
  note m2 = kmalloc_page[OF m1(3) k2(1)]
  note m3 = kmalloc_page[OF m2(3) k3(1)]
  let ?h = "upd_page (virt_to_page d) (\<lambda>pg. pg\<lparr>refcount := refcount pg + 1\<rparr>) h3"
    and ?L = "insert (d, 4096) (insert (regs, 4096) (insert (pg, 4096) L0))" and ?lv = "\<lambda>l :: nat. if l = 2 then {pg} else {}"
  let ?s = "example_fault c b fl pg regs ?h"
  have L: "mm_inv ?h ?L" by (rule mm_inv_refcount[OF m3(3)])
  have pl: "plenty 1277 ?h" by (rule plenty_refcount[OF k3(2)])
  have d: "pg \<noteq> regs" "d \<noteq> pg" "d \<noteq> regs" using m2(2) m3(2) by auto
  have ram: "ram ?s = set_reg CAUSE c regs (set_reg BADADDR b regs (\<lambda>_. 0))" by (simp add: example_fault_def)
  have "only_in {regs} (\<lambda>_. 0) (ram ?s)"
    unfolding ram by (rule only_in_trans[OF set_reg_only_in set_reg_only_in]) auto
  then have z: "load64 (ram ?s) (ent pg i) = 0" if "i < 256" for i
    using load_ent_frame[OF m1(1), of i "ram ?s" "\<lambda>_. 0"] chunk_kept[OF L, of pg 4096 "{regs}" "\<lambda>_. 0" "ram ?s"] d that
    by (simp add: load_zero)
  have "mm_inv (heap ?s) ?L" "(pg, 4096) \<in> ?L" using L by (simp_all add: example_fault_fields)
  note as = as_inv_fresh[OF this m1(1) z]
  have tb: "tables ?lv = {pg}" by (auto simp: tables_def)
  have "held ?L (tables ?lv) (regs + of_nat i)" if "i < PT_SIZE_ON_STACK" for i
    by (rule page_held) (use d that in \<open>auto simp: tb PT_SIZE_ON_STACK_def\<close>)
  then have "faulting ?s regs [0x500] ?lv ?L"
    using as(1) assms plenty_le[OF pl, of 3] unfolding faulting_def by (simp add: example_fault_fields)
  moreover have "refcount (mem_map ?h (virt_to_page d)) = 2" using m3(4) by simp
  ultimately show ?thesis using pl as(2) m3(1) d tb
    by (intro exI[of _ pg] exI[of _ regs] exI[of _ d] exI[of _ ?h] exI[of _ ?lv] exI[of _ ?L]) auto
qed

lemma pages_apart:
  assumes m: "mm_inv h L" and p: "(p, 4096) \<in> L" "(d, 4096) \<in> L" "p \<noteq> d" and i: "i < 4096"
  shows "4096 \<le> unat (d + of_nat i - p)"
proof (rule ccontr)
  assume f: "\<not> 4096 \<le> unat (d + of_nat i - p)"
  have "chunk_bytes (p, 4096) \<inter> chunk_bytes (d, 4096) = {}"
    using ha.chunks_disjoint[OF m, of "(p, 4096)" "(d, 4096)"] p by blast
  moreover have "unat (virt_to_phys (d + of_nat i)) \<in> chunk_bytes (d, 4096)" by (rule chunk_byte[OF m p(2)]) (use i unat_small[of i] in simp)
  moreover have "unat (virt_to_phys (d + of_nat i)) \<in> chunk_bytes (p, 4096)" by (rule chunk_byte[OF m p(1)]) (use f in \<open>simp only: not_le\<close>)
  ultimately show False by blast
qed

text \<open>The area of a file whose first byte is \<open>0x13\<close>, in a page of the heap.\<close>

definition example_file_fault :: "u64 \<Rightarrow> vms \<Rightarrow> vms" where
  "example_file_fault d s = s\<lparr>ram := (ram s)(d := 0x13),
     vma_mem := (\<lambda>_. \<lparr>vm_start = 0x1000, vm_end = 0x3000, vm_mm = 2, vm_flags = 1, vm_file = d\<rparr>)\<rparr>"

lemma example_file_faulting:
  assumes f: "faulting (example_fault c b 1 pg regs h) regs [0x500] lv L"
    and d: "(d, 4096) \<in> L" "d \<notin> tables lv" "(regs, 4096) \<in> L" "regs \<noteq> d" and va: "user va"
  shows "faulting (example_file_fault d (example_fault c b 1 pg regs h)) regs [0x500] lv L"
    and "fault_addr regs (example_file_fault d (example_fault c b 1 pg regs h)) = b"
    and "fault_cause regs (example_file_fault d (example_fault c b 1 pg regs h)) = c"
    and "lookup (ram (example_file_fault d (example_fault c b 1 pg regs h))) pg va = lookup (ram (example_fault c b 1 pg regs h)) pg va"
proof -
  let ?e = "example_fault c b 1 pg regs h" and ?s = "example_file_fault d (example_fault c b 1 pg regs h)"
  have h: "as_inv ?e pg lv L" "user b" "page_fault c" "\<forall>i < PT_SIZE_ON_STACK. held L (tables lv) (regs + of_nat i)" "plenty 3 h"
    using f unfolding faulting_def by (simp_all add: example_fault_fields)
  have r: "ram ?s = (ram ?e)(d := 0x13)" "heap ?s = h" "tp ?s = 2" "tasks ?s = tasks ?e" "vma_links ?s = vma_links ?e"
    "tx_ready ?s = tx_ready ?e" by (simp_all add: example_file_fault_def example_fault_fields tx_ready_def)
  have o: "only_in {d} (ram ?e) (ram ?s)" by (simp add: r only_in_def)
  have m: "mm_inv (heap ?s) L" using as_invD(1)[OF h(1)] by (simp add: r example_fault_fields)
  have P: "\<And>p. p \<in> {d} \<Longrightarrow> (p, 4096) \<in> L" "{d} \<inter> tables lv = {}" using d(1,2) by auto
  have "get_reg q regs (ram ?s) = get_reg q regs (ram ?e)" for q
  proof (rule get_reg_held)
    fix i assume i: "i < PT_SIZE_ON_STACK"
    have "i < 4096" using i by (simp add: PT_SIZE_ON_STACK_def)
    then have "unat (regs + of_nat i - regs) < 4096" using unat_small[of i] by simp
    then show "ram ?s (regs + of_nat i) = ram ?e (regs + of_nat i)"
      using chunk_kept[OF m d(3) o P(1) _ ] d(4) by blast
  qed
  then have a: "fault_addr regs ?s = fault_addr regs ?e" "fault_cause regs ?s = fault_cause regs ?e"
    by (simp_all add: fault_addr_def fault_cause_def)
  then show "fault_addr regs ?s = b" "fault_cause regs ?s = c" by (simp_all add: example_fault_fields)
  show "faulting ?s regs [0x500] lv L"
    using h as_inv_frame(1)[OF h(1) m order_refl o P] example_fault_fields a unfolding faulting_def r by (simp add: areas_def r)
  show "lookup (ram ?s) pg va = lookup (ram ?e) pg va" by (rule as_inv_frame(3)[OF h(1) m order_refl o P va])
qed

theorem do_page_fault_demand_witness:
  "\<exists>pg regs s s' a. do_page_fault regs (s :: vms) = Inr (Stay, s') \<and> vm_file (vma_mem s 0x500) \<noteq> 0 \<and>
     lookup (ram s') pg 0x1234 = mk_pte a VM_READ \<and> lookup (ram s') pg 0x2000 = 0 \<and> ram s' a = 0x13 \<and> ram s' (a + 1) = ram s (vm_file (vma_mem s 0x500) + 1)"
proof -
  have u: "user 0x1234" "user 0x2000" "page_no 0x2000 \<noteq> page_no 0x1234" by (simp_all add: user_def page_no_def)
  have c: "page_fault 13" by (simp add: page_fault_def EXC_LOAD_PAGE_FAULT_def)
  obtain pg regs d h lv L where f: "faulting (example_fault 13 0x1234 1 pg regs h) regs [0x500] lv L"
    and z: "\<forall>va. user va \<longrightarrow> lookup (ram (example_fault 13 0x1234 1 pg regs h)) pg va = 0"
    and d: "(d, 4096) \<in> L" "d \<notin> tables lv" "(regs, 4096) \<in> L" "regs \<noteq> d"
    using example_fault_inv[OF u(1) c, of 1] by blast
  let ?s = "example_file_fault d (example_fault 13 0x1234 1 pg regs h)"
  note e = example_file_faulting[OF f d]
  have x: "tp ?s = 2" "pgd (tasks ?s 2) = pg" "vma_mem ?s v = \<lparr>vm_start = 0x1000, vm_end = 0x3000, vm_mm = 2, vm_flags = 1, vm_file = d\<rparr>"
    "ram ?s d = 0x13" for v
    by (simp_all add: example_file_fault_def example_fault_fields)
  have v: "find (in_area ?s (fault_addr regs ?s)) [0x500] = Some 0x500" by (simp add: in_area_def x e(2)[OF u(1)])
  have ok: "permits (fault_cause regs ?s) (vm_flags (vma_mem ?s 0x500))"
    by (simp add: permits_def x e(3)[OF u(1)] EXC_INST_PAGE_FAULT_def EXC_STORE_PAGE_FAULT_def VM_READ_def)
  have none: "lookup (ram ?s) (pgd (tasks ?s (tp ?s))) (fault_addr regs ?s) = 0" using z u e(2,4) by (simp add: x)
  have src: "vm_file (vma_mem ?s 0x500) + (page_base (fault_addr regs ?s) - vm_start (vma_mem ?s 0x500)) = d"
    by (simp add: x e(2)[OF u(1)] page_base_def PAGE_SIZE_def)
  obtain s' a lv' L' where r: "do_page_fault regs ?s = Inr (Stay, s')" "as_inv s' pg lv' L'" "a \<notin> fst ` L" "(a, 4096) \<in> L'" "L \<subseteq> L'"
    "tables lv' \<inter> fst ` L \<subseteq> tables lv"
    "\<forall>vb. user vb \<longrightarrow> lookup (ram s') pg vb = (if page_no vb = page_no 0x1234 then mk_pte a 1 else lookup (ram ?s) pg vb)"
    "d \<noteq> 0 \<and> (\<forall>i < 4096. \<forall>p \<in> insert a (tables lv'). 4096 \<le> unat (d + of_nat i - p)) \<longrightarrow>
      (\<forall>i < 4096. ram s' (a + of_nat i) = ram ?s (d + of_nat i))"
    using do_page_fault_demand[OF e(1)[OF u(1)] v ok none] unfolding src unfolding x e(2)[OF u(1)] vm_area.simps
    by (elim exE conjE) (rule that)
  have d0: "d \<noteq> 0" using chunk_not_null[OF as_invD(1)[OF r(2)]] d(1) r(5) by blast
  have "4096 \<le> unat (d + of_nat i - p)" if "i < 4096" "p \<in> insert a (tables lv')" for i p
  proof (rule pages_apart[OF as_invD(1)[OF r(2)] _ _ _ that(1)])
    show "(p, 4096) \<in> L'" using that(2) r(4) as_invD(4)[OF r(2)] by blast
    show "(d, 4096) \<in> L'" using d(1) r(5) by blast
    have "d \<in> fst ` L" using d(1) by force
    then show "p \<noteq> d" using that(2) r(3,6) d(2) by blast
  qed
  then have "\<forall>i < 4096. ram s' (a + of_nat i) = ram ?s (d + of_nat i)" using r(8) d0 by blast
  from this[rule_format, of 0] this[rule_format, of 1] have "ram s' a = 0x13" "ram s' (a + 1) = ram ?s (d + 1)" using x(4) by simp_all
  moreover have "lookup (ram s') pg 0x1234 = mk_pte a VM_READ" "lookup (ram s') pg 0x2000 = 0"
    using r(7) u z e(4)[OF u(2)] by (simp_all add: VM_READ_def)
  ultimately show ?thesis using r(1) d0
    by (intro exI[of _ pg] exI[of _ regs] exI[of _ ?s] exI[of _ s'] exI[of _ a]) (simp add: x)
qed

theorem do_page_fault_kills_witness:
  "\<exists>s s' cs. runqueue (s :: vms) [2, 3] \<and> tp s = 2 \<and> do_page_fault 0x8000 s = Inr (Switch, s') \<and> tp s' = 3 \<and>
     tstate (tasks s' 2) = TASK_ZOMBIE \<and> uart_thr s' = cs @ chars ''Segmentation fault'' @ [13, 10]"
proof -
  have c: "page_fault 15" by (simp add: page_fault_def EXC_STORE_PAGE_FAULT_def)
  let ?e = "example_fault 15 0x1234 1 0 0x8000 (heap example_vms)"
  let ?s = "?e\<lparr>run_links := list_add_tail (TaskList 3) RunQueue (list_add_tail (TaskList 2) RunQueue (\<lambda>n. \<lparr>prv = n, nxt = n\<rparr>))\<rparr>"
  have e: "fault_addr 0x8000 ?s = fault_addr 0x8000 ?e" "fault_cause 0x8000 ?s = fault_cause 0x8000 ?e"
    "areas ?s 2 [0x500] = areas ?e 2 [0x500]" "tx_ready ?s = tx_ready ?e"
    by (simp_all add: fault_addr_def fault_cause_def areas_def tx_ready_def)
  have f: "tp ?s = 2" "fault_addr 0x8000 ?s = 0x1234" "fault_cause 0x8000 ?s = 15" "vm_flags (vma_mem ?s v) = 1" "uart_thr ?s = []" for v
    unfolding e by (simp_all add: example_fault_fields)
  have h: "tx_ready ?s" "areas ?s (tp ?s) [0x500]" "page_fault (fault_cause 0x8000 ?s)"
    unfolding f e using c by (simp_all add: example_fault_fields)
  have b: "\<forall>v. find (in_area ?s (fault_addr 0x8000 ?s)) [0x500] = Some v \<longrightarrow>
      \<not> permits (fault_cause 0x8000 ?s) (vm_flags (vma_mem ?s v))"
    unfolding f by (simp add: permits_def EXC_STORE_PAGE_FAULT_def VM_WRITE_def)
  have q: "runqueue ?s [2, 3]" by (simp add: runqueue_def dlist_def list_add_tail_def)
  have j: "0 < length [2, 3 :: u64]" "tp ?s = [2, 3] ! 0" "1 < length [2, 3 :: u64]" using f(1) by simp_all
  from do_page_fault_kills[OF h b q j] obtain s' k cs where r: "do_page_fault 0x8000 ?s = Inr (Switch, s')"
    "s' = ?s\<lparr>tasks := (tasks ?s)(tp ?s := (tasks ?s (tp ?s))\<lparr>tstate := TASK_ZOMBIE, thread := cpu ?s\<rparr>),
      cpu := thread (tasks ?s ([2, 3] ! (Suc 0 mod length [2, 3 :: u64]))), satp := push_bit 60 8 OR drop_bit 12 (virt_to_phys (pgd (tasks ?s ([2, 3] ! (Suc 0 mod length [2, 3 :: u64]))))),
      tp := [2, 3] ! (Suc 0 mod length [2, 3 :: u64]),
      lsr_reads := k, uart_thr := uart_thr ?s @ cs @ chars ''Segmentation fault'' @ [13, 10]\<rparr>" by blast
  have "tp s' = 3" "tstate (tasks s' 2) = TASK_ZOMBIE" "uart_thr s' = cs @ chars ''Segmentation fault'' @ [13, 10]"
    unfolding r(2) using f(1,5) by simp_all
  then show ?thesis using q f(1) r(1) by (intro exI[of _ ?s] exI[of _ s'] exI[of _ cs]) simp
qed

lemma faulting_after_map:
  assumes f: "faulting s regs vs lv L" and pl: "plenty 5 (heap s)" and ub: "user b"
  shows "\<exists>s2 lv' L' h m. s2 = s\<lparr>heap := h, ram := m\<rparr> \<and> faulting s2 regs vs lv' L' \<and> L \<subseteq> L' \<and>
    tables lv' \<inter> fst ` L \<subseteq> tables lv \<and> fault_addr regs s2 = fault_addr regs s \<and> fault_cause regs s2 = fault_cause regs s \<and>
    lookup (ram s2) (pgd (tasks s (tp s))) b = e \<and>
    (\<forall>p \<in> fst ` L. dm_page p \<longrightarrow>
        refcount (mem_map (heap s2) (virt_to_page p)) = refcount (mem_map (heap s) (virt_to_page p)))"
proof -
  let ?pg = "pgd (tasks s (tp s))"
  note h = f[unfolded faulting_def]
  have as: "as_inv s ?pg lv L" using h by blast
  have "3 + 2 = (5 :: nat)" by simp
  then have "plenty (3 + 2) (heap s)" using pl by (simp only:)
  then obtain pte s1 where r: "pte_alloc_map (tp s) b s = Inr (pte, s1)" "plenty 3 (heap s1)"
    using pte_alloc_from_total[of 3 2 s ?pg b] by (auto simp: pte_alloc_map_def)
  obtain lv' L' where g: "grows s ?pg lv L s1 lv' L'" and w: "walk 2 (ram s1) ?pg b = Some pte"
    using pte_alloc_map_grows[OF as ub r(1)] by blast
  note gd = growsD[OF g]
  let ?s2 = "s1\<lparr>ram := store64 pte e (ram s1)\<rparr>"
  note st = as_inv_leaf_store[OF gd(1) ub w, of e]
  obtain h1 m1 where s1: "s1 = s\<lparr>heap := h1, ram := m1\<rparr>" using gd(2) by blast
  have only: "only_in (tables lv') (ram s) (ram ?s2)" using only_in_trans[OF gd(6) st(2)] by simp
  have kept: "ram ?s2 x = ram s x" if "held L (tables lv) x" for x
    by (rule held_kept[OF that as_invD(1)[OF gd(1)] gd(3) only as_invD(4)[OF gd(1)]]) (use gd(5) in auto)
  then have reg: "get_reg q regs (ram ?s2) = get_reg q regs (ram s)" for q by (intro get_reg_held) (use h in blast)
  then have fc: "fault_addr regs ?s2 = fault_addr regs s" "fault_cause regs ?s2 = fault_cause regs s"
    by (simp_all add: fault_addr_def fault_cause_def)
  have "held L' (tables lv') x" if "held L (tables lv) x" for x by (rule held_mono[OF gd(3) _ that]) (use gd(5) in auto)
  then have "faulting ?s2 regs vs lv' L'"
    using h st(1) r(2) fc unfolding faulting_def by (auto simp: s1 tx_ready_def areas_def)
  moreover have "lookup (ram ?s2) ?pg b = e" using leaf_store(3)[OF as_invD(2,3)[OF gd(1)] ub w ub, of e] by simp
  moreover have "?s2 = s\<lparr>heap := h1, ram := store64 pte e m1\<rparr>" by (simp add: s1)
  moreover have "tables lv' \<inter> fst ` L \<subseteq> tables lv" using gd(5) by blast
  moreover have "\<forall>p \<in> fst ` L. dm_page p \<longrightarrow>
      refcount (mem_map (heap ?s2) (virt_to_page p)) = refcount (mem_map (heap s) (virt_to_page p))" using gd(9) by simp
  ultimately show ?thesis using gd(3) fc by (intro exI[of _ ?s2] exI[of _ lv'] exI[of _ L'] exI[of _ h1] exI[of _ "store64 pte e m1"] conjI) blast+
qed

theorem do_page_fault_copy_on_write_witness:
  "\<exists>s regs s' a d. do_page_fault regs (s :: vms) = Inr (Stay, s') \<and>
     lookup (ram s) (pgd (tasks s 2)) 0x1234 = mk_pte d VM_READ \<and> refcount (mem_map (heap s) (virt_to_page d)) = 2 \<and>
     lookup (ram s') (pgd (tasks s 2)) 0x1234 = mk_pte a (VM_READ OR VM_WRITE) \<and> a \<noteq> d \<and>
     refcount (mem_map (heap s') (virt_to_page d)) = 1 \<and> (\<forall>i < 4096. ram s' (a + of_nat i) = ram s' (d + of_nat i))"
proof -
  have u: "user 0x1234" by (simp add: user_def)
  have c: "page_fault 15" by (simp add: page_fault_def EXC_STORE_PAGE_FAULT_def)
  obtain pg regs d h lv L where f: "faulting (example_fault 15 0x1234 3 pg regs h) regs [0x500] lv L" and pl: "plenty 1277 h"
    and d: "dm_page d" "(d, 4096) \<in> L" "d \<notin> tables lv" "refcount (mem_map h (virt_to_page d)) = 2"
    using example_fault_inv[OF u c, of 3] by blast
  let ?x = "example_fault 15 0x1234 3 pg regs h"
  have "plenty 5 (heap ?x)" using plenty_le[OF pl, of 5] by (simp add: example_fault_fields)
  from faulting_after_map[OF f this u, of "mk_pte d VM_READ"] obtain s lv' L' h1 m1 where
    s: "s = ?x\<lparr>heap := h1, ram := m1\<rparr>" "faulting s regs [0x500] lv' L'" "L \<subseteq> L'" "tables lv' \<inter> fst ` L \<subseteq> tables lv"
      "fault_addr regs s = 0x1234" "fault_cause regs s = 15" "lookup (ram s) pg 0x1234 = mk_pte d VM_READ"
      "\<forall>p \<in> fst ` L. dm_page p \<longrightarrow> refcount (mem_map (heap s) (virt_to_page p)) = refcount (mem_map h (virt_to_page p))"
    unfolding example_fault_fields by (elim exE conjE) (rule that)
  note s1 = s(1)
  have x: "tp s = 2" "pgd (tasks s 2) = pg" "vm_flags (vma_mem s 0x500) = 3" using example_fault_fields by (simp_all add: s1)
  have v: "find (in_area s (fault_addr regs s)) [0x500] = Some 0x500" using s(5) example_fault_fields by (simp add: s1 in_area_def)
  have dL: "d \<in> fst ` L" using d(2) by force
  have d': "(d, 4096) \<in> L'" "d \<notin> tables lv'" using s(3,4) d(2,3) dL by blast+
  have rc: "refcount (mem_map (heap s) (virt_to_page d)) = 2" using bspec[OF s(8) dL] d(1,4) by simp
  have e: "mk_pte d VM_READ = lookup (ram s) (pgd (tasks s (tp s))) (fault_addr regs s)"
    "mk_pte d VM_READ \<noteq> 0" "mk_pte d VM_READ AND PAGE_WRITE = 0"
    using s(5,7) x mk_pte_entry(3,5)[OF d(1), of VM_READ] by (auto simp: VM_READ_def VM_WRITE_def)
  have cc: "fault_cause regs s = EXC_STORE_PAGE_FAULT" "vm_flags (vma_mem s 0x500) AND VM_WRITE \<noteq> 0"
    using s(6) x(3) by (simp_all add: EXC_STORE_PAGE_FAULT_def VM_WRITE_def)
  from do_page_fault_copy_on_write[OF s(2) v cc e mk_pte_entry(1)[OF d(1)] d(1) d'] rc obtain s' a where
    r: "do_page_fault regs s = Inr (Stay, s')" "a \<notin> fst ` L'"
      "\<forall>vb. user vb \<longrightarrow> lookup (ram s') pg vb = (if page_no vb = page_no 0x1234 then mk_pte a 3 else lookup (ram s) pg vb)"
      "\<forall>i < 4096. ram s' (a + of_nat i) = ram s (d + of_nat i)" "refcount (mem_map (heap s') (virt_to_page d)) = 1"
      "\<forall>x. held L' (tables lv') x \<longrightarrow> ram s' x = ram s x"
    unfolding s(5) x by auto
  have "a \<noteq> d" using r(2) d'(1) by force
  moreover have "ram s' (a + of_nat i) = ram s' (d + of_nat i)" if "i < 4096" for i
    using r(4,6) page_held[OF d' that] that by simp
  moreover have "VM_READ OR VM_WRITE = 3" by (simp add: VM_READ_def VM_WRITE_def)
  ultimately show ?thesis using r(1,3,5) rc s(7) x(2) u
    by (intro exI[of _ s] exI[of _ regs] exI[of _ s'] exI[of _ a] exI[of _ d]) simp
qed

text \<open>The entry \<open>mk_pte\<close> makes for a page leads back to the page, is present and the user's, and permits to
  read, write and execute exactly what the flags of the area do.\<close>

theorem mk_pte_correct:
  assumes "dm_page a"
  shows "pte_to_virt (mk_pte a f) = a \<and> mk_pte a f AND PAGE_PRESENT \<noteq> 0 \<and> mk_pte a f AND PAGE_USER \<noteq> 0 \<and>
    (mk_pte a f AND PAGE_READ \<noteq> 0 \<longleftrightarrow> f AND VM_READ \<noteq> 0) \<and> (mk_pte a f AND PAGE_WRITE \<noteq> 0 \<longleftrightarrow> f AND VM_WRITE \<noteq> 0) \<and>
    (mk_pte a f AND PAGE_EXEC \<noteq> 0 \<longleftrightarrow> f AND VM_EXEC \<noteq> 0)"
  using mk_pte_entry[OF assms] by blast

theorem mk_pte_correct_witness:
  "pte_to_virt (mk_pte (page_addr 0x80205) 5) = page_addr 0x80205 \<and> mk_pte (page_addr 0x80205) 5 AND PAGE_WRITE = 0"
proof -
  have "dm_page (page_addr 0x80205)" unfolding dm_page_def NUM_PAGES_def by (intro exI[of _ "0x80205"]) simp
  from mk_pte_correct[OF this, of 5] show ?thesis by (simp add: VM_WRITE_def)
qed

end
