(* ===== verification/Fork.thy ===== *)
theory Fork
  imports Faults
begin

text \<open>
  Copying an address space, \<open>copy_page_range\<close> and \<open>dup_mmap\<close> of \<open>src/vm.c\<close>: afterwards both tasks map the
  pages of the area to the same frames, without the right to write. The walk goes down both tables at
  once; it is right because the tables of the copy mirror tables of the original.
\<close>

section \<open>Two page tables in step\<close>

text \<open>Every table of the copy stands for a table of the original that has at least its entries.\<close>

definition mirrors :: "mem \<Rightarrow> (u64 \<Rightarrow> u64) \<Rightarrow> (nat \<Rightarrow> u64 set) \<Rightarrow> (nat \<Rightarrow> u64 set) \<Rightarrow> bool" where
  "mirrors m f lvS lvD \<longleftrightarrow> (\<forall>u \<in> lvD 2. f u \<in> lvS 2) \<and>
     (\<forall>l < 2. \<forall>u i. (u, i) \<in> used_ents m lvD (Suc l) \<longrightarrow>
        (f u, i) \<in> used_ents m lvS (Suc l) \<and> f (child m u i) = child m (f u) i)"

definition forking :: "'z sched_scheme \<Rightarrow> u64 \<Rightarrow> (nat \<Rightarrow> u64 set) \<Rightarrow> u64 \<Rightarrow> (nat \<Rightarrow> u64 set) \<Rightarrow>
    (u64 \<Rightarrow> u64) \<Rightarrow> chunk set \<Rightarrow> bool" where
  "forking s pgS lvS pgD lvD f L \<longleftrightarrow>
     as_inv s pgS lvS L \<and> as_inv s pgD lvD L \<and> tables lvS \<inter> tables lvD = {} \<and> mirrors (ram s) f lvS lvD"

lemma mirrorsD:
  assumes "mirrors m f lvS lvD" and "l < 2" and "(u, i) \<in> used_ents m lvD (Suc l)"
  shows "(f u, i) \<in> used_ents m lvS (Suc l)" and "f (child m u i) = child m (f u) i"
  using assms unfolding mirrors_def by blast+

definition same_entries :: "mem \<Rightarrow> mem \<Rightarrow> (nat \<Rightarrow> u64 set) \<Rightarrow> bool" where
  "same_entries m m' lv \<longleftrightarrow>
     (\<forall>l t i. 0 < l \<and> l \<le> 2 \<and> t \<in> lv l \<and> i < width l \<longrightarrow> load64 m' (ent t i) = load64 m (ent t i))"

lemma same_entries_used:
  assumes "same_entries m m' lv" and "l < 2"
  shows "used_ents m' lv (Suc l) = used_ents m lv (Suc l)"
    and "(t, i) \<in> used_ents m lv (Suc l) \<Longrightarrow> child m' t i = child m t i"
proof -
  have e: "load64 m' (ent t i) = load64 m (ent t i)" if "t \<in> lv (Suc l)" "i < width (Suc l)" for t i
    using assms(1)[unfolded same_entries_def, rule_format, of "Suc l" t i] that assms(2) by simp
  show "used_ents m' lv (Suc l) = used_ents m lv (Suc l)" unfolding used_ents_def using e by auto
  show "(t, i) \<in> used_ents m lv (Suc l) \<Longrightarrow> child m' t i = child m t i"
    using e[of t i] by (simp add: used_ents_def child_def)
qed

lemma mirrors_cong:
  assumes m: "mirrors m f lvS lvD" and S: "same_entries m m' lvS" and D: "same_entries m m' lvD"
  shows "mirrors m' f lvS lvD"
  unfolding mirrors_def
proof (intro conjI allI impI)
  show "\<forall>u \<in> lvD 2. f u \<in> lvS 2" using m by (simp add: mirrors_def)
  fix l u i assume l: "l < (2 :: nat)" and "(u, i) \<in> used_ents m' lvD (Suc l)"
  then have u: "(u, i) \<in> used_ents m lvD (Suc l)" using same_entries_used(1)[OF D l] by simp
  note md = mirrorsD[OF m l u]
  show "(f u, i) \<in> used_ents m' lvS (Suc l)" using md(1) same_entries_used(1)[OF S l] by simp
  show "f (child m' u i) = child m' (f u) i"
    using md(2) same_entries_used(2)[OF D l u] same_entries_used(2)[OF S l md(1)] by simp
qed

lemma same_entries_frame:
  assumes a: "as_inv s pg lv L" and m: "mm_inv h L'" and L: "L \<subseteq> L'"
    and P: "only_in P (ram s) m'" "\<And>p. p \<in> P \<Longrightarrow> (p, 4096) \<in> L'" "P \<inter> tables lv = {}"
  shows "same_entries (ram s) m' lv"
  unfolding same_entries_def
proof (intro allI impI)
  fix l t i assume t: "0 < l \<and> l \<le> 2 \<and> t \<in> lv l \<and> i < width l"
  then have tl: "l \<le> 2" "t \<in> lv l" by simp_all
  have "m' x = ram s x" if "unat (x - t) < 4096" for x
    by (rule chunk_kept[OF m _ P(1,2) _ that]) (use as_invD(5,6)[OF a tl] L P(3) in auto)
  moreover have "i < 512" using t width_le by blast
  ultimately show "load64 m' (ent t i) = load64 (ram s) (ent t i)"
    using load_ent_frame[OF ptabD(1)[OF as_invD(2)[OF a] tl]] by blast
qed

lemma same_entries_leaf:
  assumes "ptab m lv" and "u \<in> lv 0" and "j < 512"
  shows "same_entries m (store64 (ent u j) v m) lv"
  unfolding same_entries_def using leaf_store_entries[OF assms] by blast

text \<open>A table is added to the copy where the original has one.\<close>

lemma fork_new_table:
  assumes fk: "forking s pgS lvS pgD lvD f L" and l: "l < 2"
    and u: "u \<in> lvD (Suc l)" "i < width (Suc l)" "load64 (ram s) (ent u i) = 0"
    and S: "(f u, i) \<in> used_ents (ram s) lvS (Suc l)" and n: "new_table (ent u i) s = Inr s'"
  shows "\<exists>lvD' L' f'. forking s' pgS lvS pgD lvD' f' L' \<and> grows s pgD lvD L s' lvD' L' \<and>
    (\<forall>v \<in> tables lvD. f' v = f v) \<and> (u, i) \<in> used_ents (ram s') lvD' (Suc l) \<and>
    child (ram s') u i \<in> lvD' l \<and> f' (child (ram s') u i) = child (ram s') (f u) i"
proof -
  have aS: "as_inv s pgS lvS L" and aD: "as_inv s pgD lvD L" and dj: "tables lvS \<inter> tables lvD = {}"
    and mi: "mirrors (ram s) f lvS lvD" using fk by (simp_all add: forking_def)
  obtain a h where k: "kmalloc (of_nat PAGE_SIZE) (heap s) = Inr (a, h)"
    using n by (auto simp: new_table_def bindF_def split: sum.splits)
  then have s': "s' = s\<lparr>heap := h, ram := table_added u i a (ram s)\<rparr>" using new_table_added[OF k, of u i] n by simp
  note km = kmalloc_page[OF as_invD(1)[OF aD] k]
  note nt = new_table_as[OF aD l u k, folded s'] and g = new_table_grows_by[OF aD l u k s']
  let ?lv = "lvD(l := insert a (lvD l))" and ?L = "insert (a, 4096) L" and ?f = "f(a := child (ram s) (f u) i)"
  have al: "\<forall>k \<le> 2. a \<notin> lvD k" using nt(2) as_invD(5)[OF aD] by blast
  have aS_not: "a \<notin> tables lvS" using km(2) as_invD(4)[OF aS, of a] by force
  have ut: "u \<in> tables lvD" using as_invD(5)[OF aD, of "Suc l" u] u(1) l by simp
  have uS: "u \<notin> tables lvS" using dj ut by blast
  have P: "{u, a} \<inter> tables lvS = {}" using uS aS_not by simp
  have PL: "\<And>p. p \<in> {u, a} \<Longrightarrow> (p, 4096) \<in> ?L" using as_invD(4)[OF aD ut] by auto
  have h': "heap s' = h" using s' by simp
  have mh: "mm_inv (heap s') ?L" using km(3) h' by simp
  have aS': "as_inv s' pgS lvS ?L" by (rule as_inv_frame(1)[OF aS mh _ nt(6) PL P]) auto
  have se: "same_entries (ram s) (ram s') lvS" by (rule same_entries_frame[OF aS mh _ nt(6) PL P]) auto
  have lS: "tables ?lv = insert a (tables lvD)" using tables_insert[of l lvD a] l by simp
  have mi': "mirrors (ram s') ?f lvS ?lv"
    unfolding mirrors_def
  proof (intro conjI allI impI)
    show "\<forall>v \<in> ?lv 2. ?f v \<in> lvS 2" using mi al l by (auto simp: mirrors_def)
    fix k v j assume k2: "k < (2 :: nat)" and v: "(v, j) \<in> used_ents (ram s') ?lv (Suc k)"
    have "(v, j) \<in> used_ents (table_added u i a (ram s)) ?lv (Suc k)" using v s' by simp
    from table_added_used[OF as_invD(2)[OF aD] l u km(1) al k2 this]
    consider "(v, j) = (u, i)" "k = l"
      | "(v, j) \<in> used_ents (ram s) lvD (Suc k)" "child (ram s') v j = child (ram s) v j" using s' by auto
    then have "(?f v, j) \<in> used_ents (ram s) lvS (Suc k) \<and> ?f (child (ram s') v j) = child (ram s) (?f v) j"
    proof cases
      case 1
      then show ?thesis using S nt(4) al u(1) l by (auto simp: nt(2))
    next
      case 2
      have "v \<in> lvD (Suc k)" using 2(1) by (simp add: used_ents_def)
      then have va: "v \<noteq> a" using al k2 by auto
      have "child (ram s) v j \<in> lvD k" by (rule ptabD(3)[OF as_invD(2)[OF aD] k2 2(1)])
      then have "child (ram s) v j \<noteq> a" using al k2 by auto
      then show ?thesis using mirrorsD[OF mi k2 2(1)] 2(2) va by simp
    qed
    then show "(?f v, j) \<in> used_ents (ram s') lvS (Suc k)" "?f (child (ram s') v j) = child (ram s') (?f v) j"
      using same_entries_used[OF se k2] by auto
  qed
  have fu: "?f u = f u" using ut nt(2) by auto
  have "forking s' pgS lvS pgD ?lv ?f ?L"
    unfolding forking_def using aS' nt(1) mi' dj aS_not lS by auto
  moreover have "(u, i) \<in> used_ents (ram s') ?lv (Suc l)" using u nt(3) by (simp add: used_ents_def)
  moreover have "child (ram s') u i \<in> ?lv l" using nt(4) by simp
  moreover have "?f (child (ram s') u i) = child (ram s') (f u) i"
    using nt(4) same_entries_used(2)[OF se l S] by simp
  moreover have "\<forall>v \<in> tables lvD. ?f v = f v" using nt(2) by auto
  ultimately show ?thesis using g by blast
qed

text \<open>The same walk in one table does nothing.\<close>

lemma copy_page_same: "copy_page_from l t t va s = Inr s"
  by (induction l arbitrary: t) (simp_all add: Let_def)

definition copy_leaf :: "u64 \<Rightarrow> u64 \<Rightarrow> 'z sched_scheme \<Rightarrow> fault + 'z sched_scheme" where
  "copy_leaf se de s =
     (if load64 (ram s) se \<noteq> 0 \<and> load64 (ram s) de = 0
      then bindF (new_table de s) (\<lambda>s1. Inr (share_page se de s1)) else Inr s)"

lemma copy_page_leaf: "copy_page_from 0 t u va s = copy_leaf (ent t (pt_idx 0 va)) (ent u (pt_idx 0 va)) s"
  by (simp add: copy_leaf_def pt_entry_ent Let_def)

definition fgrows :: "'z sched_scheme \<Rightarrow> u64 \<Rightarrow> (nat \<Rightarrow> u64 set) \<Rightarrow> u64 \<Rightarrow> (nat \<Rightarrow> u64 set) \<Rightarrow> (u64 \<Rightarrow> u64) \<Rightarrow>
    chunk set \<Rightarrow> 'z sched_scheme \<Rightarrow> (nat \<Rightarrow> u64 set) \<Rightarrow> (u64 \<Rightarrow> u64) \<Rightarrow> chunk set \<Rightarrow> bool" where
  "fgrows s pgS lvS pgD lvD f L s' lvD' f' L' \<longleftrightarrow>
     forking s' pgS lvS pgD lvD' f' L' \<and> grows s pgD lvD L s' lvD' L' \<and> (\<forall>v \<in> tables lvD. f' v = f v) \<and>
     same_entries (ram s) (ram s') lvS \<and> (\<forall>va. user va \<longrightarrow> lookup (ram s') pgS va = lookup (ram s) pgS va)"

lemma tables_mono: "(\<And>k. k \<le> 2 \<Longrightarrow> lv k \<subseteq> lv' k) \<Longrightarrow> tables lv \<subseteq> tables lv'"
  unfolding tables_def by (metis Un_mono le_2)

lemma fgrowsI:
  assumes fk: "forking s pgS lvS pgD lvD f L" and fk': "forking s' pgS lvS pgD lvD' f' L'"
    and g: "grows s pgD lvD L s' lvD' L'" and f: "\<forall>v \<in> tables lvD. f' v = f v"
  shows "fgrows s pgS lvS pgD lvD f L s' lvD' f' L'"
proof -
  have aS: "as_inv s pgS lvS L" and dj: "tables lvD' \<inter> tables lvS = {}" using fk fk' by (auto simp: forking_def)
  note gd = growsD[OF g]
  have "same_entries (ram s) (ram s') lvS"
    by (rule same_entries_frame[OF aS as_invD(1)[OF gd(1)] gd(3) gd(6) as_invD(4)[OF gd(1)] dj])
  moreover have "lookup (ram s') pgS va = lookup (ram s) pgS va" if "user va" for va
    by (rule as_inv_frame(3)[OF aS as_invD(1)[OF gd(1)] gd(3) gd(6) as_invD(4)[OF gd(1)] dj that])
  ultimately show ?thesis using fk' g f unfolding fgrows_def by blast
qed

lemma fgrows_refl: "forking s pgS lvS pgD lvD f L \<Longrightarrow> fgrows s pgS lvS pgD lvD f L s lvD f L"
  by (rule fgrowsI) (auto simp: forking_def grows_refl)

lemma fgrows_trans:
  assumes fk: "forking s pgS lvS pgD lvD f L" and g: "fgrows s pgS lvS pgD lvD f L s1 lv1 f1 L1"
    and h: "fgrows s1 pgS lvS pgD lv1 f1 L1 s2 lv2 f2 L2"
  shows "fgrows s pgS lvS pgD lvD f L s2 lv2 f2 L2"
proof (rule fgrowsI[OF fk])
  have gg: "grows s pgD lvD L s1 lv1 L1" "grows s1 pgD lv1 L1 s2 lv2 L2" using g h by (simp_all add: fgrows_def)
  show "grows s pgD lvD L s2 lv2 L2" by (rule grows_trans[OF gg])
  show "forking s2 pgS lvS pgD lv2 f2 L2" using h by (simp add: fgrows_def)
  have "tables lvD \<subseteq> tables lv1" by (rule tables_mono) (rule growsD(4)[OF gg(1)])
  then show "\<forall>v \<in> tables lvD. f2 v = f v" using g h unfolding fgrows_def by (metis subsetD)
qed

lemma same_entries_walk:
  assumes "as_inv s pg lv L" and "same_entries (ram s) m' lv" and "l \<le> 2" and "t \<in> lv l" and "user va"
  shows "walk l m' t va = walk l (ram s) t va"
proof (rule walk_cong[OF as_invD(2)[OF assms(1)] _ assms(3-5)])
  show "load64 m' (ent t i) = load64 (ram s) (ent t i)" if "0 < l" "l \<le> 2" "t \<in> lv l" "i < width l" for l t i
    using assms(2) that unfolding same_entries_def by blast
qed

text \<open>Down to the last level: the copy has grown, and the entry is shared if the original has one.\<close>

lemma copy_page_down:
  assumes "forking s pgS lvS pgD lvD f L" and "l \<le> 2" and "u \<in> lvD l" and "f u \<in> lvS l" and "user va"
    and "copy_page_from l (f u) u va s = Inr s'"
  shows "\<exists>s1 lv1 f1 L1. fgrows s pgS lvS pgD lvD f L s1 lv1 f1 L1 \<and>
    (case walk l (ram s) (f u) va of None \<Rightarrow> s' = s1
     | Some se \<Rightarrow> \<exists>de. walk l (ram s1) u va = Some de \<and> copy_leaf se de s1 = Inr s')"
  using assms
proof (induction l arbitrary: u s lvD f L)
  case 0
  then show ?case using fgrows_refl[OF 0(1)] by (auto simp: copy_page_leaf simp del: copy_page_from.simps)
next
  case (Suc l)
  note fk = Suc.prems(1)
  have aS: "as_inv s pgS lvS L" and aD: "as_inv s pgD lvD L" and mi: "mirrors (ram s) f lvS lvD"
    using fk by (simp_all add: forking_def)
  let ?i = "pt_idx (Suc l) va"
  let ?se = "ent (f u) ?i" and ?de = "ent u ?i"
  have l: "l < 2" using Suc.prems(2) by simp
  have iw: "?i < width (Suc l)" by (rule pt_idx_width[OF Suc.prems(5,2)])
  obtain s1 where s1: "(if load64 (ram s) ?se \<noteq> 0 \<and> load64 (ram s) ?de = 0 then new_table ?de s else Inr s) = Inr s1"
    and r: "copy_page_from l (child (ram s1) (f u) ?i) (child (ram s1) u ?i) va s1 = Inr s'"
    using Suc.prems(6) by (auto simp: pt_entry_ent bindF_eq_Inr_iff child_def Let_def)
  show ?case
  proof (cases "load64 (ram s) ?se = 0")
    case True
    have "load64 (ram s) ?de = 0"
    proof (rule ccontr)
      assume "load64 (ram s) ?de \<noteq> 0"
      then have "(u, ?i) \<in> used_ents (ram s) lvD (Suc l)" using Suc.prems(3) iw by (simp add: used_ents_def)
      then show False using mirrorsD(1)[OF mi l] True by (auto simp: used_ents_def)
    qed
    moreover have "s1 = s" using s1 True by simp
    ultimately have "s' = s" using r True by (simp add: child_def copy_page_same)
    then show ?thesis using fgrows_refl[OF fk] True by auto
  next
    case False
    have uS: "(f u, ?i) \<in> used_ents (ram s) lvS (Suc l)" using False Suc.prems(4) iw by (simp add: used_ents_def)
    obtain lv1 L1 f1 where g: "fgrows s pgS lvS pgD lvD f L s1 lv1 f1 L1"
      and u: "(u, ?i) \<in> used_ents (ram s1) lv1 (Suc l)" "child (ram s1) u ?i \<in> lv1 l"
        "f1 (child (ram s1) u ?i) = child (ram s1) (f u) ?i"
    proof (cases "load64 (ram s) ?de = 0")
      case True
      have n: "new_table ?de s = Inr s1" using s1 True False by simp
      obtain lv1 L1 f1 where 1: "forking s1 pgS lvS pgD lv1 f1 L1" "grows s pgD lvD L s1 lv1 L1" "\<forall>v \<in> tables lvD. f1 v = f v"
        and 2: "(u, ?i) \<in> used_ents (ram s1) lv1 (Suc l)" "child (ram s1) u ?i \<in> lv1 l"
          "f1 (child (ram s1) u ?i) = child (ram s1) (f u) ?i"
        using fork_new_table[OF fk l Suc.prems(3) iw True uS n] by blast
      show thesis by (rule that[OF fgrowsI[OF fk 1] 2])
    next
      case nz: False
      then have s: "s1 = s" using s1 by simp
      have ud: "(u, ?i) \<in> used_ents (ram s) lvD (Suc l)" using nz Suc.prems(3) iw by (simp add: used_ents_def)
      show thesis
        by (rule that[of lvD f L]) (use fgrows_refl[OF fk] ud mirrorsD(2)[OF mi l ud]
            ptabD(3)[OF as_invD(2)[OF aD] l ud] in \<open>simp_all add: s\<close>)
    qed
    have fk1: "forking s1 pgS lvS pgD lv1 f1 L1" and se: "same_entries (ram s) (ram s1) lvS"
      using g by (simp_all add: fgrows_def)
    have cS: "child (ram s1) (f u) ?i = child (ram s) (f u) ?i" by (rule same_entries_used(2)[OF se l uS])
    have cin: "child (ram s) (f u) ?i \<in> lvS l" by (rule ptabD(3)[OF as_invD(2)[OF aS] l uS])
    have c1: "f1 (child (ram s1) u ?i) \<in> lvS l" using u(3) cS cin by simp
    obtain s2 lv2 f2 L2 where h: "fgrows s1 pgS lvS pgD lv1 f1 L1 s2 lv2 f2 L2"
      and w: "case walk l (ram s1) (f1 (child (ram s1) u ?i)) va of None \<Rightarrow> s' = s2
        | Some se \<Rightarrow> \<exists>de. walk l (ram s2) (child (ram s1) u ?i) va = Some de \<and> copy_leaf se de s2 = Inr s'"
      using Suc.IH[OF fk1 _ u(2) c1 Suc.prems(5)] r u(3) l by auto
    have wS: "walk l (ram s1) (f1 (child (ram s1) u ?i)) va = walk (Suc l) (ram s) (f u) va"
      using same_entries_walk[OF aS se _ cin Suc.prems(5)] False l u(3) cS by simp
    have g2: "grows s1 pgD lv1 L1 s2 lv2 L2" using h by (simp add: fgrows_def)
    have "load64 (ram s2) ?de = load64 (ram s1) ?de" by (rule growsD(8)[OF g2 _ u(1)]) (use l in simp_all)
    moreover have "load64 (ram s1) ?de \<noteq> 0" using u(1) by (simp add: used_ents_def)
    ultimately have wD: "walk (Suc l) (ram s2) u va = walk l (ram s2) (child (ram s1) u ?i) va" by (simp add: child_def)
    show ?thesis using fgrows_trans[OF fk g h] w unfolding wS wD[symmetric] by blast
  qed
qed

section \<open>Sharing a page\<close>

text \<open>A write to an entry of the last level of one of two page tables.\<close>

lemma two_leaf_store:
  fixes v :: u64
  assumes A: "as_inv s pgA lvA L" and B: "as_inv s pgB lvB L" and dj: "tables lvA \<inter> tables lvB = {}"
    and va: "user va" and w: "walk 2 (ram s) pgA va = Some e"
  defines "s' \<equiv> s\<lparr>ram := store64 e v (ram s)\<rparr>"
  shows "as_inv s' pgA lvA L" and "as_inv s' pgB lvB L"
    and "user vb \<Longrightarrow> lookup (ram s') pgA vb = (if page_no vb = page_no va then v else lookup (ram s) pgA vb)"
    and "user vb \<Longrightarrow> lookup (ram s') pgB vb = lookup (ram s) pgB vb"
    and "user vb \<Longrightarrow> walk 2 (ram s') pgA vb = walk 2 (ram s) pgA vb"
    and "user vb \<Longrightarrow> walk 2 (ram s') pgB vb = walk 2 (ram s) pgB vb"
    and "same_entries (ram s) (ram s') lvA" and "same_entries (ram s) (ram s') lvB"
    and "only_in (tables lvA) (ram s) (ram s')"
proof -
  note a = as_invD[OF A]
  note st = as_inv_leaf_store[OF A va w, of v]
  show i: "as_inv s' pgA lvA L" using st(1) by (simp add: s'_def)
  show o: "only_in (tables lvA) (ram s) (ram s')" using st(2) by (simp add: s'_def)
  have m: "mm_inv (heap s') L" using as_invD(1)[OF i] .
  have LL: "L \<subseteq> L" by simp
  show "as_inv s' pgB lvB L" by (rule as_inv_frame(1)[OF B m LL o a(4) dj])
  show "user vb \<Longrightarrow> walk 2 (ram s') pgB vb = walk 2 (ram s) pgB vb" by (rule as_inv_frame(2)[OF B m LL o a(4) dj])
  show "user vb \<Longrightarrow> lookup (ram s') pgB vb = lookup (ram s) pgB vb" by (rule as_inv_frame(3)[OF B m LL o a(4) dj])
  show "same_entries (ram s) (ram s') lvB" by (rule same_entries_frame[OF B m LL o a(4) dj])
  note ls = leaf_store[OF a(2,3) va w, of v]
  show "user vb \<Longrightarrow> lookup (ram s') pgA vb = (if page_no vb = page_no va then v else lookup (ram s) pgA vb)"
    using leaf_store(3)[OF a(2,3) va w, of vb v] by (simp add: s'_def)
  show "user vb \<Longrightarrow> walk 2 (ram s') pgA vb = walk 2 (ram s) pgA vb"
    using leaf_store(2)[OF a(2,3) va w, of vb v] by (simp add: s'_def)
  obtain u where u: "u \<in> lvA 0" "e = ent u (pt_idx 0 va)" using walk_leaf[OF a(2) _ _ va w] a(3) by auto
  show "same_entries (ram s) (ram s') lvA" using same_entries_leaf[OF a(2) u(1) pt_idx_less[of 0 va], where v = v] by (simp add: s'_def u(2))
qed

lemma same_entries_trans: "same_entries m m1 lv \<Longrightarrow> same_entries m1 m2 lv \<Longrightarrow> same_entries m m2 lv"
  unfolding same_entries_def by metis

lemma pte_to_virt_no_write: "pte_to_virt (e AND NOT PAGE_WRITE) = pte_to_virt e"
proof -
  have "(e AND NOT PAGE_WRITE) AND NOT 0x3ff = e AND NOT 0x3ff"
  proof (rule bit_word_eqI)
    have m: "(0x3ff :: u64) = mask 10" by (simp add: mask_eq_exp_minus_1)
    fix n assume "n < LENGTH(64)"
    moreover have "bit PAGE_WRITE n \<longleftrightarrow> n = 2" for n
      using bit_push_bit_iff[of 2 "1 :: u64" n] unfolding PAGE_WRITE_def by (auto simp only: bit_1_iff possible_bit_word) auto
    ultimately show "bit ((e AND NOT PAGE_WRITE) AND NOT 0x3ff) n \<longleftrightarrow> bit (e AND NOT 0x3ff) n"
      unfolding m by (auto simp: bit_simps)
  qed
  then show ?thesis by (simp add: pte_to_virt_def)
qed

lemma lookup_walk: "walk 2 m pg va = Some e \<Longrightarrow> lookup m pg va = load64 m e"
  by (simp add: lookup_def look_def)

text \<open>
  The entry without the right to write goes to both tables, and its frame has one reference more. The page
  that \<open>new_table\<close> took for the last level stays allocated.
\<close>

lemma share_leaf_table:
  assumes fk: "forking s pgS lvS pgD lvD f L" and va: "user va" and wS: "walk 2 (ram s) pgS va = Some se" and wD: "walk 2 (ram s) pgD va = Some de"
    and k: "kmalloc (of_nat PAGE_SIZE) (heap s) = Inr (a, h)"
  defines "m \<equiv> store64 de (drop_bit 2 (virt_to_phys a) OR PAGE_PRESENT) (zero_page a (ram s))"
    and "L1 \<equiv> insert (a, 4096) L"
  defines "s1 \<equiv> s\<lparr>heap := h, ram := m\<rparr>"
  shows "new_table de s = Inr s1" and "as_inv s1 pgS lvS L1" and "as_inv s1 pgD lvD L1"
    and "walk 2 m pgS va = Some se" and "walk 2 m pgD va = Some de"
    and "user vb \<Longrightarrow> lookup m pgS vb = lookup (ram s) pgS vb"
    and "user vb \<Longrightarrow> page_no vb \<noteq> page_no va \<Longrightarrow> lookup m pgD vb = lookup (ram s) pgD vb"
    and "same_entries (ram s) m lvS" and "same_entries (ram s) m lvD" and "only_in (insert a (tables lvD)) (ram s) m"
proof -
  have aS: "as_inv s pgS lvS L" and aD: "as_inv s pgD lvD L" and dj: "tables lvS \<inter> tables lvD = {}"
    using fk by (simp_all add: forking_def)
  obtain u where u: "u \<in> lvD 0" "de = ent u (pt_idx 0 va)"
    using walk_leaf[OF as_invD(2)[OF aD] _ _ va wD] as_invD(3)[OF aD] by auto
  note km = kmalloc_page[OF as_invD(1)[OF aD] k, folded L1_def]
  let ?j = "drop_bit 2 (virt_to_phys a) OR PAGE_PRESENT" and ?m0 = "zero_page a (ram s)"
  have r: "ram s1 = m" by (simp add: s1_def)
  show "new_table de s = Inr s1" using new_table_added[OF k, of u "pt_idx 0 va"] by (simp add: u(2) table_added_def s1_def m_def)
  have o0: "only_in {a} (ram s) ?m0" by (rule zero_page_only_in)
  have na: "a \<notin> tables lvS" "a \<notin> tables lvD" using km(2) as_invD(4)[OF aS, of a] as_invD(4)[OF aD, of a] by force+
  note fe = fresh_page_entered[OF aD va wD km(3,2)[unfolded L1_def] o0, where v = ?j, folded m_def L1_def, folded s1_def]
  show "as_inv s1 pgD lvD L1" by (rule fe(1))
  show o: "only_in (insert a (tables lvD)) (ram s) m" by (rule fe(4)[unfolded r])
  have mh: "mm_inv (heap s1) L1" using km(3) by (simp add: s1_def)
  have LL: "L \<subseteq> L1" by (auto simp: L1_def)
  have PL: "\<And>p. p \<in> insert a (tables lvD) \<Longrightarrow> (p, 4096) \<in> L1" using as_invD(4)[OF aD] by (auto simp: L1_def)
  have Pd: "insert a (tables lvD) \<inter> tables lvS = {}" using na dj by auto
  show "as_inv s1 pgS lvS L1" by (rule as_inv_frame(1)[OF aS mh LL fe(4) PL Pd])
  show "walk 2 m pgS va = Some se" using as_inv_frame(2)[OF aS mh LL fe(4) PL Pd va] wS by (simp only: r)
  show "lookup m pgS vb = lookup (ram s) pgS vb" if "user vb" using as_inv_frame(3)[OF aS mh LL fe(4) PL Pd that] by (simp only: r)
  show "lookup m pgD vb = lookup (ram s) pgD vb" if "user vb" "page_no vb \<noteq> page_no va" using fe(2)[OF that(1)] that(2) by (simp add: r)
  show "same_entries (ram s) m lvS" by (rule same_entries_frame[OF aS mh LL fe(4)[unfolded r] PL Pd])
  have "same_entries (ram s) ?m0 lvD" by (rule same_entries_frame[OF aD mh LL o0]) (use na in \<open>auto simp: L1_def\<close>)
  moreover have p0: "ptab ?m0 lvD"
    by (rule ptab_cong[OF as_invD(2)[OF aD]]) (use calculation in \<open>auto simp: same_entries_def\<close>)
  moreover have "same_entries ?m0 m lvD"
    using same_entries_leaf[OF p0 u(1) pt_idx_less[of 0 va], where v = ?j] by (simp add: u(2) m_def)
  ultimately show seD: "same_entries (ram s) m lvD" by (metis same_entries_trans)
  show "walk 2 m pgD va = Some de"
    using same_entries_walk[OF aD seD _ _ va, of 2 pgD] wD as_invD(3)[OF aD] by simp
qed

lemma share_leaf:
  assumes fk: "forking s pgS lvS pgD lvD f L" and va: "user va"
    and wS: "walk 2 (ram s) pgS va = Some se" and wD: "walk 2 (ram s) pgD va = Some de"
    and sh: "lookup (ram s) pgS va \<noteq> 0" "lookup (ram s) pgD va = 0" and c: "copy_leaf se de s = Inr s'"
  defines "e \<equiv> lookup (ram s) pgS va AND NOT PAGE_WRITE"
  shows "\<exists>h m a. s' = s\<lparr>heap := h, ram := m\<rparr> \<and> a \<notin> fst ` L \<and> forking s' pgS lvS pgD lvD f (insert (a, 4096) L) \<and>
    only_in (insert a (tables lvS \<union> tables lvD)) (ram s) m \<and>
    (\<forall>vb. user vb \<longrightarrow> lookup m pgS vb = (if page_no vb = page_no va then e else lookup (ram s) pgS vb)) \<and>
    (\<forall>vb. user vb \<longrightarrow> lookup m pgD vb = (if page_no vb = page_no va then e else lookup (ram s) pgD vb)) \<and>
    (\<forall>p \<in> fst ` L. dm_page p \<longrightarrow> refcount (mem_map h (virt_to_page p)) = refcount (mem_map (heap s) (virt_to_page p)) +
      (if virt_to_page p = virt_to_page (pte_to_virt (lookup (ram s) pgS va)) then 1 else 0))"
proof -
  have aS: "as_inv s pgS lvS L" and aD: "as_inv s pgD lvD L" and dj: "tables lvS \<inter> tables lvD = {}"
    and mi: "mirrors (ram s) f lvS lvD" using fk by (simp_all add: forking_def)
  have se0: "load64 (ram s) se \<noteq> 0" and de0: "load64 (ram s) de = 0" using sh lookup_walk[OF wS] lookup_walk[OF wD] by simp_all
  obtain a h where k: "kmalloc (of_nat PAGE_SIZE) (heap s) = Inr (a, h)"
    using c se0 de0 by (auto simp: copy_leaf_def new_table_def bindF_def split: sum.splits)
  note km = kmalloc_page[OF as_invD(1)[OF aD] k]
  let ?L = "insert (a, 4096) L"
  let ?s1 = "s\<lparr>heap := h, ram := store64 de (drop_bit 2 (virt_to_phys a) OR PAGE_PRESENT) (zero_page a (ram s))\<rparr>"
  note t1 = share_leaf_table[OF fk va wS wD k]
  have r1: "ram ?s1 = store64 de (drop_bit 2 (virt_to_phys a) OR PAGE_PRESENT) (zero_page a (ram s))" by simp
  have wS1: "walk 2 (ram ?s1) pgS va = Some se" and wD1: "walk 2 (ram ?s1) pgD va = Some de" using t1(4,5) by (simp_all only: r1)
  have e1: "load64 (ram ?s1) se = lookup (ram s) pgS va" using lookup_walk[OF wS1] t1(6)[OF va] by (simp only: r1)
  have seS: "same_entries (ram s) (ram ?s1) lvS" and seD: "same_entries (ram s) (ram ?s1) lvD" and
    o1: "only_in (insert a (tables lvD)) (ram s) (ram ?s1)" using t1(8-10) by (simp_all only: r1)
  let ?s2 = "?s1\<lparr>ram := store64 se e (ram ?s1)\<rparr>"
  note t2 = two_leaf_store[OF t1(2,3) dj va wS1, where v = e]
  have wD2: "walk 2 (ram ?s2) pgD va = Some de" using t2(6)[OF va] wD1 by simp
  let ?s3 = "?s2\<lparr>ram := store64 de e (ram ?s2)\<rparr>"
  have dj': "tables lvD \<inter> tables lvS = {}" using dj by blast
  note t3 = two_leaf_store[OF t2(2,1) dj' va wD2, where v = e]
  let ?q = "virt_to_page (pte_to_virt (lookup (ram s) pgS va))"
  let ?h = "get_page ?q h"
  have wS3: "walk 2 (ram ?s3) pgS va = Some se" using t3(6)[OF va] t2(5)[OF va] wS1 by simp
  have le: "load64 (ram ?s3) se = e" using lookup_walk[OF wS3] t3(4)[OF va] t2(3)[OF va] by simp
  have "share_page se de ?s1 = ?s3\<lparr>heap := get_page (virt_to_page (pte_to_virt (load64 (ram ?s3) se))) h\<rparr>"
    by (simp add: share_page_def Let_def e1[unfolded r1] e_def[symmetric])
  then have "s' = ?s3\<lparr>heap := ?h\<rparr>"
    using c t1(1) se0 de0 le by (simp add: copy_leaf_def e_def pte_to_virt_no_write)
  then have s': "s' = s\<lparr>heap := ?h, ram := ram ?s3\<rparr>" by simp
  have "as_inv s' pgS lvS ?L"
    by (rule as_inv_cong[OF as_inv_refcount[OF t3(2), of ?q "\<lambda>pg. refcount pg + 1"]]) (simp_all add: s' get_page_def)
  moreover have "as_inv s' pgD lvD ?L"
    by (rule as_inv_cong[OF as_inv_refcount[OF t3(1), of ?q "\<lambda>pg. refcount pg + 1"]]) (simp_all add: s' get_page_def)
  moreover have "mirrors (ram ?s3) f lvS lvD"
    by (rule mirrors_cong[OF mi]) (use same_entries_trans[OF seS same_entries_trans[OF t2(7) t3(8)]]
        same_entries_trans[OF seD same_entries_trans[OF t2(8) t3(7)]] in simp_all)
  ultimately have "forking s' pgS lvS pgD lvD f ?L" using dj by (simp add: forking_def s')
  moreover have "only_in (insert a (tables lvS \<union> tables lvD)) (ram s) (ram ?s3)"
    by (rule only_in_trans[OF o1 only_in_trans[OF t2(9) t3(9), where R = "tables lvS \<union> tables lvD"]]) auto
  moreover have "lookup (ram ?s3) pgS vb = (if page_no vb = page_no va then e else lookup (ram s) pgS vb)" if "user vb" for vb
    using t3(4)[OF that] t2(3)[OF that] t1(6)[OF that] by simp
  moreover have "lookup (ram ?s3) pgD vb = (if page_no vb = page_no va then e else lookup (ram s) pgD vb)" if "user vb" for vb
    using t3(3)[OF that] t2(4)[OF that] t1(7)[OF that] by (cases "page_no vb = page_no va") simp_all
  moreover have "refcount (mem_map ?h (virt_to_page p)) = refcount (mem_map (heap s) (virt_to_page p)) +
      (if virt_to_page p = ?q then 1 else 0)" if p: "p \<in> fst ` L" "dm_page p" for p
  proof -
    have "virt_to_page p \<noteq> virt_to_page a" using dm_page_inj[OF p(2) km(1)] km(2) p(1) by auto
    from km(5)[OF this] show ?thesis by (auto simp: get_page_def)
  qed
  ultimately show ?thesis using km(2) s' by blast
qed

section \<open>One address\<close>

definition to_share :: "mem \<Rightarrow> u64 \<Rightarrow> u64 \<Rightarrow> u64 \<Rightarrow> bool" where
  "to_share m pgS pgD va \<longleftrightarrow> lookup m pgS va \<noteq> 0 \<and> lookup m pgD va = 0"

text \<open>What changes for a set of pages: their entries, in both tables, and the references of their frames.\<close>

lemma copy_page_step:
  assumes fk: "forking s pgS lvS pgD lvD f L" and va: "user va" and c: "copy_page_from 2 pgS pgD va s = Inr s'"
  defines "b \<equiv> to_share (ram s) pgS pgD va" and "e \<equiv> lookup (ram s) pgS va AND NOT PAGE_WRITE"
  shows "\<exists>h m lvD' f' L'. s' = s\<lparr>heap := h, ram := m\<rparr> \<and> forking s' pgS lvS pgD lvD' f' L' \<and> L \<subseteq> L' \<and>
    tables lvD' \<inter> fst ` L \<subseteq> tables lvD \<and>
    (\<forall>vb. user vb \<longrightarrow> lookup m pgS vb = (if b \<and> page_no vb = page_no va then e else lookup (ram s) pgS vb)) \<and>
    (\<forall>vb. user vb \<longrightarrow> lookup m pgD vb = (if b \<and> page_no vb = page_no va then e else lookup (ram s) pgD vb)) \<and>
    (\<forall>p \<in> fst ` L. dm_page p \<longrightarrow> refcount (mem_map h (virt_to_page p)) = refcount (mem_map (heap s) (virt_to_page p)) +
      (if b \<and> virt_to_page p = virt_to_page (pte_to_virt (lookup (ram s) pgS va)) then 1 else 0)) \<and>
    (\<forall>x. held L (tables lvS \<union> tables lvD) x \<longrightarrow> m x = ram s x)"
proof -
  have aS: "as_inv s pgS lvS L" and aD: "as_inv s pgD lvD L" and mi: "mirrors (ram s) f lvS lvD"
    using fk by (simp_all add: forking_def)
  have pg: "pgD \<in> lvD 2" "f pgD = pgS" "f pgD \<in> lvS 2"
    using mi as_invD(3)[OF aS] as_invD(3)[OF aD] by (auto simp: mirrors_def)
  have cf: "copy_page_from 2 (f pgD) pgD va s = Inr s'" using c pg(2) by simp
  obtain s1 lv1 f1 L1 where g: "fgrows s pgS lvS pgD lvD f L s1 lv1 f1 L1"
    and w: "case walk 2 (ram s) pgS va of None \<Rightarrow> s' = s1
     | Some se \<Rightarrow> \<exists>de. walk 2 (ram s1) pgD va = Some de \<and> copy_leaf se de s1 = Inr s'"
    using copy_page_down[OF fk _ pg(1,3) va cf] unfolding pg(2) by auto
  have fk1: "forking s1 pgS lvS pgD lv1 f1 L1" and gr: "grows s pgD lvD L s1 lv1 L1"
    and se: "same_entries (ram s) (ram s1) lvS" and lS: "\<And>vb. user vb \<Longrightarrow> lookup (ram s1) pgS vb = lookup (ram s) pgS vb"
    using g by (simp_all add: fgrows_def)
  note gd = growsD[OF gr]
  have aS1: "as_inv s1 pgS lvS L1" and aD1: "as_inv s1 pgD lv1 L1" using fk1 by (simp_all add: forking_def)
  obtain h1 m1 where s1: "s1 = s\<lparr>heap := h1, ram := m1\<rparr>" using gd(2) by blast
  have T1: "tables lv1 \<inter> fst ` L \<subseteq> tables lvD" using gd(5) by blast
  have kept1: "ram s1 x = ram s x" if "held L (tables lvS \<union> tables lvD) x" for x
    by (rule held_kept[OF that as_invD(1)[OF gd(1)] gd(3,6) as_invD(4)[OF gd(1)] le_supI2[OF T1]])
  have wS1: "walk 2 (ram s1) pgS va = walk 2 (ram s) pgS va"
    using same_entries_walk[OF aS se _ _ va, of 2 pgS] as_invD(3)[OF aS] by simp
  show ?thesis
  proof (cases b)
    case True
    then have sh: "lookup (ram s1) pgS va \<noteq> 0" "lookup (ram s1) pgD va = 0"
      using lS[OF va] gd(7)[OF va] by (simp_all add: b_def to_share_def)
    obtain se de where 1: "walk 2 (ram s1) pgS va = Some se" "walk 2 (ram s1) pgD va = Some de" "copy_leaf se de s1 = Inr s'"
      using w sh(1) unfolding wS1[symmetric] by (auto simp: lookup_def look_def split: option.splits)
    obtain h m a where 2: "s' = s1\<lparr>heap := h, ram := m\<rparr>" "a \<notin> fst ` L1"
      "forking s' pgS lvS pgD lv1 f1 (insert (a, 4096) L1)" "only_in (insert a (tables lvS \<union> tables lv1)) (ram s1) m"
      "\<forall>vb. user vb \<longrightarrow> lookup m pgS vb = (if page_no vb = page_no va then e else lookup (ram s1) pgS vb)"
      "\<forall>vb. user vb \<longrightarrow> lookup m pgD vb = (if page_no vb = page_no va then e else lookup (ram s1) pgD vb)"
      "\<forall>p \<in> fst ` L1. dm_page p \<longrightarrow> refcount (mem_map h (virt_to_page p)) = refcount (mem_map (heap s1) (virt_to_page p)) +
        (if virt_to_page p = virt_to_page (pte_to_virt (lookup (ram s1) pgS va)) then 1 else 0)"
      using share_leaf[OF fk1 va 1(1,2) sh 1(3)] unfolding lS[OF va] e_def by blast
    have aS': "as_inv s' pgS lvS (insert (a, 4096) L1)" and aD': "as_inv s' pgD lv1 (insert (a, 4096) L1)"
      using 2(3) by (simp_all add: forking_def)
    have na: "a \<notin> fst ` L" using 2(2) gd(3) by blast
    have kept: "m x = ram s x" if x: "held L (tables lvS \<union> tables lvD) x" for x
    proof -
      have "m x = ram s1 x"
        by (rule held_kept[OF x as_invD(1)[OF aS'] _ 2(4)])
          (use gd(3) as_invD(4)[OF aS'] as_invD(4)[OF aD'] T1 na in auto)
      then show ?thesis using kept1[OF x] by simp
    qed
    have "refcount (mem_map h (virt_to_page p)) = refcount (mem_map (heap s) (virt_to_page p)) +
      (if b \<and> virt_to_page p = virt_to_page (pte_to_virt (lookup (ram s) pgS va)) then 1 else 0)"
      if p: "p \<in> fst ` L" "dm_page p" for p
    proof -
      have "p \<in> fst ` L1" using p(1) gd(3) by blast
      from bspec[OF 2(7) this] show ?thesis using p(2) gd(9)[OF p] True lS[OF va] by simp
    qed
    moreover have "s' = s\<lparr>heap := h, ram := m\<rparr>" using 2(1) s1 by simp
    moreover have "lookup m pgS vb = (if b \<and> page_no vb = page_no va then e else lookup (ram s) pgS vb)"
      "lookup m pgD vb = (if b \<and> page_no vb = page_no va then e else lookup (ram s) pgD vb)" if "user vb" for vb
      using 2(5,6) that True lS[OF that] gd(7)[OF that] by simp_all
    moreover have "L \<subseteq> insert (a, 4096) L1" using gd(3) by blast
    ultimately show ?thesis using 2(3) T1 kept
      by (intro exI[of _ h] exI[of _ m] exI[of _ lv1] exI[of _ f1] exI[of _ "insert (a, 4096) L1"] conjI allI impI ballI)
  next
    case False
    have "s' = s1"
    proof (cases "walk 2 (ram s) pgS va")
      case (Some se)
      then obtain de where 1: "walk 2 (ram s1) pgD va = Some de" "copy_leaf se de s1 = Inr s'" using w by auto
      have "lookup (ram s) pgS va = load64 (ram s1) se" using Some wS1 lookup_walk lS[OF va] by metis
      moreover have "lookup (ram s) pgD va = load64 (ram s1) de" using lookup_walk[OF 1(1)] gd(7)[OF va] by simp
      ultimately show ?thesis using 1(2) False by (auto simp: b_def to_share_def copy_leaf_def split: if_splits)
    qed (use w in simp)
    then show ?thesis using fk1 s1 lS gd(3,7,9) kept1 T1 False
      by (intro exI[of _ h1] exI[of _ m1] exI[of _ lv1] exI[of _ f1] exI[of _ L1] conjI allI impI ballI) simp_all
  qed
qed

section \<open>Sets of pages\<close>

definition page_va :: "nat \<Rightarrow> u64" where
  "page_va n = of_nat (4096 * n)"

lemma page_va_no:
  assumes "n < 2 ^ 26"
  shows "page_no (page_va n) = n" and "user (page_va n)"
proof -
  have "unat (page_va n) = 4096 * n" unfolding page_va_def using assms by (intro unat_small) simp
  then show "page_no (page_va n) = n" "user (page_va n)" using assms by (simp_all add: page_no_def user_def)
qed

lemma page_no_less: "user va \<Longrightarrow> page_no va < 2 ^ 26"
  by (simp add: user_def page_no_def less_mult_imp_div_less)

lemma to_share_page_no: "page_no va = page_no vb \<Longrightarrow> to_share m pgS pgD va = to_share m pgS pgD vb"
  using lookup_page_no[of va vb] by (simp add: to_share_def)

text \<open>The pages of a set that are shared with frame \<open>q\<close>.\<close>

definition sharers :: "mem \<Rightarrow> u64 \<Rightarrow> u64 \<Rightarrow> nat set \<Rightarrow> nat \<Rightarrow> nat set" where
  "sharers m pgS pgD N q =
     {n \<in> N. to_share m pgS pgD (page_va n) \<and> virt_to_page (pte_to_virt (lookup m pgS (page_va n))) = q}"

definition copies :: "'z sched_scheme \<Rightarrow> u64 \<Rightarrow> (nat \<Rightarrow> u64 set) \<Rightarrow> u64 \<Rightarrow> (nat \<Rightarrow> u64 set) \<Rightarrow> chunk set \<Rightarrow>
    'z sched_scheme \<Rightarrow> (nat \<Rightarrow> u64 set) \<Rightarrow> (u64 \<Rightarrow> u64) \<Rightarrow> chunk set \<Rightarrow> nat set \<Rightarrow> bool" where
  "copies s pgS lvS pgD lvD L s' lvD' f' L' N \<longleftrightarrow>
     forking s' pgS lvS pgD lvD' f' L' \<and> L \<subseteq> L' \<and> tables lvD' \<inter> fst ` L \<subseteq> tables lvD \<and>
     (\<forall>va. user va \<longrightarrow> lookup (ram s') pgS va =
        (if page_no va \<in> N \<and> to_share (ram s) pgS pgD va then lookup (ram s) pgS va AND NOT PAGE_WRITE
         else lookup (ram s) pgS va)) \<and>
     (\<forall>va. user va \<longrightarrow> lookup (ram s') pgD va =
        (if page_no va \<in> N \<and> to_share (ram s) pgS pgD va then lookup (ram s) pgS va AND NOT PAGE_WRITE
         else lookup (ram s) pgD va)) \<and>
     (\<forall>p \<in> fst ` L. dm_page p \<longrightarrow> refcount (mem_map (heap s') (virt_to_page p)) =
        refcount (mem_map (heap s) (virt_to_page p)) + of_nat (card (sharers (ram s) pgS pgD N (virt_to_page p)))) \<and>
     (\<forall>x. held L (tables lvS \<union> tables lvD) x \<longrightarrow> ram s' x = ram s x)"

lemma copiesD:
  assumes "copies s pgS lvS pgD lvD L s' lvD' f' L' N"
  shows "forking s' pgS lvS pgD lvD' f' L'" and "L \<subseteq> L'" and "tables lvD' \<inter> fst ` L \<subseteq> tables lvD"
    and "user va \<Longrightarrow> lookup (ram s') pgS va =
        (if page_no va \<in> N \<and> to_share (ram s) pgS pgD va then lookup (ram s) pgS va AND NOT PAGE_WRITE
         else lookup (ram s) pgS va)"
    and "user va \<Longrightarrow> lookup (ram s') pgD va =
        (if page_no va \<in> N \<and> to_share (ram s) pgS pgD va then lookup (ram s) pgS va AND NOT PAGE_WRITE
         else lookup (ram s) pgD va)"
    and "p \<in> fst ` L \<Longrightarrow> dm_page p \<Longrightarrow> refcount (mem_map (heap s') (virt_to_page p)) =
        refcount (mem_map (heap s) (virt_to_page p)) + of_nat (card (sharers (ram s) pgS pgD N (virt_to_page p)))"
    and "held L (tables lvS \<union> tables lvD) x \<Longrightarrow> ram s' x = ram s x"
  using assms unfolding copies_def by blast+

lemma copies_refl:
  assumes "forking s pgS lvS pgD lvD f L"
  shows "copies s pgS lvS pgD lvD L s lvD f L {}"
  unfolding copies_def using assms by (simp add: sharers_def)

lemma sharers_step:
  assumes c: "copies s pgS lvS pgD lvD L s1 lv1 f1 L1 N" and M: "M \<subseteq> {..<2 ^ 26}"
  shows "sharers (ram s1) pgS pgD M q = sharers (ram s) pgS pgD M q - N"
proof -
  have "n \<in> sharers (ram s1) pgS pgD M q \<longleftrightarrow> n \<in> sharers (ram s) pgS pgD M q - N" if n: "n \<in> M" for n
  proof -
    have "n < 2 ^ 26" using n M by blast
    note v = page_va_no[OF this]
    note lk = copiesD(4,5)[OF c v(2), unfolded v(1)]
    show ?thesis
    proof (cases "n \<in> N")
      case True
      have "\<not> to_share (ram s1) pgS pgD (page_va n)"
        using lk True by (auto simp: to_share_def split: if_splits)
      then show ?thesis using True by (simp add: sharers_def)
    next
      case False
      then have "lookup (ram s1) pgS (page_va n) = lookup (ram s) pgS (page_va n)"
        "lookup (ram s1) pgD (page_va n) = lookup (ram s) pgD (page_va n)" using lk by simp_all
      then show ?thesis using False n by (simp add: sharers_def to_share_def)
    qed
  qed
  then show ?thesis by (auto simp: sharers_def)
qed

lemma copies_trans:
  assumes c: "copies s pgS lvS pgD lvD L s1 lv1 f1 L1 N" and d: "copies s1 pgS lvS pgD lv1 L1 s2 lv2 f2 L2 M"
    and N: "N \<subseteq> {..<2 ^ 26}" and M: "M \<subseteq> {..<2 ^ 26}"
  shows "copies s pgS lvS pgD lvD L s2 lv2 f2 L2 (N \<union> M)"
  unfolding copies_def
proof (intro conjI allI impI ballI)
  note cd = copiesD[OF c] and dd = copiesD[OF d]
  show "forking s2 pgS lvS pgD lv2 f2 L2" by (rule dd(1))
  show "L \<subseteq> L2" using cd(2) dd(2) by blast
  have LL: "fst ` L \<subseteq> fst ` L1" using cd(2) by blast
  show "tables lv2 \<inter> fst ` L \<subseteq> tables lvD" using cd(3) dd(3) LL by blast
  fix va assume va: "user va"
  have ts: "to_share (ram s1) pgS pgD va \<longleftrightarrow> to_share (ram s) pgS pgD va \<and> page_no va \<notin> N"
    using cd(4,5)[OF va] by (auto simp: to_share_def split: if_splits)
  show "lookup (ram s2) pgS va = (if page_no va \<in> N \<union> M \<and> to_share (ram s) pgS pgD va
      then lookup (ram s) pgS va AND NOT PAGE_WRITE else lookup (ram s) pgS va)"
    "lookup (ram s2) pgD va = (if page_no va \<in> N \<union> M \<and> to_share (ram s) pgS pgD va
      then lookup (ram s) pgS va AND NOT PAGE_WRITE else lookup (ram s) pgD va)"
    using cd(4,5)[OF va] dd(4,5)[OF va] ts by auto
next
  note cd = copiesD[OF c] and dd = copiesD[OF d]
  fix p assume p: "p \<in> fst ` L" "dm_page p"
  let ?q = "virt_to_page p"
  have fin: "finite (sharers m pgS pgD K ?q)" if "K \<subseteq> {..<2 ^ 26}" for m K
    using finite_subset[OF that] by (simp add: sharers_def)
  have p1: "p \<in> fst ` L1" using p(1) cd(2) by blast
  have U: "sharers (ram s) pgS pgD (N \<union> M) ?q = sharers (ram s) pgS pgD N ?q \<union> (sharers (ram s) pgS pgD M ?q - N)"
    by (auto simp: sharers_def)
  have "card (sharers (ram s) pgS pgD (N \<union> M) ?q) =
      card (sharers (ram s) pgS pgD N ?q) + card (sharers (ram s1) pgS pgD M ?q)"
    unfolding U sharers_step[OF c M]
    by (rule card_Un_disjoint) (use fin[OF N] fin[OF M] in \<open>auto simp: sharers_def\<close>)
  then show "refcount (mem_map (heap s2) ?q) = refcount (mem_map (heap s) ?q) +
      of_nat (card (sharers (ram s) pgS pgD (N \<union> M) ?q))"
    using cd(6)[OF p] dd(6)[OF p1 p(2)] by simp
next
  note cd = copiesD[OF c] and dd = copiesD[OF d]
  fix x assume x: "held L (tables lvS \<union> tables lvD) x"
  have "fst ` L \<subseteq> fst ` L1" using cd(2) by blast
  then have "(tables lvS \<union> tables lv1) \<inter> fst ` L \<subseteq> tables lvS \<union> tables lvD" using cd(3) by blast
  from held_mono[OF cd(2) this x] show "ram s2 x = ram s x" using cd(7)[OF x] dd(7) by simp
qed

lemma copy_page_copies:
  assumes fk: "forking s pgS lvS pgD lvD f L" and va: "user va" and c: "copy_page_from 2 pgS pgD va s = Inr s'"
  shows "\<exists>h m lvD' f' L'. s' = s\<lparr>heap := h, ram := m\<rparr> \<and> copies s pgS lvS pgD lvD L s' lvD' f' L' {page_no va}"
proof -
  let ?b = "to_share (ram s) pgS pgD va" and ?e = "lookup (ram s) pgS va AND NOT PAGE_WRITE"
  obtain h m lvD' f' L' where r: "s' = s\<lparr>heap := h, ram := m\<rparr>" "forking s' pgS lvS pgD lvD' f' L'" "L \<subseteq> L'"
    "tables lvD' \<inter> fst ` L \<subseteq> tables lvD"
    "\<forall>vb. user vb \<longrightarrow> lookup m pgS vb = (if ?b \<and> page_no vb = page_no va then ?e else lookup (ram s) pgS vb)"
    "\<forall>vb. user vb \<longrightarrow> lookup m pgD vb = (if ?b \<and> page_no vb = page_no va then ?e else lookup (ram s) pgD vb)"
    "\<forall>p \<in> fst ` L. dm_page p \<longrightarrow> refcount (mem_map h (virt_to_page p)) = refcount (mem_map (heap s) (virt_to_page p)) +
      (if ?b \<and> virt_to_page p = virt_to_page (pte_to_virt (lookup (ram s) pgS va)) then 1 else 0)"
    "\<forall>x. held L (tables lvS \<union> tables lvD) x \<longrightarrow> m x = ram s x"
    using copy_page_step[OF fk va c] by (elim exE conjE) (rule that)
  have lt: "page_no va < 2 ^ 26" by (rule page_no_less[OF va])
  have pv: "page_no (page_va (page_no va)) = page_no va" by (rule page_va_no(1)[OF lt])
  have sh: "sharers (ram s) pgS pgD {page_no va} q =
      (if ?b \<and> q = virt_to_page (pte_to_virt (lookup (ram s) pgS va)) then {page_no va} else {})" for q
    using to_share_page_no[OF pv, of "ram s" pgS pgD] lookup_page_no[OF pv, of "ram s" pgS] by (auto simp: sharers_def)
  have "copies s pgS lvS pgD lvD L s' lvD' f' L' {page_no va}"
    unfolding copies_def
  proof (intro conjI allI impI ballI)
    fix vb assume vb: "user vb"
    have t: "page_no vb = page_no va \<Longrightarrow> to_share (ram s) pgS pgD vb = ?b" by (rule to_share_page_no)
    have l: "page_no vb = page_no va \<Longrightarrow> lookup (ram s) pgS vb = lookup (ram s) pgS va" by (rule lookup_page_no)
    show "lookup (ram s') pgS vb = (if page_no vb \<in> {page_no va} \<and> to_share (ram s) pgS pgD vb
        then lookup (ram s) pgS vb AND NOT PAGE_WRITE else lookup (ram s) pgS vb)"
      "lookup (ram s') pgD vb = (if page_no vb \<in> {page_no va} \<and> to_share (ram s) pgS pgD vb
        then lookup (ram s) pgS vb AND NOT PAGE_WRITE else lookup (ram s) pgD vb)"
      using r(1,5,6) vb t l by auto
  next
    fix p assume p: "p \<in> fst ` L" "dm_page p"
    show "refcount (mem_map (heap s') (virt_to_page p)) = refcount (mem_map (heap s) (virt_to_page p)) +
        of_nat (card (sharers (ram s) pgS pgD {page_no va} (virt_to_page p)))"
      using bspec[OF r(7) p(1)] p(2) r(1) by (simp add: sh)
  qed (use r in auto)
  then show ?thesis using r(1) by blast
qed

section \<open>A range of addresses\<close>

lemma new_table_total:
  assumes "plenty (Suc n) (heap s)"
  shows "\<exists>s'. new_table (ent u i) s = Inr s' \<and> plenty n (heap s')"
proof -
  obtain a h where k: "kmalloc (of_nat PAGE_SIZE) (heap s) = Inr (a, h)" "plenty n h"
    by (rule plenty_kmalloc[OF assms page_size_word])
  then show ?thesis using new_table_added[OF k(1), of u i] by simp
qed

lemma copy_leaf_total:
  assumes "plenty (Suc n) (heap s)"
  shows "\<exists>s'. copy_leaf se (ent u i) s = Inr s' \<and> plenty n (heap s')"
proof -
  obtain s1 where "new_table (ent u i) s = Inr s1" "plenty n (heap s1)" using new_table_total[OF assms] by blast
  then show ?thesis using plenty_le[OF assms, of n]
    by (auto simp: copy_leaf_def share_page_def Let_def get_page_def intro: plenty_refcount)
qed

lemma copy_page_from_total:
  "plenty (n + Suc l) (heap s) \<Longrightarrow> \<exists>s'. copy_page_from l t u va s = Inr s' \<and> plenty n (heap s')"
proof (induction l arbitrary: t u s)
  case 0
  then show ?case using copy_leaf_total[of n s] by (simp add: copy_page_leaf del: copy_page_from.simps)
next
  case (Suc l)
  let ?se = "ent t (pt_idx (Suc l) va)" and ?de = "ent u (pt_idx (Suc l) va)"
  have p: "plenty (Suc (n + Suc l)) (heap s)" "plenty (n + Suc l) (heap s)" using Suc.prems plenty_le[OF Suc.prems] by simp_all
  obtain s0 where s0: "new_table ?de s = Inr s0" "plenty (n + Suc l) (heap s0)" using new_table_total[OF p(1)] by blast
  obtain s1 where "(if load64 (ram s) ?se \<noteq> 0 \<and> load64 (ram s) ?de = 0 then new_table ?de s else Inr s) = Inr s1"
    "plenty (n + Suc l) (heap s1)"
    using s0 p(2) by (cases "load64 (ram s) ?se \<noteq> 0 \<and> load64 (ram s) ?de = 0") auto
  then show ?case using Suc.IH[of s1] by (simp add: pt_entry_ent Let_def)
qed

lemma in_range_nat:
  fixes a e :: nat
  assumes "4096 * Suc j \<le> e - a + 4095"
  shows "a + 4096 * j < e"
proof (cases "a \<le> e")
  case True
  then obtain d where "e = a + d" using le_Suc_ex by blast
  then show ?thesis using assms by simp
qed (use assms in simp)

text \<open>The loop over the pages of an area that starts at the beginning of a page.\<close>

definition pages_from :: "u64 \<Rightarrow> nat \<Rightarrow> nat \<Rightarrow> nat set" where
  "pages_from va j n = {page_no va + j ..< page_no va + n}"

lemma copy_page_range_loop_correct:
  fixes s :: "'z vms_scheme"
  assumes n: "n = (unat (vm_end (vma_mem s src)) - unat A + 4095) div 4096" and u: "unat A + 4096 * n < 2 ^ 38"
    and j: "j \<le> n" and fk: "forking s pgS lvS pgD lvD f L"
    and pg: "pgd (tasks s (vm_mm (vma_mem s src))) = pgS" "pgd (tasks s (vm_mm (vma_mem s dst))) = pgD"
  shows "\<exists>r. copy_page_range_loop dst src (A + of_nat (4096 * j)) s = Some r \<and>
    (plenty (3 * (n - j)) (heap s) \<longrightarrow> (\<exists>s'. r = Inr s')) \<and>
    (\<forall>s' k. r = Inr s' \<longrightarrow> plenty (k + 3 * (n - j)) (heap s) \<longrightarrow> plenty k (heap s')) \<and>
    (\<forall>s'. r = Inr s' \<longrightarrow> (\<exists>h m lvD' f' L'. s' = s\<lparr>heap := h, ram := m\<rparr> \<and>
       copies s pgS lvS pgD lvD L s' lvD' f' L' (pages_from A j n)))"
  using j fk n u pg
proof (induction "n - j" arbitrary: j s lvD f L)
  case 0
  let ?E = "vm_end (vma_mem s src)"
  have jn: "j = n" using 0 by simp
  have uA: "unat (A + of_nat (4096 * n)) = unat A + 4096 * n"
    using 0 unat_small[of "4096 * n"] by (simp add: unat_plus_if')
  have "unat ?E - unat A \<le> 4096 * n" using 0(4) jn by linarith
  then have "\<not> A + of_nat (4096 * n) < ?E" unfolding word_less_nat_alt uA by linarith
  then have "copy_page_range_loop dst src (A + of_nat (4096 * j)) s = Some (Inr s)"
    by (subst copy_page_range_loop.simps) (simp add: jn)
  moreover have "copies s pgS lvS pgD lvD L s lvD f L (pages_from A j n)"
    using copies_refl[OF 0(3)] by (simp add: pages_from_def jn)
  moreover have "s = s\<lparr>heap := heap s, ram := ram s\<rparr>" by simp
  ultimately show ?case using jn by (metis add_0_right diff_self_eq_0 mult_0_right old.sum.inject(2))
next
  case (Suc k)
  let ?E = "vm_end (vma_mem s src)" and ?va = "A + of_nat (4096 * j)"
  have j: "j < n" using Suc.hyps(2) by simp
  have uA: "unat ?va = unat A + 4096 * j"
    using Suc.prems(4) j unat_small[of "4096 * j"] by (simp add: unat_plus_if')
  have "Suc j \<le> (unat ?E - unat A + 4095) div 4096" using j Suc.prems(3) by simp
  then have "4096 * Suc j \<le> unat ?E - unat A + 4095"
    by (metis less_eq_div_iff_mult_less_eq mult.commute zero_less_numeral)
  then have "unat A + 4096 * j < unat ?E" by (rule in_range_nat)
  then have lt: "?va < ?E" unfolding word_less_nat_alt uA .
  have "unat A + 4096 * j < 2 ^ 38" using Suc.prems(4) j by linarith
  note va = page_no_add[OF this]
  have nx: "?va + of_nat PAGE_SIZE = A + of_nat (4096 * Suc j)" by (simp add: PAGE_SIZE_def)
  have step: "copy_page_range_loop dst src ?va s =
      (case copy_page_from 2 pgS pgD ?va s of Inl e \<Rightarrow> Some (Inl e)
       | Inr s1 \<Rightarrow> copy_page_range_loop dst src (A + of_nat (4096 * Suc j)) s1)"
    by (subst copy_page_range_loop.simps) (simp only: lt nx if_True Suc.prems(5,6))
  have e3: "3 * (n - j) = 3 * (n - Suc j) + Suc 2" using j by simp
  show ?case
  proof (cases "copy_page_from 2 pgS pgD ?va s")
    case (Inl e)
    have "\<not> plenty (3 * (n - j)) (heap s)"
      using copy_page_from_total[of "3 * (n - Suc j)" 2 s pgS pgD ?va] Inl by (auto simp: e3)
    then show ?thesis using step Inl by simp
  next
    case (Inr s1)
    obtain h m lv1 f1 L1 where c: "s1 = s\<lparr>heap := h, ram := m\<rparr>"
      "copies s pgS lvS pgD lvD L s1 lv1 f1 L1 {page_no ?va}"
      using copy_page_copies[OF Suc.prems(2) va(2) Inr] by blast
    have pl: "plenty (i + 3 * (n - Suc j)) (heap s1)" if "plenty (i + 3 * (n - j)) (heap s)" for i
      using copy_page_from_total[of "i + 3 * (n - Suc j)" 2 s pgS pgD ?va] that Inr by (simp add: e3 add.assoc)
    have "k = n - Suc j" "Suc j \<le> n" using Suc.hyps(2) j by simp_all
    from Suc.hyps(1)[OF this copiesD(1)[OF c(2)]] obtain r where
      r: "copy_page_range_loop dst src (A + of_nat (4096 * Suc j)) s1 = Some r"
        "plenty (3 * (n - Suc j)) (heap s1) \<longrightarrow> (\<exists>s'. r = Inr s')"
        "\<forall>s' k. r = Inr s' \<longrightarrow> plenty (k + 3 * (n - Suc j)) (heap s1) \<longrightarrow> plenty k (heap s')"
        "\<forall>s'. r = Inr s' \<longrightarrow> (\<exists>h m lvD' f' L'. s' = s1\<lparr>heap := h, ram := m\<rparr> \<and>
           copies s1 pgS lvS pgD lv1 L1 s' lvD' f' L' (pages_from A (Suc j) n))"
      using Suc.prems(3-6) by (simp add: c(1)) blast
    have "\<exists>h m lvD' f' L'. s' = s\<lparr>heap := h, ram := m\<rparr> \<and> copies s pgS lvS pgD lvD L s' lvD' f' L' (pages_from A j n)"
      if s': "r = Inr s'" for s'
    proof -
      obtain h' m' lv' f' L' where d: "s' = s1\<lparr>heap := h', ram := m'\<rparr>"
        "copies s1 pgS lvS pgD lv1 L1 s' lv' f' L' (pages_from A (Suc j) n)" using r(4) s' by blast
      have "unat A div 4096 + n < 2 ^ 26" using Suc.prems(4) by simp
      then have sub: "pages_from A j n \<subseteq> {..<2 ^ 26}" by (auto simp: pages_from_def page_no_def)
      have U: "pages_from A j n = {page_no ?va} \<union> pages_from A (Suc j) n"
        unfolding va(1) using j by (auto simp: pages_from_def)
      have "copies s pgS lvS pgD lvD L s' lv' f' L' ({page_no ?va} \<union> pages_from A (Suc j) n)"
        by (rule copies_trans[OF c(2) d(2)]) (use sub U in auto)
      then show ?thesis using d(1) c(1) unfolding U by auto
    qed
    moreover have "plenty (3 * (n - j)) (heap s) \<longrightarrow> (\<exists>s'. r = Inr s')" using r(2) pl[of 0] by simp
    moreover have "\<forall>s' k. r = Inr s' \<longrightarrow> plenty (k + 3 * (n - j)) (heap s) \<longrightarrow> plenty k (heap s')" using r(3) pl by blast
    ultimately show ?thesis using r(1) step Inr by auto
  qed
qed

section \<open>An area\<close>

lemma kmem_carve_refcount: "refcount (mem_map (kmem_carve i a j s) q) = refcount (mem_map s q)"
  by (induction i a j s rule: kmem_carve.induct) (subst kmem_carve.simps, simp add: Let_def)

lemma kmem_cache_alloc_refcount:
  assumes "kmem_cache_alloc i s = Inr (a, s')"
  shows "(\<forall>q. refcount (mem_map s' q) = refcount (mem_map s q)) \<or>
    (\<exists>p s1. alloc_pages 0 s = (Some p, s1) \<and> (\<forall>q. refcount (mem_map s' q) = refcount (mem_map s1 q)))"
  using assms by (auto simp: kmem_cache_alloc_def bindF_def Let_def kmem_carve_refcount split: if_splits prod.splits option.splits)

lemma kmalloc_refcount_cases:
  assumes "kmalloc sz s = Inr (a, s')"
  shows "(\<forall>q. refcount (mem_map s' q) = refcount (mem_map s q)) \<or>
    (\<exists>k p s1. alloc_pages k s = (Some p, s1) \<and> (\<forall>q. refcount (mem_map s' q) = refcount (mem_map s1 q)))"
proof (cases "sz \<le> 0 \<or> push_bit CACHE_MAX_INDEX CACHE_MIN_SIZE < unat sz")
  case True
  then show ?thesis using assms by (auto simp: kmalloc_def bindF_def page_to_virt_def Let_def
      split: if_splits sum.splits prod.splits option.splits)
next
  case False
  then show ?thesis using assms kmem_cache_alloc_refcount[of "kmalloc_index 0 sz" s a s'] by (auto simp: kmalloc_def)
qed

text \<open>A chunk at the start of a page: the page is handed out.\<close>

lemma page_chunk_used:
  assumes inv: "heap_inv s F C A P S U" and L: "(p, n) \<in> page_chunk ` P \<union> obj_chunk ` U" and p: "dm_page p"
  shows "\<exists>j. (virt_to_page p, j) \<in> A"
proof -
  obtain q where q: "p = page_addr q" "q < NUM_PAGES" using p by (auto simp: dm_page_def)
  note v = page_addr_page(1)[OF q(2)]
  from L show ?thesis
  proof
    assume "(p, n) \<in> page_chunk ` P"
    then obtain r j where r: "(r, j) \<in> P" "p = page_addr r" by auto
    then have "(r, j) \<in> A" using heap_invD(2)[OF inv] by blast
    moreover have "r < NUM_PAGES" by (rule page_bounds(2)[OF inv calculation])
    ultimately show ?thesis using page_addr_page(1)[of r] r(2) by auto
  next
    assume "(p, n) \<in> obj_chunk ` U"
    then obtain i where i: "(p, i) \<in> U" by auto
    have "i \<le> CACHE_MAX_INDEX" by (rule heap_invD(7)[OF inv i])
    then obtain r where r: "(r, i) \<in> S" "virt_to_page p = r" using object_page[OF inv, of i p] i by blast
    then show ?thesis using heap_invD(4)[OF inv r(1)] by blast
  qed
qed

lemma kmalloc_refcount:
  assumes m: "mm_inv s L" and k: "kmalloc sz s = Inr (a, s')" and p: "p \<in> fst ` L" "dm_page p"
  shows "refcount (mem_map s' (virt_to_page p)) = refcount (mem_map s (virt_to_page p))"
  using kmalloc_refcount_cases[OF k]
proof
  assume "\<exists>k r s1. alloc_pages k s = (Some r, s1) \<and> (\<forall>q. refcount (mem_map s' q) = refcount (mem_map s1 q))"
  then obtain k r s1 where a: "alloc_pages k s = (Some r, s1)" and e: "\<forall>q. refcount (mem_map s' q) = refcount (mem_map s1 q)" by blast
  obtain F C A P S U where inv: "heap_inv s F C A P S U" and L: "L = page_chunk ` P \<union> obj_chunk ` U"
    using m by (auto simp: mm_inv_def)
  obtain n where "(p, n) \<in> L" using p(1) by auto
  then obtain j where "(virt_to_page p, j) \<in> A" using page_chunk_used[OF inv _ p(2), of n] unfolding L by blast
  then have "virt_to_page p \<noteq> r" using fresh_page(2)[OF inv a] by blast
  then show ?thesis using e alloc_pages_inv(2)[OF heap_invD(1)[OF inv] a] by (simp add: only_orders_def)
qed simp

text \<open>Only the heap and the memory matter.\<close>

lemma copies_cong:
  assumes "copies s pgS lvS pgD lvD L s' lvD' f' L' N" and "heap s1 = heap s" and "ram s1 = ram s"
    and "heap s2 = heap s'" and "ram s2 = ram s'"
  shows "copies s1 pgS lvS pgD lvD L s2 lvD' f' L' N"
  using assms as_inv_cong[of s' _ _ _ s2] unfolding copies_def forking_def by simp

lemma kmalloc_copies:
  assumes fk: "forking s pgS lvS pgD lvD f L" and k: "kmalloc sz (heap s) = Inr (a, h)" and sz: "0 < sz"
  shows "\<exists>L'. copies s pgS lvS pgD lvD L (s\<lparr>heap := h\<rparr>) lvD f L' {} \<and> a \<notin> fst ` L \<and> a \<in> fst ` L'"
proof -
  have aS: "as_inv s pgS lvS L" and aD: "as_inv s pgD lvD L" using fk by (simp_all add: forking_def)
  obtain n where n: "(a, n) \<notin> L" "mm_inv h (insert (a, n) L)" using kmalloc_chunk[OF as_invD(1)[OF aS] sz k] by blast
  let ?s = "s\<lparr>heap := h\<rparr>" and ?L = "insert (a, n) L"
  have m: "mm_inv (heap ?s) ?L" using n(2) by simp
  have LL: "L \<subseteq> ?L" by blast
  have o: "only_in {} (ram s) (ram ?s)" by (simp add: only_in_refl)
  have "as_inv ?s pgS lvS ?L" by (rule as_inv_frame(1)[OF aS m LL o]) auto
  moreover have "as_inv ?s pgD lvD ?L" by (rule as_inv_frame(1)[OF aD m LL o]) auto
  ultimately have f': "forking ?s pgS lvS pgD lvD f ?L" using fk by (simp add: forking_def)
  have "a \<notin> fst ` L"
  proof
    assume "a \<in> fst ` L"
    then obtain k where k: "(a, k) \<in> L" by auto
    then have "k = n" using ha.same_address[OF n(2), of a k n] by simp
    then show False using k n(1) by simp
  qed
  moreover have "copies s pgS lvS pgD lvD L ?s lvD f ?L {}"
    unfolding copies_def using f' kmalloc_refcount[OF as_invD(1)[OF aS] k] by (simp add: sharers_def subset_insertI)
  ultimately show ?thesis by (intro exI[of _ ?L]) simp
qed

definition area_count :: "vm_area \<Rightarrow> nat" where
  "area_count v = (unat (vm_end v) - unat (vm_start v) + 4095) div 4096"

definition area_pages :: "vm_area \<Rightarrow> nat set" where
  "area_pages v = {page_no (vm_start v) ..< page_no (vm_start v) + area_count v}"

definition user_area :: "vm_area \<Rightarrow> bool" where
  "user_area v \<longleftrightarrow> unat (vm_start v) + 4096 * area_count v < 2 ^ 38"

lemma area_pages_bound: "user_area v \<Longrightarrow> area_pages v \<subseteq> {..<2 ^ 26}"
proof -
  assume "user_area v"
  then have "unat (vm_start v) div 4096 + area_count v < 2 ^ 26" by (simp add: user_area_def)
  then show ?thesis by (auto simp: area_pages_def page_no_def)
qed

lemma copy_page_range_copies:
  fixes s :: "'z vms_scheme"
  assumes "user_area (vma_mem s src)" and "forking s pgS lvS pgD lvD f L"
    and "pgd (tasks s (vm_mm (vma_mem s src))) = pgS" "pgd (tasks s (vm_mm (vma_mem s dst))) = pgD"
    and "plenty (k + 3 * area_count (vma_mem s src)) (heap s)"
  shows "\<exists>h m lvD' f' L'. copy_page_range dst src s = Inr (s\<lparr>heap := h, ram := m\<rparr>) \<and> plenty k h \<and>
    copies s pgS lvS pgD lvD L (s\<lparr>heap := h, ram := m\<rparr>) lvD' f' L' (area_pages (vma_mem s src))"
proof -
  let ?n = "area_count (vma_mem s src)" and ?A = "vm_start (vma_mem s src)"
  have p: "plenty (3 * (?n - 0)) (heap s)" using plenty_le[OF assms(5)] by simp
  have k: "plenty (k + 3 * (?n - 0)) (heap s)" using assms(5) by simp
  obtain r where r: "copy_page_range_loop dst src (?A + of_nat (4096 * 0)) s = Some r" "\<exists>s'. r = Inr s'"
    "\<forall>s' k. r = Inr s' \<longrightarrow> plenty (k + 3 * (?n - 0)) (heap s) \<longrightarrow> plenty k (heap s')"
    "\<forall>s'. r = Inr s' \<longrightarrow> (\<exists>h m lvD' f' L'. s' = s\<lparr>heap := h, ram := m\<rparr> \<and>
       copies s pgS lvS pgD lvD L s' lvD' f' L' (pages_from ?A 0 ?n))"
    using copy_page_range_loop_correct[OF area_count_def assms(1)[unfolded user_area_def] le0 assms(2-4)] p by blast
  obtain s' where s': "r = Inr s'" using r(2) by blast
  then obtain h m lvD' f' L' where c: "s' = s\<lparr>heap := h, ram := m\<rparr>"
    "copies s pgS lvS pgD lvD L s' lvD' f' L' (pages_from ?A 0 ?n)" using r(4) by blast
  have "copy_page_range dst src s = Inr s'" using r(1) s' by (simp add: copy_page_range_def)
  moreover have "plenty k h" using r(3) s' k c(1) by auto
  ultimately show ?thesis using c unfolding pages_from_def area_pages_def add_0_right by blast
qed

section \<open>All areas\<close>

definition fork_rings :: "u64 \<Rightarrow> u64 \<Rightarrow> u64 list \<Rightarrow> u64 list \<Rightarrow> vma_node \<Rightarrow> vma_node list" where
  "fork_rings old new vs ws = (\<lambda>_. [])(MmapHead old := map VmaList vs, MmapHead new := map VmaList ws)"

definition copied_area :: "u64 \<Rightarrow> vm_area \<Rightarrow> vm_area" where
  "copied_area new v = v\<lparr>vm_mm := new\<rparr>"

text \<open>What \<open>dup_mmap\<close> needs, and what is true with the areas \<open>us\<close> done.\<close>

definition fork_ready :: "'z vms_scheme \<Rightarrow> u64 \<Rightarrow> u64 \<Rightarrow> u64 list \<Rightarrow> chunk set \<Rightarrow> bool" where
  "fork_ready s old new vs L \<longleftrightarrow> old \<noteq> new \<and>
     rings {MmapHead old, MmapHead new} (vma_links s) (fork_rings old new vs []) \<and> set vs \<subseteq> fst ` L \<and>
     (\<forall>v \<in> set vs. vm_mm (vma_mem s v) = old \<and> user_area (vma_mem s v))"

definition areas_cost :: "'z vms_scheme \<Rightarrow> u64 list \<Rightarrow> nat" where
  "areas_cost s vs = sum_list (map (\<lambda>v. 1 + 3 * area_count (vma_mem s v)) vs)"

definition areas_pages :: "'z vms_scheme \<Rightarrow> u64 list \<Rightarrow> nat set" where
  "areas_pages s vs = (\<Union>v \<in> set vs. area_pages (vma_mem s v))"

definition dup_inv :: "'z vms_scheme \<Rightarrow> u64 \<Rightarrow> u64 \<Rightarrow> u64 list \<Rightarrow> (nat \<Rightarrow> u64 set) \<Rightarrow> (nat \<Rightarrow> u64 set) \<Rightarrow> chunk set \<Rightarrow>
    vma_node list \<Rightarrow> vma_node list \<Rightarrow> 'z vms_scheme \<Rightarrow> bool" where
  "dup_inv s old new vs lvS lvD L ys zs t \<longleftrightarrow> (\<exists>us rs ws h m vm lk lvD' f' L'.
     vs = us @ rs \<and> ys = map VmaList us \<and> zs = map VmaList rs \<and>
     t = s\<lparr>heap := h, ram := m, vma_mem := vm, vma_links := lk\<rparr> \<and>
     rings {MmapHead old, MmapHead new} lk (fork_rings old new vs ws) \<and>
     map vm ws = map (\<lambda>v. copied_area new (vma_mem s v)) us \<and> (\<forall>a \<in> fst ` L. vm a = vma_mem s a) \<and>
     set ws \<subseteq> fst ` L' - fst ` L \<and> plenty (areas_cost s rs) h \<and>
     copies s (pgd (tasks s old)) lvS (pgd (tasks s new)) lvD L t lvD' f' L' (areas_pages s us))"

lemma vma_size_word: "0 < (of_nat SIZEOF_VMA :: u32)" "unat (of_nat SIZEOF_VMA :: u32) \<le> 2 ^ 22"
  by (simp_all add: SIZEOF_VMA_def)

lemma dup_vma_step:
  assumes r: "fork_ready s old new vs L" and i: "dup_inv s old new vs lvS lvD L ys (x # zs) t"
  shows "\<exists>t'. dup_vma new x t = Inr t' \<and> dup_inv s old new vs lvS lvD L (ys @ [x]) zs t'"
proof -
  let ?pS = "pgd (tasks s old)" and ?pD = "pgd (tasks s new)"
  have on: "old \<noteq> new" and vL: "set vs \<subseteq> fst ` L"
    and va: "\<And>v. v \<in> set vs \<Longrightarrow> vm_mm (vma_mem s v) = old \<and> user_area (vma_mem s v)"
    using r by (simp_all add: fork_ready_def)
  obtain us rs ws h m vm lk lv1 f1 L1 where
    1: "vs = us @ rs" "ys = map VmaList us" "x # zs = map VmaList rs"
      "t = s\<lparr>heap := h, ram := m, vma_mem := vm, vma_links := lk\<rparr>"
      "rings {MmapHead old, MmapHead new} lk (fork_rings old new vs ws)"
      "map vm ws = map (\<lambda>v. copied_area new (vma_mem s v)) us" "\<forall>a \<in> fst ` L. vm a = vma_mem s a"
      "set ws \<subseteq> fst ` L1 - fst ` L" "plenty (areas_cost s rs) h"
      "copies s ?pS lvS ?pD lvD L t lv1 f1 L1 (areas_pages s us)"
    using i unfolding dup_inv_def by (elim exE conjE) (rule that)
  obtain v rs' where v: "x = VmaList v" "rs = v # rs'" "zs = map VmaList rs'" using 1(3) by (cases rs) auto
  have vvs: "v \<in> set vs" using v(2) 1(1) by simp
  have vm_v: "vm v = vma_mem s v" using 1(7) vvs vL by blast
  have LL: "L \<subseteq> L1" by (rule copiesD(2)[OF 1(10)])
  let ?n = "area_count (vma_mem s v)"
  have "plenty (Suc (areas_cost s rs' + 3 * ?n)) h" using 1(9) by (simp add: areas_cost_def v(2) add.commute)
  then obtain a h1 where k: "kmalloc (of_nat SIZEOF_VMA) h = Inr (a, h1)" "plenty (areas_cost s rs' + 3 * ?n) h1"
    by (rule plenty_kmalloc[OF _ vma_size_word])
  have fk1: "forking t ?pS lvS ?pD lv1 f1 L1" by (rule copiesD(1)[OF 1(10)])
  have "heap t = h" using 1(4) by simp
  then obtain L2 where c2: "copies t ?pS lvS ?pD lv1 L1 (t\<lparr>heap := h1\<rparr>) lv1 f1 L2 {}" and a: "a \<notin> fst ` L1" "a \<in> fst ` L2"
    using kmalloc_copies[OF fk1, of "of_nat SIZEOF_VMA" a h1] k(1) vma_size_word(1) by auto
  have aL: "a \<notin> fst ` L" using a(1) LL by blast
  have av: "a \<noteq> v" using vvs vL aL by blast
  let ?vm = "vm(a := copied_area new (vma_mem s v))"
  let ?t3 = "t\<lparr>heap := h1, vma_mem := ?vm\<rparr>"
  have c3: "copies t ?pS lvS ?pD lv1 L1 ?t3 lv1 f1 L2 {}" by (rule copies_cong[OF c2]) simp_all
  have fk3: "forking ?t3 ?pS lvS ?pD lv1 f1 L2" by (rule copiesD(1)[OF c3])
  have t3v: "vma_mem ?t3 v = vma_mem s v" using av vm_v by simp
  have "\<exists>h m lvD' f' L'. copy_page_range a v ?t3 = Inr (?t3\<lparr>heap := h, ram := m\<rparr>) \<and> plenty (areas_cost s rs') h \<and>
    copies ?t3 ?pS lvS ?pD lv1 L2 (?t3\<lparr>heap := h, ram := m\<rparr>) lvD' f' L' (area_pages (vma_mem ?t3 v))"
    by (rule copy_page_range_copies[OF _ fk3]) (use va[OF vvs] k(2) av vm_v in \<open>simp_all add: 1(4) copied_area_def\<close>)
  then obtain h4 m4 lv4 f4 L4 where r4: "copy_page_range a v ?t3 = Inr (?t3\<lparr>heap := h4, ram := m4\<rparr>)" "plenty (areas_cost s rs') h4"
    "copies ?t3 ?pS lvS ?pD lv1 L2 (?t3\<lparr>heap := h4, ram := m4\<rparr>) lv4 f4 L4 (area_pages (vma_mem s v))"
    unfolding t3v by blast
  let ?lk = "list_add_tail (VmaList a) (MmapHead new) lk"
  let ?t5 = "?t3\<lparr>heap := h4, ram := m4, vma_links := ?lk\<rparr>"
  have d: "dup_vma new x t = Inr ?t5"
    using k(1) r4(1) av vm_v unfolding dup_vma_def v(1) by (simp add: 1(4) Let_def copied_area_def)
  have ap: "areas_pages s us \<subseteq> {..<2 ^ 26}" "area_pages (vma_mem s v) \<subseteq> {..<2 ^ 26}"
    using va area_pages_bound vvs 1(1) unfolding areas_pages_def by fastforce+
  have U: "areas_pages s (us @ [v]) = areas_pages s us \<union> ({} \<union> area_pages (vma_mem s v))" by (auto simp: areas_pages_def)
  have cc: "copies s ?pS lvS ?pD lvD L (?t3\<lparr>heap := h4, ram := m4\<rparr>) lv4 f4 L4 (areas_pages s (us @ [v]))"
    unfolding U by (rule copies_trans[OF 1(10) copies_trans[OF c3 r4(3)]]) (use ap in auto)
  have c: "copies s ?pS lvS ?pD lvD L ?t5 lv4 f4 L4 (areas_pages s (us @ [v]))"
    by (rule copies_cong[OF cc]) simp_all
  have r1: "MmapHead new \<in> {MmapHead old, MmapHead new}" by simp
  have fr: "fork_rings old new vs ws (MmapHead new) = map VmaList ws @ []" by (simp add: fork_rings_def)
  have "a \<notin> set vs" "a \<notin> set ws" using aL vL a(1) 1(8) by blast+
  then have "unlinked {MmapHead old, MmapHead new} (fork_rings old new vs ws) (VmaList a)"
    by (auto simp: unlinked_def fork_rings_def)
  from rings_insert[OF 1(5) r1 fr this]
  have "rings {MmapHead old, MmapHead new} ?lk (fork_rings old new vs (ws @ [a]))"
    using dlist_last[OF ringsD(1)[OF 1(5) r1]] on
    by (simp add: list_add_tail_def fork_rings_def)
  moreover have "map ?vm (ws @ [a]) = map (\<lambda>v. copied_area new (vma_mem s v)) (us @ [v])"
    using 1(6) \<open>a \<notin> set ws\<close> by (simp add: map_fun_upd)
  moreover have "\<forall>b \<in> fst ` L. ?vm b = vma_mem s b" using 1(7) aL by auto
  moreover have "fst ` L1 \<subseteq> fst ` L4" "fst ` L2 \<subseteq> fst ` L4" using copiesD(2)[OF c3] copiesD(2)[OF r4(3)] by blast+
  then have "set (ws @ [a]) \<subseteq> fst ` L4 - fst ` L" using 1(8) a(2) aL by auto
  moreover have "vs = (us @ [v]) @ rs'" "ys @ [x] = map VmaList (us @ [v])" using 1(1,2) v by simp_all
  moreover have "?t5 = s\<lparr>heap := h4, ram := m4, vma_mem := ?vm, vma_links := ?lk\<rparr>" using 1(4) by simp
  ultimately have "dup_inv s old new vs lvS lvD L (ys @ [x]) zs ?t5"
    using v(3) r4(2) c unfolding dup_inv_def by (intro exI conjI) (assumption | rule refl)+
  then show ?thesis using d by blast
qed

text \<open>The pages of a set that map to frame \<open>q\<close>.\<close>

definition frame_users :: "mem \<Rightarrow> u64 \<Rightarrow> nat set \<Rightarrow> nat \<Rightarrow> nat set" where
  "frame_users m pg N q =
     {n \<in> N. lookup m pg (page_va n) \<noteq> 0 \<and> virt_to_page (pte_to_virt (lookup m pg (page_va n))) = q}"

text \<open>A task to copy and an empty page table.\<close>

definition fork_spaces :: "'z vms_scheme \<Rightarrow> u64 \<Rightarrow> u64 \<Rightarrow> u64 list \<Rightarrow> (nat \<Rightarrow> u64 set) \<Rightarrow> chunk set \<Rightarrow> bool" where
  "fork_spaces s old new vs lv L \<longleftrightarrow>
     as_inv s (pgd (tasks s old)) lv L \<and> (pgd (tasks s new), 4096) \<in> L \<and> dm_page (pgd (tasks s new)) \<and>
     pgd (tasks s new) \<notin> tables lv \<and> (\<forall>i < 256. load64 (ram s) (ent (pgd (tasks s new)) i) = 0) \<and>
     fork_ready s old new vs L \<and> plenty (areas_cost s vs) (heap s)"

lemma fork_spaces_forking:
  assumes "fork_spaces s old new vs lv L"
  defines "lvD \<equiv> \<lambda>l :: nat. if l = 2 then {pgd (tasks s new)} else {}"
  shows "forking s (pgd (tasks s old)) lv (pgd (tasks s new)) lvD (\<lambda>_. pgd (tasks s old)) L"
    and "user va \<Longrightarrow> lookup (ram s) (pgd (tasks s new)) va = 0" and "tables lvD = {pgd (tasks s new)}"
proof -
  have a: "as_inv s (pgd (tasks s old)) lv L" and n: "(pgd (tasks s new), 4096) \<in> L" "dm_page (pgd (tasks s new))"
    "pgd (tasks s new) \<notin> tables lv" and z: "\<And>i. i < 256 \<Longrightarrow> load64 (ram s) (ent (pgd (tasks s new)) i) = 0"
    using assms(1) by (simp_all add: fork_spaces_def)
  note f = as_inv_fresh[OF as_invD(1)[OF a] n(1,2) z]
  show "user va \<Longrightarrow> lookup (ram s) (pgd (tasks s new)) va = 0" by (rule f(2))
  show t: "tables lvD = {pgd (tasks s new)}" by (simp add: tables_def lvD_def)
  have "used_ents (ram s) lvD l = {}" for l using z by (auto simp: used_ents_def width_def lvD_def)
  then have "mirrors (ram s) (\<lambda>_. pgd (tasks s old)) lv lvD" using as_invD(3)[OF a] by (simp add: mirrors_def)
  then show "forking s (pgd (tasks s old)) lv (pgd (tasks s new)) lvD (\<lambda>_. pgd (tasks s old)) L"
    using a f(1) n(3) t unfolding forking_def by (simp add: lvD_def)
qed

lemma dup_mmap_runs:
  fixes s :: "'z vms_scheme"
  assumes f: "fork_spaces s old new vs lv L"
  defines "lvD \<equiv> \<lambda>l :: nat. if l = 2 then {pgd (tasks s new)} else {}"
  obtains s' where "dup_mmap new old s = Inr s'" "dup_inv s old new vs lv lvD L (map VmaList vs) [] s'"
proof -
  have r: "fork_ready s old new vs L" and pl: "plenty (areas_cost s vs) (heap s)" using f by (simp_all add: fork_spaces_def)
  have rg: "rings {MmapHead old, MmapHead new} (vma_links s) (fork_rings old new vs [])" and on: "old \<noteq> new"
    using r by (auto simp: fork_ready_def)
  have d: "dlist (vma_links t) (MmapHead old) (ys @ zs)" if "dup_inv s old new vs lv lvD L ys zs t" for t ys zs
  proof -
    obtain ws where "ys @ zs = map VmaList vs"
      "rings {MmapHead old, MmapHead new} (vma_links t) (fork_rings old new vs ws)"
      using \<open>dup_inv s old new vs lv lvD L ys zs t\<close> unfolding dup_inv_def by fastforce
    then show ?thesis using ringsD(1)[of _ "vma_links t" "fork_rings old new vs ws" "MmapHead old"] on by (simp add: fork_rings_def)
  qed
  have init: "dup_inv s old new vs lv lvD L [] (map VmaList vs) s"
    unfolding dup_inv_def
    by (intro exI[of _ "[]"] exI[of _ vs] exI[of _ "heap s"] exI[of _ "ram s"] exI[of _ "vma_mem s"] exI[of _ "vma_links s"]
        exI[of _ lvD] exI[of _ "\<lambda>_. pgd (tasks s old)"] exI[of _ L])
      (use rg pl copies_refl[OF fork_spaces_forking(1)[OF f]] in \<open>simp add: areas_pages_def lvD_def\<close>)
  have "\<exists>s'. list_for_each_do vma_links (dup_vma new) (MmapHead old) (after (MmapHead old) (map VmaList vs)) s = Some (Inr s') \<and>
      dup_inv s old new vs lv lvD L ([] @ map VmaList vs) [] s'"
    by (rule list_for_each_do_rule[where I = "dup_inv s old new vs lv lvD L" and lk = vma_links and head = "MmapHead old",
        OF d dup_vma_step[OF r] init])
  then obtain s' where s': "list_for_each_do vma_links (dup_vma new) (MmapHead old) (after (MmapHead old) (map VmaList vs)) s = Some (Inr s')"
    "dup_inv s old new vs lv lvD L (map VmaList vs) [] s'" by auto
  have "nxt (vma_links s (MmapHead old)) = after (MmapHead old) (map VmaList vs)" using dlist_first[OF d[OF init]] by simp
  then have "dup_mmap new old s = Inr s'" using s'(1) by (simp add: dup_mmap_def)
  then show thesis using s'(2) by (rule that)
qed

lemma dup_mmap_result:
  fixes s :: "'z vms_scheme"
  assumes f: "fork_spaces s old new vs lv L"
  shows "\<exists>s' ws lv' L'. dup_mmap new old s = Inr s' \<and> areas s' old vs \<and> areas s' new ws \<and>
    map (vma_mem s') ws = map (\<lambda>v. (vma_mem s v)\<lparr>vm_mm := new\<rparr>) vs \<and>
    (\<exists>h m vm lk. s' = s\<lparr>heap := h, ram := m, vma_mem := vm, vma_links := lk\<rparr>) \<and> (\<forall>a \<in> fst ` L. vma_mem s' a = vma_mem s a) \<and>
    as_inv s' (pgd (tasks s old)) lv L' \<and> as_inv s' (pgd (tasks s new)) lv' L' \<and> L \<subseteq> L' \<and> tables lv' \<inter> fst ` L \<subseteq> {pgd (tasks s new)} \<and>
    (\<forall>va. user va \<longrightarrow>
       lookup (ram s') (pgd (tasks s old)) va = (if page_no va \<in> areas_pages s vs
         then lookup (ram s) (pgd (tasks s old)) va AND NOT PAGE_WRITE else lookup (ram s) (pgd (tasks s old)) va) \<and>
       lookup (ram s') (pgd (tasks s new)) va = (if page_no va \<in> areas_pages s vs
         then lookup (ram s) (pgd (tasks s old)) va AND NOT PAGE_WRITE else 0)) \<and>
    (\<forall>p \<in> fst ` L. dm_page p \<longrightarrow>
       refcount (mem_map (heap s') (virt_to_page p)) = refcount (mem_map (heap s) (virt_to_page p)) +
         of_nat (card (frame_users (ram s) (pgd (tasks s old)) (areas_pages s vs) (virt_to_page p)))) \<and>
    (\<forall>x. held L (insert (pgd (tasks s new)) (tables lv)) x \<longrightarrow> ram s' x = ram s x)"
proof -
  let ?pS = "pgd (tasks s old)" and ?pD = "pgd (tasks s new)"
  note ff = fork_spaces_forking[OF f]
  have r: "fork_ready s old new vs L" using f by (simp add: fork_spaces_def)
  let ?lvD = "\<lambda>l :: nat. if l = 2 then {?pD} else {}"
  have vL: "set vs \<subseteq> fst ` L"
    and on: "old \<noteq> new" and va: "\<And>v. v \<in> set vs \<Longrightarrow> user_area (vma_mem s v)"
    using r by (auto simp: fork_ready_def)
  obtain s' where e: "dup_mmap new old s = Inr s'" and s': "dup_inv s old new vs lv ?lvD L (map VmaList vs) [] s'"
    by (rule dup_mmap_runs[OF f])
  obtain us rs ws h m vm lk lvD' f' L' where
    1: "vs = us @ rs" "map VmaList vs = map VmaList us" "s' = s\<lparr>heap := h, ram := m, vma_mem := vm, vma_links := lk\<rparr>"
      "rings {MmapHead old, MmapHead new} lk (fork_rings old new vs ws)"
      "map vm ws = map (\<lambda>v. copied_area new (vma_mem s v)) us" "set ws \<subseteq> fst ` L' - fst ` L"
      "copies s ?pS lv ?pD ?lvD L s' lvD' f' L' (areas_pages s us)" "\<forall>a \<in> fst ` L. vm a = vma_mem s a"
    using s' unfolding dup_inv_def by (elim exE conjE) (rule that)
  have us: "us = vs" using 1(1,2) map_eq_imp_length_eq[OF 1(2)] by simp
  note c = copiesD[OF 1(7), unfolded us]
  have aS: "as_inv s' ?pS lv L'" and aD: "as_inv s' ?pD lvD' L'" using c(1) by (simp_all add: forking_def)
  have nz: "0 \<notin> fst ` L'" using chunk_not_null[OF as_invD(1)[OF aS]] by force
  have ar: "areas s' old vs" "areas s' new ws"
  proof -
    have "dlist lk (MmapHead old) (map VmaList vs)" "dlist lk (MmapHead new) (map VmaList ws)"
      using ringsD(1)[OF 1(4), of "MmapHead old"] ringsD(1)[OF 1(4), of "MmapHead new"] on by (simp_all add: fork_rings_def)
    moreover have "fst ` L \<subseteq> fst ` L'" using c(2) by blast
    then have "0 \<notin> set vs" "0 \<notin> set ws" using nz vL 1(6) by blast+
    ultimately show "areas s' old vs" "areas s' new ws" by (simp_all add: areas_def 1(3))
  qed
  have z: "lookup (ram s) ?pD va = 0" if "user va" for va by (rule ff(2)[OF that])
  have lk: "lookup (ram s') ?pS va = (if page_no va \<in> areas_pages s vs then lookup (ram s) ?pS va AND NOT PAGE_WRITE else lookup (ram s) ?pS va) \<and>
      lookup (ram s') ?pD va = (if page_no va \<in> areas_pages s vs then lookup (ram s) ?pS va AND NOT PAGE_WRITE else 0)" if "user va" for va
    using c(4,5)[OF that] z[OF that] by (cases "lookup (ram s) ?pS va = 0") (auto simp: to_share_def)
  have N: "areas_pages s vs \<subseteq> {..<2 ^ 26}" using va area_pages_bound unfolding areas_pages_def by blast
  have "to_share (ram s) ?pS ?pD (page_va n) = (lookup (ram s) ?pS (page_va n) \<noteq> 0)" if "n \<in> areas_pages s vs" for n
  proof -
    have "n < 2 ^ 26" using N that by blast
    from z[OF page_va_no(2)[OF this]] show ?thesis by (simp add: to_share_def)
  qed
  then have fu: "sharers (ram s) ?pS ?pD (areas_pages s vs) q = frame_users (ram s) ?pS (areas_pages s vs) q" for q
    by (auto simp: sharers_def frame_users_def)
  have tb: "tables lv \<union> {?pD} = insert ?pD (tables lv)" by simp
  have "map (vma_mem s') ws = map (\<lambda>v. (vma_mem s v)\<lparr>vm_mm := new\<rparr>) vs"
    "\<exists>h m vm lk. s' = s\<lparr>heap := h, ram := m, vma_mem := vm, vma_links := lk\<rparr>" "\<forall>a \<in> fst ` L. vma_mem s' a = vma_mem s a"
    using 1(3,5,8) us by (simp_all add: copied_area_def) blast
  then show ?thesis
    using e ar aS aD c(2) c(3)[unfolded ff(3)] lk c(6)[unfolded fu] c(7)[unfolded ff(3) tb]
    by (intro exI[of _ s'] exI[of _ ws] exI[of _ lvD'] exI[of _ L'] conjI allI impI ballI) auto
qed


text \<open>C14: after \<open>dup_mmap\<close> the new task has a copy of every area, and every page of an area is mapped by both tasks
  to the frame the old one had, without the right to write; pages outside the areas are mapped as before, and not
  at all by the new task. Each frame has one reference more for each page that maps to it, and memory that is in
  use for something else is not written.\<close>

theorem dup_mmap_correct:
  fixes s :: "'z vms_scheme"
  assumes f: "fork_spaces s old new vs lv L"
  shows "\<exists>s' ws lv' L'. dup_mmap new old s = Inr s' \<and> areas s' old vs \<and> areas s' new ws \<and>
    map (vma_mem s') ws = map (\<lambda>v. (vma_mem s v)\<lparr>vm_mm := new\<rparr>) vs \<and> tasks s' = tasks s \<and>
    as_inv s' (pgd (tasks s old)) lv L' \<and> as_inv s' (pgd (tasks s new)) lv' L' \<and> L \<subseteq> L' \<and>
    (\<forall>va. user va \<longrightarrow>
       lookup (ram s') (pgd (tasks s old)) va = (if page_no va \<in> areas_pages s vs
         then lookup (ram s) (pgd (tasks s old)) va AND NOT PAGE_WRITE else lookup (ram s) (pgd (tasks s old)) va) \<and>
       lookup (ram s') (pgd (tasks s new)) va = (if page_no va \<in> areas_pages s vs
         then lookup (ram s) (pgd (tasks s old)) va AND NOT PAGE_WRITE else 0)) \<and>
    (\<forall>p \<in> fst ` L. dm_page p \<longrightarrow>
       refcount (mem_map (heap s') (virt_to_page p)) = refcount (mem_map (heap s) (virt_to_page p)) +
         of_nat (card (frame_users (ram s) (pgd (tasks s old)) (areas_pages s vs) (virt_to_page p)))) \<and>
    (\<forall>x. held L (insert (pgd (tasks s new)) (tables lv)) x \<longrightarrow> ram s' x = ram s x)"
proof -
  note r = dup_mmap_result[OF f]
  then show ?thesis by (elim exE conjE) (intro exI conjI; (assumption | simp))
qed

text \<open>Two tasks: page 1 of the old one is mapped, and it has one area, of the pages 1 and 2.\<close>

definition example_area :: vm_area where
  "example_area = \<lparr>vm_start = 0x1000, vm_end = 0x2800, vm_mm = 0x100, vm_flags = 3, vm_file = 0\<rparr>"

definition example_parent :: "u64 \<Rightarrow> u64 \<Rightarrow> u64 \<Rightarrow> mm \<Rightarrow> mem \<Rightarrow> vms" where
  "example_parent pg pd v h m = (example_space pg)\<lparr>heap := h, ram := m,
     tasks := (tasks (example_space pg))(0x200 := (tasks (example_space pg) 0x200)\<lparr>pgd := pd\<rparr>),
     vma_mem := (\<lambda>_. example_area),
     vma_links := list_add_tail (VmaList v) (MmapHead 0x100) (\<lambda>n. \<lparr>prv = n, nxt = n\<rparr>)\<rparr>"

lemma example_area_pages: "area_count example_area = 2" "user_area example_area" "area_pages example_area = {1, 2}"
proof -
  show c: "area_count example_area = 2" by (simp add: area_count_def example_area_def)
  show "user_area example_area" unfolding user_area_def c by (simp add: example_area_def)
  show "area_pages example_area = {1, 2}" unfolding area_pages_def c by (auto simp: example_area_def page_no_def)
qed

lemma example_parent_ready:
  "\<exists>pg pd v h m lv L. fork_spaces (example_parent pg pd v h m) 0x100 0x200 [v] lv L \<and> plenty 1270 h \<and>
     pgd (tasks (example_parent pg pd v h m) 0x100) = pg \<and> pgd (tasks (example_parent pg pd v h m) 0x200) = pd \<and>
     lookup m pg 0x1000 = 0x17 \<and> lookup m pg 0x2000 = 0"
proof -
  obtain pg lv L where s: "as_inv (example_space pg) (pgd (tasks (example_space pg) 0x100)) lv L"
      "plenty 1279 (heap (example_space pg))" "\<forall>va. user va \<longrightarrow> lookup (ram (example_space pg)) pg va = 0"
      "pgd (tasks (example_space pg) 0x100) = pg"
    using example_space_inv by blast
  let ?s = "example_space pg"
  have u: "user 0x1000" "user 0x2000" "page_no 0x1000 = 1" "page_no 0x2000 = 2" by (simp_all add: user_def page_no_def)
  have "plenty (1277 + 2) (heap ?s)" using s(2) by simp
  from pte_alloc_from_total[OF this, of "pgd (tasks ?s 0x100)" "0x1000"] obtain pte s1 where
    r: "pte_alloc_map 0x100 0x1000 ?s = Inr (pte, s1)" "plenty 1277 (heap s1)" by (auto simp: pte_alloc_map_def)
  obtain lv1 L1 where g: "grows ?s pg lv L s1 lv1 L1" and w: "walk 2 (ram s1) pg 0x1000 = Some pte"
    using pte_alloc_map_grows[OF s(1) u(1) r(1)] unfolding s(4) by blast
  note d = as_invD[OF growsD(1)[OF g]]
  let ?s2 = "s1\<lparr>ram := store64 pte 0x17 (ram s1)\<rparr>"
  have a2: "as_inv ?s2 pg lv1 L1" by (rule as_inv_leaf_store(1)[OF growsD(1)[OF g] u(1) w])
  have l2: "lookup (ram ?s2) pg 0x1000 = 0x17" "lookup (ram ?s2) pg 0x2000 = 0"
    using leaf_store(3)[OF d(2,3) u(1) w, of "0x1000" "0x17"] leaf_store(3)[OF d(2,3) u(1) w u(2), of "0x17"]
      growsD(7)[OF g u(2)] s(3) u by simp_all
  have "plenty (Suc 1276) (heap s1)" using r(2) by simp
  then obtain pd h3 where k3: "kmalloc (of_nat PAGE_SIZE) (heap s1) = Inr (pd, h3)" "plenty 1276 h3"
    by (rule plenty_kmalloc[OF _ page_size_word])
  note km = kmalloc_page[OF d(1) k3(1)]
  let ?s3 = "?s2\<lparr>heap := h3, ram := zero_page pd (ram ?s2)\<rparr>" and ?L3 = "insert (pd, 4096) L1"
  have np: "{pd} \<inter> tables lv1 = {}" using km(2) d(4)[of pd] by force
  have m3: "mm_inv (heap ?s3) ?L3" using km(3) by simp
  have o3: "only_in {pd} (ram ?s2) (ram ?s3)" using zero_page_only_in by simp
  have a3: "as_inv ?s3 pg lv1 ?L3" by (rule as_inv_frame(1)[OF a2 m3 _ o3 _ np]) auto
  have l3: "lookup (ram ?s3) pg va = lookup (ram ?s2) pg va" if "user va" for va
    by (rule as_inv_frame(3)[OF a2 m3 _ o3 _ np that]) auto
  have z: "load64 (ram ?s3) (ent pd i) = 0" if "i < 256" for i using load_zero_page[OF km(1,1), of i] that by simp
  have "plenty (Suc 1275) h3" using k3(2) by simp
  then obtain v h4 where k4: "kmalloc (of_nat SIZEOF_VMA) h3 = Inr (v, h4)" "plenty 1275 h4"
    by (rule plenty_kmalloc[OF _ vma_size_word])
  obtain n where m4: "mm_inv h4 (insert (v, n) ?L3)" using kmalloc_chunk[OF km(3) vma_size_word(1) k4(1)] by blast
  let ?t = "example_parent pg pd v h4 (ram ?s3)" and ?L = "insert (v, n) ?L3"
  have tp: "pgd (tasks ?t 0x100) = pg" "pgd (tasks ?t 0x200) = pd" using s(4) by (simp_all add: example_parent_def)
  have m: "mm_inv (heap ?t) ?L" using m4 by (simp add: example_parent_def)
  have o: "only_in {} (ram ?s3) (ram ?t)" by (simp add: example_parent_def only_in_refl)
  have a: "as_inv ?t pg lv1 ?L" by (rule as_inv_frame(1)[OF a3 m _ o]) auto
  have "rings {MmapHead 0x100, MmapHead 0x200} (\<lambda>n. \<lparr>prv = n, nxt = n\<rparr>) (fork_rings 0x100 0x200 [] [])"
    by (simp add: rings_def fork_rings_def dlist_def)
  from rings_insert[OF this, of "MmapHead 0x100" "[]" "[]" "VmaList v"]
  have "rings {MmapHead 0x100, MmapHead 0x200} (list_add_tail (VmaList v) (MmapHead 0x100) (\<lambda>n. \<lparr>prv = n, nxt = n\<rparr>))
      ((fork_rings 0x100 0x200 [] [])(MmapHead 0x100 := [VmaList v]))"
    by (simp add: fork_rings_def unlinked_def list_add_tail_def)
  moreover have "(fork_rings 0x100 0x200 [] [])(MmapHead 0x100 := [VmaList v]) = fork_rings 0x100 0x200 [v] []"
    by (auto simp: fork_rings_def)
  ultimately have "fork_ready ?t 0x100 0x200 [v] ?L"
    using example_area_pages by (simp add: fork_ready_def example_parent_def example_area_def)
  moreover have "plenty (areas_cost ?t [v]) (heap ?t)"
    using plenty_le[OF k4(2)] example_area_pages(1) by (simp add: areas_cost_def example_parent_def)
  moreover have "\<forall>i < 256. load64 (ram ?t) (ent pd i) = 0" using z by (simp add: example_parent_def)
  ultimately have "fork_spaces ?t 0x100 0x200 [v] lv1 ?L" using a np km(1) unfolding fork_spaces_def tp by blast
  moreover have "plenty 1270 h4" by (rule plenty_le[OF k4(2)]) simp
  moreover have "lookup (ram ?s3) pg 0x1000 = 0x17" "lookup (ram ?s3) pg 0x2000 = 0" using l3[OF u(1)] l3[OF u(2)] l2 by simp_all
  ultimately show ?thesis using tp by blast
qed

theorem dup_mmap_correct_witness:
  "\<exists>s s' :: vms. dup_mmap 0x200 0x100 s = Inr s' \<and>
     lookup (ram s) (pgd (tasks s 0x100)) 0x1008 = 0x17 \<and> lookup (ram s') (pgd (tasks s 0x100)) 0x1008 = 0x13 \<and>
     lookup (ram s') (pgd (tasks s 0x200)) 0x1008 = 0x13 \<and> lookup (ram s') (pgd (tasks s 0x200)) 0x2000 = 0"
proof -
  obtain pg pd v h m lv L where e: "fork_spaces (example_parent pg pd v h m) 0x100 0x200 [v] lv L"
    "pgd (tasks (example_parent pg pd v h m) 0x100) = pg" "pgd (tasks (example_parent pg pd v h m) 0x200) = pd"
    "lookup m pg 0x1000 = 0x17" "lookup m pg 0x2000 = 0" using example_parent_ready by blast
  let ?s = "example_parent pg pd v h m"
  have u: "user 0x1008" "user 0x2000" "page_no 0x1008 = 1" "page_no 0x1000 = 1" "page_no 0x2000 = 2"
    by (simp_all add: user_def page_no_def)
  have p: "areas_pages ?s [v] = {1, 2}" using example_area_pages(3) by (simp add: areas_pages_def example_parent_def)
  have m: "ram ?s = m" by (simp add: example_parent_def)
  have l: "lookup m pg 0x1008 = 0x17" using lookup_page_no[of "0x1008" "0x1000" m pg] u e(4) by simp
  have b: "(0x17 :: u64) AND NOT PAGE_WRITE = 0x13" by (simp add: PAGE_WRITE_def)
  obtain s' where r: "dup_mmap 0x200 0x100 ?s = Inr s'"
    "\<forall>va. user va \<longrightarrow>
       lookup (ram s') pg va = (if page_no va \<in> {1, 2} then lookup m pg va AND NOT PAGE_WRITE else lookup m pg va) \<and>
       lookup (ram s') pd va = (if page_no va \<in> {1, 2} then lookup m pg va AND NOT PAGE_WRITE else 0)" "tasks s' = tasks ?s"
    using dup_mmap_correct[OF e(1), unfolded e(2,3) p m] by (elim exE conjE) (rule that)
  have "lookup (ram s') pg 0x1008 = 0x13" "lookup (ram s') pd 0x1008 = 0x13" "lookup (ram s') pd 0x2000 = 0"
    using r(2)[rule_format, OF u(1)] r(2)[rule_format, OF u(2)] u l b e(5) by simp_all
  then show ?thesis using r(1) e(2,3) l m by (intro exI[of _ ?s] exI[of _ s']) simp
qed

end
