(* ===== verification/Traps.thy ===== *)
theory Traps
  imports Fork
begin

text \<open>
  System calls and exceptions, \<open>src/syscall.c\<close> and \<open>src/traps.c\<close>. The registers of the interrupted program
  lie in the memory at \<open>regs\<close>; a system call reads its arguments there and leaves its result in \<open>a0\<close>. That
  the kernel sets \<open>sstatus.SUM\<close> around its accesses to user memory has no effect on this state. After
  \<open>Switch\<close> the rest of the handler is pending on the stack of the task, which continues it with
  \<open>after_stop\<close> when it is a \<open>kthread_stop\<close> that gave the processor away.
\<close>

section \<open>System calls\<close>

definition sys_getpid :: "'z sched_scheme \<Rightarrow> u64" where
  "sys_getpid s = pid (tasks s (get_current s))"

text \<open>The counters are of type \<open>int\<close>, compared with a \<open>long\<close>.\<close>

partial_function (option) sys_read_loop :: "u64 \<Rightarrow> u64 \<Rightarrow> u32 \<Rightarrow> 'z console_scheme \<Rightarrow> (u64 \<times> 'z console_scheme) option" where
  "sys_read_loop buf cnt i s =
     (if sint i < sint cnt then
        Option.bind (uart_getc s) (\<lambda>(c, s1).
          sys_read_loop buf cnt (i + 1) (s1\<lparr>ram := (ram s1)(buf + scast i := c)\<rparr>))
      else Some (scast i, s))"

definition sys_read :: "u64 \<Rightarrow> u64 \<Rightarrow> 'z console_scheme \<Rightarrow> (u64 \<times> 'z console_scheme) option" where
  "sys_read buf cnt s = sys_read_loop buf cnt 0 s"

partial_function (option) sys_write_loop :: "u64 \<Rightarrow> u64 \<Rightarrow> u32 \<Rightarrow> 'z console_scheme \<Rightarrow> (u64 \<times> 'z console_scheme) option" where
  "sys_write_loop buf cnt i s =
     (if sint i < sint cnt then
        Option.bind (uart_putc (ram s (buf + scast i)) s) (\<lambda>s1. sys_write_loop buf cnt (i + 1) s1)
      else Some (scast i, s))"

definition sys_write :: "u64 \<Rightarrow> u64 \<Rightarrow> 'z console_scheme \<Rightarrow> (u64 \<times> 'z console_scheme) option" where
  "sys_write buf cnt s = sys_write_loop buf cnt 0 s"

definition sys_exec :: "u64 \<Rightarrow> u64 \<Rightarrow> 'z sched_scheme \<Rightarrow> u64 \<times> 'z sched_scheme" where
  "sys_exec filename argv s = (0, s)"

text \<open>\<open>ret_from_exception\<close> is the address of that label of \<open>src/entry.S\<close>.\<close>

definition sys_fork :: "u64 \<Rightarrow> u64 \<Rightarrow> 'z vms_scheme \<Rightarrow> fault + u64 \<times> 'z vms_scheme" where
  "sys_fork ret_from_exception regs s =
     (let s1 = disable_interrupt s;
          parent = get_current s1
      in bindF (kthread_create 0 s1) (\<lambda>(chld, s2).
           bindF (of_loop (memcpy (ram s2) (stack (tasks s2 chld)) (stack (tasks s2 parent)) (int STACK_SIZE))) (\<lambda>(_, m).
             let s3 = s2\<lparr>ram := m\<rparr>
             in bindF (dup_mmap chld parent s3) (\<lambda>s4.
                  let s5 = upd_task chld (\<lambda>t. t\<lparr>sighand := (\<lambda>i. if i < NSIG then sighand (tasks s4 parent) i else sighand t i)\<rparr>) s4;
                      sp_offset = regs - stack (tasks s5 parent);
                      childregs = stack (tasks s5 chld) + sp_offset;
                      s6 = upd_ram (set_reg A0 0 childregs) s5;
                      s7 = upd_task chld (\<lambda>t. t\<lparr>thread := (thread t)\<lparr>th_ra := ret_from_exception, th_sp := childregs\<rparr>\<rparr>) s6;
                      s8 = enable_interrupt s7
                  in Inr (pid (tasks s8 chld), s8)))))"

definition sys_exit :: "u32 \<Rightarrow> 'z sched_scheme \<Rightarrow> ctl \<times> 'z sched_scheme" where
  "sys_exit error_code s = kthread_exit s"

definition sys_mmap :: "u64 \<Rightarrow> u64 \<Rightarrow> u64 \<Rightarrow> u64 \<Rightarrow> u64" where
  "sys_mmap addr len prot flags = 0"

section \<open>Exceptions\<close>

definition set_a0 :: "u64 \<Rightarrow> u64 \<Rightarrow> 'z sched_scheme \<Rightarrow> 'z sched_scheme" where
  "set_a0 regs v s = upd_ram (set_reg A0 v regs) s"

text \<open>What follows \<open>kthread_stop\<close> in the handler.\<close>

definition after_stop :: "u64 \<Rightarrow> u64 \<Rightarrow> 'z sched_scheme \<Rightarrow> fault + ctl \<times> 'z sched_scheme" where
  "after_stop sigreturn_fn regs s = do_signal sigreturn_fn regs (set_a0 regs 0 s)"

definition unknown_exception :: "u64 \<Rightarrow> 'z console_scheme \<Rightarrow> fault + 'a" where
  "unknown_exception regs s =
     bindF (printk ''[PANIC] Unknown exception\<newline>'' [] s) (\<lambda>s1.
       bindF (printk ''sepc: %p\<newline>'' [get_reg EPC regs (ram s1)] s1) (\<lambda>s2.
         bindF (printk ''sstatus: %p\<newline>'' [get_reg STATUS regs (ram s2)] s2) (\<lambda>s3.
           bindF (printk ''scause: %p\<newline>'' [get_reg CAUSE regs (ram s3)] s3) (\<lambda>s4.
             bindF (printk ''stval: %p\<newline>'' [get_reg BADADDR regs (ram s4)] s4) (\<lambda>s5. Inl No_Return)))))"

text \<open>The \<open>switch\<close> on the number of the system call.\<close>

definition syscall_switch :: "u64 \<Rightarrow> u64 \<Rightarrow> u64 \<Rightarrow> 'z vms_scheme \<Rightarrow> fault + ctl \<times> 'z vms_scheme" where
  "syscall_switch sigreturn_fn ret_from_exception regs s =
     (let a0 = get_reg A0 regs (ram s); a1 = get_reg A1 regs (ram s); a7 = get_reg A7 regs (ram s);
          a2 = get_reg A2 regs (ram s); a3 = get_reg A3 regs (ram s);
          finish = do_signal sigreturn_fn regs
      in if a7 = 0 then finish (set_a0 regs (sys_getpid s) s)
         else if a7 = 1 then bindF (of_loop (sys_read a0 a1 s)) (\<lambda>(r, s1). finish (set_a0 regs r s1))
         else if a7 = 2 then bindF (of_loop (sys_write a0 a1 s)) (\<lambda>(r, s1). finish (set_a0 regs r s1))
         else if a7 = 3 then finish s
         else if a7 = 4 then bindF (sys_fork ret_from_exception regs s) (\<lambda>(r, s1). finish (set_a0 regs r s1))
         else if a7 = 5 then (case sys_exit 0 s of (Switch, s1) \<Rightarrow> Inr (Switch, s1) | (Stay, s1) \<Rightarrow> finish s1)
         else if a7 = 6 then
           bindF (find_task_by_pid (ucast a0) s) (\<lambda>task.
             if task = 0 then finish (set_a0 regs (- 1) s)
             else case kthread_stop task s of
                 (Switch, s1) \<Rightarrow> Inr (Switch, s1)
               | (Stay, s1) \<Rightarrow> after_stop sigreturn_fn regs s1)
         else if a7 = 7 then bindF (sys_signal (ucast a0) a1 s) (\<lambda>(r, s1). finish (set_a0 regs r s1))
         else if a7 = 8 then bindF (sys_sigreturn regs s) (\<lambda>(r, s1). finish (set_a0 regs r s1))
         else if a7 = 9 then bindF (sys_kill a0 (ucast a1) s) (\<lambda>(r, s1). finish (set_a0 regs r s1))
         else if a7 = 10 then finish (set_a0 regs (sys_mmap a0 a1 a2 a3) s)
         else bindF (printk ''[PANIC] Unknown syscall(%d)\<newline>'' [a7] s) (\<lambda>s1. finish s1))"

definition do_traps :: "u64 \<Rightarrow> u64 \<Rightarrow> u64 \<Rightarrow> 'z vms_scheme \<Rightarrow> fault + ctl \<times> 'z vms_scheme" where
  "do_traps sigreturn_fn ret_from_exception regs s =
     (let cause = get_reg CAUSE regs (ram s)
      in if cause = EXC_INST_PAGE_FAULT \<or> cause = EXC_LOAD_PAGE_FAULT \<or> cause = EXC_STORE_PAGE_FAULT
         then do_page_fault regs s
         else if cause \<noteq> EXC_SYSCALL then unknown_exception regs s
         else
           let s1 = enable_interrupt s;
               s2 = upd_ram (set_reg EPC (get_reg EPC regs (ram s1) + 4) regs) s1
           in syscall_switch sigreturn_fn ret_from_exception regs s2)"

section \<open>Reading and writing\<close>

text \<open>A byte arrives again and again; the bytes that arrive, with a line feed for a carriage return.\<close>

definition rx_ready :: "'z console_scheme \<Rightarrow> bool" where
  "rx_ready s \<longleftrightarrow> (\<forall>n. \<exists>k \<ge> n. uart_lsr s k AND 0x01 \<noteq> 0)"

definition received :: "'z console_scheme \<Rightarrow> nat \<Rightarrow> u8" where
  "received s i = (let c = uart_rbr s (rbr_reads s + i) in if c = 13 then 10 else c)"

lemma uart_poll_bit:
  assumes "\<forall>n. \<exists>k \<ge> n. uart_lsr s k AND b \<noteq> 0"
  shows "\<exists>n. uart_poll b s = Some (s\<lparr>lsr_reads := n\<rparr>)"
proof -
  obtain k where k: "lsr_reads s \<le> k" "uart_lsr s k AND b \<noteq> 0" using assms by blast
  from k show ?thesis
  proof (induction "k - lsr_reads s" arbitrary: s)
    case 0
    then have "uart_lsr s (lsr_reads s) AND b \<noteq> 0" by simp
    then show ?case by (auto simp: uart_poll.simps[of b s] Let_def)
  next
    case (Suc d)
    show ?case
    proof (cases "uart_lsr s (lsr_reads s) AND b = 0")
      case True
      then have "lsr_reads s \<noteq> k" using Suc.prems(2) by auto
      then have p: "lsr_reads (s\<lparr>lsr_reads := lsr_reads s + 1\<rparr>) \<le> k" using Suc.prems(1) by simp
      have d: "d = k - lsr_reads (s\<lparr>lsr_reads := lsr_reads s + 1\<rparr>)" using Suc.hyps(2) by simp
      have "uart_lsr (s\<lparr>lsr_reads := lsr_reads s + 1\<rparr>) k AND b \<noteq> 0" using Suc.prems(2) by simp
      from Suc.hyps(1)[OF d p this] show ?thesis using True by (auto simp: uart_poll.simps[of b s] Let_def)
    next
      case False
      then show ?thesis by (auto simp: uart_poll.simps[of b s] Let_def)
    qed
  qed
qed

lemma uart_getc_received:
  assumes "rx_ready s"
  shows "\<exists>n. uart_getc s = Some (received s 0, s\<lparr>lsr_reads := n, rbr_reads := rbr_reads s + 1\<rparr>)"
  using uart_poll_bit[of s "0x01"] assms by (auto simp: uart_getc_def rx_ready_def received_def Let_def)

lemma sint_counter:
  assumes "i < 2 ^ 31"
  shows "sint (of_nat i :: u32) = int i" and "scast (of_nat i :: u32) = (of_nat i :: u64)"
proof -
  have "uint (of_nat i :: u32) = int i" using assms by (simp add: unsigned_of_nat take_bit_nat_eq_self)
  then show s: "sint (of_nat i :: u32) = int i" using assms by (simp add: sint_uint signed_take_bit_int_eq_self)
  show "scast (of_nat i :: u32) = (of_nat i :: u64)" by (rule scast_counter[OF assms])
qed

lemma sint_count: "n < 2 ^ 31 \<Longrightarrow> sint (of_nat n :: u64) = int n"
proof -
  assume n: "n < 2 ^ 31"
  then have "uint (of_nat n :: u64) = int n" by (simp add: unsigned_of_nat take_bit_nat_eq_self)
  then show ?thesis using n by (simp add: sint_uint signed_take_bit_int_eq_self)
qed

lemma sys_write_loop_sends:
  assumes "tx_ready s" and "n < 2 ^ 31" and "i \<le> n"
  shows "\<exists>s'. sys_write_loop buf (of_nat n) (of_nat i) s = Some (of_nat n, s') \<and>
    sends (crlf (map (\<lambda>k. ram s (buf + of_nat k)) [i..<n])) s s'"
  using assms(1,3)
proof (induction "n - i" arbitrary: i s)
  case 0
  then have "i = n" by simp
  then show ?case using assms(2) sint_counter[of n] sint_count[of n] sends_refl by (simp add: sys_write_loop.simps)
next
  case (Suc d)
  then have i: "i < n" "i < 2 ^ 31" "d = n - Suc i" "Suc i \<le> n" using assms(2) by simp_all
  obtain s1 where p: "uart_putc (ram s (buf + of_nat i)) s = Some s1" "sends (crlf [ram s (buf + of_nat i)]) s s1"
    using uart_putc_sends[OF Suc.prems(1)] by blast
  note f = sends_fields[OF p(2)]
  have t: "tx_ready s1" using f(3) Suc.prems(1) by simp
  obtain s' where r: "sys_write_loop buf (of_nat n) (of_nat (Suc i)) s1 = Some (of_nat n, s')"
    "sends (crlf (map (\<lambda>k. ram s1 (buf + of_nat k)) [Suc i..<n])) s1 s'"
    using Suc.hyps(1)[OF i(3) t i(4)] by blast
  have "sys_write_loop buf (of_nat n) (of_nat i) s = Some (of_nat n, s')"
    using r(1) p(1) i sint_counter[OF i(2)] sint_count[OF assms(2)]
    by (subst sys_write_loop.simps) (simp add: add.commute)
  moreover have "[i..<n] = i # [Suc i..<n]" using i(1) by (rule upt_conv_Cons)
  then have "crlf (map (\<lambda>k. ram s (buf + of_nat k)) [i..<n]) =
      crlf [ram s (buf + of_nat i)] @ crlf (map (\<lambda>k. ram s1 (buf + of_nat k)) [Suc i..<n])"
    using f(2) by simp
  ultimately show ?case using sends_trans[OF p(2) r(2)] by metis
qed

lemma sys_write_sends:
  assumes "tx_ready s" and "n < 2 ^ 31"
  shows "\<exists>s'. sys_write buf (of_nat n) s = Some (of_nat n, s') \<and> sends (crlf (bytes (ram s) buf n)) s s'"
  using sys_write_loop_sends[OF assms, of 0 buf] by (simp add: sys_write_def bytes_def)

lemma sys_read_loop_stores:
  assumes "rx_ready s" and "n < 2 ^ 31" and "i \<le> n"
  shows "\<exists>k. sys_read_loop buf (of_nat n) (of_nat i) s = Some (of_nat n, s\<lparr>lsr_reads := k, rbr_reads := rbr_reads s + (n - i),
    ram := (\<lambda>x. if i \<le> unat (x - buf) \<and> unat (x - buf) < n then received s (unat (x - buf) - i) else ram s x)\<rparr>)"
  using assms(1,3)
proof (induction "n - i" arbitrary: i s)
  case 0
  then have "i = n" by simp
  then have m: "(\<lambda>x. if i \<le> unat (x - buf) \<and> unat (x - buf) < n then received s (unat (x - buf) - i) else ram s x) = ram s"
    by (intro ext) auto
  moreover have "s\<lparr>lsr_reads := lsr_reads s, rbr_reads := rbr_reads s + 0, ram := ram s\<rparr> = s" by simp
  ultimately show ?case unfolding m using \<open>i = n\<close> assms(2) sint_counter[of n] sint_count[of n]
    by (intro exI[of _ "lsr_reads s"]) (simp add: sys_read_loop.simps)
next
  case (Suc d)
  then have i: "i < n" "i < 2 ^ 31" "d = n - Suc i" "Suc i \<le> n" using assms(2) by simp_all
  obtain j where g: "uart_getc s = Some (received s 0, s\<lparr>lsr_reads := j, rbr_reads := rbr_reads s + 1\<rparr>)"
    using uart_getc_received[OF Suc.prems(1)] by blast
  let ?s = "s\<lparr>lsr_reads := j, rbr_reads := rbr_reads s + 1, ram := (ram s)(buf + of_nat i := received s 0)\<rparr>"
  have t: "rx_ready ?s" using Suc.prems(1) by (simp add: rx_ready_def)
  from Suc.hyps(1)[OF i(3) t i(4)] obtain k where r: "sys_read_loop buf (of_nat n) (of_nat (Suc i)) ?s = Some (of_nat n,
      ?s\<lparr>lsr_reads := k, rbr_reads := rbr_reads ?s + (n - Suc i),
        ram := (\<lambda>x. if Suc i \<le> unat (x - buf) \<and> unat (x - buf) < n then received ?s (unat (x - buf) - Suc i) else ram ?s x)\<rparr>)"
    by blast
  have u: "unat (x - buf) = i \<longleftrightarrow> x = buf + of_nat i" for x
  proof
    assume "unat (x - buf) = i"
    moreover have "of_nat (unat (x - buf)) = x - buf" by simp
    ultimately have "x - buf = of_nat i" by simp
    then show "x = buf + of_nat i" by (simp add: algebra_simps)
  qed (use i(2) unat_small[of i] in simp)
  have rc: "received ?s m = received s (Suc m)" for m by (simp add: received_def)
  have m: "(\<lambda>x. if Suc i \<le> unat (x - buf) \<and> unat (x - buf) < n then received ?s (unat (x - buf) - Suc i) else ram ?s x) =
      (\<lambda>x. if i \<le> unat (x - buf) \<and> unat (x - buf) < n then received s (unat (x - buf) - i) else ram s x)"
  proof
    fix x
    consider "unat (x - buf) = i" | "unat (x - buf) < i" | "Suc i \<le> unat (x - buf)" by linarith
    then show "(if Suc i \<le> unat (x - buf) \<and> unat (x - buf) < n then received ?s (unat (x - buf) - Suc i) else ram ?s x) =
      (if i \<le> unat (x - buf) \<and> unat (x - buf) < n then received s (unat (x - buf) - i) else ram s x)"
    proof cases
      case 1
      then show ?thesis using u[of x] i(1) by simp
    next
      case 2
      then show ?thesis using u[of x] by auto
    next
      case 3
      then show ?thesis using u[of x] unfolding rc by (auto simp: Suc_diff_Suc Suc_le_eq)
    qed
  qed
  have "sys_read_loop buf (of_nat n) (of_nat i) s = sys_read_loop buf (of_nat n) (of_nat (Suc i)) ?s"
    using g i sint_counter[OF i(2)] sint_count[OF assms(2)]
    by (subst sys_read_loop.simps) (simp add: add.commute)
  moreover have "rbr_reads ?s + (n - Suc i) = rbr_reads s + (n - i)" using i(1) by simp
  ultimately show ?case using r unfolding m by (intro exI[of _ k]) simp
qed

lemma sys_read_stores:
  assumes "rx_ready s" and "n < 2 ^ 31"
  shows "\<exists>k. sys_read buf (of_nat n) s = Some (of_nat n, s\<lparr>lsr_reads := k, rbr_reads := rbr_reads s + n,
    ram := (\<lambda>x. if unat (x - buf) < n then received s (unat (x - buf)) else ram s x)\<rparr>)"
proof -
  have "(\<lambda>x. if 0 \<le> unat (x - buf) \<and> unat (x - buf) < n then received s (unat (x - buf) - 0) else ram s x) =
      (\<lambda>x. if unat (x - buf) < n then received s (unat (x - buf)) else ram s x)" by (rule ext) simp
  then show ?thesis using sys_read_loop_stores[OF assms, of 0 buf] by (simp add: sys_read_def)
qed

section \<open>Handlers\<close>

definition no_signal :: "'z sched_scheme \<Rightarrow> bool" where
  "no_signal s \<longleftrightarrow> signals (pending (tasks s (tp s))) = {} \<and> sigset_ok (pending (tasks s (tp s)))"

lemma do_signal_quiet: "no_signal s \<Longrightarrow> do_signal f regs s = Inr (Stay, s)"
  using do_signal_none[of s 0 f regs] by (simp add: do_signal_def no_signal_def)

lemma set_a0_simps [simp]:
  "tasks (set_a0 regs v s) = tasks s" "tp (set_a0 regs v s) = tp s" "ram (set_a0 regs v s) = set_reg A0 v regs (ram s)"
  "no_signal (set_a0 regs v s) = no_signal s"
  by (simp_all add: set_a0_def upd_ram_def no_signal_def)

lemma set_a0_console [simp]:
  fixes s :: "'z console_scheme"
  shows "uart_thr (set_a0 regs v s) = uart_thr s" "sie (set_a0 regs v s) = sie s"
  by (simp_all add: set_a0_def upd_ram_def)

text \<open>The state in which the system call is carried out.\<close>

definition syscall_entry :: "u64 \<Rightarrow> 'z vms_scheme \<Rightarrow> 'z vms_scheme" where
  "syscall_entry regs s = s\<lparr>sie := True, ram := set_reg EPC (get_reg EPC regs (ram s) + 4) regs (ram s)\<rparr>"

lemma do_traps_syscall:
  "get_reg CAUSE regs (ram s) = EXC_SYSCALL \<Longrightarrow> do_traps f r regs s = syscall_switch f r regs (syscall_entry regs s)"
  by (simp add: do_traps_def Let_def syscall_entry_def enable_interrupt_def upd_ram_def EXC_SYSCALL_def
      EXC_INST_PAGE_FAULT_def EXC_LOAD_PAGE_FAULT_def EXC_STORE_PAGE_FAULT_def)

lemma syscall_entry_simps [simp]:
  "tasks (syscall_entry regs s) = tasks s" "tp (syscall_entry regs s) = tp s" "run_links (syscall_entry regs s) = run_links s"
  "uart_thr (syscall_entry regs s) = uart_thr s" "sie (syscall_entry regs s)" "heap (syscall_entry regs s) = heap s"
  "no_signal (syscall_entry regs s) = no_signal s" "tx_ready (syscall_entry regs s) = tx_ready s"
  "rx_ready (syscall_entry regs s) = rx_ready s" "received (syscall_entry regs s) = received s"
  "get_reg q regs (ram (syscall_entry regs s)) = (if q = EPC then get_reg EPC regs (ram s) + 4 else get_reg q regs (ram s))"
  by (simp_all add: syscall_entry_def no_signal_def tx_ready_def rx_ready_def received_def fun_eq_iff)

lemma syscall_entry_outside:
  "PT_SIZE_ON_STACK \<le> unat (x - regs) \<Longrightarrow> ram (syscall_entry regs s) x = ram s x"
  by (simp add: syscall_entry_def set_reg_outside)

lemma bytes_nth: "i < n \<Longrightarrow> bytes m a n ! i = m (a + of_nat i)"
  by (simp add: bytes_def)

lemma user_bytes_entry:
  assumes d: "disjoint_ranges buf n regs PT_SIZE_ON_STACK" and n: "n < 2 ^ 64"
  shows "bytes (ram (syscall_entry regs s)) buf n = bytes (ram s) buf n"
proof -
  have "ram (syscall_entry regs s) (buf + of_nat i) = ram s (buf + of_nat i)" if i: "i < n" for i
  proof (rule syscall_entry_outside, rule disjoint_rangesD[OF d])
    show "unat (buf + of_nat i - buf) < n" using i n unat_small[of i] by simp
  qed
  then show ?thesis unfolding bytes_def by (intro map_cong refl) (simp only: atLeastLessThan_iff set_upt)
qed

text \<open>C23: the system call \<open>write\<close> returns when the transmitter becomes ready again and again. It has sent exactly the
  bytes of the buffer, with a carriage return before every line feed, and the program goes on after its \<open>ecall\<close>
  with their number in \<open>a0\<close> and all other registers as they were.\<close>

theorem do_traps_write:
  fixes s :: "'z vms_scheme"
  assumes c: "get_reg CAUSE regs (ram s) = EXC_SYSCALL" and nr: "get_reg A7 regs (ram s) = 2"
    and buf: "get_reg A0 regs (ram s) = buf" and n: "get_reg A1 regs (ram s) = of_nat n" "n < 2 ^ 31"
    and d: "disjoint_ranges buf n regs PT_SIZE_ON_STACK" and t: "tx_ready s" and q: "no_signal s"
  shows "\<exists>s'. do_traps f r regs s = Inr (Stay, s') \<and> uart_thr s' = uart_thr s @ crlf (bytes (ram s) buf n) \<and> sie s' \<and>
    (\<forall>q. get_reg q regs (ram s') =
       (if q = EPC then get_reg EPC regs (ram s) + 4 else if q = A0 then of_nat n else get_reg q regs (ram s)))"
proof -
  let ?e = "syscall_entry regs s"
  obtain s1 where w: "sys_write buf (of_nat n) ?e = Some (of_nat n, s1)" "sends (crlf (bytes (ram ?e) buf n)) ?e s1"
    using sys_write_sends[of ?e n buf] t n(2) by auto
  note fl = sends_fields[OF w(2)]
  obtain k where s1: "s1 = ?e\<lparr>lsr_reads := k, uart_thr := uart_thr ?e @ crlf (bytes (ram ?e) buf n)\<rparr>"
    using w(2) by (auto simp: sends_def)
  have qt: "no_signal s1" using q unfolding s1 by (simp add: no_signal_def)
  have "do_traps f r regs s = Inr (Stay, set_a0 regs (of_nat n) s1)"
    unfolding do_traps_syscall[OF c] syscall_switch_def Let_def
    using nr buf n(1) w(1) do_signal_quiet[of "set_a0 regs (of_nat n) s1"] qt by simp
  moreover have "bytes (ram ?e) buf n = bytes (ram s) buf n" by (rule user_bytes_entry[OF d]) (use n in simp)
  then have "uart_thr s1 = uart_thr s @ crlf (bytes (ram s) buf n)" "ram s1 = ram ?e" "sie s1" using fl(1,2) by (simp_all add: s1)
  ultimately show ?thesis by (intro exI[of _ "set_a0 regs (of_nat n) s1"]) simp
qed

text \<open>C24: the system call \<open>read\<close> returns when bytes keep arriving. The buffer then holds the next bytes that arrived,
  a line feed for each carriage return, and the program goes on after its \<open>ecall\<close> with their number in \<open>a0\<close>; no other
  memory and no other register has changed.\<close>

theorem do_traps_read:
  fixes s :: "'z vms_scheme"
  assumes c: "get_reg CAUSE regs (ram s) = EXC_SYSCALL" and nr: "get_reg A7 regs (ram s) = 1"
    and buf: "get_reg A0 regs (ram s) = buf" and n: "get_reg A1 regs (ram s) = of_nat n" "n < 2 ^ 31"
    and d: "disjoint_ranges buf n regs PT_SIZE_ON_STACK" and t: "rx_ready s" and q: "no_signal s"
  shows "\<exists>s'. do_traps f r regs s = Inr (Stay, s') \<and> bytes (ram s') buf n = map (received s) [0..<n] \<and>
    rbr_reads s' = rbr_reads s + n \<and>
    (\<forall>x. n \<le> unat (x - buf) \<and> PT_SIZE_ON_STACK \<le> unat (x - regs) \<longrightarrow> ram s' x = ram s x) \<and>
    (\<forall>q. get_reg q regs (ram s') =
       (if q = EPC then get_reg EPC regs (ram s) + 4 else if q = A0 then of_nat n else get_reg q regs (ram s)))"
proof -
  let ?e = "syscall_entry regs s"
  let ?m = "\<lambda>x. if unat (x - buf) < n then received s (unat (x - buf)) else ram ?e x"
  obtain k where w: "sys_read buf (of_nat n) ?e = Some (of_nat n, ?e\<lparr>lsr_reads := k, rbr_reads := rbr_reads ?e + n, ram := ?m\<rparr>)"
    using sys_read_stores[of ?e n buf, unfolded syscall_entry_simps(9,10), OF t n(2)] by blast
  let ?s1 = "?e\<lparr>lsr_reads := k, rbr_reads := rbr_reads ?e + n, ram := ?m\<rparr>"
  have qt: "no_signal ?s1" using q by (simp add: no_signal_def)
  have "do_traps f r regs s = Inr (Stay, set_a0 regs (of_nat n) ?s1)"
    unfolding do_traps_syscall[OF c] syscall_switch_def Let_def
    using nr buf n(1) w do_signal_quiet[of "set_a0 regs (of_nat n) ?s1"] qt by simp
  moreover have "get_reg q regs (ram ?s1) = get_reg q regs (ram ?e)" for q
    by (rule get_reg_frame[OF disjoint_ranges_sym[OF d]]) simp
  moreover have "bytes (ram (set_a0 regs (of_nat n) ?s1)) buf n = map (received s) [0..<n]"
  proof (rule nth_equalityI)
    fix i assume "i < length (bytes (ram (set_a0 regs (of_nat n) ?s1)) buf n)"
    then have i: "i < n" by (simp add: bytes_def)
    then have u: "unat (buf + of_nat i - buf) = i" using n(2) unat_small[of i] by simp
    have "PT_SIZE_ON_STACK \<le> unat (buf + of_nat i - regs)" by (rule disjoint_rangesD[OF d]) (simp only: u i)
    then have "ram (set_a0 regs (of_nat n) ?s1) (buf + of_nat i) = received s i"
      using set_reg_outside[of "buf + of_nat i" regs A0 "of_nat n" ?m] u i by simp
    then show "bytes (ram (set_a0 regs (of_nat n) ?s1)) buf n ! i = map (received s) [0..<n] ! i"
      using i by (simp add: bytes_nth)
  qed (simp add: bytes_def)
  moreover have "ram (set_a0 regs (of_nat n) ?s1) x = ram s x" if "n \<le> unat (x - buf)" "PT_SIZE_ON_STACK \<le> unat (x - regs)" for x
    using set_reg_outside[OF that(2), of A0 "of_nat n" ?m] syscall_entry_outside[OF that(2), of s] that(1) by simp
  moreover have "rbr_reads (set_a0 regs (of_nat n) ?s1) = rbr_reads s + n"
    by (simp add: set_a0_def upd_ram_def syscall_entry_def)
  ultimately show ?thesis by (intro exI[of _ "set_a0 regs (of_nat n) ?s1"]) simp
qed

lemma printk_p:
  assumes t: "tx_ready s" and f: "chars fmt = cs @ 0x25 # 0x70 # ds" "\<forall>c \<in> set (cs @ ds). c \<noteq> 0x25"
  shows "\<exists>es s1. sends es s s1 \<and> printk fmt [a] s = Inr s1"
proof -
  obtain s1 where s1: "sends (crlf cs) s s1" "vprintk (cs @ 0x25 # 0x70 # ds) [a] s = vprintk (0x25 # 0x70 # ds) [a] s1"
    using vprintk_plain[OF t] f(2) by fastforce
  have t1: "tx_ready s1" using sends_fields(3)[OF s1(1)] t by simp
  obtain es s2 where s2: "sends es s1 s2" "vprintk (0x25 # 0x70 # ds) [a] s1 = vprintk ds [] s2" using vprintk_p[OF t1] by blast
  have t2: "tx_ready s2" using sends_fields(3)[OF s2(1)] t1 by simp
  obtain s3 where s3: "sends (crlf ds) s2 s3" "vprintk (ds @ []) [] s2 = vprintk [] [] s3"
    using vprintk_plain[OF t2, of ds "[]" "[]"] f(2) by fastforce
  have "printk fmt [a] s = Inr s3" using s1(2) s2(2) s3(2) by (simp add: printk_def f(1) vprintk_nil)
  then show ?thesis using sends_trans[OF s1(1) sends_trans[OF s2(1) s3(1)]] by blast
qed

text \<open>An exception that is neither a page fault nor a system call ends in the endless loop after its message: the
  kernel does not return to the program.\<close>

theorem do_traps_unknown_halts:
  fixes s :: "'z vms_scheme"
  assumes "get_reg CAUSE regs (ram s) \<notin> {EXC_SYSCALL, EXC_INST_PAGE_FAULT, EXC_LOAD_PAGE_FAULT, EXC_STORE_PAGE_FAULT}"
    and t: "tx_ready s"
  shows "do_traps f r regs s = Inl No_Return"
proof -
  obtain c1 s1 where 1: "sends c1 s s1" "printk ''[PANIC] Unknown exception\<newline>'' [] s = Inr s1"
    using printk_plain[OF t, of "''[PANIC] Unknown exception\<newline>''"] by (force simp: chars_def)
  have t1: "tx_ready s1" using sends_fields(3)[OF 1(1)] t by simp
  obtain c2 s2 where 2: "sends c2 s1 s2" "printk ''sepc: %p\<newline>'' [get_reg EPC regs (ram s1)] s1 = Inr s2"
    using printk_p[OF t1, of "''sepc: %p\<newline>''" "chars ''sepc: ''" "chars ''\<newline>''"] by (force simp: chars_def)
  have t2: "tx_ready s2" using sends_fields(3)[OF 2(1)] t1 by simp
  obtain c3 s3 where 3: "sends c3 s2 s3" "printk ''sstatus: %p\<newline>'' [get_reg STATUS regs (ram s2)] s2 = Inr s3"
    using printk_p[OF t2, of "''sstatus: %p\<newline>''" "chars ''sstatus: ''" "chars ''\<newline>''"] by (force simp: chars_def)
  have t3: "tx_ready s3" using sends_fields(3)[OF 3(1)] t2 by simp
  obtain c4 s4 where 4: "sends c4 s3 s4" "printk ''scause: %p\<newline>'' [get_reg CAUSE regs (ram s3)] s3 = Inr s4"
    using printk_p[OF t3, of "''scause: %p\<newline>''" "chars ''scause: ''" "chars ''\<newline>''"] by (force simp: chars_def)
  have t4: "tx_ready s4" using sends_fields(3)[OF 4(1)] t3 by simp
  obtain c5 s5 where 5: "sends c5 s4 s5" "printk ''stval: %p\<newline>'' [get_reg BADADDR regs (ram s4)] s4 = Inr s5"
    using printk_p[OF t4, of "''stval: %p\<newline>''" "chars ''stval: ''" "chars ''\<newline>''"] by (force simp: chars_def)
  show ?thesis using assms(1) 1(2) 2(2) 3(2) 4(2) 5(2) by (simp add: do_traps_def unknown_exception_def Let_def)
qed

text \<open>The system call that stops a task (number 6) returns \<open>-1\<close> when no task has the pid, and changes nothing else.
  Otherwise that task and no other becomes a zombie, and the processor goes to the next task in the queue.\<close>

theorem do_traps_stop:
  fixes s :: "'z vms_scheme"
  assumes c: "get_reg CAUSE regs (ram s) = EXC_SYSCALL" and nr: "get_reg A7 regs (ram s) = 6"
    and inv: "sched_inv s qs L" and q: "no_signal s"
    and p: "p = scast (ucast (get_reg A0 regs (ram s)) :: u32)"
  shows "(p \<notin> (\<lambda>t. pid (tasks s t)) ` set qs \<longrightarrow>
      (\<exists>s'. do_traps f r regs s = Inr (Stay, s') \<and> tasks s' = tasks s \<and> run_links s' = run_links s \<and>
        (\<forall>q. get_reg q regs (ram s') =
          (if q = EPC then get_reg EPC regs (ram s) + 4 else if q = A0 then - 1 else get_reg q regs (ram s))))) \<and>
    (\<forall>t j. t \<in> set qs \<and> pid (tasks s t) = p \<and> 1 < length qs \<and> j < length qs \<and> tp s = qs ! j \<longrightarrow>
      (\<exists>s'. do_traps f r regs s = Inr (Switch, s') \<and> tp s' = qs ! (Suc j mod length qs) \<and>
        (\<forall>u. tstate (tasks s' u) = (if u = t then TASK_ZOMBIE else tstate (tasks s u)))))"
proof (intro conjI allI impI)
  let ?e = "syscall_entry regs s"
  have rq: "runqueue ?e qs" using inv by (simp add: sched_inv_def runqueue_def)
  have find: "find_task_by_pid (ucast (get_reg A0 regs (ram s))) ?e =
      Inr (case find (\<lambda>t. pid (tasks s t) = p) qs of Some t \<Rightarrow> t | None \<Rightarrow> 0)"
    using find_task_queue[OF rq] by (simp add: p)
  note sw = do_traps_syscall[OF c, of f r]
  {
    assume none: "p \<notin> (\<lambda>t. pid (tasks s t)) ` set qs"
    then have "find (\<lambda>t. pid (tasks s t) = p) qs = None" by (auto simp: find_None_iff)
    then have "do_traps f r regs s = Inr (Stay, set_a0 regs (- 1) ?e)"
      using nr find do_signal_quiet[of "set_a0 regs (- 1) ?e"] q unfolding sw syscall_switch_def Let_def by simp
    then show "\<exists>s'. do_traps f r regs s = Inr (Stay, s') \<and> tasks s' = tasks s \<and> run_links s' = run_links s \<and>
        (\<forall>q. get_reg q regs (ram s') =
          (if q = EPC then get_reg EPC regs (ram s) + 4 else if q = A0 then - 1 else get_reg q regs (ram s)))"
      by (intro exI[of _ "set_a0 regs (- 1) ?e"]) (simp add: set_a0_def upd_ram_def)
  }
  fix t j assume t: "t \<in> set qs \<and> pid (tasks s t) = p \<and> 1 < length qs \<and> j < length qs \<and> tp s = qs ! j"
  have "pid (tasks s t) = scast (ucast (get_reg A0 regs (ram s)) :: u32)" using t p by simp
  then have "find_task_by_pid (ucast (get_reg A0 regs (ram s))) s = Inr t" by (intro find_task_member[OF inv]) (use t in auto)
  then have ft: "find_task_by_pid (ucast (get_reg A0 regs (ram s))) ?e = Inr t" by (simp add: find_task_by_pid_def)
  obtain n where n: "(t, n) \<in> L" using inv t unfolding sched_inv_def by blast
  have "mm_inv (heap s) L" using inv by (simp add: sched_inv_def)
  then have "t \<noteq> 0" using chunk_not_null n by blast
  let ?z = "upd_task t (\<lambda>t. t\<lparr>tstate := TASK_ZOMBIE\<rparr>) ?e" and ?n = "qs ! (Suc j mod length qs)"
  have "runqueue ?z qs" using rq by (simp add: runqueue_def)
  from schedule_queue[OF this, of j] have "kthread_stop t ?e =
      (Switch, switch_to (qs ! j) ?n (switch_mm (pgd (tasks ?z ?n)) 8 ?z))"
    using t by (simp add: kthread_stop_def)
  then have "do_traps f r regs s = Inr (Switch, switch_to (qs ! j) ?n (switch_mm (pgd (tasks ?z ?n)) 8 ?z))"
    using nr ft \<open>t \<noteq> 0\<close> unfolding sw syscall_switch_def Let_def by simp
  then show "\<exists>s'. do_traps f r regs s = Inr (Switch, s') \<and> tp s' = ?n \<and>
      (\<forall>u. tstate (tasks s' u) = (if u = t then TASK_ZOMBIE else tstate (tasks s u)))"
    by (intro exI[of _ "switch_to (qs ! j) ?n (switch_mm (pgd (tasks ?z ?n)) 8 ?z)"]) (simp add: switch_to_fields upd_task_def)
qed

definition example_trap :: "u64 \<Rightarrow> u64 \<Rightarrow> u64 \<Rightarrow> u64 \<Rightarrow> vms" where
  "example_trap cause nr a0 a1 = example_vms\<lparr>run_links := (\<lambda>n. \<lparr>prv = n, nxt = n\<rparr>), nr_threads := 0, tasks := example_task,
     uart_rbr := (\<lambda>n. if n = 0 then 0x41 else 13), rbr_reads := 0,
     ram := set_reg CAUSE cause 0x1000 (set_reg A7 nr 0x1000 (set_reg A0 a0 0x1000 (set_reg A1 a1 0x1000
       ((\<lambda>_. 0)(0x200 := 0x41, 0x201 := 10)))))\<rparr>"

lemma example_trap_fields:
  "get_reg CAUSE 0x1000 (ram (example_trap c nr a b)) = c" "get_reg A7 0x1000 (ram (example_trap c nr a b)) = nr"
  "get_reg A0 0x1000 (ram (example_trap c nr a b)) = a" "get_reg A1 0x1000 (ram (example_trap c nr a b)) = b"
  "tx_ready (example_trap c nr a b)" "rx_ready (example_trap c nr a b)" "no_signal (example_trap c nr a b)"
  "uart_thr (example_trap c nr a b) = []" "received (example_trap c nr a b) k = (if k = 0 then 0x41 else 10)"
  "sched_inv (example_trap c nr a b) [] {}"
  using boot_mm_inv[of boot_mm] by (simp_all add: received_def sched_inv_def runqueue_def dlist_def example_task_def example_trap_def example_vms_def irqs.defs example_irqs_fields tx_ready_def rx_ready_def no_signal_def
      order_refl exI[where P = "\<lambda>k. n \<le> k" and x = n for n])

lemma example_buffer: "disjoint_ranges 0x200 2 0x1000 PT_SIZE_ON_STACK" "bytes (ram (example_trap c nr a b)) 0x200 2 = [0x41, 10]"
proof -
  show d: "disjoint_ranges 0x200 2 0x1000 PT_SIZE_ON_STACK" by (simp add: disjoint_ranges_def PT_SIZE_ON_STACK_def)
  have o: "set_reg q v 0x1000 m (0x200 + of_nat i) = m (0x200 + of_nat i)" if "i < 2" for q v m i
    by (rule set_reg_outside[OF disjoint_rangesD[OF d]]) (use that unat_small[of i] in simp)
  show "bytes (ram (example_trap c nr a b)) 0x200 2 = [0x41, 10]"
    using o[of 0] o[of 1] by (simp add: example_trap_def bytes_def upt_rec)
qed

theorem do_traps_write_witness:
  "\<exists>s'. do_traps 0 0 0x1000 (example_trap 8 2 0x200 2) = Inr (Stay, s') \<and> uart_thr s' = [0x41, 13, 10] \<and>
     get_reg A0 0x1000 (ram s') = 2"
  using do_traps_write[where s = "example_trap 8 2 0x200 2" and regs = "0x1000" and buf = "0x200" and n = 2 and f = 0 and r = 0]
  by (auto simp: example_trap_fields example_buffer EXC_SYSCALL_def)

theorem do_traps_read_witness:
  "\<exists>s'. do_traps 0 0 0x1000 (example_trap 8 1 0x200 2) = Inr (Stay, s') \<and> bytes (ram s') 0x200 2 = [0x41, 10] \<and>
     get_reg A0 0x1000 (ram s') = 2"
  using do_traps_read[where s = "example_trap 8 1 0x200 2" and regs = "0x1000" and buf = "0x200" and n = 2 and f = 0 and r = 0]
  by (auto simp: example_trap_fields example_buffer EXC_SYSCALL_def upt_rec)

theorem do_traps_unknown_halts_witness: "do_traps 0 0 0x1000 (example_trap 2 0 0 0) = Inl No_Return"
  by (rule do_traps_unknown_halts) (simp_all add: example_trap_fields EXC_SYSCALL_def EXC_INST_PAGE_FAULT_def
      EXC_LOAD_PAGE_FAULT_def EXC_STORE_PAGE_FAULT_def)

theorem do_traps_stop_witness:
  "\<exists>s'. do_traps 0 0 0x1000 (example_trap 8 6 7 0) = Inr (Stay, s') \<and> get_reg A0 0x1000 (ram s') = - 1"
  using do_traps_stop[where s = "example_trap 8 6 7 0" and regs = "0x1000" and qs = "[]" and L = "{}" and f = 0 and r = 0, OF _ _ _ _ refl]
  by (auto simp: example_trap_fields EXC_SYSCALL_def)

section \<open>Fresh chunks\<close>

lemma kmalloc_fresh:
  assumes m: "mm_inv h L" and sz: "0 < sz" and k: "kmalloc sz h = Inr (a, h')"
  shows "\<exists>n. unat sz \<le> n \<and> a \<notin> fst ` L \<and> mm_inv h' (insert (a, n) L) \<and>
    (\<forall>p \<in> fst ` L. dm_page p \<longrightarrow> refcount (mem_map h' (virt_to_page p)) = refcount (mem_map h (virt_to_page p)))"
proof -
  obtain n where n: "unat sz \<le> n" "(a, n) \<notin> L" "mm_inv h' (insert (a, n) L)" using kmalloc_chunk[OF m sz k] by blast
  have "a \<notin> fst ` L"
  proof
    assume "a \<in> fst ` L"
    then obtain j where j: "(a, j) \<in> L" by auto
    then have "j = n" using ha.same_address[OF n(3), of a j n] by simp
    then show False using j n(2) by simp
  qed
  then show ?thesis using n kmalloc_refcount[OF m k] by blast
qed

lemma chunks_apart:
  assumes m: "mm_inv h L" and c: "(c, k) \<in> L" "unat (x - c) < k" and a: "(a, n) \<in> L" "c \<noteq> a"
  shows "n \<le> unat (x - a)"
proof (rule ccontr)
  assume f: "\<not> n \<le> unat (x - a)"
  have "chunk_bytes (c, k) \<inter> chunk_bytes (a, n) = {}" using ha.chunks_disjoint[OF m c(1) a(1)] a(2) by blast
  then show False using chunk_byte[OF m c] chunk_byte[OF m a(1), of x] f by auto
qed

lemma held_apart:
  assumes "held L T x" and "mm_inv h (insert (a, n) L)" and "a \<notin> fst ` L"
  shows "n \<le> unat (x - a)"
proof -
  obtain c k where c: "(c, k) \<in> L" "unat (x - c) < k" using assms(1) by (auto simp: held_def)
  have "c \<noteq> a" using c(1) assms(3) by force
  then show ?thesis using chunks_apart[OF assms(2) _ c(2), of a n] c(1) by simp
qed

text \<open>A range inside a chunk does not start within the source of a copy in another one.\<close>

lemma range_apart:
  assumes m: "mm_inv h L" and c: "(c, k) \<in> L" "unat (src - c) + n \<le> k" and a: "(a, j) \<in> L" "c \<noteq> a" "0 < j"
  shows "n \<le> unat (a - src)"
proof (rule ccontr)
  assume f: "\<not> n \<le> unat (a - src)"
  have "unat (a - c) = unat ((a - src) + (src - c))" by simp
  also have "\<dots> \<le> unat (a - src) + unat (src - c)" unfolding unat_plus_if' by simp
  finally have "unat (a - c) < k" using f c(2) by linarith
  from chunks_apart[OF m c(1) this a(1,2)] show False using a(3) by simp
qed

text \<open>An address space under writes to other memory in use.\<close>

lemma as_inv_kept:
  assumes a: "as_inv s pg lv L" and m: "mm_inv (heap s') L'" "L \<subseteq> L'" and k: "\<And>x. held L {} x \<Longrightarrow> ram s' x = ram s x"
  shows "as_inv s' pg lv L'" and "user va \<Longrightarrow> lookup (ram s') pg va = lookup (ram s) pg va"
proof -
  note d = as_invD[OF a]
  have "ram s' x = ram s x" if "l \<le> 2" "t \<in> lv l" "unat (x - t) < 4096" for l t x
    by (rule k) (use that d(6)[OF that(1,2)] in \<open>auto simp: held_def\<close>)
  note f = ptab_frame[OF d(2) this]
  have "(t, 4096) \<in> L'" if "l \<le> 2" "t \<in> lv l" for l t using d(6)[OF that] m(2) by (rule subsetD[rotated])
  then show "as_inv s' pg lv L'" using f(1) m(1) d(3) by (simp add: as_inv_def)
  show "user va \<Longrightarrow> lookup (ram s') pg va = lookup (ram s) pg va"
    using f(3)[where l = 2 and t = pg and va = va] d(3) by (simp add: lookup_def)
qed

lemma as_inv_chunk_write:
  assumes a: "as_inv s pg lv L" and h: "heap s' = heap s" and c: "(c, n) \<in> L" "c \<notin> tables lv"
    and k: "\<And>x. n \<le> unat (x - c) \<Longrightarrow> ram s' x = ram s x"
  shows "as_inv s' pg lv L" and "user va \<Longrightarrow> lookup (ram s') pg va = lookup (ram s) pg va"
proof -
  note d = as_invD[OF a]
  have "ram s' x = ram s x" if t: "l \<le> 2" "t \<in> lv l" "unat (x - t) < 4096" for l t x
  proof (rule k, rule chunks_apart[OF d(1) d(6)[OF t(1,2)] t(3) c(1)])
    show "t \<noteq> c" using d(5)[OF t(1,2)] c(2) by blast
  qed
  note f = ptab_frame[OF d(2) this]
  show "as_inv s' pg lv L" using f(1) d(1,3,6) h by (simp add: as_inv_def)
  show "user va \<Longrightarrow> lookup (ram s') pg va = lookup (ram s) pg va"
    using f(3)[where l = 2 and t = pg and va = va] d(3) by (simp add: lookup_def)
qed

section \<open>A new task\<close>

text \<open>The state after \<open>kthread_create\<close>, and the memory it has taken.\<close>

definition created :: "u64 \<Rightarrow> u64 \<Rightarrow> u64 \<Rightarrow> u64 \<Rightarrow> mm \<Rightarrow> mem \<Rightarrow> 'z sched_scheme \<Rightarrow> 'z sched_scheme" where
  "created fn t stk pg h m s = s\<lparr>nr_threads := nr_threads s + 1,
     vma_links := INIT_LIST_HEAD (MmapHead t) (vma_links s), heap := h, ram := m,
     tasks := (tasks s)(t := (tasks s t)
       \<lparr>pid := scast (nr_threads s), tstate := TASK_RUNNING, stack := stk,
        thread := (thread (tasks s t))\<lparr>th_ra := fn, th_sp := stk + of_nat STACK_SIZE\<rparr>,
        kernel_sp := stk + of_nat STACK_SIZE, pgd := pg, sighand := (\<lambda>_. SIG_DFL), blocked := 0, pending := 0\<rparr>),
     run_links := list_add_tail (TaskList t) RunQueue (run_links s)\<rparr>"

definition page_copied :: "u64 \<Rightarrow> u64 \<Rightarrow> nat \<Rightarrow> mem \<Rightarrow> mem" where
  "page_copied dst src n m = (\<lambda>x. if unat (x - dst) < n then m (src + (x - dst)) else m x)"

lemma memcpy_copied:
  "n < 2 ^ 64 \<Longrightarrow> n \<le> unat (dst - src) \<Longrightarrow> memcpy m dst src (int n) = Some (dst, page_copied dst src n m)"
  using memcpy_loop_bytes[of n dst src m] by (simp add: memcpy_def page_copied_def)

text \<open>The kernel's page table lies in memory that is in use and maps no user address.\<close>

definition kernel_table :: "'z sched_scheme \<Rightarrow> chunk set \<Rightarrow> bool" where
  "kernel_table s L \<longleftrightarrow> page_in L (pg_dir s) \<and>
     (\<forall>i < 256. load64 (ram s) (ent (pg_dir s) i) = 0)"

lemma kthread_create_fresh:
  assumes m: "mm_inv (heap s) L" and p: "plenty (Suc (Suc (Suc n))) (heap s)" and k: "kernel_table s L"
  shows "\<exists>t stk pg h k j. kthread_create fn s = Inr (t, created fn t stk pg h (page_copied pg (pg_dir s) PAGE_SIZE (ram s)) s) \<and>
    SIZEOF_TASK \<le> k \<and> STACK_SIZE \<le> j \<and> mm_inv h (insert (pg, 4096) (insert (stk, j) (insert (t, k) L))) \<and>
    t \<notin> fst ` L \<and> stk \<notin> fst ` insert (t, k) L \<and> pg \<notin> fst ` insert (stk, j) (insert (t, k) L) \<and> dm_page pg \<and> plenty n h \<and>
    (\<forall>p \<in> fst ` L. dm_page p \<longrightarrow> refcount (mem_map h (virt_to_page p)) = refcount (mem_map (heap s) (virt_to_page p)))"
proof -
  obtain t h1 where 1: "kmalloc (of_nat SIZEOF_TASK) (heap s) = Inr (t, h1)" "plenty (Suc (Suc n)) h1"
    by (rule plenty_kmalloc[OF p task_sizes(1,2)])
  obtain stk h2 where 2: "kmalloc (of_nat STACK_SIZE) h1 = Inr (stk, h2)" "plenty (Suc n) h2"
    by (rule plenty_kmalloc[OF 1(2) task_sizes(3,4)])
  obtain pg h3 where 3: "kmalloc (of_nat PAGE_SIZE) h2 = Inr (pg, h3)" "plenty n h3"
    by (rule plenty_kmalloc[OF 2(2) task_sizes(5,6)])
  have u: "unat (of_nat SIZEOF_TASK :: u32) = SIZEOF_TASK" "unat (of_nat STACK_SIZE :: u32) = STACK_SIZE"
    by (simp_all add: SIZEOF_TASK_def STACK_SIZE_def)
  obtain k where k1: "SIZEOF_TASK \<le> k" "t \<notin> fst ` L" "mm_inv h1 (insert (t, k) L)"
    "\<forall>p \<in> fst ` L. dm_page p \<longrightarrow> refcount (mem_map h1 (virt_to_page p)) = refcount (mem_map (heap s) (virt_to_page p))"
    using kmalloc_fresh[OF m task_sizes(1) 1(1)] unfolding u by blast
  obtain j where k2: "STACK_SIZE \<le> j" "stk \<notin> fst ` insert (t, k) L" "mm_inv h2 (insert (stk, j) (insert (t, k) L))"
    "\<forall>p \<in> fst ` insert (t, k) L. dm_page p \<longrightarrow> refcount (mem_map h2 (virt_to_page p)) = refcount (mem_map h1 (virt_to_page p))"
    using kmalloc_fresh[OF k1(3) task_sizes(3) 2(1)] unfolding u by blast
  note k3 = kmalloc_page[OF k2(3) 3(1)]
  obtain c n where c: "(c, n) \<in> L" "unat (pg_dir s - c) + PAGE_SIZE \<le> n" using k by (auto simp: kernel_table_def page_in_def)
  have "c \<noteq> pg" using c(1) k3(2) by force
  then have "PAGE_SIZE \<le> unat (pg - pg_dir s)"
    using range_apart[OF k3(3), of c n "pg_dir s" PAGE_SIZE pg 4096] c by simp
  then have mc: "memcpy (ram s) pg (pg_dir s) (int PAGE_SIZE) = Some (pg, page_copied pg (pg_dir s) PAGE_SIZE (ram s))"
    by (intro memcpy_copied) (simp_all add: PAGE_SIZE_def)
  have "kthread_create fn s = Inr (t, created fn t stk pg h3 (page_copied pg (pg_dir s) PAGE_SIZE (ram s)) s)"
    using 1(1) 2(1) 3(1) mc by (simp add: kthread_create_def created_def Let_def upd_task_def)
  moreover have "refcount (mem_map h3 (virt_to_page p)) = refcount (mem_map (heap s) (virt_to_page p))"
    if pp: "p \<in> fst ` L" "dm_page p" for p
  proof -
    have "p \<noteq> pg" using pp(1) k3(2) by auto
    then have "virt_to_page p \<noteq> virt_to_page pg" using dm_page_inj[OF pp(2) k3(1)] by blast
    moreover have "p \<in> fst ` insert (t, k) L" using pp(1) by auto
    ultimately show ?thesis using k3(5) bspec[OF k1(4) pp(1)] bspec[OF k2(4)] pp(2) by simp
  qed
  ultimately show ?thesis using k1(1,2) k2(1,2) k3(1-3) 3(2)
    by (intro exI[of _ t] exI[of _ stk] exI[of _ pg] exI[of _ h3] exI[of _ k] exI[of _ j]) simp
qed

section \<open>Fork\<close>

text \<open>A task with an address space, whose frame of registers lies on its stack, and a heap that suffices.\<close>

definition forkable :: "'z vms_scheme \<Rightarrow> u64 \<Rightarrow> u64 list \<Rightarrow> u64 list \<Rightarrow> (nat \<Rightarrow> u64 set) \<Rightarrow> chunk set \<Rightarrow> bool" where
  "forkable s regs q vs lv L \<longleftrightarrow>
     sched_inv s q L \<and> tp s \<in> set q \<and> unat (nr_threads s) + 1 < 2 ^ 31 \<and>
     as_inv s (pgd (tasks s (tp s))) lv L \<and> areas s (tp s) vs \<and> set vs \<subseteq> fst ` L \<and>
     (\<forall>v \<in> set vs. vm_mm (vma_mem s v) = tp s \<and> user_area (vma_mem s v)) \<and>
     (\<exists>n \<ge> STACK_SIZE. (stack (tasks s (tp s)), n) \<in> L) \<and> stack (tasks s (tp s)) \<notin> tables lv \<and>
     unat (regs - stack (tasks s (tp s))) + PT_SIZE_ON_STACK \<le> STACK_SIZE \<and>
     kernel_table s L \<and> plenty (Suc (Suc (Suc (areas_cost s vs)))) (heap s)"

lemma created_fields [simp]:
  "tp (created fn t stk pg h m s) = tp s" "heap (created fn t stk pg h m s) = h" "ram (created fn t stk pg h m s) = m"
  "nr_threads (created fn t stk pg h m s) = nr_threads s + 1"
  "tasks (created fn t stk pg h m s) u = (if u = t then (tasks s t)
       \<lparr>pid := scast (nr_threads s), tstate := TASK_RUNNING, stack := stk,
        thread := (thread (tasks s t))\<lparr>th_ra := fn, th_sp := stk + of_nat STACK_SIZE\<rparr>,
        kernel_sp := stk + of_nat STACK_SIZE, pgd := pg, sighand := (\<lambda>_. SIG_DFL), blocked := 0, pending := 0\<rparr> else tasks s u)"
  "vma_links (created fn t stk pg h m s) = INIT_LIST_HEAD (MmapHead t) (vma_links s)"
  by (simp_all add: created_def)

lemma created_vma_mem [simp]: "vma_mem (created fn t stk pg h m s) = vma_mem s"
  by (simp add: created_def)

text \<open>The address spaces when \<open>dup_mmap\<close> begins: the new task has its stack and an empty page table.\<close>

definition fork_mem :: "u64 \<Rightarrow> u64 \<Rightarrow> 'z sched_scheme \<Rightarrow> u64 \<Rightarrow> mem" where
  "fork_mem stk pg s pst = page_copied stk pst STACK_SIZE (page_copied pg (pg_dir s) PAGE_SIZE (ram s))"

lemma page_copied_outside: "n \<le> unat (x - d) \<Longrightarrow> page_copied d s n m x = m x"
  by (simp add: page_copied_def)

lemma page_copied_inside: "i < n \<Longrightarrow> n < 2 ^ 64 \<Longrightarrow> page_copied d s n m (d + of_nat i) = m (s + of_nat i)"
  using unat_small[of i] by (simp add: page_copied_def)

lemma fork_spaces_ready:
  fixes s :: "'z vms_scheme" and mi :: mem
  assumes f: "forkable s regs q vs lv L" and m: "mm_inv h (insert (pg, 4096) (insert (stk, j) (insert (t, k) L)))"
    and fr: "t \<notin> fst ` L" "stk \<notin> fst ` insert (t, k) L" "pg \<notin> fst ` insert (stk, j) (insert (t, k) L)"
    and d: "dm_page pg" and j: "STACK_SIZE \<le> j" and pl: "plenty (areas_cost s vs) h"
  defines "s3 \<equiv> (created 0 t stk pg h mi s)\<lparr>ram := fork_mem stk pg s (stack (tasks s (tp s)))\<rparr>"
    and "L3 \<equiv> insert (pg, 4096) (insert (stk, j) (insert (t, k) L))"
  shows "fork_spaces s3 (tp s) t vs lv L3" and "\<And>x. held L {} x \<Longrightarrow> ram s3 x = ram s x"
    and "STACK_SIZE \<le> unat (stk - stack (tasks s (tp s)))"
    and "user va \<Longrightarrow> lookup (ram s3) (pgd (tasks s (tp s))) va = lookup (ram s) (pgd (tasks s (tp s))) va"
proof -
  let ?P = "tp s" and ?pst = "stack (tasks s (tp s))"
  have i: "sched_inv s q L" "?P \<in> set q" "as_inv s (pgd (tasks s ?P)) lv L" "areas s ?P vs" "set vs \<subseteq> fst ` L"
    "\<forall>v \<in> set vs. vm_mm (vma_mem s v) = ?P \<and> user_area (vma_mem s v)" "?pst \<notin> tables lv" "kernel_table s L"
    using f by (simp_all add: forkable_def)
  obtain n where n: "STACK_SIZE \<le> n" "(?pst, n) \<in> L" using f by (auto simp: forkable_def)
  have tP: "t \<noteq> ?P" using i(1,2) fr(1) unfolding sched_inv_def by force
  have ss: "stk \<noteq> ?pst" using n(2) fr(2) by force
  have L3: "mm_inv h L3" "L \<subseteq> L3" "(stk, j) \<in> L3" "(pg, 4096) \<in> L3" using m by (auto simp: L3_def)
  have jp: "0 < j" using j by (simp add: STACK_SIZE_def)
  show ap: "STACK_SIZE \<le> unat (stk - ?pst)"
    by (rule range_apart[OF L3(1) _ _ L3(3) ss[symmetric] jp, where k = n]) (use n L3(2) in auto)
  show kept: "ram s3 x = ram s x" if x: "held L {} x" for x
  proof -
    obtain c b where c: "(c, b) \<in> L" "unat (x - c) < b" using x by (auto simp: held_def)
    have "c \<noteq> stk" "c \<noteq> pg" using c(1) fr by force+
    then have "j \<le> unat (x - stk)" "4096 \<le> unat (x - pg)"
      using chunks_apart[OF L3(1) _ c(2) L3(3)] chunks_apart[OF L3(1) _ c(2) L3(4)] c(1) L3(2) by blast+
    then show ?thesis using j page_copied_outside by (simp add: s3_def fork_mem_def PAGE_SIZE_def)
  qed
  have m3: "mm_inv (heap s3) L3" using L3(1) by (simp add: s3_def)
  note a3 = as_inv_kept[OF i(3) m3 L3(2) kept]
  show "user va \<Longrightarrow> lookup (ram s3) (pgd (tasks s ?P)) va = lookup (ram s) (pgd (tasks s ?P)) va" by (rule a3(2))
  have z: "load64 (ram s3) (ent pg b) = 0" if b: "b < 256" for b
  proof -
    have "ram s3 (ent pg b + of_nat l) = ram s (ent (pg_dir s) b + of_nat l)" if l: "l < 8" for l
    proof -
      have e: "8 * b + l < PAGE_SIZE" "ent pg b + of_nat l = pg + of_nat (8 * b + l)"
        "ent (pg_dir s) b + of_nat l = pg_dir s + of_nat (8 * b + l)" using b l by (simp_all add: PAGE_SIZE_def ent_def)
      have "unat (pg + of_nat (8 * b + l) - pg) < 4096" using unat_small[of "8 * b + l"] e(1) by (simp add: PAGE_SIZE_def)
      moreover have "pg \<noteq> stk" using fr(3) by simp
      ultimately have "j \<le> unat (pg + of_nat (8 * b + l) - stk)" by (intro chunks_apart[OF L3(1,4) _ L3(3)])
      then show ?thesis unfolding e(2,3) s3_def fork_mem_def
        using j page_copied_outside page_copied_inside[OF e(1)] by (simp add: PAGE_SIZE_def)
    qed
    then have "load64 (ram s3) (ent pg b) = load64 (ram s) (ent (pg_dir s) b)" by (rule load64_cong)
    then show ?thesis using i(8) b by (simp add: kernel_table_def)
  qed
  have pt: "pg \<notin> tables lv" using as_invD(4)[OF i(3)] fr(3) by force
  have "dlist (vma_links s3) (MmapHead ?P) (map VmaList vs)"
    using i(4) tP by (subst dlist_cong[where h = "vma_links s"]) (auto simp: s3_def areas_def intro: list_head_eqI)
  moreover have "dlist (vma_links s3) (MmapHead t) []" using dlist_init[of "MmapHead t" "vma_links s"] by (simp add: s3_def)
  ultimately have "rings {MmapHead ?P, MmapHead t} (vma_links s3) (fork_rings ?P t vs [])"
    using tP by (auto simp: rings_def fork_rings_def)
  moreover have "fst ` L \<subseteq> fst ` L3" using L3(2) by blast
  then have "set vs \<subseteq> fst ` L3" using i(5) by blast
  ultimately have "fork_ready s3 ?P t vs L3" using i(6) tP by (simp add: fork_ready_def s3_def)
  moreover have "areas_cost s3 vs = areas_cost s vs" by (simp add: areas_cost_def s3_def)
  ultimately show "fork_spaces s3 ?P t vs lv L3"
    unfolding fork_spaces_def using a3(1) tP L3(4) d pt z pl by (simp add: s3_def)
qed

lemma sched_inv_cong:
  assumes "sched_inv s q L" and "run_links s' = run_links s" and "nr_threads s' = nr_threads s"
    and "\<And>t. pid (tasks s' t) = pid (tasks s t)" and "mm_inv (heap s') L'" and "\<forall>t \<in> set q. \<exists>n \<ge> SIZEOF_TASK. (t, n) \<in> L'"
  shows "sched_inv s' q L'"
  using assms by (simp add: sched_inv_def runqueue_def)

lemma frame_bytes:
  fixes regs a :: u64
  assumes "i < PT_SIZE_ON_STACK" and "unat (regs - a) + PT_SIZE_ON_STACK \<le> n" and "n < 2 ^ 64"
  shows "unat (regs + of_nat i - a) < n"
proof -
  have i: "unat (of_nat i :: u64) = i" using assms by (intro unat_small) linarith
  have e: "regs + of_nat i - a = (regs - a) + of_nat i" by simp
  have "unat (regs - a) + unat (of_nat i :: u64) < 2 ^ 64" using assms i by simp
  then have "unat (regs + of_nat i - a) = unat (regs - a) + i" unfolding e unat_plus_if' by (simp add: i)
  then show ?thesis using assms by linarith
qed

text \<open>The last steps of \<open>sys_fork\<close>, on the frame of the new task.\<close>

lemma sys_fork_runs:
  fixes s :: "'z vms_scheme" and t stk regs :: u64
  assumes k: "kthread_create 0 (s\<lparr>sie := False\<rparr>) = Inr (t, created 0 t stk pg h m0 (s\<lparr>sie := False\<rparr>))"
    and t: "t \<noteq> tp s" and ap: "STACK_SIZE \<le> unat (stk - stack (tasks s (tp s)))"
  defines "s3 \<equiv> (created 0 t stk pg h m0 (s\<lparr>sie := False\<rparr>))\<lparr>ram := page_copied stk (stack (tasks s (tp s))) STACK_SIZE m0\<rparr>"
    and "cregs \<equiv> stk + (regs - stack (tasks s (tp s)))"
  assumes d: "dup_mmap t (tp s) s3 = Inr s4" and r: "s4 = s3\<lparr>heap := h4, ram := m4, vma_mem := vm, vma_links := lk\<rparr>"
  shows "\<exists>s'. sys_fork ret regs s = Inr (scast (nr_threads s), s') \<and> heap s' = h4 \<and> ram s' = set_reg A0 0 cregs m4 \<and>
    run_links s' = run_links s3 \<and> nr_threads s' = nr_threads s3 \<and> tp s' = tp s \<and> sie s' \<and>
    (\<forall>u. pid (tasks s' u) = pid (tasks s3 u) \<and> tstate (tasks s' u) = tstate (tasks s3 u) \<and> pgd (tasks s' u) = pgd (tasks s3 u)) \<and>
    th_ra (thread (tasks s' t)) = ret \<and> th_sp (thread (tasks s' t)) = cregs \<and>
    (\<forall>i < NSIG. sighand (tasks s' t) i = sighand (tasks s (tp s)) i)"
proof -
  have mc: "memcpy m0 stk (stack (tasks s (tp s))) (int STACK_SIZE) = Some (stk, page_copied stk (stack (tasks s (tp s))) STACK_SIZE m0)"
    by (rule memcpy_copied[OF _ ap]) (simp add: STACK_SIZE_def)
  show ?thesis
    using k mc d t unfolding sys_fork_def Let_def disable_interrupt_def enable_interrupt_def get_current_def s3_def
    by (simp add: r s3_def upd_task_def upd_ram_def cregs_def)
qed

text \<open>The two frames after the copy of the stack and of the address space.\<close>

lemma get_reg_bytes:
  assumes "\<And>i. i < PT_SIZE_ON_STACK \<Longrightarrow> m' (a + of_nat i) = m (b + of_nat i)"
  shows "get_reg r a m' = get_reg r b m"
  unfolding get_reg_def
proof (rule load64_cong)
  fix i :: nat assume "i < 8"
  then have "PT r + i < PT_SIZE_ON_STACK" using PT_bound[of r] by linarith
  from assms[OF this] show "m' (a + of_nat (PT r) + of_nat i) = m (b + of_nat (PT r) + of_nat i)" by (simp add: add.assoc)
qed

lemma fork_frames:
  fixes regs stk pst :: u64
  assumes inv: "mm_inv h L" and S: "(stk, j) \<in> L" "STACK_SIZE \<le> j" "stk \<notin> T" and P: "(pst, k) \<in> L" "STACK_SIZE \<le> k" "pst \<notin> T"
    and pg: "(pg, 4096) \<in> L" "pg \<in> T" and ne: "pst \<noteq> stk" and rg: "unat (regs - pst) + PT_SIZE_ON_STACK \<le> STACK_SIZE"
    and keep: "\<And>x. held L T x \<Longrightarrow> m4 x = page_copied stk pst STACK_SIZE (page_copied pg src PAGE_SIZE m) x"
  defines "c \<equiv> stk + (regs - pst)"
  shows "get_reg r c (set_reg A0 0 c m4) = (if r = A0 then 0 else get_reg r regs m)"
    and "get_reg r regs (set_reg A0 0 c m4) = get_reg r regs m"
    and "j \<le> unat (x - stk) \<Longrightarrow> set_reg A0 0 c m4 x = m4 x"
proof -
  let ?m0 = "page_copied pg src PAGE_SIZE m"
  have off: "c + of_nat i - stk = regs + of_nat i - pst" for i by (simp add: c_def)
  have inr: "unat (regs + of_nat i - pst) < STACK_SIZE" if "i < PT_SIZE_ON_STACK" for i
    by (rule frame_bytes[OF that rg]) (simp add: STACK_SIZE_def)
  have par: "?m0 (regs + of_nat i) = m (regs + of_nat i)" "m4 (regs + of_nat i) = m (regs + of_nat i)"
    "j \<le> unat (regs + of_nat i - stk)" if i: "i < PT_SIZE_ON_STACK" for i
  proof -
    have b: "unat (regs + of_nat i - pst) < k" using inr[OF i] P(2) by linarith
    have "pst \<noteq> pg" using P(3) pg(2) by blast
    then have "4096 \<le> unat (regs + of_nat i - pg)" by (rule chunks_apart[OF inv P(1) b pg(1)])
    then show m0: "?m0 (regs + of_nat i) = m (regs + of_nat i)" by (intro page_copied_outside) (simp add: PAGE_SIZE_def)
    show j: "j \<le> unat (regs + of_nat i - stk)" by (rule chunks_apart[OF inv P(1) b S(1) ne])
    have "held L T (regs + of_nat i)" using P(1,3) b unfolding held_def by blast
    then show "m4 (regs + of_nat i) = m (regs + of_nat i)" using keep m0 j S(2) page_copied_outside by simp
  qed
  have outside: "PT_SIZE_ON_STACK \<le> unat (x - c)" if x: "j \<le> unat (x - stk)" for x
  proof (rule ccontr)
    assume n: "\<not> PT_SIZE_ON_STACK \<le> unat (x - c)"
    have "c + of_nat (unat (x - c)) = x" by simp
    then have "unat (x - stk) < STACK_SIZE" using inr[of "unat (x - c)"] off[of "unat (x - c)"] n by (simp only: not_le)
    then show False using x S(2) by linarith
  qed
  have chd: "m4 (c + of_nat i) = m (regs + of_nat i)" if i: "i < PT_SIZE_ON_STACK" for i
  proof -
    have b: "unat (c + of_nat i - stk) < STACK_SIZE" using inr[OF i] by (simp only: off)
    then have "unat (c + of_nat i - stk) < j" using S(2) by linarith
    then have "held L T (c + of_nat i)" using S(1,3) unfolding held_def by blast
    then have "m4 (c + of_nat i) = ?m0 (pst + (c + of_nat i - stk))" using keep b by (simp add: page_copied_def)
    also have "pst + (c + of_nat i - stk) = regs + of_nat i" by (simp only: off) simp
    finally show ?thesis using par(1)[OF i] by simp
  qed
  show "get_reg r c (set_reg A0 0 c m4) = (if r = A0 then 0 else get_reg r regs m)"
    using get_reg_bytes[of m4 c m regs r] chd by simp
  show w: "set_reg A0 0 c m4 x = m4 x" if "j \<le> unat (x - stk)" for x by (rule set_reg_outside[OF outside[OF that]])
  show "get_reg r regs (set_reg A0 0 c m4) = get_reg r regs m" by (rule get_reg_bytes) (simp only: w par)
qed

text \<open>The state in which \<open>sys_fork\<close> calls \<open>dup_mmap\<close>: interrupts are off, the child exists and has a copy of the stack.\<close>

definition forked :: "u64 \<Rightarrow> u64 \<Rightarrow> u64 \<Rightarrow> mm \<Rightarrow> 'z vms_scheme \<Rightarrow> 'z vms_scheme" where
  "forked t stk pg h s = (let m = page_copied pg (pg_dir s) PAGE_SIZE (ram s)
     in (created 0 t stk pg h m (s\<lparr>sie := False\<rparr>))\<lparr>ram := page_copied stk (stack (tasks s (tp s))) STACK_SIZE m\<rparr>)"

lemma sys_fork_spaces:
  fixes s :: "'z vms_scheme"
  assumes f: "forkable s regs q vs lv L"
  defines "pgS \<equiv> pgd (tasks s (tp s))"
  obtains t stk pg h k j s4 h4 m4 vm lk lv' L' where
    "kthread_create 0 (s\<lparr>sie := False\<rparr>) = Inr (t, created 0 t stk pg h (page_copied pg (pg_dir s) PAGE_SIZE (ram s)) (s\<lparr>sie := False\<rparr>))"
    "SIZEOF_TASK \<le> k" "STACK_SIZE \<le> j" "mm_inv h (insert (pg, 4096) (insert (stk, j) (insert (t, k) L)))"
    "t \<notin> fst ` L" "stk \<notin> fst ` insert (t, k) L" "pg \<notin> fst ` insert (stk, j) (insert (t, k) L)"
    and "STACK_SIZE \<le> unat (stk - stack (tasks s (tp s)))" "t \<noteq> tp s"
    and "dup_mmap t (tp s) (forked t stk pg h s) = Inr s4"
    "s4 = (forked t stk pg h s)\<lparr>heap := h4, ram := m4, vma_mem := vm, vma_links := lk\<rparr>"
    "as_inv s4 pgS lv L'" "as_inv s4 pg lv' L'" "insert (pg, 4096) (insert (stk, j) (insert (t, k) L)) \<subseteq> L'"
    "\<forall>va. user va \<longrightarrow>
       lookup m4 pgS va = (if page_no va \<in> areas_pages s vs then lookup (ram s) pgS va AND NOT PAGE_WRITE else lookup (ram s) pgS va) \<and>
       lookup m4 pg va = (if page_no va \<in> areas_pages s vs then lookup (ram s) pgS va AND NOT PAGE_WRITE else 0)"
    "\<forall>x. held (insert (pg, 4096) (insert (stk, j) (insert (t, k) L))) (insert pg (tables lv)) x \<longrightarrow> m4 x = ram (forked t stk pg h s) x"
    "tables lv' \<inter> fst ` insert (pg, 4096) (insert (stk, j) (insert (t, k) L)) \<subseteq> {pg}"
proof -
  let ?s1 = "s\<lparr>sie := False\<rparr>" and ?pst = "stack (tasks s (tp s))"
  have si: "sched_inv s q L" "tp s \<in> set q" "unat (nr_threads s) + 1 < 2 ^ 31" "kernel_table s L"
    and pl: "plenty (Suc (Suc (Suc (areas_cost s vs)))) (heap s)"
    using f by (simp_all add: forkable_def pgS_def)
  have f1: "forkable ?s1 regs q vs lv L"
    using f unfolding forkable_def sched_inv_def kernel_table_def as_inv_def areas_def areas_cost_def by (simp add: runqueue_def)
  have i1: "mm_inv (heap ?s1) L" "plenty (Suc (Suc (Suc (areas_cost s vs)))) (heap ?s1)" "kernel_table ?s1 L"
    using si pl by (simp_all add: sched_inv_def kernel_table_def)
  obtain t stk pg h k j where c: "kthread_create 0 ?s1 = Inr (t, created 0 t stk pg h (page_copied pg (pg_dir s) PAGE_SIZE (ram s)) ?s1)"
    "SIZEOF_TASK \<le> k" "STACK_SIZE \<le> j" "mm_inv h (insert (pg, 4096) (insert (stk, j) (insert (t, k) L)))"
    "t \<notin> fst ` L" "stk \<notin> fst ` insert (t, k) L" "pg \<notin> fst ` insert (stk, j) (insert (t, k) L)" "dm_page pg"
    "plenty (areas_cost s vs) h"
    using kthread_create_fresh[OF i1, of 0] by auto
  let ?m0 = "page_copied pg (pg_dir s) PAGE_SIZE (ram s)" and ?L3 = "insert (pg, 4096) (insert (stk, j) (insert (t, k) L))"
  let ?s3 = "forked t stk pg h s"
  have s3: "?s3 = (created 0 t stk pg h ?m0 ?s1)\<lparr>ram := page_copied stk ?pst STACK_SIZE ?m0\<rparr>" by (simp add: forked_def Let_def)
  have cost: "plenty (areas_cost ?s1 vs) h" using c(9) by (simp add: areas_cost_def)
  have sp: "fork_spaces ?s3 (tp s) t vs lv ?L3" using fork_spaces_ready(1)[where mi = ?m0, OF f1 c(4-8,3) cost] unfolding s3 by (simp add: fork_mem_def)
  have ap: "STACK_SIZE \<le> unat (stk - ?pst)" using fork_spaces_ready(3)[OF f1 c(4-8,3) cost] by simp
  have lk3: "lookup (ram ?s3) pgS va = lookup (ram s) pgS va" if "user va" for va using fork_spaces_ready(4)[where mi = ?m0, OF f1 c(4-8,3) cost that] unfolding s3 by (simp add: fork_mem_def pgS_def)
  have tP: "t \<noteq> tp s" using si(1,2) c(5) unfolding sched_inv_def by force
  have pd: "pgd (tasks ?s3 (tp s)) = pgS" "pgd (tasks ?s3 t) = pg" using tP by (simp_all add: pgS_def s3)
  have ap3: "areas_pages ?s3 vs = areas_pages s vs" by (simp add: areas_pages_def s3)
  obtain s4 h4 m4 vm lk lv' L' where d: "dup_mmap t (tp s) ?s3 = Inr s4"
    "s4 = ?s3\<lparr>heap := h4, ram := m4, vma_mem := vm, vma_links := lk\<rparr>"
    "as_inv s4 pgS lv L'" "as_inv s4 pg lv' L'" "?L3 \<subseteq> L'"
    "\<forall>va. user va \<longrightarrow>
       lookup m4 pgS va = (if page_no va \<in> areas_pages s vs then lookup (ram ?s3) pgS va AND NOT PAGE_WRITE else lookup (ram ?s3) pgS va) \<and>
       lookup m4 pg va = (if page_no va \<in> areas_pages s vs then lookup (ram ?s3) pgS va AND NOT PAGE_WRITE else 0)"
    "\<forall>x. held ?L3 (insert pg (tables lv)) x \<longrightarrow> m4 x = ram ?s3 x" "tables lv' \<inter> fst ` ?L3 \<subseteq> {pg}"
  proof -
    note r = dup_mmap_result[OF sp, unfolded pd ap3]
    show thesis using r by (elim exE conjE) (rule that, (assumption | simp)+)
  qed
  have lk4: "\<forall>va. user va \<longrightarrow>
       lookup m4 pgS va = (if page_no va \<in> areas_pages s vs then lookup (ram s) pgS va AND NOT PAGE_WRITE else lookup (ram s) pgS va) \<and>
       lookup m4 pg va = (if page_no va \<in> areas_pages s vs then lookup (ram s) pgS va AND NOT PAGE_WRITE else 0)"
    using d(6) lk3 by simp
  show thesis by (rule that[OF c(1-7) ap tP d(1-5) lk4 d(7,8)])
qed

lemma sys_fork_memory:
  fixes s :: "'z vms_scheme" and regs stk :: u64
  assumes f: "forkable s regs q vs lv L"
  defines "pgS \<equiv> pgd (tasks s (tp s))" and "c \<equiv> stk + (regs - stack (tasks s (tp s)))"
  assumes SP: "STACK_SIZE \<le> j" "mm_inv h (insert (pg, 4096) (insert (stk, j) (insert (t, k) L)))"
    "stk \<notin> fst ` insert (t, k) L" "pg \<notin> fst ` insert (stk, j) (insert (t, k) L)"
    and d: "s4 = (forked t stk pg h s)\<lparr>heap := h4, ram := m4, vma_mem := vm, vma_links := lk\<rparr>"
    "as_inv s4 pgS lv L'" "as_inv s4 pg lv' L'" "insert (pg, 4096) (insert (stk, j) (insert (t, k) L)) \<subseteq> L'"
    and keep: "\<forall>x. held (insert (pg, 4096) (insert (stk, j) (insert (t, k) L))) (insert pg (tables lv)) x \<longrightarrow> m4 x = ram (forked t stk pg h s) x"
    and new: "tables lv' \<inter> fst ` insert (pg, 4096) (insert (stk, j) (insert (t, k) L)) \<subseteq> {pg}"
    and s': "heap s' = h4" "ram s' = set_reg A0 0 c m4"
  shows "as_inv s' pgS lv L'" and "as_inv s' pg lv' L'"
    and "user va \<Longrightarrow> lookup (ram s') pgS va = lookup m4 pgS va" and "user va \<Longrightarrow> lookup (ram s') pg va = lookup m4 pg va"
    and "get_reg r c (ram s') = (if r = A0 then 0 else get_reg r regs (ram s))" and "get_reg r regs (ram s') = get_reg r regs (ram s)"
proof -
  let ?pst = "stack (tasks s (tp s))" and ?m0 = "page_copied pg (pg_dir s) PAGE_SIZE (ram s)"
  let ?L3 = "insert (pg, 4096) (insert (stk, j) (insert (t, k) L))"
  have aS: "as_inv s pgS lv L" and rg: "unat (regs - ?pst) + PT_SIZE_ON_STACK \<le> STACK_SIZE" "?pst \<notin> tables lv"
    using f by (simp_all add: forkable_def pgS_def)
  obtain np where np: "STACK_SIZE \<le> np" "(?pst, np) \<in> L" using f by (auto simp: forkable_def)
  have T: "tables lv \<subseteq> fst ` L" using as_invD(4)[OF aS] by force
  have ne: "?pst \<noteq> pg" "?pst \<noteq> stk" "stk \<noteq> pg" using np(2) SP(3,4) by force+
  have st: "stk \<notin> insert pg (tables lv)" "?pst \<notin> insert pg (tables lv)" using T SP(3) ne rg(2) by auto
  have keep': "m4 x = page_copied stk ?pst STACK_SIZE ?m0 x" if "held ?L3 (insert pg (tables lv)) x" for x
    using keep that by (simp add: forked_def Let_def)
  note ff = fork_frames[OF SP(2) _ SP(1) st(1) _ np(1) st(2) _ _ ne(2) rg(1) keep', folded c_def s'(2)]
  show "get_reg r c (ram s') = (if r = A0 then 0 else get_reg r regs (ram s))" by (rule ff(1)) (use np(2) in simp_all)
  show "get_reg r regs (ram s') = get_reg r regs (ram s)" by (rule ff(2)) (use np(2) in simp_all)
  have w: "ram s' x = ram s4 x" if "j \<le> unat (x - stk)" for x using ff(3)[OF _ _ _ _ _ that] np(2) by (simp add: d(1))
  have h: "heap s' = heap s4" and m: "ram s4 = m4" using s'(1) d(1) by simp_all
  have L': "(stk, j) \<in> L'" using d(4) by auto
  have stu: "stk \<notin> tables lv" "stk \<notin> tables lv'" using st(1) new ne(3) by auto
  note wS = as_inv_chunk_write[OF d(2) h L' stu(1) w] and wD = as_inv_chunk_write[OF d(3) h L' stu(2) w]
  show "as_inv s' pgS lv L'" by (rule wS(1))
  show "as_inv s' pg lv' L'" by (rule wD(1))
  show "lookup (ram s') pgS va = lookup m4 pgS va" if "user va" using wS(2)[OF _ that] by (simp only: m)
  show "lookup (ram s') pg va = lookup m4 pg va" if "user va" using wD(2)[OF _ that] by (simp only: m)
qed

text \<open>C15: \<open>fork\<close> returns, in the parent, the pid of a new task at the end of the run queue. The new task will leave the
  exception as the parent does, with the same registers but 0 in \<open>a0\<close>, the same signal handlers, and the same pages:
  each page of the areas is mapped by both tasks to the same frame, without the right to write.\<close>

theorem sys_fork_correct:
  fixes s :: "'z vms_scheme"
  assumes f: "forkable s regs q vs lv L"
  defines "pgS \<equiv> pgd (tasks s (tp s))"
  shows "\<exists>t s' lv' L'. sys_fork ret regs s = Inr (of_nat (unat (nr_threads s)), s') \<and>
    sched_inv s' (q @ [t]) L' \<and> t \<notin> set q \<and> pid (tasks s' t) = of_nat (unat (nr_threads s)) \<and>
    tstate (tasks s' t) = TASK_RUNNING \<and> th_ra (thread (tasks s' t)) = ret \<and>
    (\<forall>r. get_reg r (th_sp (thread (tasks s' t))) (ram s') = (if r = A0 then 0 else get_reg r regs (ram s))) \<and>
    (\<forall>r. get_reg r regs (ram s') = get_reg r regs (ram s)) \<and>
    (\<forall>i < NSIG. sighand (tasks s' t) i = sighand (tasks s (tp s)) i) \<and>
    as_inv s' pgS lv L' \<and> as_inv s' (pgd (tasks s' t)) lv' L' \<and>
    (\<forall>va. user va \<longrightarrow>
       lookup (ram s') pgS va = (if page_no va \<in> areas_pages s vs
         then lookup (ram s) pgS va AND NOT PAGE_WRITE else lookup (ram s) pgS va) \<and>
       lookup (ram s') (pgd (tasks s' t)) va = (if page_no va \<in> areas_pages s vs
         then lookup (ram s) pgS va AND NOT PAGE_WRITE else 0)) \<and>
    tp s' = tp s \<and> sie s'"
proof -
  let ?s1 = "s\<lparr>sie := False\<rparr>" and ?pst = "stack (tasks s (tp s))"
  have si: "sched_inv s q L" "tp s \<in> set q" "unat (nr_threads s) + 1 < 2 ^ 31" and aS: "as_inv s pgS lv L"
    and rg: "unat (regs - ?pst) + PT_SIZE_ON_STACK \<le> STACK_SIZE" "?pst \<notin> tables lv"
    using f by (simp_all add: forkable_def pgS_def)
  obtain np where np: "STACK_SIZE \<le> np" "(?pst, np) \<in> L" using f by (auto simp: forkable_def)
  obtain t stk pg h k j s4 h4 m4 vm lk lv' L' where
    c: "kthread_create 0 ?s1 = Inr (t, created 0 t stk pg h (page_copied pg (pg_dir s) PAGE_SIZE (ram s)) ?s1)"
    "SIZEOF_TASK \<le> k" "STACK_SIZE \<le> j" "mm_inv h (insert (pg, 4096) (insert (stk, j) (insert (t, k) L)))"
    "t \<notin> fst ` L" "stk \<notin> fst ` insert (t, k) L" "pg \<notin> fst ` insert (stk, j) (insert (t, k) L)"
    and ap: "STACK_SIZE \<le> unat (stk - ?pst)" and tP: "t \<noteq> tp s"
    and d: "dup_mmap t (tp s) (forked t stk pg h s) = Inr s4"
    "s4 = (forked t stk pg h s)\<lparr>heap := h4, ram := m4, vma_mem := vm, vma_links := lk\<rparr>"
    "as_inv s4 pgS lv L'" "as_inv s4 pg lv' L'" "insert (pg, 4096) (insert (stk, j) (insert (t, k) L)) \<subseteq> L'"
    "\<forall>va. user va \<longrightarrow>
       lookup m4 pgS va = (if page_no va \<in> areas_pages s vs then lookup (ram s) pgS va AND NOT PAGE_WRITE else lookup (ram s) pgS va) \<and>
       lookup m4 pg va = (if page_no va \<in> areas_pages s vs then lookup (ram s) pgS va AND NOT PAGE_WRITE else 0)"
    "\<forall>x. held (insert (pg, 4096) (insert (stk, j) (insert (t, k) L))) (insert pg (tables lv)) x \<longrightarrow> m4 x = ram (forked t stk pg h s) x"
    "tables lv' \<inter> fst ` insert (pg, 4096) (insert (stk, j) (insert (t, k) L)) \<subseteq> {pg}"
    unfolding pgS_def by (rule sys_fork_spaces[OF f])
  let ?m0 = "page_copied pg (pg_dir s) PAGE_SIZE (ram s)" and ?L3 = "insert (pg, 4096) (insert (stk, j) (insert (t, k) L))"
  let ?s3 = "(created 0 t stk pg h ?m0 ?s1)\<lparr>ram := page_copied stk ?pst STACK_SIZE ?m0\<rparr>"
  have s3: "forked t stk pg h s = ?s3" by (simp add: forked_def Let_def)
  let ?c = "stk + (regs - ?pst)"
  obtain s' where s': "sys_fork ret regs s = Inr (scast (nr_threads s), s')" "heap s' = h4" "ram s' = set_reg A0 0 ?c m4"
    "run_links s' = run_links ?s3" "nr_threads s' = nr_threads ?s3" "tp s' = tp s" "sie s'"
    "\<forall>u. pid (tasks s' u) = pid (tasks ?s3 u) \<and> tstate (tasks s' u) = tstate (tasks ?s3 u) \<and> pgd (tasks s' u) = pgd (tasks ?s3 u)"
    "th_ra (thread (tasks s' t)) = ret" "th_sp (thread (tasks s' t)) = ?c"
    "\<forall>i < NSIG. sighand (tasks s' t) i = sighand (tasks s (tp s)) i"
    using sys_fork_runs[OF c(1) tP ap d(1,2)[unfolded s3], of ret regs] by blast
  have L': "(stk, j) \<in> L'" "L \<subseteq> L'" "(t, k) \<in> L'" using d(5) by auto
  note mem = sys_fork_memory[OF f c(3,4,6,7) d(2)[unfolded pgS_def] d(3)[unfolded pgS_def] d(4,5,7,8) s'(2,3), folded pgS_def]
  have i1': "sched_inv ?s1 q L" using si(1) by (simp add: sched_inv_def runqueue_def)
  have nr1: "unat (nr_threads ?s1) + 1 < 2 ^ 31" using si(3) by simp
  note ki = kthread_create_inv[OF i1' nr1 c(1)]
  have nrw: "scast (nr_threads s) = (of_nat (unat (nr_threads s)) :: u64)"
    using scast_counter[of "unat (nr_threads s)"] si(3) by simp
  obtain L'' where L'': "sched_inv (created 0 t stk pg h ?m0 ?s1) (q @ [t]) L''" using ki(1) by blast
  have "sched_inv s' (q @ [t]) L'"
  proof (rule sched_inv_cong[OF L''])
    show "mm_inv (heap s') L'" using as_invD(1)[OF mem(1)] by simp
    show "\<forall>u \<in> set (q @ [t]). \<exists>n \<ge> SIZEOF_TASK. (u, n) \<in> L'"
      using si(1) L'(2,3) c(2) unfolding sched_inv_def by fastforce
  qed (use s'(4,5,8) in \<open>simp_all add: created_def\<close>)
  moreover have "lookup (ram s') pgS va = (if page_no va \<in> areas_pages s vs
         then lookup (ram s) pgS va AND NOT PAGE_WRITE else lookup (ram s) pgS va) \<and>
       lookup (ram s') pg va = (if page_no va \<in> areas_pages s vs
         then lookup (ram s) pgS va AND NOT PAGE_WRITE else 0)" if "user va" for va
    using mem(3,4)[OF that] d(6) that by simp
  moreover have "pgd (tasks s' t) = pg" "pid (tasks s' t) = of_nat (unat (nr_threads s))" "tstate (tasks s' t) = TASK_RUNNING"
    using s'(8) nrw by simp_all
  ultimately show ?thesis
    using s'(1,6,7,9,11) ki(2) mem(1,2,5,6) unfolding s'(10)[symmetric] nrw
    by (intro exI[of _ t] exI[of _ s'] exI[of _ lv'] exI[of _ L']) simp
qed

text \<open>The first task: the heap of a machine that has just started, a kernel page table, and one area.\<close>

definition first_task :: "u64 \<Rightarrow> u64 \<Rightarrow> u64 \<Rightarrow> u64 \<Rightarrow> u64 \<Rightarrow> mm \<Rightarrow> vms" where
  "first_task pd t stk pg v h = (created 0x1234 t stk pg h (\<lambda>_. 0)
     (example_vms\<lparr>run_links := (\<lambda>n. \<lparr>prv = n, nxt = n\<rparr>), nr_threads := 0, pg_dir := pd\<rparr>))
     \<lparr>tp := t, vma_mem := (\<lambda>_. example_area\<lparr>vm_mm := t\<rparr>),
      vma_links := list_add_tail (VmaList v) (MmapHead t) (\<lambda>n. \<lparr>prv = n, nxt = n\<rparr>)\<rparr>"

lemma first_task_forkable: "\<exists>pd t stk pg v h lv L. forkable (first_task pd t stk pg v h) stk [t] [v] lv L"
proof -
  let ?h = "heap example_vms"
  have "plenty (Suc 1279) ?h" using boot_plenty[of boot_mm] by (simp add: example_vms_def example_irqs_fields irqs.defs)
  then obtain pd h0 where k0: "kmalloc (of_nat PAGE_SIZE) ?h = Inr (pd, h0)" "plenty 1279 h0"
    by (rule plenty_kmalloc[OF _ page_size_word])
  have m: "mm_inv ?h {}" using boot_mm_inv[of boot_mm] by (simp add: example_vms_def example_irqs_fields irqs.defs)
  note p0 = kmalloc_page[OF m k0(1)]
  let ?s0 = "example_vms\<lparr>run_links := (\<lambda>n. \<lparr>prv = n, nxt = n\<rparr>), nr_threads := 0, heap := h0, ram := (\<lambda>_. 0), pg_dir := pd\<rparr>"
  have kt: "kernel_table s {(pd, 4096)}" if "pg_dir s = pd" "ram s = (\<lambda>_. 0)" for s :: vms
    using that by (simp add: kernel_table_def page_in_def load_zero PAGE_SIZE_def)
  have i0: "mm_inv (heap ?s0) {(pd, 4096)}" "plenty (Suc (Suc (Suc 1276))) (heap ?s0)" using p0(3) k0(2) by simp_all
  obtain t stk pg h k j where c: "kthread_create 0x1234 ?s0 = Inr (t, created 0x1234 t stk pg h (page_copied pg (pg_dir ?s0) PAGE_SIZE (ram ?s0)) ?s0)"
    "SIZEOF_TASK \<le> k" "STACK_SIZE \<le> j" "mm_inv h (insert (pg, 4096) (insert (stk, j) (insert (t, k) {(pd, 4096)})))"
    "stk \<notin> fst ` insert (t, k) {(pd, 4096)}" "pg \<notin> fst ` insert (stk, j) (insert (t, k) {(pd, 4096)})" "dm_page pg" "plenty 1276 h"
    using kthread_create_fresh[OF i0 kt, of "0x1234"] by auto
  let ?L = "insert (pg, 4096) (insert (stk, j) (insert (t, k) {(pd, 4096)}))"
  have "plenty (Suc 1275) h" using c(8) by simp
  then obtain v h' where kv: "kmalloc (of_nat SIZEOF_VMA) h = Inr (v, h')" "plenty 1275 h'"
    by (rule plenty_kmalloc[OF _ vma_size_word])
  obtain b where b: "mm_inv h' (insert (v, b) ?L)" using kmalloc_fresh[OF c(4) vma_size_word(1) kv(1)] by blast
  let ?s = "first_task pd t stk pg v h'" and ?L' = "insert (v, b) ?L" and ?lv = "\<lambda>l :: nat. if l = 2 then {pg} else {}"
  have f: "tp ?s = t" "heap ?s = h'" "ram ?s = (\<lambda>_. 0)" "pgd (tasks ?s t) = pg" "stack (tasks ?s t) = stk" "pg_dir ?s = pd"
    "nr_threads ?s = 1" "vma_mem ?s = (\<lambda>_. example_area\<lparr>vm_mm := t\<rparr>)" "pid (tasks ?s t) = 0"
    "run_links ?s = list_add_tail (TaskList t) RunQueue (\<lambda>n. \<lparr>prv = n, nxt = n\<rparr>)"
    "vma_links ?s = list_add_tail (VmaList v) (MmapHead t) (\<lambda>n. \<lparr>prv = n, nxt = n\<rparr>)"
    by (simp_all add: first_task_def) (simp_all add: created_def)
  have q: "sched_inv ?s [t] ?L'"
  proof -
    have "runqueue ?s [t]" unfolding runqueue_def f(10) by (simp add: dlist_def list_add_tail_def)
    moreover have "\<exists>n \<ge> SIZEOF_TASK. (t, n) \<in> ?L'" using c(2) by blast
    ultimately show ?thesis using b unfolding sched_inv_def by (simp add: f(2,7,9))
  qed
  have "mm_inv (heap ?s) ?L'" "(pg, 4096) \<in> ?L'" "\<And>i. i < 256 \<Longrightarrow> load64 (ram ?s) (ent pg i) = 0" using b f(2,3) by (simp_all add: load_zero)
  note a = as_inv_fresh(1)[OF this(1,2) c(7) this(3)]
  have "v \<noteq> 0" using chunk_not_null[OF b, of v b] by simp
  then have ar: "areas ?s t [v]" unfolding areas_def f(11) by (simp add: dlist_def list_add_tail_def)
  have ea: "user_area (example_area\<lparr>vm_mm := t\<rparr>)" "area_count (example_area\<lparr>vm_mm := t\<rparr>) = 2"
    using example_area_pages by (simp_all add: user_area_def area_count_def)
  have "stk \<notin> tables ?lv" using c(6) by (simp add: tables_def eq_commute[of stk])
  moreover have "kernel_table ?s ?L'" unfolding kernel_table_def page_in_def f(3,6)
    by (intro conjI exI[of _ pd] exI[of _ 4096]) (simp_all add: load_zero PAGE_SIZE_def)
  moreover have "plenty (Suc (Suc (Suc (areas_cost ?s [v])))) (heap ?s)"
    unfolding f(2) by (rule plenty_le[OF kv(2)]) (simp add: areas_cost_def f(8) ea(2))
  moreover have "\<exists>n \<ge> STACK_SIZE. (stk, n) \<in> ?L'" using c(3) by auto
  moreover have "unat (stk - stk) + PT_SIZE_ON_STACK \<le> STACK_SIZE" by (simp add: PT_SIZE_ON_STACK_def STACK_SIZE_def)
  ultimately have "forkable ?s stk [t] [v] ?lv ?L'"
    using q a ar ea(1) unfolding forkable_def f(1,4,5) by (simp add: f(7,8))
  then show ?thesis by blast
qed

theorem sys_fork_correct_witness:
  "\<exists>s t t' regs s'. sys_fork 0x7000 regs (s :: vms) = Inr (1, s') \<and> runqueue s [t] \<and> runqueue s' [t, t'] \<and>
     pid (tasks s' t') = 1 \<and> th_ra (thread (tasks s' t')) = 0x7000 \<and> get_reg A0 (th_sp (thread (tasks s' t'))) (ram s') = 0"
proof -
  obtain pd t stk pg v h lv L where f: "forkable (first_task pd t stk pg v h) stk [t] [v] lv L" using first_task_forkable by blast
  let ?s = "first_task pd t stk pg v h"
  have n: "nr_threads ?s = 1" by (simp add: first_task_def created_def)
  obtain t' s' L' where r: "sys_fork 0x7000 stk ?s = Inr (1, s')" "sched_inv s' ([t] @ [t']) L'" "pid (tasks s' t') = 1"
    "th_ra (thread (tasks s' t')) = 0x7000" "get_reg A0 (th_sp (thread (tasks s' t'))) (ram s') = 0"
    using sys_fork_correct[OF f, of "0x7000", unfolded n] by auto
  moreover have "runqueue ?s [t]" using f by (simp add: forkable_def sched_inv_def)
  ultimately show ?thesis by (auto simp: sched_inv_def)
qed

end
