(* ===== verification/Initrd.thy ===== *)
theory Initrd
  imports Traps Utils
begin

text \<open>
  The initial ramdisk, \<open>src/initrd.c\<close>: a walk over the headers of a cpio archive in memory that lists the
  names, prints a file, or starts a program. The arrays \<open>pathname\<close> and \<open>data\<close> are on the stack of the caller;
  their address is the argument \<open>buf\<close>. A program is started by \<open>sret\<close>, and the model then returns the
  registers with which user mode begins.
\<close>

section \<open>The functions\<close>

definition SIZEOF_CPIO :: nat where "SIZEOF_CPIO = 110"
definition CPIO_FILESIZE :: u64 where "CPIO_FILESIZE = 54"
definition CPIO_NAMESIZE :: u64 where "CPIO_NAMESIZE = 94"

definition INITRD_BASE :: "bool \<Rightarrow> u64" where
  "INITRD_BASE on_qemu = phys_to_virt (if on_qemu then 0xA0200000 else 0x46100000)"

definition cpio_namesize :: "mem \<Rightarrow> u64 \<Rightarrow> u32" where
  "cpio_namesize m hdr = hextoi m (hdr + CPIO_NAMESIZE) 8"

definition cpio_filesize :: "mem \<Rightarrow> u64 \<Rightarrow> u32" where
  "cpio_filesize m hdr = hextoi m (hdr + CPIO_FILESIZE) 8"

definition initrd_get_next_hdr :: "mem \<Rightarrow> u64 \<Rightarrow> u64" where
  "initrd_get_next_hdr m ptr =
     (if bytes m (ptr + of_nat SIZEOF_CPIO) 10 = chars ''TRAILER!!!'' then 0
      else
        let namesize = cpio_namesize m ptr;
            filesize = cpio_filesize m ptr;
            headsize = align (of_nat SIZEOF_CPIO + namesize) 4;
            datasize = align filesize 4
        in ptr + scast headsize + scast datasize)"

partial_function (option) initrd_list_loop :: "u64 \<Rightarrow> u64 \<Rightarrow> 'z console_scheme \<Rightarrow> (fault + 'z console_scheme) option" where
  "initrd_list_loop buf ptr s =
     (if initrd_get_next_hdr (ram s) ptr \<noteq> 0 then
        let namesize = cpio_namesize (ram s) ptr
        in case strncpy (ram s) buf (ptr + of_nat SIZEOF_CPIO) (sint namesize) of
             None \<Rightarrow> None
           | Some (_, m) \<Rightarrow>
               (case printk ''%s\<newline>'' [buf] (s\<lparr>ram := m\<rparr>) of
                  Inl e \<Rightarrow> Some (Inl e)
                | Inr s1 \<Rightarrow> initrd_list_loop buf (initrd_get_next_hdr (ram s1) ptr) s1)
      else Some (Inr s))"

definition initrd_list :: "u64 \<Rightarrow> 'z timers_scheme \<Rightarrow> fault + 'z timers_scheme" where
  "initrd_list buf s =
     (case initrd_list_loop buf (INITRD_BASE (qemu s)) s of None \<Rightarrow> Inl No_Return | Some r \<Rightarrow> r)"

text \<open>The loop of \<open>initrd_cat\<close> and \<open>initrd_exec\<close>: \<open>found\<close> is what they do with the header of the target.\<close>

partial_function (option) initrd_find ::
    "u64 \<Rightarrow> (u64 \<Rightarrow> 'z console_scheme \<Rightarrow> fault + 'a) \<Rightarrow> ('z console_scheme \<Rightarrow> fault + 'a) \<Rightarrow> u64 \<Rightarrow>
     'z console_scheme \<Rightarrow> (fault + 'a) option" where
  "initrd_find target found not_found ptr s =
     (if initrd_get_next_hdr (ram s) ptr \<noteq> 0 then
        if memcmp (ram s) (ptr + of_nat SIZEOF_CPIO) target (sint (cpio_namesize (ram s) ptr)) = 0
        then Some (found ptr s)
        else initrd_find target found not_found (initrd_get_next_hdr (ram s) ptr) s
      else Some (not_found s))"

definition cpio_data :: "mem \<Rightarrow> u64 \<Rightarrow> u64" where
  "cpio_data m ptr = ptr + scast (align (of_nat SIZEOF_CPIO + cpio_namesize m ptr) 4)"

definition cat_file :: "u64 \<Rightarrow> u64 \<Rightarrow> 'z console_scheme \<Rightarrow> fault + 'z console_scheme" where
  "cat_file buf ptr s =
     (let filesize = cpio_filesize (ram s) ptr
      in bindF (of_loop (memset (ram s) buf 0 (sint (filesize + 1)))) (\<lambda>(_, m).
           bindF (of_loop (strncpy m buf (cpio_data (ram s) ptr) (sint filesize))) (\<lambda>(_, m1).
             printk ''%s\<newline>'' [buf] (s\<lparr>ram := m1\<rparr>))))"

definition initrd_cat :: "u64 \<Rightarrow> u64 \<Rightarrow> 'z timers_scheme \<Rightarrow> fault + 'z timers_scheme" where
  "initrd_cat buf target s =
     (if target = 0 then Inr s
      else case initrd_find target (cat_file buf) (printk ''cat: %s not found\<newline>'' [target]) (INITRD_BASE (qemu s)) s of
        None \<Rightarrow> Inl No_Return | Some r \<Rightarrow> r)"

text \<open>\<open>sscratch\<close>, the stack pointer and \<open>sepc\<close> at \<open>sret\<close>.\<close>

record user_entry =
  ue_task :: u64
  ue_sp :: u64
  ue_pc :: u64

definition exec_file :: "u64 \<Rightarrow> 'z vms_scheme \<Rightarrow> fault + user_entry option \<times> 'z vms_scheme" where
  "exec_file ptr s =
     bindF (kthread_create 0 s) (\<lambda>(task, s1).
       bindF (vm_mmap task (cpio_data (ram s) ptr) 0 (scast (align (cpio_filesize (ram s) ptr) (of_nat PAGE_SIZE)))
                (VM_READ OR VM_EXEC) s1) (\<lambda>s2.
         bindF (vm_mmap task 0 0x3fffffb000 (of_nat (PAGE_SIZE * 4)) (VM_READ OR VM_WRITE) s2) (\<lambda>s3.
           let s4 = switch_mm (pgd (tasks s3 task)) 8 s3
           in Inr (Some \<lparr>ue_task = task, ue_sp = 0x3ffffff000, ue_pc = 0\<rparr>, s4))))"

definition initrd_exec :: "u64 \<Rightarrow> 'z vms_scheme \<Rightarrow> fault + user_entry option \<times> 'z vms_scheme" where
  "initrd_exec target s =
     (if target = 0 then Inr (None, s)
      else case initrd_find target exec_file
          (\<lambda>s. bindF (printk ''cat: %s not found\<newline>'' [target] s) (\<lambda>s1. Inr (None, s1))) (INITRD_BASE (qemu s)) s of
        None \<Rightarrow> Inl No_Return | Some r \<Rightarrow> r)"

section \<open>Archives\<close>

text \<open>The files of an archive, with the sizes in the header written as eight hexadecimal digits.\<close>

definition hex8 :: "nat \<Rightarrow> u8 list" where
  "hex8 n = map (\<lambda>i. hex_char (n div 16 ^ (7 - i) mod 16)) [0..<8]"

definition round4 :: "nat \<Rightarrow> nat" where
  "round4 n = (n + 3) div 4 * 4"

definition head_size :: "u8 list \<Rightarrow> nat" where
  "head_size name = round4 (SIZEOF_CPIO + (length name + 1))"

definition entry_size :: "u8 list \<times> u8 list \<Rightarrow> nat" where
  "entry_size f = head_size (fst f) + round4 (length (snd f))"

definition small_file :: "u8 list \<times> u8 list \<Rightarrow> bool" where
  "small_file f \<longleftrightarrow> length (fst f) < 2 ^ 30 \<and> length (snd f) < 2 ^ 30"

fun cpio_at :: "mem \<Rightarrow> u64 \<Rightarrow> (u8 list \<times> u8 list) list \<Rightarrow> bool" where
  "cpio_at m p [] \<longleftrightarrow> bytes m (p + of_nat SIZEOF_CPIO) 10 = chars ''TRAILER!!!''"
| "cpio_at m p (f # fs) \<longleftrightarrow>
     small_file f \<and> bytes m (p + of_nat SIZEOF_CPIO) 10 \<noteq> chars ''TRAILER!!!'' \<and>
     bytes m (p + CPIO_NAMESIZE) 8 = hex8 (length (fst f) + 1) \<and> bytes m (p + CPIO_FILESIZE) 8 = hex8 (length (snd f)) \<and>
     cstr m (p + of_nat SIZEOF_CPIO) (fst f) \<and> bytes m (p + of_nat (head_size (fst f))) (length (snd f)) = snd f \<and>
     p + of_nat (entry_size f) \<noteq> 0 \<and> cpio_at m (p + of_nat (entry_size f)) fs"

lemma hex_value_digits: "hex_value (map (\<lambda>i. n div 16 ^ (k - 1 - i) mod 16) [0..<k]) = n mod 16 ^ k"
proof (induction k arbitrary: n)
  case (Suc k)
  have e: "map (\<lambda>i. n div 16 ^ (Suc k - 1 - i) mod 16) [0..<Suc k] =
      map (\<lambda>i. n div 16 div 16 ^ (k - 1 - i) mod 16) [0..<k] @ [n mod 16]"
  proof -
    have "n div 16 ^ (k - i) mod 16 = n div 16 div 16 ^ (k - 1 - i) mod 16" if "i < k" for i
    proof -
      have "(16 :: nat) ^ (k - i) = 16 * 16 ^ (k - 1 - i)" using that by (simp add: power_eq_if[of 16 "k - i"])
      then show ?thesis by (simp add: div_mult2_eq)
    qed
    then show ?thesis by simp
  qed
  have "hex_value (ds @ [d]) = hex_value ds * 16 + d" for ds d by (simp add: hex_value_def)
  then show ?case unfolding e using Suc[of "n div 16"] mod_mult2_eq[of n 16 "16 ^ k"] by (simp add: mult.commute)
qed (simp add: hex_value_def)

lemma hextoi_hex8:
  assumes "bytes m a 8 = hex8 n" and "n < 2 ^ 31"
  shows "hextoi m a 8 = of_nat n"
proof -
  let ?ds = "map (\<lambda>i. n div 16 ^ (7 - i) mod 16) [0..<8]"
  have l: "length ?ds = 8" by simp
  have b: "bytes m a (length ?ds) = map hex_char ?ds" using assms(1) by (simp add: hex8_def)
  have d: "\<forall>d \<in> set ?ds. d < 16" by auto
  from hextoi_digits[OF b d] have "unat (hextoi m a 8) = hex_value ?ds" unfolding l by simp
  also have "\<dots> = n" using hex_value_digits[of n 8] assms(2) by simp
  finally show ?thesis by (metis of_nat_unat ucast_id)
qed

lemma align_round4:
  assumes "n < 2 ^ 31"
  shows "align (of_nat n) 4 = of_nat (round4 n)"
proof -
  have u: "unat (of_nat n :: u32) = n" using assms by (simp add: unat_of_nat take_bit_nat_eq_self)
  have a: "2 ^ 2 dvd unat (align (of_nat n) (2 ^ 2)) \<and> unat (of_nat n :: u32) \<le> unat (align (of_nat n) (2 ^ 2)) \<and>
    unat (align (of_nat n) (2 ^ 2)) < unat (of_nat n :: u32) + 2 ^ 2" by (rule align_up) (use assms u in simp_all)
  have *: "4 dvd x \<Longrightarrow> n \<le> x \<Longrightarrow> x < n + 4 \<Longrightarrow> x = round4 n" for x :: nat unfolding round4_def by presburger
  have "unat (align (of_nat n) 4) = round4 n" by (rule *) (use a u in simp_all)
  then show ?thesis by (metis of_nat_unat ucast_id)
qed

lemma round4_bounds: "n \<le> round4 n" "round4 n < n + 4"
  unfolding round4_def by presburger+

text \<open>What the functions read in a header.\<close>

lemma cpio_fields:
  assumes "cpio_at m p (f # fs)"
  shows "cpio_namesize m p = of_nat (length (fst f) + 1)" and "cpio_filesize m p = of_nat (length (snd f))"
    and "sint (cpio_namesize m p) = int (length (fst f) + 1)" and "sint (cpio_filesize m p) = int (length (snd f))"
    and "cpio_data m p = p + of_nat (head_size (fst f))" and "initrd_get_next_hdr m p = p + of_nat (entry_size f)"
proof -
  have s: "length (fst f) < 2 ^ 30" "length (snd f) < 2 ^ 30" using assms by (simp_all add: small_file_def)
  show n: "cpio_namesize m p = of_nat (length (fst f) + 1)"
    unfolding cpio_namesize_def by (rule hextoi_hex8) (use assms s in simp_all)
  show z: "cpio_filesize m p = of_nat (length (snd f))"
    unfolding cpio_filesize_def by (rule hextoi_hex8) (use assms s in simp_all)
  show "sint (cpio_namesize m p) = int (length (fst f) + 1)" unfolding n by (rule sint_counter(1)) (use s in simp)
  show "sint (cpio_filesize m p) = int (length (snd f))" unfolding z by (rule sint_counter(1)) (use s in simp)
  have h: "align (of_nat SIZEOF_CPIO + cpio_namesize m p) 4 = of_nat (head_size (fst f))"
    using align_round4[of "SIZEOF_CPIO + (length (fst f) + 1)"] s unfolding n head_size_def by (simp add: SIZEOF_CPIO_def)
  have hb: "head_size (fst f) < 2 ^ 31" using round4_bounds(2)[of "SIZEOF_CPIO + (length (fst f) + 1)"] s
    unfolding head_size_def SIZEOF_CPIO_def by simp
  show "cpio_data m p = p + of_nat (head_size (fst f))" unfolding cpio_data_def h by (simp only: sint_counter(2)[OF hb])
  have d: "align (cpio_filesize m p) 4 = of_nat (round4 (length (snd f)))"
    unfolding z by (rule align_round4) (use s in simp)
  have db: "round4 (length (snd f)) < 2 ^ 31" using round4_bounds(2)[of "length (snd f)"] s by simp
  have "bytes m (p + of_nat SIZEOF_CPIO) 10 \<noteq> chars ''TRAILER!!!''" using assms by simp
  then have "initrd_get_next_hdr m p = p + scast (of_nat (head_size (fst f)) :: u32) + scast (of_nat (round4 (length (snd f))) :: u32)"
    unfolding initrd_get_next_hdr_def Let_def h d by simp
  also have "\<dots> = p + of_nat (entry_size f)" unfolding sint_counter(2)[OF hb] sint_counter(2)[OF db] entry_size_def by simp
  finally show "initrd_get_next_hdr m p = p + of_nat (entry_size f)" .
qed

lemma cpio_end: "cpio_at m p [] \<Longrightarrow> initrd_get_next_hdr m p = 0"
  by (simp add: initrd_get_next_hdr_def)

text \<open>The bytes of an archive, and an archive under writes elsewhere.\<close>

definition cpio_size :: "(u8 list \<times> u8 list) list \<Rightarrow> nat" where
  "cpio_size fs = sum_list (map entry_size fs) + 120"

lemma cstr_same:
  assumes "cstr m a xs" and "\<And>i. i \<le> length xs \<Longrightarrow> m' (a + of_nat i) = m (a + of_nat i)"
  shows "cstr m' a xs"
  using cstr_nth[OF assms(1)] assms(2) cstr_append[of m' a xs "[]"] by auto

lemma bytes_same:
  "(\<And>i. i < n \<Longrightarrow> m' (a + of_nat i) = m (a + of_nat i)) \<Longrightarrow> bytes m' a n = bytes m a n"
  by (simp add: bytes_def)

lemma head_size_bound: "SIZEOF_CPIO + (length name + 1) \<le> head_size name"
  unfolding head_size_def by (rule round4_bounds(1))

lemma cpio_at_same:
  "cpio_at m p fs \<Longrightarrow> (\<And>i. i < cpio_size fs \<Longrightarrow> m' (p + of_nat i) = m (p + of_nat i)) \<Longrightarrow> cpio_at m' p fs"
proof (induction fs arbitrary: p)
  case Nil
  have "bytes m' (p + of_nat SIZEOF_CPIO) 10 = bytes m (p + of_nat SIZEOF_CPIO) 10"
  proof (rule bytes_same)
    fix i :: nat assume "i < 10"
    then show "m' (p + of_nat SIZEOF_CPIO + of_nat i) = m (p + of_nat SIZEOF_CPIO + of_nat i)"
      using Nil(2)[of "SIZEOF_CPIO + i"] by (simp add: cpio_size_def SIZEOF_CPIO_def add.assoc)
  qed
  then show ?case using Nil(1) by simp
next
  case (Cons f fs)
  have hb: "SIZEOF_CPIO + (length (fst f) + 1) \<le> head_size (fst f)" by (rule head_size_bound)
  have e: "head_size (fst f) + length (snd f) \<le> entry_size f" using round4_bounds(1) by (simp add: entry_size_def)
  have c: "entry_size f + cpio_size fs = cpio_size (f # fs)" "120 \<le> cpio_size fs" by (simp_all add: cpio_size_def)
  have k: "m' (p + of_nat j) = m (p + of_nat j)" if "j < entry_size f + 120" for j using Cons.prems(2)[of j] that c by linarith
  have b: "bytes m' (p + of_nat j) n = bytes m (p + of_nat j) n" if "j + n \<le> entry_size f + 120" for j n
    by (rule bytes_same) (use k that in \<open>simp add: add.assoc flip: of_nat_add\<close>)
  have "cpio_at m' (p + of_nat (entry_size f)) fs"
  proof (rule Cons.IH)
    show "cpio_at m (p + of_nat (entry_size f)) fs" using Cons.prems(1) by simp
    fix i assume "i < cpio_size fs"
    then show "m' (p + of_nat (entry_size f) + of_nat i) = m (p + of_nat (entry_size f) + of_nat i)"
      using Cons.prems(2)[of "entry_size f + i"] c(1) by (simp add: add.assoc)
  qed
  moreover have "cstr m' (p + of_nat SIZEOF_CPIO) (fst f)"
    by (rule cstr_same) (use Cons.prems(1) k hb e in \<open>simp_all add: add.assoc flip: of_nat_add\<close>)
  moreover have "bytes m' (p + of_nat SIZEOF_CPIO) 10 = bytes m (p + of_nat SIZEOF_CPIO) 10"
    by (rule b) (use hb e in \<open>simp add: SIZEOF_CPIO_def\<close>)
  moreover have "bytes m' (p + CPIO_NAMESIZE) 8 = bytes m (p + CPIO_NAMESIZE) 8"
    using b[of 94 8] hb e by (simp add: CPIO_NAMESIZE_def SIZEOF_CPIO_def)
  moreover have "bytes m' (p + CPIO_FILESIZE) 8 = bytes m (p + CPIO_FILESIZE) 8"
    using b[of 54 8] hb e by (simp add: CPIO_FILESIZE_def SIZEOF_CPIO_def)
  moreover have "bytes m' (p + of_nat (head_size (fst f))) (length (snd f)) = bytes m (p + of_nat (head_size (fst f))) (length (snd f))"
    by (rule b) (use e in simp)
  ultimately show ?case using Cons.prems(1) by simp
qed

text \<open>\<open>strncpy\<close> between ranges that do not meet: the bytes up to the first zero, and that zero if it is among them.\<close>

lemma strncpy_bytes:
  fixes d s :: u64
  assumes "\<forall>i < n. \<forall>j < n. s + of_nat i \<noteq> d + of_nat j" and "n < 2 ^ 64"
  shows "\<exists>p m'. strncpy m d s (int n) = Some (p, m') \<and> (\<forall>x. n \<le> unat (x - d) \<longrightarrow> m' x = m x) \<and>
    (let t = takeWhile (\<lambda>c. c \<noteq> 0) (bytes m s n) in (\<forall>i < length t. m' (d + of_nat i) = t ! i) \<and>
      (length t < n \<longrightarrow> m' (d + of_nat (length t)) = 0) \<and> (\<forall>i. length t < i \<and> i < n \<longrightarrow> m' (d + of_nat i) = m (d + of_nat i)))"
  using assms
proof (induction n arbitrary: m d s)
  case 0
  then show ?case by (simp add: strncpy.simps bytes_def)
next
  case (Suc n)
  let ?m = "m(d := m s)"
  have u: "unat (of_nat i :: u64) = i" if "i \<le> Suc n" for i using that Suc.prems(2) by (intro unat_small) simp
  have sd: "s + 1 + of_nat i \<noteq> d" if "i < n" for i using Suc.prems(1)[rule_format, of "Suc i" 0] that by (simp add: add.assoc)
  have b: "bytes ?m (s + 1) n = bytes m (s + 1) n" by (rule bytes_same) (use sd in simp)
  show ?case
  proof (cases "m s = 0")
    case True
    have "strncpy m d s (int (Suc n)) = Some (d + 1, ?m)" using True by (simp add: strncpy.simps)
    moreover have "?m x = m x" if "Suc n \<le> unat (x - d)" for x using that by (cases "x = d") auto
    moreover have "takeWhile (\<lambda>c. c \<noteq> 0) (bytes m s (Suc n)) = []" using True by (simp add: bytes_Suc)
    moreover have "?m (d + of_nat i) = m (d + of_nat i)" if "0 < i" "i < Suc n" for i
    proof -
      have "d + of_nat i \<noteq> d" using u[of i] that by (metis add_cancel_right_right nat_less_le unat_0)
      then show ?thesis by simp
    qed
    ultimately show ?thesis using True by simp
  next
    case False
    have ih: "\<forall>i < n. \<forall>j < n. s + 1 + of_nat i \<noteq> d + 1 + of_nat j"
    proof (intro allI impI)
      fix i j assume "i < n" "j < n"
      then show "s + 1 + of_nat i \<noteq> d + 1 + of_nat j"
        using Suc.prems(1)[rule_format, of "Suc i" "Suc j"] by (simp add: algebra_simps)
    qed
    have n: "n < 2 ^ 64" using Suc.prems(2) by simp
    obtain p m' where r: "strncpy ?m (d + 1) (s + 1) (int n) = Some (p, m')" "\<forall>x. n \<le> unat (x - (d + 1)) \<longrightarrow> m' x = ?m x"
      "let t = takeWhile (\<lambda>c. c \<noteq> 0) (bytes m (s + 1) n) in (\<forall>i < length t. m' (d + 1 + of_nat i) = t ! i) \<and>
        (length t < n \<longrightarrow> m' (d + 1 + of_nat (length t)) = 0) \<and> (\<forall>i. length t < i \<and> i < n \<longrightarrow> m' (d + 1 + of_nat i) = ?m (d + 1 + of_nat i))"
      using Suc.IH[of "s + 1" "d + 1" ?m, OF ih n] unfolding b by (elim exE conjE) (rule that)
    let ?t = "takeWhile (\<lambda>c. c \<noteq> 0) (bytes m (s + 1) n)"
    have e: "takeWhile (\<lambda>c. c \<noteq> 0) (bytes m s (Suc n)) = m s # ?t" using False by (simp add: bytes_Suc)
    have un: "unat (x - (d + 1)) = unat (x - d) - 1" if "x \<noteq> d" for x
    proof -
      have "x - d \<noteq> 0" using that by simp
      then show ?thesis using unat_minus_one[of "x - d"] by (simp add: algebra_simps)
    qed
    have "d - (d + 1) = - 1" by (simp add: algebra_simps)
    then have m1: "unat (d - (d + 1)) = 2 ^ 64 - 1" by (simp add: unsigned_minus_1_eq_mask mask_eq_exp_minus_1)
    have md: "m' d = m s" using r(2)[rule_format, of d] Suc.prems(2) m1 by simp
    have out: "m' x = m x" if x: "Suc n \<le> unat (x - d)" for x
    proof -
      have "x \<noteq> d" using x by auto
      then show ?thesis using r(2)[rule_format, of x] un[of x] x by simp
    qed
    have inn: "m' (d + of_nat i) = (m s # ?t) ! i" if "i < length (m s # ?t)" for i
      using that md r(3) by (cases i) (simp_all add: Let_def add.assoc)
    have rest: "m' (d + of_nat i) = m (d + of_nat i)" if i: "length (m s # ?t) < i" "i < Suc n" for i
    proof -
      obtain j where j: "i = Suc j" "length ?t < j" "j < n" using i by (cases i) auto
      have "m' (d + 1 + of_nat j) = ?m (d + 1 + of_nat j)" using r(3) j(2,3) by (simp add: Let_def)
      moreover have "d + of_nat i \<noteq> d" using u[of i] i by (metis add_cancel_right_right less_nat_zero_code nat_less_le unat_0 le_simps(1))
      ultimately show ?thesis using j(1) by (simp add: add.assoc)
    qed
    have "strncpy m d s (int (Suc n)) = Some (p, m')" using r(1) False by (subst strncpy.simps) (simp add: Let_def)
    moreover have "length (m s # ?t) < Suc n \<longrightarrow> m' (d + of_nat (length (m s # ?t))) = 0"
      using r(3) by (simp add: Let_def add.assoc)
    ultimately show ?thesis using out inn rest unfolding e Let_def by (intro exI[of _ p] exI[of _ m'] conjI allI impI) blast+
  qed
qed

section \<open>Strings in messages\<close>

lemma vprintk_s:
  assumes "tx_ready s" and "cstr (ram s) a xs" and "a \<noteq> 0"
  shows "\<exists>s1. sends (crlf xs) s s1 \<and> vprintk (0x25 # 0x73 # fmt) (a # args) s = vprintk fmt args s1"
proof -
  obtain s1 where s1: "uart_puts a s = Some s1" "sends (crlf xs) s s1" using uart_puts_sends[OF assms(1,2)] by blast
  then have "vprintk (0x25 # 0x73 # fmt) (a # args) s = vprintk fmt args s1"
    by (subst vprintk.simps) (simp add: starts_def chars_def assms(3))
  with s1(2) show ?thesis by blast
qed

lemma printk_s:
  assumes t: "tx_ready s" and f: "chars fmt = cs @ 0x25 # 0x73 # ds" "\<forall>c \<in> set (cs @ ds). c \<noteq> 0x25"
    and x: "cstr (ram s) a xs" "a \<noteq> 0"
  shows "\<exists>s1. sends (crlf (cs @ xs @ ds)) s s1 \<and> printk fmt [a] s = Inr s1"
proof -
  obtain s1 where s1: "sends (crlf cs) s s1" "vprintk (cs @ 0x25 # 0x73 # ds) [a] s = vprintk (0x25 # 0x73 # ds) [a] s1"
    using vprintk_plain[OF t] f(2) by fastforce
  note f1 = sends_fields[OF s1(1)]
  obtain s2 where s2: "sends (crlf xs) s1 s2" "vprintk (0x25 # 0x73 # ds) [a] s1 = vprintk ds [] s2"
    using vprintk_s[of s1 a xs] x t f1(2,3) by auto
  have t2: "tx_ready s2" using sends_fields(3)[OF s2(1)] f1(3) t by simp
  obtain s3 where s3: "sends (crlf ds) s2 s3" "vprintk (ds @ []) [] s2 = vprintk [] [] s3"
    using vprintk_plain[OF t2, of ds "[]" "[]"] f(2) by fastforce
  have "printk fmt [a] s = Inr s3" using s1(2) s2(2) s3(2) by (simp add: printk_def f(1) vprintk_nil)
  then show ?thesis using sends_trans[OF s1(1) sends_trans[OF s2(1) s3(1)]] by auto
qed

section \<open>Listing\<close>

lemma cstrI:
  assumes "0 \<notin> set xs" and "\<forall>i < length xs. m (a + of_nat i) = xs ! i" and "m (a + of_nat (length xs)) = 0"
  shows "cstr m a xs"
  using cstr_append[of m a xs "[]"] assms by (auto simp: in_set_conv_nth)

lemma bytes_cstr: "cstr m a xs \<Longrightarrow> bytes m a (length xs + 1) = xs @ [0]"
proof (induction xs arbitrary: a)
  case (Cons x xs)
  have "bytes m a (length (x # xs) + 1) = m a # bytes m (a + 1) (length xs + 1)" by (simp add: bytes_Suc[of m a "length xs + 1", simplified])
  then show ?case using Cons by simp
qed (simp add: bytes_def)

lemma takeWhile_zero: "0 \<notin> set xs \<Longrightarrow> takeWhile (\<lambda>c. c \<noteq> (0 :: u8)) (xs @ [0]) = xs"
  by (induction xs) auto

text \<open>The archive does not meet a buffer of \<open>k\<close> bytes.\<close>

definition archive_apart :: "u64 \<Rightarrow> nat \<Rightarrow> u64 \<Rightarrow> (u8 list \<times> u8 list) list \<Rightarrow> bool" where
  "archive_apart buf k p fs \<longleftrightarrow> (\<forall>i < cpio_size fs. k \<le> unat (p + of_nat i - buf))"

lemma archive_rest: "archive_apart buf k p (f # fs) \<Longrightarrow> archive_apart buf k (p + of_nat (entry_size f)) fs"
  unfolding archive_apart_def
proof (intro allI impI)
  fix i assume a: "\<forall>i < cpio_size (f # fs). k \<le> unat (p + of_nat i - buf)" and i: "i < cpio_size fs"
  have "entry_size f + i < cpio_size (f # fs)" using i by (simp add: cpio_size_def)
  then show "k \<le> unat (p + of_nat (entry_size f) + of_nat i - buf)" using a by (metis (no_types) add.assoc of_nat_add)
qed

lemma entry_inside: "i \<le> entry_size f \<Longrightarrow> i < cpio_size (f # fs)"
  by (simp add: cpio_size_def)

lemma archive_range:
  assumes a: "archive_apart buf k p (f # fs)" and "j + n \<le> entry_size f" and "n \<le> k" "k < 2 ^ 64"
  shows "\<forall>i < n. \<forall>l < n. p + of_nat j + of_nat i \<noteq> buf + of_nat l"
proof (intro allI impI notI)
  fix i l assume il: "i < n" "l < n" and e: "p + of_nat j + of_nat i = buf + of_nat l"
  have "j + i < cpio_size (f # fs)" using il(1) assms(2) by (intro entry_inside) simp
  then have "k \<le> unat (p + of_nat (j + i) - buf)" using a by (auto simp: archive_apart_def)
  moreover have "p + of_nat (j + i) - buf = of_nat l" using e by (simp add: algebra_simps)
  moreover have "unat (of_nat l :: u64) = l" using il(2) assms(3,4) by (intro unat_small) simp
  ultimately show False using il(2) assms(3) by simp
qed

lemma archive_kept:
  assumes "cpio_at m p fs" and "archive_apart buf k p fs" and "\<And>x. k \<le> unat (x - buf) \<Longrightarrow> m' x = m x"
  shows "cpio_at m' p fs"
  by (rule cpio_at_same[OF assms(1)]) (use assms(2,3) in \<open>auto simp: archive_apart_def\<close>)

lemma name_inside: "SIZEOF_CPIO + (length (fst f) + 1) \<le> entry_size f"
  using head_size_bound[of "fst f"] by (simp add: entry_size_def)

lemma name_copied:
  assumes a: "cpio_at m p (f # fs)" and d: "archive_apart buf k p (f # fs)" and k: "length (fst f) + 1 \<le> k" "k < 2 ^ 64"
  shows "\<exists>q m'. strncpy m buf (p + of_nat SIZEOF_CPIO) (sint (cpio_namesize m p)) = Some (q, m') \<and> cstr m' buf (fst f) \<and>
    (\<forall>x. k \<le> unat (x - buf) \<longrightarrow> m' x = m x)"
proof -
  let ?n = "length (fst f) + 1"
  have c: "cstr m (p + of_nat SIZEOF_CPIO) (fst f)" using a by simp
  have z: "0 \<notin> set (fst f)" by (rule cstr_nonzero[OF c])
  have t: "takeWhile (\<lambda>c. c \<noteq> 0) (bytes m (p + of_nat SIZEOF_CPIO) ?n) = fst f" unfolding bytes_cstr[OF c] by (rule takeWhile_zero[OF z])
  have "?n < 2 ^ 64" using k by simp
  from strncpy_bytes[OF archive_range[OF d name_inside k] this, of m, unfolded t Let_def]
  obtain q m' where q: "strncpy m buf (p + of_nat SIZEOF_CPIO) (int ?n) = Some (q, m')" "\<forall>x. ?n \<le> unat (x - buf) \<longrightarrow> m' x = m x"
    "\<forall>i < length (fst f). m' (buf + of_nat i) = fst f ! i" "m' (buf + of_nat (length (fst f))) = 0" by auto
  have "cstr m' buf (fst f)" by (rule cstrI[OF z q(3,4)])
  moreover have "\<forall>x. k \<le> unat (x - buf) \<longrightarrow> m' x = m x" using q(2) k(1) by auto
  ultimately show ?thesis using q(1) unfolding cpio_fields(3)[OF a] by blast
qed

lemma initrd_list_loop_prints:
  assumes "cpio_at (ram s) p fs" and "archive_apart buf k p fs" and "\<forall>f \<in> set fs. length (fst f) + 1 \<le> k" "k < 2 ^ 64"
    and "tx_ready s" and "buf \<noteq> 0"
  shows "\<exists>s'. initrd_list_loop buf p s = Some (Inr s') \<and> uart_thr s' = uart_thr s @ crlf (concat (map (\<lambda>f. fst f @ [10]) fs)) \<and>
    tx_ready s' \<and> (\<forall>x. k \<le> unat (x - buf) \<longrightarrow> ram s' x = ram s x)"
  using assms(1-3,5)
proof (induction fs arbitrary: p s)
  case Nil
  then show ?case by (simp add: initrd_list_loop.simps[of buf p s] cpio_end del: cpio_at.simps)
next
  case (Cons f fs)
  note next_hdr = cpio_fields(6)
  obtain q m where m: "strncpy (ram s) buf (p + of_nat SIZEOF_CPIO) (sint (cpio_namesize (ram s) p)) = Some (q, m)" "cstr m buf (fst f)"
    "\<forall>x. k \<le> unat (x - buf) \<longrightarrow> m x = ram s x" using name_copied[OF Cons.prems(1,2) _ assms(4)] Cons.prems(3) by auto
  let ?s = "s\<lparr>ram := m\<rparr>"
  have tx: "tx_ready ?s" using Cons.prems(4) by (simp add: tx_ready_def)
  obtain s1 where p: "sends (crlf ([] @ fst f @ [10])) ?s s1" "printk ''%s\<newline>'' [buf] ?s = Inr s1"
    using printk_s[OF tx, of "''%s\<newline>''" "[]" "[10]" buf "fst f"] m(2) assms(6) by (auto simp: chars_def)
  note f1 = sends_fields[OF p(1)]
  have c1: "cpio_at (ram s1) p (f # fs)" by (rule archive_kept[OF Cons.prems(1,2)]) (use m(3) f1(2) in simp)
  have "cpio_at (ram s1) (p + of_nat (entry_size f)) fs" using c1 by simp
  moreover have "archive_apart buf k (p + of_nat (entry_size f)) fs" by (rule archive_rest[OF Cons.prems(2)])
  ultimately obtain s' where s': "initrd_list_loop buf (p + of_nat (entry_size f)) s1 = Some (Inr s')"
    "uart_thr s' = uart_thr s1 @ crlf (concat (map (\<lambda>f. fst f @ [10]) fs))" "tx_ready s'" "\<forall>x. k \<le> unat (x - buf) \<longrightarrow> ram s' x = ram s1 x"
    using Cons.IH[of s1 "p + of_nat (entry_size f)"] Cons.prems(3,4) f1(3) tx by auto
  have "p + of_nat (entry_size f) \<noteq> 0" using Cons.prems(1) by simp
  then have "initrd_list_loop buf p s = Some (Inr s')"
    unfolding initrd_list_loop.simps[of buf p s] Let_def next_hdr[OF Cons.prems(1)] using m(1) p(2) s'(1) next_hdr[OF c1] by simp
  then show ?case using s'(2-4) f1(1,2) m(3) by auto
qed

section \<open>Searching\<close>

lemma names_equal:
  assumes "cstr m a xs" and "cstr m b ys"
  shows "bytes m a (length xs + 1) = bytes m b (length xs + 1) \<longleftrightarrow> xs = ys"
proof
  assume e: "bytes m a (length xs + 1) = bytes m b (length xs + 1)"
  then have b: "bytes m b (length xs + 1) = xs @ [0]" by (simp only: bytes_cstr[OF assms(1)])
  have n: "m (b + of_nat i) = (xs @ [0]) ! i" if "i < length xs + 1" for i
    using arg_cong[OF b, of "\<lambda>l. l ! i"] that by (simp add: bytes_nth)
  have "cstr m b xs"
  proof (rule cstrI)
    show "0 \<notin> set xs" by (rule cstr_nonzero[OF assms(1)])
    show "\<forall>i < length xs. m (b + of_nat i) = xs ! i" using n by (simp add: nth_append)
    show "m (b + of_nat (length xs)) = 0" using n[of "length xs"] by simp
  qed
  then show "xs = ys" by (rule cstr_unique[OF _ assms(2)])
next
  assume "xs = ys"
  then show "bytes m a (length xs + 1) = bytes m b (length xs + 1)"
    using bytes_cstr[OF assms(1)] bytes_cstr[OF assms(2)] by simp
qed

text \<open>The search stops at the first file with the name.\<close>

lemma initrd_find_first:
  assumes "cpio_at (ram s) p fs" and "cstr (ram s) target xs"
  shows "if xs \<in> fst ` set fs
     then \<exists>us f vs. fs = us @ f # vs \<and> fst f = xs \<and> map_of fs xs = Some (snd f) \<and>
       cpio_at (ram s) (p + of_nat (sum_list (map entry_size us))) (f # vs) \<and>
       initrd_find target found not_found p s = Some (found (p + of_nat (sum_list (map entry_size us))) s)
     else initrd_find target found not_found p s = Some (not_found s)"
  using assms(1)
proof (induction fs arbitrary: p)
  case Nil
  then show ?case by (simp add: initrd_find.simps[of target found not_found p s] cpio_end del: cpio_at.simps)
next
  case (Cons f fs)
  have n: "sint (cpio_namesize (ram s) p) = int (length (fst f) + 1)" by (rule cpio_fields(3)[OF Cons.prems])
  have "cstr (ram s) (p + of_nat SIZEOF_CPIO) (fst f)" using Cons.prems by simp
  from names_equal[OF this assms(2)]
  have c: "memcmp (ram s) (p + of_nat SIZEOF_CPIO) target (sint (cpio_namesize (ram s) p)) = 0 \<longleftrightarrow> fst f = xs"
    unfolding n memcmp_bytes .
  have nz: "initrd_get_next_hdr (ram s) p \<noteq> 0" using Cons.prems unfolding cpio_fields(6)[OF Cons.prems] by simp
  have r: "initrd_find target found not_found p s = (if fst f = xs then Some (found p s)
      else initrd_find target found not_found (p + of_nat (entry_size f)) s)"
    unfolding initrd_find.simps[of target found not_found p s] using nz c by (simp add: cpio_fields(6)[OF Cons.prems])
  show ?case
  proof (cases "fst f = xs")
    case True
    have "f # fs = [] @ f # fs \<and> fst f = xs \<and> map_of (f # fs) xs = Some (snd f) \<and>
        cpio_at (ram s) (p + of_nat (sum_list (map entry_size []))) (f # fs) \<and>
        initrd_find target found not_found p s = Some (found (p + of_nat (sum_list (map entry_size []))) s)"
      using True Cons.prems r by (cases f) (simp del: cpio_at.simps)
    moreover have "xs \<in> fst ` set (f # fs)" using True by auto
    ultimately show ?thesis unfolding if_P[OF \<open>xs \<in> fst ` set (f # fs)\<close>] by blast
  next
    case False
    have rest: "cpio_at (ram s) (p + of_nat (entry_size f)) fs" using Cons.prems by simp
    note IH = Cons.IH[OF rest]
    show ?thesis
    proof (cases "xs \<in> fst ` set fs")
      case True
      then obtain us g vs where g: "fs = us @ g # vs" "fst g = xs" "map_of fs xs = Some (snd g)"
        "cpio_at (ram s) (p + of_nat (entry_size f) + of_nat (sum_list (map entry_size us))) (g # vs)"
        "initrd_find target found not_found (p + of_nat (entry_size f)) s =
          Some (found (p + of_nat (entry_size f) + of_nat (sum_list (map entry_size us))) s)" using IH unfolding if_P[OF True] by (elim exE conjE) (rule that)
      have e: "p + of_nat (sum_list (map entry_size (f # us))) = p + of_nat (entry_size f) + of_nat (sum_list (map entry_size us))"
        by (simp add: add.assoc)
      have m: "map_of (f # fs) xs = Some (snd g)" using g(3) False by (cases f) simp
      have "f # fs = (f # us) @ g # vs \<and> fst g = xs \<and> map_of (f # fs) xs = Some (snd g) \<and>
          cpio_at (ram s) (p + of_nat (sum_list (map entry_size (f # us)))) (g # vs) \<and>
          initrd_find target found not_found p s = Some (found (p + of_nat (sum_list (map entry_size (f # us)))) s)"
        unfolding e m using g(1,2,4,5) r False by (simp del: cpio_at.simps)
      moreover have "xs \<in> fst ` set (f # fs)" using True by simp
      ultimately show ?thesis unfolding if_P[OF \<open>xs \<in> fst ` set (f # fs)\<close>] by blast
    next
      case no: False
      then show ?thesis using IH False r by (simp add: eq_commute[of xs])
    qed
  qed
qed

lemma archive_apart_suffix:
  "archive_apart buf k p (us @ fs) \<Longrightarrow> archive_apart buf k (p + of_nat (sum_list (map entry_size us))) fs"
proof (induction us arbitrary: p)
  case (Cons u us)
  from Cons.IH[OF archive_rest[of buf k p u "us @ fs"]] Cons.prems show ?case by (simp add: add.assoc)
qed simp

section \<open>Printing a file\<close>

lemma data_inside: "head_size (fst f) + length (snd f) \<le> entry_size f"
  using round4_bounds(1)[of "length (snd f)"] by (simp add: entry_size_def)

lemma file_copied:
  assumes d: "archive_apart buf k p (f # fs)" and a: "cpio_at m p (f # fs)" and k: "length (snd f) + 1 \<le> k" "k < 2 ^ 31"
  shows "\<exists>q m1 q' m2. memset m buf 0 (sint (cpio_filesize m p + 1)) = Some (q, m1) \<and>
    strncpy m1 buf (cpio_data m p) (sint (cpio_filesize m p)) = Some (q', m2) \<and>
    cstr m2 buf (takeWhile (\<lambda>c. c \<noteq> 0) (snd f)) \<and> (\<forall>x. k \<le> unat (x - buf) \<longrightarrow> m2 x = m x)"
proof -
  let ?n = "length (snd f)" and ?d = "p + of_nat (head_size (fst f))"
  have n: "?n < 2 ^ 31" "Suc ?n < 2 ^ 31" "?n \<le> k" "k < 2 ^ 64" "?n < 2 ^ 64" using k by simp_all
  have z: "sint (cpio_filesize m p) = int ?n" by (rule cpio_fields(4)[OF a])
  have z1: "sint (cpio_filesize m p + 1) = int (Suc ?n)" unfolding cpio_fields(2)[OF a] using sint_counter(1)[OF n(2)] by (simp add: add.commute)
  have data: "cpio_data m p = ?d" by (rule cpio_fields(5)[OF a])
  let ?m1 = "\<lambda>x. if unat (x - buf) < Suc ?n then 0 else m x"
  have "memset m buf 0 (int (Suc ?n)) = Some (buf, ?m1)"
    using memset_loop_bytes[of "Suc ?n" m buf 0] n(2) by (simp add: memset_def)
  then have s1: "memset m buf 0 (sint (cpio_filesize m p + 1)) = Some (buf, ?m1)" unfolding z1 .
  have b: "bytes ?m1 ?d ?n = snd f"
  proof -
    have "bytes ?m1 ?d ?n = bytes m ?d ?n"
    proof (rule bytes_same)
      fix i assume i: "i < ?n"
      have "head_size (fst f) + i < cpio_size (f # fs)" using i data_inside[of f] by (intro entry_inside) simp
      then have "k \<le> unat (?d + of_nat i - buf)" using d by (auto simp: archive_apart_def add.assoc)
      then show "?m1 (?d + of_nat i) = m (?d + of_nat i)" using k(1) by simp
    qed
    then show ?thesis using a by simp
  qed
  let ?t = "takeWhile (\<lambda>c. c \<noteq> 0) (snd f)"
  have lt: "length ?t \<le> ?n" by (rule length_takeWhile_le)
  from strncpy_bytes[OF archive_range[OF d data_inside n(3,4)] n(5), of ?m1, unfolded b Let_def]
  obtain q' m2 where q: "strncpy ?m1 buf ?d (int ?n) = Some (q', m2)" "\<forall>x. ?n \<le> unat (x - buf) \<longrightarrow> m2 x = ?m1 x"
    "\<forall>i < length ?t. m2 (buf + of_nat i) = ?t ! i" "length ?t < ?n \<longrightarrow> m2 (buf + of_nat (length ?t)) = 0" by auto
  have "cstr m2 buf ?t"
  proof (rule cstrI[OF _ q(3)])
    show "0 \<notin> set ?t" by (auto dest: set_takeWhileD)
    have u: "unat (buf + of_nat ?n - buf) = ?n" using unat_small[OF n(5)] by simp
    then have "m2 (buf + of_nat ?n) = ?m1 (buf + of_nat ?n)" using q(2) by (simp only: order_refl)
    also have "\<dots> = 0" using u by simp
    finally show "m2 (buf + of_nat (length ?t)) = 0" using q(4) lt by (cases "length ?t = ?n") simp_all
  qed
  moreover have "\<forall>x. k \<le> unat (x - buf) \<longrightarrow> m2 x = m x" using q(2) k(1) by auto
  ultimately show ?thesis using s1 q(1) unfolding z data by blast
qed

lemma cat_file_prints:
  assumes "tx_ready s" and "buf \<noteq> 0" and d: "archive_apart buf k p (f # fs)" and a: "cpio_at (ram s) p (f # fs)"
    and k: "length (snd f) + 1 \<le> k" "k < 2 ^ 31"
  shows "\<exists>s'. cat_file buf p s = Inr s' \<and> uart_thr s' = uart_thr s @ crlf (takeWhile (\<lambda>c. c \<noteq> 0) (snd f) @ [10]) \<and>
    (\<forall>x. k \<le> unat (x - buf) \<longrightarrow> ram s' x = ram s x)"
proof -
  obtain q m1 q' m2 where m: "memset (ram s) buf 0 (sint (cpio_filesize (ram s) p + 1)) = Some (q, m1)"
    "strncpy m1 buf (cpio_data (ram s) p) (sint (cpio_filesize (ram s) p)) = Some (q', m2)"
    "cstr m2 buf (takeWhile (\<lambda>c. c \<noteq> 0) (snd f))" "\<forall>x. k \<le> unat (x - buf) \<longrightarrow> m2 x = ram s x"
    using file_copied[OF d a k] by blast
  have "tx_ready (s\<lparr>ram := m2\<rparr>)" using assms(1) by (simp add: tx_ready_def)
  from printk_s[OF this, of "''%s\<newline>''" "[]" "[10]" buf, OF _ _ _ assms(2)] m(3)
  obtain s' where s': "sends (crlf (takeWhile (\<lambda>c. c \<noteq> 0) (snd f) @ [10])) (s\<lparr>ram := m2\<rparr>) s'"
    "printk ''%s\<newline>'' [buf] (s\<lparr>ram := m2\<rparr>) = Inr s'" by (force simp: chars_def)
  have "cat_file buf p s = Inr s'" using m(1,2) s'(2) by (simp add: cat_file_def Let_def)
  then show ?thesis using sends_fields(1,2)[OF s'(1)] m(4) by auto
qed

text \<open>\<open>ls\<close> returns and prints the names of the files of the archive in the ramdisk, in order, a line each. Only
  the buffer for the name is written.\<close>

theorem initrd_list_correct:
  fixes s :: "'z timers_scheme"
  assumes "cpio_at (ram s) (INITRD_BASE (qemu s)) fs" and "archive_apart buf k (INITRD_BASE (qemu s)) fs"
    and "\<forall>f \<in> set fs. length (fst f) + 1 \<le> k" "k < 2 ^ 64" and "tx_ready s" and "buf \<noteq> 0"
  shows "\<exists>s'. initrd_list buf s = Inr s' \<and> uart_thr s' = uart_thr s @ crlf (concat (map (\<lambda>f. fst f @ [10]) fs)) \<and>
    (\<forall>x. k \<le> unat (x - buf) \<longrightarrow> ram s' x = ram s x)"
  using initrd_list_loop_prints[OF assms] by (auto simp: initrd_list_def)

text \<open>C32: \<open>cat\<close> returns and prints the contents, up to a first zero byte, of the first file with the name, or else
  that there is no such file. Only the buffer for the contents is written.\<close>

theorem initrd_cat_correct:
  fixes s :: "'z timers_scheme"
  assumes a: "cpio_at (ram s) (INITRD_BASE (qemu s)) fs" and d: "archive_apart buf k (INITRD_BASE (qemu s)) fs"
    and k: "\<forall>f \<in> set fs. length (snd f) + 1 \<le> k" "k < 2 ^ 31" and t: "tx_ready s" and b: "buf \<noteq> 0"
    and x: "cstr (ram s) target xs" "target \<noteq> 0"
  shows "\<exists>s'. initrd_cat buf target s = Inr s' \<and> uart_thr s' = uart_thr s @ crlf (case map_of fs xs of
      Some d \<Rightarrow> takeWhile (\<lambda>c. c \<noteq> 0) d @ [10] | None \<Rightarrow> chars ''cat: '' @ xs @ chars '' not found\<newline>'') \<and>
    (\<forall>x. k \<le> unat (x - buf) \<longrightarrow> ram s' x = ram s x)"
proof (cases "xs \<in> fst ` set fs")
  case True
  then obtain us f vs where f: "fs = us @ f # vs" "map_of fs xs = Some (snd f)"
    "cpio_at (ram s) (INITRD_BASE (qemu s) + of_nat (sum_list (map entry_size us))) (f # vs)"
    "initrd_find target (cat_file buf) (printk ''cat: %s not found\<newline>'' [target]) (INITRD_BASE (qemu s)) s =
      Some (cat_file buf (INITRD_BASE (qemu s) + of_nat (sum_list (map entry_size us))) s)"
    using initrd_find_first[OF a x(1), of "cat_file buf" "printk ''cat: %s not found\<newline>'' [target]"]
    unfolding if_P[OF True] by (elim exE conjE) (rule that)
  have "length (snd f) + 1 \<le> k" using k(1) f(1) by simp
  from cat_file_prints[OF t b archive_apart_suffix[OF d[unfolded f(1)]] f(3) this k(2)] show ?thesis
    using f(2,4) x(2) by (simp add: initrd_cat_def)
next
  case False
  then have m: "map_of fs xs = None" by (simp add: map_of_eq_None_iff)
  obtain s' where "sends (crlf (chars ''cat: '' @ xs @ chars '' not found\<newline>'')) s s'"
    "printk ''cat: %s not found\<newline>'' [target] s = Inr s'"
    using printk_s[OF t, of "''cat: %s not found\<newline>''" "chars ''cat: ''" "chars '' not found\<newline>''" target xs, OF _ _ x]
    by (force simp: chars_def)
  then show ?thesis using initrd_find_first[OF a x(1), of "cat_file buf" "printk ''cat: %s not found\<newline>'' [target]"] False m x(2)
    by (auto simp: initrd_cat_def sends_fields(1,2))
qed

section \<open>Starting a program\<close>

lemma areas_add:
  assumes "areas s mm vs" and "a \<notin> set vs"
  shows "dlist (list_add_tail (VmaList a) (MmapHead mm) (vma_links s)) (MmapHead mm) (map VmaList (vs @ [a]))"
proof -
  have d: "dlist (vma_links s) (MmapHead mm) (map VmaList vs @ [])" using assms(1) by (simp add: areas_def)
  have "VmaList a \<notin> set (MmapHead mm # map VmaList vs @ [])" using assms(2) by auto
  from dlist_insert[OF d this] show ?thesis using dlist_last[of "vma_links s" "MmapHead mm" "map VmaList vs"] d
    by (simp add: list_add_tail_def)
qed

lemma vm_mmap_adds:
  fixes s :: "'z vms_scheme"
  assumes m: "mm_inv (heap s) L" and p: "plenty (Suc n) (heap s)" and v: "areas s mm vs" "set vs \<subseteq> fst ` L"
  shows "\<exists>a k h s'. vm_mmap mm file addr len prot s = Inr s' \<and>
    s' = s\<lparr>heap := h, vma_mem := (vma_mem s)(a := \<lparr>vm_start = addr, vm_end = addr + len, vm_mm = mm, vm_flags = prot, vm_file = file\<rparr>),
      vma_links := list_add_tail (VmaList a) (MmapHead mm) (vma_links s)\<rparr> \<and>
    a \<notin> fst ` L \<and> mm_inv h (insert (a, k) L) \<and> plenty n h \<and> areas s' mm (vs @ [a])"
proof -
  obtain a h where k: "kmalloc (of_nat SIZEOF_VMA) (heap s) = Inr (a, h)" "plenty n h"
    by (rule plenty_kmalloc[OF p vma_size_word])
  obtain k where f: "a \<notin> fst ` L" "mm_inv h (insert (a, k) L)" using kmalloc_fresh[OF m vma_size_word(1) k(1)] by blast
  have "a \<noteq> 0" using chunk_not_null[OF f(2), of a k] by simp
  moreover have "a \<notin> set vs" using f(1) v(2) by blast
  ultimately show ?thesis using k f areas_add[OF v(1)] v(1) by (simp add: vm_mmap_def Let_def areas_def) blast
qed

text \<open>The areas of a program that was loaded from \<open>file\<close>, and the value of \<open>satp\<close> for its page table.\<close>

definition code_area :: "u64 \<Rightarrow> u64 \<Rightarrow> nat \<Rightarrow> vm_area" where
  "code_area t fl n = \<lparr>vm_start = 0, vm_end = scast (align (of_nat n) (of_nat PAGE_SIZE)), vm_mm = t, vm_flags = VM_READ OR VM_EXEC, vm_file = fl\<rparr>"

definition stack_area :: "u64 \<Rightarrow> vm_area" where
  "stack_area t = \<lparr>vm_start = 0x3fffffb000, vm_end = 0x3ffffff000, vm_mm = t, vm_flags = VM_READ OR VM_WRITE, vm_file = 0\<rparr>"

text \<open>A task \<open>t\<close> that was created to run the \<open>n\<close> bytes at \<open>fl\<close>: two areas and an address space without pages.\<close>

definition loaded :: "'z vms_scheme \<Rightarrow> u64 \<Rightarrow> u64 \<Rightarrow> nat \<Rightarrow> chunk set \<Rightarrow> bool" where
  "loaded s t fl n L \<longleftrightarrow> (\<exists>c d. areas s t [c, d] \<and> vma_mem s c = code_area t fl n \<and> vma_mem s d = stack_area t) \<and>
     as_inv s (pgd (tasks s t)) (\<lambda>l. if l = 2 then {pgd (tasks s t)} else {}) L \<and>
     (\<forall>va. user va \<longrightarrow> lookup (ram s) (pgd (tasks s t)) va = 0) \<and>
     satp s = push_bit 60 8 OR drop_bit 12 (virt_to_phys (pgd (tasks s t)))"

lemma sched_inv_chunks:
  assumes "sched_inv s q L" and "run_links s' = run_links s" "nr_threads s' = nr_threads s" "\<forall>u. pid (tasks s' u) = pid (tasks s u)"
    and "mm_inv (heap s') L'" and "L \<subseteq> L'"
  shows "sched_inv s' q L'"
  using assms unfolding sched_inv_def runqueue_def by (simp, blast)

lemma load_page_copied:
  assumes "i < 256"
  shows "load64 (page_copied pg src PAGE_SIZE m) (ent pg i) = load64 m (ent src i)"
proof (rule load64_cong)
  fix l :: nat assume l: "l < 8"
  have e: "ent b i + of_nat l = b + of_nat (8 * i + l)" for b by (simp add: ent_def)
  have "8 * i + l < PAGE_SIZE" using assms l by (simp add: PAGE_SIZE_def)
  then show "page_copied pg src PAGE_SIZE m (ent pg i + of_nat l) = m (ent src i + of_nat l)"
    unfolding e by (rule page_copied_inside) (simp add: PAGE_SIZE_def)
qed

lemma chunk_other:
  assumes "held L {} x" and m: "mm_inv h (insert (pg, 4096) (insert p (insert r L)))" and "pg \<notin> fst ` insert p (insert r L)"
  shows "4096 \<le> unat (x - pg)"
  by (rule held_apart[OF _ m assms(3)]) (use assms(1) in \<open>auto simp: held_def\<close>)

lemma exec_file_loads:
  fixes s :: "'z vms_scheme"
  assumes i: "sched_inv s q L" and nr: "unat (nr_threads s) + 1 < 2 ^ 31" and k: "kernel_table s L"
    and p: "plenty 5 (heap s)" and a: "cpio_at (ram s) ptr (f # fs)"
  shows "\<exists>t s' L'. exec_file ptr s = Inr (Some \<lparr>ue_task = t, ue_sp = 0x3ffffff000, ue_pc = 0\<rparr>, s') \<and>
    sched_inv s' (q @ [t]) L' \<and> t \<notin> set q \<and> loaded s' t (ptr + of_nat (head_size (fst f))) (length (snd f)) L' \<and>
    (\<forall>x. held L {} x \<longrightarrow> ram s' x = ram s x)"
proof -
  let ?f = "ptr + of_nat (head_size (fst f))" and ?n = "length (snd f)"
  have m: "mm_inv (heap s) L" using i by (simp add: sched_inv_def)
  have "plenty (Suc (Suc (Suc 2))) (heap s)" using p by (simp add: numeral_eq_Suc)
  from kthread_create_fresh[OF m this k, of 0]
  obtain t stk pg h ks j where c: "kthread_create 0 s = Inr (t, created 0 t stk pg h (page_copied pg (pg_dir s) PAGE_SIZE (ram s)) s)"
    "SIZEOF_TASK \<le> ks" "mm_inv h (insert (pg, 4096) (insert (stk, j) (insert (t, ks) L)))"
    "t \<notin> fst ` L" "pg \<notin> fst ` insert (stk, j) (insert (t, ks) L)" "dm_page pg" "plenty 2 h" by auto
  let ?m = "page_copied pg (pg_dir s) PAGE_SIZE (ram s)" and ?L1 = "insert (pg, 4096) (insert (stk, j) (insert (t, ks) L))"
  let ?s1 = "created 0 t stk pg h ?m s"
  note ki = kthread_create_inv[OF i nr c(1)]
  obtain L0 where L0: "sched_inv ?s1 (q @ [t]) L0" using ki(1) by blast
  have "\<forall>u \<in> set (q @ [t]). \<exists>n \<ge> SIZEOF_TASK. (u, n) \<in> ?L1" using i c(2) unfolding sched_inv_def by auto
  then have S1: "sched_inv ?s1 (q @ [t]) ?L1" using sched_inv_cong[OF L0, of ?s1 ?L1] c(3) by simp
  have ar1: "areas ?s1 t []" by (simp add: areas_def dlist_init)
  have p1: "plenty (Suc 1) (heap ?s1)" "mm_inv (heap ?s1) ?L1" using c(3,7) by (simp_all add: numeral_2_eq_2)
  obtain a1 k1 h1 s2 where v1: "vm_mmap t ?f 0 (vm_end (code_area t ?f ?n)) (VM_READ OR VM_EXEC) ?s1 = Inr s2"
    "s2 = ?s1\<lparr>heap := h1, vma_mem := (vma_mem ?s1)(a1 := code_area t ?f ?n), vma_links := list_add_tail (VmaList a1) (MmapHead t) (vma_links ?s1)\<rparr>"
    "a1 \<notin> fst ` ?L1" "mm_inv h1 (insert (a1, k1) ?L1)" "plenty 1 h1" "areas s2 t ([] @ [a1])"
    using vm_mmap_adds[OF p1(2,1) ar1, of ?f 0 "vm_end (code_area t ?f ?n)" "VM_READ OR VM_EXEC"]
    by (fastforce simp: code_area_def)
  have p2: "plenty (Suc 0) (heap s2)" "mm_inv (heap s2) (insert (a1, k1) ?L1)" using v1(4,5) by (simp_all add: v1(2))
  have ar2: "areas s2 t [a1]" "set [a1] \<subseteq> fst ` insert (a1, k1) ?L1" using v1(6) by simp_all
  obtain a2 k2 h2 s3 where v2: "vm_mmap t 0 0x3fffffb000 (of_nat (PAGE_SIZE * 4)) (VM_READ OR VM_WRITE) s2 = Inr s3"
    "s3 = s2\<lparr>heap := h2, vma_mem := (vma_mem s2)(a2 := stack_area t), vma_links := list_add_tail (VmaList a2) (MmapHead t) (vma_links s2)\<rparr>"
    "a2 \<notin> fst ` insert (a1, k1) ?L1" "mm_inv h2 (insert (a2, k2) (insert (a1, k1) ?L1))" "areas s3 t ([a1] @ [a2])"
    using vm_mmap_adds[OF p2(2,1) ar2, of 0 "0x3fffffb000" "of_nat (PAGE_SIZE * 4)" "VM_READ OR VM_WRITE"]
    by (fastforce simp: stack_area_def PAGE_SIZE_def)
  let ?L = "insert (a2, k2) (insert (a1, k1) ?L1)" and ?s' = "switch_mm pg 8 s3"
  have pgt: "pgd (tasks s3 t) = pg" by (simp add: v1(2) v2(2))
  have "exec_file ptr s = Inr (Some \<lparr>ue_task = t, ue_sp = 0x3ffffff000, ue_pc = 0\<rparr>, ?s')"
    using c(1) v1(1) v2(1) unfolding exec_file_def cpio_fields(5)[OF a] cpio_fields(2)[OF a]
    by (simp add: pgt Let_def code_area_def)
  moreover have "sched_inv ?s' (q @ [t]) ?L"
    by (rule sched_inv_chunks[OF S1]) (use v2(4) in \<open>auto simp: v1(2) v2(2) switch_mm_def\<close>)
  moreover have "loaded ?s' t ?f ?n ?L"
  proof -
    have "areas ?s' t [a1, a2]" using v2(5) by (simp add: areas_def switch_mm_def)
    moreover have "vma_mem ?s' a1 = code_area t ?f ?n" "vma_mem ?s' a2 = stack_area t"
      using v2(3) by (auto simp: switch_mm_def v1(2) v2(2))
    moreover have z: "load64 (ram ?s') (ent pg i) = 0" if "i < 256" for i
    proof -
      have "load64 ?m (ent pg i) = load64 (ram s) (ent (pg_dir s) i)" by (rule load_page_copied[OF that])
      then show ?thesis using k that by (simp add: kernel_table_def switch_mm_def v1(2) v2(2))
    qed
    have "mm_inv (heap ?s') ?L" "(pg, 4096) \<in> ?L" using v2(4) by (simp_all add: switch_mm_def v2(2))
    note fr = as_inv_fresh[OF this c(6) z]
    moreover have "pgd (tasks ?s' t) = pg" "satp ?s' = push_bit 60 8 OR drop_bit 12 (virt_to_phys pg)"
      using pgt by (simp_all add: switch_mm_def)
    ultimately show ?thesis unfolding loaded_def by (simp only:) blast
  qed
  moreover have "ram ?s' x = ram s x" if "held L {} x" for x
  proof -
    have "4096 \<le> unat (x - pg)" by (rule chunk_other[OF that c(3,5)])
    then show ?thesis by (simp add: page_copied_def PAGE_SIZE_def switch_mm_def v1(2) v2(2))
  qed
  ultimately show ?thesis using ki(2) by (intro exI[of _ t] exI[of _ ?s'] exI[of _ ?L]) simp
qed

text \<open>C31: \<open>exec\<close> of a file of the archive creates a task at the end of the run queue, with a page table that maps no
  user address, an area for the file from address 0 on and one of 4 pages for the stack, switches to its page
  table and enters user mode at address 0 with the stack pointer at the end of the stack area. The file of the
  area is where the archive holds the contents of the first file of that name.\<close>

theorem initrd_exec_correct:
  fixes s :: "'z vms_scheme"
  assumes i: "sched_inv s q L" and nr: "unat (nr_threads s) + 1 < 2 ^ 31" and k: "kernel_table s L" and p: "plenty 5 (heap s)"
    and a: "cpio_at (ram s) (INITRD_BASE (qemu s)) fs" and x: "cstr (ram s) target xs" "target \<noteq> 0" "map_of fs xs = Some d"
  shows "\<exists>t s' L' fl. initrd_exec target s = Inr (Some \<lparr>ue_task = t, ue_sp = 0x3ffffff000, ue_pc = 0\<rparr>, s') \<and>
    sched_inv s' (q @ [t]) L' \<and> t \<notin> set q \<and> loaded s' t fl (length d) L' \<and> bytes (ram s) fl (length d) = d \<and>
    (\<forall>x. held L {} x \<longrightarrow> ram s' x = ram s x)"
proof -
  have m: "xs \<in> fst ` set fs" using x(3) by (metis domI dom_map_of_conv_image_fst)
  let ?nf = "\<lambda>s. bindF (printk ''cat: %s not found\<newline>'' [target] s) (\<lambda>s1. Inr (None, s1))"
  obtain us f vs where f: "fs = us @ f # vs" "map_of fs xs = Some (snd f)"
    "cpio_at (ram s) (INITRD_BASE (qemu s) + of_nat (sum_list (map entry_size us))) (f # vs)"
    "initrd_find target exec_file ?nf (INITRD_BASE (qemu s)) s =
      Some (exec_file (INITRD_BASE (qemu s) + of_nat (sum_list (map entry_size us))) s)"
    using initrd_find_first[OF a x(1), of exec_file ?nf] unfolding if_P[OF m] by (elim exE conjE) (rule that)
  have d: "snd f = d" using f(2) x(3) by simp
  let ?p = "INITRD_BASE (qemu s) + of_nat (sum_list (map entry_size us))"
  have e: "initrd_exec target s = exec_file ?p s" using f(4) x(2) by (simp add: initrd_exec_def)
  have "bytes (ram s) (?p + of_nat (head_size (fst f))) (length d) = d" using f(3) d by simp
  then show ?thesis using exec_file_loads[OF i nr k p f(3)] unfolding e d by blast
qed

section \<open>The place of the ramdisk\<close>

text \<open>C33: \<open>mem_init\<close> does not reserve the ramdisk: unless the kernel image and the page array reach up to it, its first
  page is among the free frames, and the allocator may hand it out and have it overwritten.\<close>

theorem ramdisk_not_reserved:
  assumes "boot_end (heap_top s) \<le> virt_to_page (INITRD_BASE b)"
  shows "\<exists>s' F A. mem_init s = Inr s' \<and> buddy_inv s' F (\<lambda>_. []) A {} \<and> virt_to_page (INITRD_BASE b) \<in> all_frames (free_blocks F)"
proof -
  obtain s' F A where s: "mem_init s = Inr s'" "buddy_inv s' F (\<lambda>_. []) A {}"
    "all_frames (free_blocks F) = {boot_end (heap_top s) ..< NUM_PAGES}" using mem_init_inv[of s] by blast
  have "virt_to_page (INITRD_BASE b) < NUM_PAGES"
    by (cases b) (simp_all add: virt_to_page_def INITRD_BASE_def phys_to_virt_def virt_to_phys_def PAGE_OFFSET_def NUM_PAGES_def PAGE_SIZE_def)
  then show ?thesis using s assms by (intro exI[of _ s'] exI[of _ F] exI[of _ A]) simp
qed

theorem ramdisk_not_reserved_witness:
  "\<exists>s' F A. mem_init boot_mm = Inr s' \<and> buddy_inv s' F (\<lambda>_. []) A {} \<and> 0xA0200 \<in> all_frames (free_blocks F)"
proof -
  have v: "virt_to_page (INITRD_BASE True) = 0xA0200"
    by (simp add: virt_to_page_def INITRD_BASE_def phys_to_virt_def virt_to_phys_def PAGE_OFFSET_def PAGE_SIZE_def)
  show ?thesis using ramdisk_not_reserved[of boot_mm True, unfolded v boot_end_value] by simp
qed

section \<open>Examples\<close>

text \<open>An archive with the file \<open>a\<close>, whose contents are \<open>hi\<close>; the name \<open>a\<close> at \<open>0x100\<close>.\<close>

definition example_archive :: mem where
  "example_archive = (let b = 0xFFFFFFC0A0200000 in (\<lambda>x. if unat (x - PAGE_OFFSET) < 4096 then 0 else 0x30)
     (b + 61 := 0x32, b + 101 := 0x32, b + 110 := 0x61, b + 111 := 0, b + 112 := 0x68, b + 113 := 0x69,
      b + 226 := 0x54, b + 227 := 0x52, b + 228 := 0x41, b + 229 := 0x49, b + 230 := 0x4c, b + 231 := 0x45,
      b + 232 := 0x52, b + 233 := 0x21, b + 234 := 0x21, b + 235 := 0x21, 0x100 := 0x61, 0x101 := 0))"

definition example_files :: "(u8 list \<times> u8 list) list" where
  "example_files = [([0x61], [0x68, 0x69])]"

lemma example_base: "INITRD_BASE True = 0xFFFFFFC0A0200000"
  by (simp add: INITRD_BASE_def phys_to_virt_def PAGE_OFFSET_def)

lemma example_archive_at: "cpio_at example_archive (INITRD_BASE True) example_files"
  unfolding example_base example_files_def
  by (simp add: example_archive_def Let_def PAGE_OFFSET_def small_file_def bytes_def upt_rec hex8_def hex_char_def chars_def
      SIZEOF_CPIO_def CPIO_NAMESIZE_def CPIO_FILESIZE_def head_size_def entry_size_def round4_def)

lemma example_name: "cstr example_archive 0x100 [0x61]"
  by (simp add: example_archive_def Let_def PAGE_OFFSET_def)

lemma example_apart: "archive_apart 0x1000 0x100 (INITRD_BASE True) example_files"
proof -
  have "0x100 \<le> unat (INITRD_BASE True + of_nat i - 0x1000)" if "i < 236" for i
  proof -
    have "unat (0xFFFFFFC0A01FF000 + of_nat i :: u64) = 0xFFFFFFC0A01FF000 + i"
      using that unat_small[of i] by (simp add: unat_plus_if')
    then show ?thesis by (simp add: example_base algebra_simps)
  qed
  then show ?thesis by (simp add: archive_apart_def example_files_def cpio_size_def entry_size_def head_size_def round4_def SIZEOF_CPIO_def)
qed

definition example_ramdisk :: vms where
  "example_ramdisk = (example_trap 8 0 0 0)\<lparr>ram := example_archive\<rparr>"

lemma example_ramdisk_fields:
  "ram example_ramdisk = example_archive" "qemu example_ramdisk" "tx_ready example_ramdisk" "uart_thr example_ramdisk = []"
  "heap example_ramdisk = mem_init_free boot_mm" "nr_threads example_ramdisk = 0"
  "run_links example_ramdisk = (\<lambda>n. \<lparr>prv = n, nxt = n\<rparr>)"
  using example_trap_fields(5,7,8)[of 8 0 0 0]
  by (simp_all add: example_ramdisk_def tx_ready_def example_trap_def example_vms_def irqs.defs example_irqs_fields)

theorem initrd_list_correct_witness: "\<exists>s'. initrd_list 0x1000 example_ramdisk = Inr s' \<and> uart_thr s' = [0x61, 13, 10]"
  using initrd_list_correct[where s = example_ramdisk and fs = example_files and buf = "0x1000" and k = "0x100"]
    example_archive_at example_apart example_ramdisk_fields by (auto simp: example_files_def)

theorem initrd_cat_correct_witness: "\<exists>s'. initrd_cat 0x1000 0x100 example_ramdisk = Inr s' \<and> uart_thr s' = [0x68, 0x69, 13, 10]"
  using initrd_cat_correct[where s = example_ramdisk and fs = example_files and buf = "0x1000" and k = "0x100" and target = "0x100" and xs = "[0x61]"]
    example_archive_at example_apart example_ramdisk_fields example_name by (auto simp: example_files_def)

text \<open>The first block of a machine without a kernel, for the kernel's page table.\<close>

lemma first_block: "\<exists>h. kmalloc 0x400000 (mem_init_free s) = Inr (page_addr 0, h)"
proof -
  obtain h where h: "alloc_pages BUDDY_MAX_ORDER (mem_init_free s) = (Some 0, h)" by (rule boot_alloc)
  have "kmalloc_order 0 0x400000 = Inr 10" by (simp add: kmalloc_order.simps PAGE_SIZE_def)
  then show ?thesis using h by (simp add: kmalloc_def BUDDY_MAX_ORDER_def CACHE_MAX_INDEX_def CACHE_MIN_SIZE_def page_to_virt_def)
qed

lemma example_table: "kernel_table (s\<lparr>ram := example_archive, pg_dir := page_addr 0\<rparr>) {(page_addr 0, n)}"
  if "PAGE_SIZE \<le> n" for s :: vms
proof -
  have "load64 example_archive (ent (page_addr 0) i) = load64 (\<lambda>_. 0) (ent (page_addr 0) i)" if i: "i < 256" for i
  proof (rule load64_cong)
    fix l :: nat assume l: "l < 8"
    let ?x = "ent (page_addr 0) i + of_nat l"
    have x: "?x = PAGE_OFFSET + of_nat (8 * i + l)" by (simp add: ent_def page_addr_def phys_to_virt_def)
    have k: "8 * i + l < 4096" using i l by simp
    then have u: "unat (?x - PAGE_OFFSET) = 8 * i + l" using unat_small[of "8 * i + l"] unfolding x by simp
    have ne: "?x \<noteq> y" if "4096 \<le> unat (y - PAGE_OFFSET)" for y using u that k by auto
    show "example_archive ?x = 0" using u k ne by (simp add: example_archive_def Let_def PAGE_OFFSET_def)
  qed
  then show ?thesis using that by (simp add: kernel_table_def page_in_def load_zero)
qed

theorem initrd_exec_correct_witness:
  "\<exists>s :: vms. \<exists>t s'. initrd_exec 0x100 s = Inr (Some \<lparr>ue_task = t, ue_sp = 0x3ffffff000, ue_pc = 0\<rparr>, s') \<and> runqueue s' [t] \<and>
     (\<exists>c d. areas s' t [c, d] \<and> vm_end (vma_mem s' c) = 0x1000)"
proof -
  let ?h0 = "mem_init_free boot_mm"
  obtain h where h: "kmalloc 0x400000 ?h0 = Inr (page_addr 0, h)" using first_block by blast
  obtain n where n: "unat (0x400000 :: u32) \<le> n" "mm_inv h (insert (page_addr 0, n) {})"
    using kmalloc_fresh[OF boot_mm_inv _ h] by auto
  have "plenty (Suc 5) ?h0" by (rule plenty_le[OF boot_plenty]) simp
  moreover have "0 < (0x400000 :: u32)" "unat (0x400000 :: u32) \<le> 2 ^ 22" by simp_all
  ultimately obtain a h' where "kmalloc 0x400000 ?h0 = Inr (a, h')" "plenty 5 h'" by (rule plenty_kmalloc)
  then have p: "plenty 5 h" using h by simp
  let ?s = "example_ramdisk\<lparr>heap := h, pg_dir := page_addr 0\<rparr>" and ?L = "{(page_addr 0, n)}"
  have "?s = (example_ramdisk\<lparr>heap := h\<rparr>)\<lparr>ram := example_archive, pg_dir := page_addr 0\<rparr>"
    using example_ramdisk_fields(1) by simp
  then have k: "kernel_table ?s ?L" using example_table[of n "example_ramdisk\<lparr>heap := h\<rparr>"] n(1) by (simp add: PAGE_SIZE_def)
  have i: "sched_inv ?s [] ?L" using n(2) by (simp add: sched_inv_def runqueue_def dlist_def example_ramdisk_fields)
  have a: "cpio_at (ram ?s) (INITRD_BASE (qemu ?s)) example_files" "cstr (ram ?s) 0x100 [0x61]"
    using example_archive_at example_name example_ramdisk_fields by simp_all
  have f: "map_of example_files [0x61] = Some [0x68, 0x69]" by (simp add: example_files_def)
  obtain t s' L' fl where r: "initrd_exec 0x100 ?s = Inr (Some \<lparr>ue_task = t, ue_sp = 0x3ffffff000, ue_pc = 0\<rparr>, s')"
    "sched_inv s' ([] @ [t]) L'" "loaded s' t fl (length [0x68, 0x69 :: u8]) L'"
    using initrd_exec_correct[OF i _ k _ a(1,2) _ f] p by (auto simp: example_ramdisk_fields)
  have e: "vm_end (code_area t fl 2) = 0x1000" by (simp add: code_area_def align_def PAGE_SIZE_def)
  obtain c d where "areas s' t [c, d]" "vma_mem s' c = code_area t fl 2" using r(3) by (auto simp: loaded_def numeral_2_eq_2)
  then show ?thesis using r(1,2) e unfolding sched_inv_def
    by (intro exI[of _ ?s] exI[of _ t] exI[of _ s']) auto
qed

end
