(* ===== verification/Sbi.thy ===== *)
theory Sbi
  imports Prelude
begin

text \<open>
  Calls of the firmware, \<open>src/sbi.c\<close>. What the firmware does at \<open>ecall\<close> is a parameter: it gets the registers
  \<open>a0\<close> to \<open>a7\<close> and the state and returns \<open>a0\<close>, \<open>a1\<close> and a state. The wrappers say which registers hold what;
  a value of type \<open>int\<close> is sign-extended into a register and a result of type \<open>int\<close> is its lower half.
\<close>

section \<open>Registers and results\<close>

record sbi_regs =
  sbi_a0 :: u64
  sbi_a1 :: u64
  sbi_a2 :: u64
  sbi_a3 :: u64
  sbi_a4 :: u64
  sbi_a5 :: u64
  sbi_a6 :: u64
  sbi_a7 :: u64

record sbiret =
  sbi_error :: u64
  sbi_value :: u64

type_synonym 's firmware = "sbi_regs \<Rightarrow> 's \<Rightarrow> (u64 \<times> u64) \<times> 's"

definition SBI_EXT_PUTCHAR :: u32 where "SBI_EXT_PUTCHAR = 0x1"
definition SBI_EXT_GETCHAR :: u32 where "SBI_EXT_GETCHAR = 0x2"
definition SBI_EXT_BASE :: u32 where "SBI_EXT_BASE = 0x10"
definition SBI_EXT_BASE_PROBE :: u32 where "SBI_EXT_BASE_PROBE = 3"
definition SBI_EXT_TIME :: u32 where "SBI_EXT_TIME = 0x54494D45"
definition SBI_EXT_TIME_SET :: u32 where "SBI_EXT_TIME_SET = 0"
definition SBI_EXT_SRST :: u32 where "SBI_EXT_SRST = 0x53525354"
definition SBI_EXT_SRST_RST :: u32 where "SBI_EXT_SRST_RST = 0"
definition SBI_EXT_DBCN :: u32 where "SBI_EXT_DBCN = 0x4442434E"
definition SBI_EXT_DBCN_WRITE :: u32 where "SBI_EXT_DBCN_WRITE = 0"
definition SBI_EXT_DBCN_READ :: u32 where "SBI_EXT_DBCN_READ = 1"
definition SBI_SRST_TYPE_WARM_REBOOT :: u32 where "SBI_SRST_TYPE_WARM_REBOOT = 2"
definition SBI_SRST_REASON_NONE :: u32 where "SBI_SRST_REASON_NONE = 0"

section \<open>The wrappers\<close>

definition sbi_ecall :: "'s firmware \<Rightarrow> u32 \<Rightarrow> u32 \<Rightarrow> u64 \<Rightarrow> u64 \<Rightarrow> u64 \<Rightarrow> u64 \<Rightarrow> u64 \<Rightarrow> u64 \<Rightarrow> 's \<Rightarrow> sbiret \<times> 's" where
  "sbi_ecall ecall ext fid arg0 arg1 arg2 arg3 arg4 arg5 s =
     (let ((a0, a1), s1) = ecall \<lparr>sbi_a0 = arg0, sbi_a1 = arg1, sbi_a2 = arg2, sbi_a3 = arg3, sbi_a4 = arg4, sbi_a5 = arg5,
                              sbi_a6 = scast fid, sbi_a7 = scast ext\<rparr> s
      in (\<lparr>sbi_error = a0, sbi_value = a1\<rparr>, s1))"

definition sbi_console_putchar :: "'s firmware \<Rightarrow> u32 \<Rightarrow> 's \<Rightarrow> 's" where
  "sbi_console_putchar ecall ch s = snd (sbi_ecall ecall SBI_EXT_PUTCHAR 0 (scast ch) 0 0 0 0 0 s)"

definition sbi_console_getchar :: "'s firmware \<Rightarrow> 's \<Rightarrow> u32 \<times> 's" where
  "sbi_console_getchar ecall s =
     (let (ret, s1) = sbi_ecall ecall SBI_EXT_GETCHAR 0 0 0 0 0 0 0 s in (ucast (sbi_error ret), s1))"

definition sbi_probe_extension :: "'s firmware \<Rightarrow> u32 \<Rightarrow> 's \<Rightarrow> u32 \<times> 's" where
  "sbi_probe_extension ecall extid s =
     (let (ret, s1) = sbi_ecall ecall SBI_EXT_BASE SBI_EXT_BASE_PROBE (scast extid) 0 0 0 0 0 s
      in if sbi_error ret = 0 \<and> sbi_value ret \<noteq> 0 then (ucast (sbi_value ret), s1) else (0, s1))"

definition sbi_set_timer :: "'s firmware \<Rightarrow> u64 \<Rightarrow> 's \<Rightarrow> sbiret \<times> 's" where
  "sbi_set_timer ecall stime_value s = sbi_ecall ecall SBI_EXT_TIME SBI_EXT_TIME_SET stime_value 0 0 0 0 0 s"

definition sbi_system_reset :: "'s firmware \<Rightarrow> u32 \<Rightarrow> u32 \<Rightarrow> 's \<Rightarrow> sbiret \<times> 's" where
  "sbi_system_reset ecall type reason s =
     sbi_ecall ecall SBI_EXT_SRST SBI_EXT_SRST_RST (ucast type) (ucast reason) 0 0 0 0 s"

definition sbi_result :: "sbiret \<Rightarrow> u32" where
  "sbi_result ret = (if sbi_error ret \<noteq> 0 then ucast (sbi_error ret) else ucast (sbi_value ret))"

definition sbi_debug_console_write :: "'s firmware \<Rightarrow> u64 \<Rightarrow> u32 \<Rightarrow> 's \<Rightarrow> u32 \<times> 's" where
  "sbi_debug_console_write ecall bytes sz s =
     (let (ret, s1) = sbi_ecall ecall SBI_EXT_DBCN SBI_EXT_DBCN_WRITE (ucast sz) bytes 0 0 0 0 s
      in (sbi_result ret, s1))"

definition sbi_debug_console_read :: "'s firmware \<Rightarrow> u64 \<Rightarrow> u32 \<Rightarrow> 's \<Rightarrow> u32 \<times> 's" where
  "sbi_debug_console_read ecall bytes sz s =
     (let (ret, s1) = sbi_ecall ecall SBI_EXT_DBCN SBI_EXT_DBCN_READ (ucast sz) bytes 0 0 0 0 s
      in (sbi_result ret, s1))"

end
