(* ===== verification/Shell.thy ===== *)
theory Shell
  imports Initrd Sbi
begin

text \<open>
  The shell, \<open>src/shell.c\<close> and \<open>src/cmd.c\<close>: a line is read with its editing, split into a command and its
  arguments, and the command of that name in the list of registered ones is run. The address of a string literal
  in the kernel image is given by \<open>lit\<close>, what the firmware does by \<open>ecall\<close>, and the arrays on the stack of the shell
  and of the commands are at \<open>buf\<close> and \<open>file_buf\<close>. The static \<open>next\<close> of \<open>strtok\<close> is a field of the state.
\<close>

section \<open>State\<close>

datatype cmd_func = CMD_HELP | CMD_HELLO | CMD_REBOOT | CMD_CLEAR | CMD_LS | CMD_CAT | CMD_EXEC

record command =
  cmd_name :: u64
  cmd_text :: u64
  cmd_fn :: cmd_func

datatype cmd_node = Commands | CmdList (cmd_of: u64)

record cmds = vms +
  cmd_mem :: "u64 \<Rightarrow> command"
  cmd_links :: "cmd_node links"
  strtok_next :: u64

definition SIZEOF_COMMAND :: nat where "SIZEOF_COMMAND = 40"
definition SHELL_BUF_SIZE :: nat where "SHELL_BUF_SIZE = 256"

text \<open>A command returns its status, or control is in user mode.\<close>

datatype cmd_result = Returned u32 | Entered user_entry

section \<open>The commands\<close>

definition register_command :: "u64 \<Rightarrow> u64 \<Rightarrow> cmd_func \<Rightarrow> 'z cmds_scheme \<Rightarrow> fault + 'z cmds_scheme" where
  "register_command name help func s =
     bindF (kmalloc (of_nat SIZEOF_COMMAND) (heap s)) (\<lambda>(cmd, h).
       let s1 = s\<lparr>heap := h\<rparr>;
           s2 = s1\<lparr>cmd_mem := (cmd_mem s1)(cmd := \<lparr>cmd_name = name, cmd_text = help, cmd_fn = func\<rparr>)\<rparr>
       in Inr (s2\<lparr>cmd_links := list_add_tail (CmdList cmd) Commands (cmd_links s2)\<rparr>))"

text \<open>The calls of \<open>register_command\<close> in \<open>cmd_init\<close>, one after the other.\<close>

fun register_commands :: "(u64 \<times> u64 \<times> cmd_func) list \<Rightarrow> 'z cmds_scheme \<Rightarrow> fault + 'z cmds_scheme" where
  "register_commands [] s = Inr s"
| "register_commands ((name, help, func) # cs) s = bindF (register_command name help func s) (register_commands cs)"

definition builtin_commands :: "(string \<times> string \<times> cmd_func) list" where
  "builtin_commands =
     [(''help'', ''Show all commands'', CMD_HELP),
      (''hello'', ''Show hello message'', CMD_HELLO),
      (''reboot'', ''Reboot the device'', CMD_REBOOT),
      (''clear'', ''Clear the screen'', CMD_CLEAR),
      (''ls'', ''List files'', CMD_LS),
      (''cat'', ''Show file content'', CMD_CAT),
      (''exec'', ''Execute a program'', CMD_EXEC)]"

definition cmd_init :: "(string \<Rightarrow> u64) \<Rightarrow> 'z cmds_scheme \<Rightarrow> fault + 'z cmds_scheme" where
  "cmd_init lit s =
     register_commands (map (\<lambda>(n, h, f). (lit n, lit h, f)) builtin_commands)
       (s\<lparr>cmd_links := INIT_LIST_HEAD Commands (cmd_links s)\<rparr>)"

definition cmd_help :: "'z cmds_scheme \<Rightarrow> fault + 'z cmds_scheme" where
  "cmd_help s =
     (case list_for_each_do cmd_links
         (\<lambda>pos s. printk (''%s'' @ [CHR 0x09] @ ''- %s\<newline>'')
            [cmd_name (cmd_mem s (cmd_of pos)), cmd_text (cmd_mem s (cmd_of pos))] s)
         Commands (nxt (cmd_links s Commands)) s of
        None \<Rightarrow> Inl No_Return | Some r \<Rightarrow> r)"

definition cmd_hello :: "'z cmds_scheme \<Rightarrow> fault + 'z cmds_scheme" where
  "cmd_hello s = printk ''Hello, World!\<newline>'' [] s"

definition cmd_reboot :: "'z cmds_scheme firmware \<Rightarrow> 'z cmds_scheme \<Rightarrow> 'z cmds_scheme" where
  "cmd_reboot ecall s = snd (sbi_system_reset ecall SBI_SRST_TYPE_WARM_REBOOT SBI_SRST_REASON_NONE s)"

definition cmd_clear :: "'z cmds_scheme \<Rightarrow> fault + 'z cmds_scheme" where
  "cmd_clear s = printk ([CHR 0x1B] @ ''[H'' @ [CHR 0x1B] @ ''[J'') [] s"

definition cmd_ls :: "u64 \<Rightarrow> 'z cmds_scheme \<Rightarrow> fault + 'z cmds_scheme" where
  "cmd_ls file_buf s = initrd_list file_buf s"

definition cmd_cat :: "u64 \<Rightarrow> u64 \<Rightarrow> 'z cmds_scheme \<Rightarrow> fault + 'z cmds_scheme" where
  "cmd_cat file_buf args s = initrd_cat file_buf args s"

definition cmd_exec :: "u64 \<Rightarrow> 'z cmds_scheme \<Rightarrow> fault + user_entry option \<times> 'z cmds_scheme" where
  "cmd_exec args s = initrd_exec args s"

text \<open>The call through the pointer, and the status that \<open>exec_command\<close> returns after it.\<close>

fun run_command :: "'z cmds_scheme firmware \<Rightarrow> u64 \<Rightarrow> cmd_func \<Rightarrow> u64 \<Rightarrow> 'z cmds_scheme \<Rightarrow> fault + cmd_result \<times> 'z cmds_scheme" where
  "run_command ecall file_buf CMD_HELP args s = bindF (cmd_help s) (\<lambda>s1. Inr (Returned 0, s1))"
| "run_command ecall file_buf CMD_HELLO args s = bindF (cmd_hello s) (\<lambda>s1. Inr (Returned 0, s1))"
| "run_command ecall file_buf CMD_REBOOT args s = Inr (Returned 0, cmd_reboot ecall s)"
| "run_command ecall file_buf CMD_CLEAR args s = bindF (cmd_clear s) (\<lambda>s1. Inr (Returned 0, s1))"
| "run_command ecall file_buf CMD_LS args s = bindF (cmd_ls file_buf s) (\<lambda>s1. Inr (Returned 0, s1))"
| "run_command ecall file_buf CMD_CAT args s = bindF (cmd_cat file_buf args s) (\<lambda>s1. Inr (Returned 0, s1))"
| "run_command ecall file_buf CMD_EXEC args s =
     bindF (cmd_exec args s) (\<lambda>(u, s1). Inr (case u of Some e \<Rightarrow> Entered e | None \<Rightarrow> Returned 0, s1))"

section \<open>Executing a line\<close>

definition isspace :: "u8 \<Rightarrow> bool" where
  "isspace c \<longleftrightarrow> c = 0x20"

partial_function (option) skip_spaces :: "mem \<Rightarrow> u64 \<Rightarrow> u64 option" where
  "skip_spaces m p = (if isspace (m p) then skip_spaces m (p + 1) else Some p)"

function trim_spaces :: "mem \<Rightarrow> u64 \<Rightarrow> u64 \<Rightarrow> mem" where
  "trim_spaces m input fin =
     (if input < fin \<and> isspace (m fin) then trim_spaces (m(fin := 0)) input (fin - 1) else m)"
  by pat_completeness auto
termination
proof (relation "measure (\<lambda>(m, input, fin). unat fin)")
  fix m :: mem and input fin :: u64
  assume "input < fin \<and> isspace (m fin)"
  then have "fin \<noteq> 0" by auto
  then have "unat (fin - 1) < unat fin" using unat_minus_one[of fin] unat_gt_0[of fin] by simp
  then show "((m(fin := 0), input, fin - 1), m, input, fin) \<in> measure (\<lambda>(m, input, fin). unat fin)" by simp
qed simp

declare trim_spaces.simps [simp del]

text \<open>The command with the name, null when there is none.\<close>

partial_function (option) find_command :: "u64 \<Rightarrow> 'z cmds_scheme \<Rightarrow> cmd_node \<Rightarrow> u64 option option" where
  "find_command command s pos =
     (if list_is_head pos Commands then Some None
      else Option.bind (strcmp (ram s) (cmd_name (cmd_mem s (cmd_of pos))) command) (\<lambda>r.
        if r = 0 then Some (Some (cmd_of pos)) else find_command command s (nxt (cmd_links s pos))))"

definition exec_command ::
    "(string \<Rightarrow> u64) \<Rightarrow> 'z cmds_scheme firmware \<Rightarrow> u64 \<Rightarrow> u64 \<Rightarrow> 'z cmds_scheme \<Rightarrow> fault + cmd_result \<times> 'z cmds_scheme" where
  "exec_command lit ecall file_buf line s =
     bindF (of_loop (skip_spaces (ram s) line)) (\<lambda>input.
     bindF (of_loop (strlen (ram s) input)) (\<lambda>len.
       let s1 = s\<lparr>ram := trim_spaces (ram s) input (input + of_nat len - 1)\<rparr>
       in bindF (of_loop (strlen (ram s1) input)) (\<lambda>len1.
         if len1 = 0 then Inr (Returned (- 1), s1)
         else
           bindF (of_loop (strchr (ram s1) input 0x20)) (\<lambda>a.
           bindF (if a \<noteq> 0 then of_loop (skip_spaces (ram s1) a) else Inr 0) (\<lambda>args.
           bindF (of_loop (strtok (ram s1) (strtok_next s1) input (lit '' ''))) (\<lambda>(command, nx, m).
             let s2 = s1\<lparr>ram := m, strtok_next := nx\<rparr>
             in bindF (of_loop (find_command command s2 (nxt (cmd_links s2 Commands)))) (\<lambda>r.
                  case r of
                    Some cmd \<Rightarrow> run_command ecall file_buf (cmd_fn (cmd_mem s2 cmd)) args s2
                  | None \<Rightarrow> bindF (printk ''%s: command not found\<newline>'' [command] s2) (\<lambda>s3. Inr (Returned (- 1), s3)))))))))"

section \<open>Reading a line\<close>

partial_function (option) read_input_loop :: "u64 \<Rightarrow> u32 \<Rightarrow> 'z console_scheme \<Rightarrow> 'z console_scheme option" where
  "read_input_loop buf idx s =
     Option.bind (uart_getc s) (\<lambda>(c, s1).
       if c = 10 then
         Option.bind (uart_putc c s1) (\<lambda>s2. Some (s2\<lparr>ram := (ram s2)(buf + scast idx := 0)\<rparr>))
       else if 32 \<le> c \<and> c \<le> 126 then
         Option.bind (uart_putc c s1) (\<lambda>s2. read_input_loop buf (idx + 1) (s2\<lparr>ram := (ram s2)(buf + scast idx := c)\<rparr>))
       else if c = 127 then
         if 0 < sint idx then
           Option.bind (uart_putc 8 (s1\<lparr>ram := (ram s1)(buf + scast idx := 0)\<rparr>)) (\<lambda>s2.
           Option.bind (uart_putc 0x20 s2) (\<lambda>s3.
           Option.bind (uart_putc 8 s3) (\<lambda>s4. read_input_loop buf (idx - 1) s4)))
         else read_input_loop buf idx s1
       else read_input_loop buf idx s1)"

definition read_user_input :: "u64 \<Rightarrow> 'z console_scheme \<Rightarrow> 'z console_scheme option" where
  "read_user_input buf s = read_input_loop buf 0 s"

text \<open>One turn of the endless loop of \<open>run_shell\<close>.\<close>

definition shell_turn :: "(string \<Rightarrow> u64) \<Rightarrow> 'z cmds_scheme firmware \<Rightarrow> u64 \<Rightarrow> u64 \<Rightarrow> 'z cmds_scheme \<Rightarrow> fault + cmd_result \<times> 'z cmds_scheme" where
  "shell_turn lit ecall file_buf buf s =
     bindF (of_loop (uart_puts (lit ''# '') s)) (\<lambda>s1.
     bindF (of_loop (read_user_input buf s1)) (\<lambda>s2.
       exec_command lit ecall file_buf buf s2))"

section \<open>Editing a line\<close>

text \<open>What a byte does to the line typed so far, and what goes back to the terminal.\<close>

definition line_edit :: "u8 list \<Rightarrow> u8 \<Rightarrow> u8 list" where
  "line_edit acc c = (if 32 \<le> c \<and> c \<le> 126 then acc @ [c] else if c = 127 then butlast acc else acc)"

definition line_echo :: "u8 list \<Rightarrow> u8 \<Rightarrow> u8 list" where
  "line_echo acc c = (if 32 \<le> c \<and> c \<le> 126 then [c] else if c = 127 \<and> acc \<noteq> [] then [8, 0x20, 8] else [])"

fun line_echoes :: "u8 list \<Rightarrow> u8 list \<Rightarrow> u8 list" where
  "line_echoes acc [] = []"
| "line_echoes acc (c # cs) = line_echo acc c @ line_echoes (line_edit acc c) cs"

text \<open>The line never has \<open>k\<close> bytes or more.\<close>

definition line_below :: "nat \<Rightarrow> u8 list \<Rightarrow> u8 list \<Rightarrow> bool" where
  "line_below k acc cs \<longleftrightarrow> (\<forall>i \<le> length cs. length (foldl line_edit acc (take i cs)) < k)"

lemma line_below_Cons: "line_below k acc (c # cs) \<longleftrightarrow> length acc < k \<and> line_below k (line_edit acc c) cs"
proof -
  have "(\<forall>i \<le> Suc n. P i) \<longleftrightarrow> P 0 \<and> (\<forall>i \<le> n. P (Suc i))" for n P by (metis Suc_le_mono le0 not0_implies_Suc)
  then show ?thesis by (simp add: line_below_def)
qed

text \<open>The bytes that arrive begin with \<open>cs\<close>.\<close>

definition arrives :: "u8 list \<Rightarrow> 'z console_scheme \<Rightarrow> bool" where
  "arrives cs s \<longleftrightarrow> (\<forall>i < length cs. received s i = cs ! i)"

definition holds_line :: "mem \<Rightarrow> u64 \<Rightarrow> u8 list \<Rightarrow> bool" where
  "holds_line m a cs \<longleftrightarrow> (\<forall>i < length cs. m (a + of_nat i) = cs ! i)"

lemma arrives_Cons:
  assumes "arrives (c # cs) s" and "uart_rbr s' = uart_rbr s" and "rbr_reads s' = rbr_reads s + 1"
  shows "arrives cs s'" and "received s 0 = c"
proof -
  show "received s 0 = c" using assms(1) by (auto simp: arrives_def)
  have "received s' i = received s (Suc i)" for i using assms(2,3) by (simp add: received_def)
  moreover have "received s (Suc i) = cs ! i" if "i < length cs" for i using assms(1) that by (auto simp: arrives_def)
  ultimately show "arrives cs s'" by (simp add: arrives_def)
qed

lemma scast_32: "i < 2 ^ 31 \<Longrightarrow> scast (of_nat i :: u32) = (of_nat i :: u64)"
  by (rule sint_counter(2))

lemma holds_line_snoc:
  assumes "holds_line m a cs" and "length cs < 2 ^ 64"
  shows "holds_line (m(a + of_nat (length cs) := c)) a (cs @ [c])"
proof -
  have "a + of_nat i \<noteq> a + of_nat (length cs)" if "i < length cs" for i
    using offset_inj[of i "length cs" a] that assms(2) by auto
  then show ?thesis using assms(1) by (auto simp: holds_line_def nth_append less_Suc_eq)
qed

lemma holds_line_butlast:
  assumes "holds_line m a cs" and "length cs < 2 ^ 64"
  shows "holds_line (m(a + of_nat (length cs) := c)) a (butlast cs)"
proof -
  have "a + of_nat i \<noteq> a + of_nat (length cs)" if "i < length cs" for i
    using offset_inj[of i "length cs" a] that assms(2) by auto
  then show ?thesis using assms(1) by (auto simp: holds_line_def nth_butlast)
qed

text \<open>One byte.\<close>

lemma read_input_step:
  assumes "rx_ready s" and "tx_ready s" and "received s 0 = c" and "c \<noteq> 10" and "length acc < k" "k < 2 ^ 31"
    and h: "holds_line (ram s) buf acc"
  shows "\<exists>s'. read_input_loop buf (of_nat (length acc)) s = read_input_loop buf (of_nat (length (line_edit acc c))) s' \<and>
    holds_line (ram s') buf (line_edit acc c) \<and> uart_thr s' = uart_thr s @ line_echo acc c \<and>
    rx_ready s' \<and> tx_ready s' \<and> uart_rbr s' = uart_rbr s \<and> rbr_reads s' = rbr_reads s + 1 \<and>
    (\<forall>x. k \<le> unat (x - buf) \<longrightarrow> ram s' x = ram s x)"
proof -
  let ?i = "of_nat (length acc) :: u32" and ?p = "buf + of_nat (length acc)"
  have i31: "length acc < 2 ^ 31" and l: "length acc < 2 ^ 64" using assms(5,6) by simp_all
  have sc: "scast ?i = (of_nat (length acc) :: u64)" "sint ?i = int (length acc)"
    using scast_32[OF i31] sint_counter(1)[OF i31] by simp_all
  have out: "(m(?p := v)) x = m x" if "k \<le> unat (x - buf)" for m :: mem and v x
  proof -
    have "unat (?p - buf) < k" using unat_small[OF l] assms(5) by simp
    then show ?thesis using that by auto
  qed
  obtain n where g: "uart_getc s = Some (c, s\<lparr>lsr_reads := n, rbr_reads := rbr_reads s + 1\<rparr>)"
    using uart_getc_received[OF assms(1)] assms(3) by auto
  let ?s1 = "s\<lparr>lsr_reads := n, rbr_reads := rbr_reads s + 1\<rparr>"
  have t1: "tx_ready ?s1" using assms(2) by (simp add: tx_ready_def)
  have rx: "rx_ready t" if "uart_lsr t = uart_lsr s" for t :: "'a console_scheme" using assms(1) that by (simp add: rx_ready_def)
  have tx: "tx_ready t" if "uart_lsr t = uart_lsr s" for t :: "'a console_scheme" using assms(2) that by (simp add: tx_ready_def)
  consider (print) "32 \<le> c \<and> c \<le> 126" | (del) "c = 127" "acc \<noteq> []" | (none) "\<not> (32 \<le> c \<and> c \<le> 126)" "c \<noteq> 127 \<or> acc = []" by blast
  then show ?thesis
  proof cases
    case print
    obtain s2 where p: "uart_putc c ?s1 = Some s2" "sends (crlf [c]) ?s1 s2" using uart_putc_sends[OF t1] by blast
    obtain n2 where s2: "s2 = ?s1\<lparr>lsr_reads := n2, uart_thr := uart_thr s @ [c]\<rparr>" using p(2) assms(4) by (auto simp: sends_def)
    let ?s' = "s2\<lparr>ram := (ram s2)(?p := c)\<rparr>"
    have "read_input_loop buf ?i s = read_input_loop buf (?i + 1) ?s'"
      using g p(1) print assms(4) by (simp add: read_input_loop.simps[of buf ?i s] sc)
    moreover have "?i + 1 = of_nat (length (line_edit acc c))" using print by (simp add: line_edit_def add.commute)
    moreover have "holds_line (ram ?s') buf (line_edit acc c)" using holds_line_snoc[OF h l] print by (simp add: line_edit_def s2)
    ultimately show ?thesis using print rx[of ?s'] tx[of ?s'] out by (intro exI[of _ ?s']) (simp add: s2 line_echo_def)
  next
    case del
    let ?sa = "?s1\<lparr>ram := (ram s)(?p := 0)\<rparr>"
    have ta: "tx_ready ?sa" using tx[of ?sa] by simp
    obtain s2 where p2: "uart_putc 8 ?sa = Some s2" "sends (crlf [8]) ?sa s2" using uart_putc_sends[OF ta] by blast
    have t2: "tx_ready s2" using sends_fields(3)[OF p2(2)] tx[of ?sa] by simp
    obtain s3 where p3: "uart_putc 0x20 s2 = Some s3" "sends (crlf [0x20]) s2 s3" using uart_putc_sends[OF t2] by blast
    have t3: "tx_ready s3" using sends_fields(3)[OF p3(2)] t2 by simp
    obtain s4 where p4: "uart_putc 8 s3 = Some s4" "sends (crlf [8]) s3 s4" using uart_putc_sends[OF t3] by blast
    obtain n4 where s4: "s4 = ?sa\<lparr>lsr_reads := n4, uart_thr := uart_thr s @ [8, 0x20, 8]\<rparr>"
      using sends_trans[OF p2(2) sends_trans[OF p3(2) p4(2)]] by (auto simp: sends_def)
    have "0 < sint ?i" using del(2) by (simp add: sc)
    then have "read_input_loop buf ?i s = read_input_loop buf (?i - 1) s4"
      using g p2(1) p3(1) p4(1) del by (simp add: read_input_loop.simps[of buf ?i s] sc)
    moreover have "?i - 1 = of_nat (length (line_edit acc c))" using del by (cases acc) (simp_all add: line_edit_def)
    moreover have "holds_line (ram s4) buf (line_edit acc c)" using holds_line_butlast[OF h l] del by (simp add: line_edit_def s4)
    ultimately show ?thesis using del rx[of s4] tx[of s4] out by (intro exI[of _ s4]) (simp add: s4 line_echo_def)
  next
    case none
    have "sint ?i = 0" if "acc = []" using that by simp
    then have "read_input_loop buf ?i s = read_input_loop buf ?i ?s1"
      using g none assms(4) by (auto simp: read_input_loop.simps[of buf ?i s])
    moreover have "line_edit acc c = acc" "line_echo acc c = []" using none by (auto simp: line_edit_def line_echo_def)
    ultimately show ?thesis using h rx[of ?s1] tx[of ?s1] by (intro exI[of _ ?s1]) simp
  qed
qed

lemma read_input_loop_edits:
  assumes "arrives (cs @ [10]) s" and "10 \<notin> set cs" and "rx_ready s" and "tx_ready s" and "line_below k acc cs" "k < 2 ^ 31"
    and "holds_line (ram s) buf acc"
  shows "\<exists>s'. read_input_loop buf (of_nat (length acc)) s = Some s' \<and> holds_line (ram s') buf (foldl line_edit acc cs) \<and>
    ram s' (buf + of_nat (length (foldl line_edit acc cs))) = 0 \<and>
    uart_thr s' = uart_thr s @ line_echoes acc cs @ [13, 10] \<and> rbr_reads s' = rbr_reads s + length cs + 1 \<and>
    (\<forall>x. k \<le> unat (x - buf) \<longrightarrow> ram s' x = ram s x)"
  using assms(1-5,7)
proof (induction cs arbitrary: acc s)
  case Nil
  let ?i = "of_nat (length acc) :: u32" and ?p = "buf + of_nat (length acc)"
  have l: "length acc < k" "length acc < 2 ^ 31" "length acc < 2 ^ 64" using Nil.prems(5) assms(6) by (simp_all add: line_below_def)
  have c: "received s 0 = 10" using Nil.prems(1) by (simp add: arrives_def)
  obtain n where g: "uart_getc s = Some (10, s\<lparr>lsr_reads := n, rbr_reads := rbr_reads s + 1\<rparr>)"
    using uart_getc_received[OF Nil.prems(3)] c by auto
  let ?s1 = "s\<lparr>lsr_reads := n, rbr_reads := rbr_reads s + 1\<rparr>"
  have "tx_ready ?s1" using Nil.prems(4) by (simp add: tx_ready_def)
  then obtain s2 where p: "uart_putc 10 ?s1 = Some s2" "sends (crlf [10]) ?s1 s2" using uart_putc_sends by blast
  obtain n2 where s2: "s2 = ?s1\<lparr>lsr_reads := n2, uart_thr := uart_thr s @ [13, 10]\<rparr>" using p(2) by (auto simp: sends_def)
  have "read_input_loop buf ?i s = Some (s2\<lparr>ram := (ram s2)(?p := 0)\<rparr>)"
    using g p(1) by (simp add: read_input_loop.simps[of buf ?i s] scast_32[OF l(2)])
  moreover have "holds_line ((ram s)(?p := 0)) buf acc"
  proof -
    have "buf + of_nat i \<noteq> ?p" if "i < length acc" for i using offset_inj[of i "length acc" buf] that l(3) by auto
    then show ?thesis using Nil.prems(6) by (simp add: holds_line_def)
  qed
  moreover have "unat (?p - buf) < k" using unat_small[OF l(3)] l(1) by simp
  then have "((ram s)(?p := 0)) x = ram s x" if "k \<le> unat (x - buf)" for x using that by auto
  ultimately show ?case by (intro exI[of _ "s2\<lparr>ram := (ram s2)(?p := 0)\<rparr>"]) (simp add: s2 fun_upd_def)
next
  case (Cons c cs)
  have b: "length acc < k" "line_below k (line_edit acc c) cs" using Cons.prems(5) by (simp_all add: line_below_Cons)
  have c: "received s 0 = c" using Cons.prems(1) by (auto simp: arrives_def)
  have "c \<noteq> 10" using Cons.prems(2) by simp
  from read_input_step[OF Cons.prems(3,4) c this b(1) assms(6) Cons.prems(6)] obtain s1 where
    1: "read_input_loop buf (of_nat (length acc)) s = read_input_loop buf (of_nat (length (line_edit acc c))) s1"
    "holds_line (ram s1) buf (line_edit acc c)" "uart_thr s1 = uart_thr s @ line_echo acc c" "rx_ready s1" "tx_ready s1"
    "uart_rbr s1 = uart_rbr s" "rbr_reads s1 = rbr_reads s + 1" "\<forall>x. k \<le> unat (x - buf) \<longrightarrow> ram s1 x = ram s x"
    by (elim exE conjE) (rule that)
  have "arrives (cs @ [10]) s1" using arrives_Cons(1)[of c "cs @ [10]" s s1] Cons.prems(1) 1(6,7) by simp
  from Cons.IH[OF this _ 1(4,5) b(2) 1(2)] Cons.prems(2) show ?case using 1(1,3,7,8) by auto
qed

lemma line_edits_nonzero: "0 \<notin> set acc \<Longrightarrow> 0 \<notin> set (foldl line_edit acc cs)"
proof (induction cs arbitrary: acc)
  case (Cons c cs)
  have "0 \<notin> set (line_edit acc c)" using Cons.prems in_set_butlastD[of 0 acc] by (auto simp: line_edit_def)
  then show ?case using Cons.IH by simp
qed simp

lemma read_user_input_line:
  assumes "arrives (cs @ [10]) s" and "10 \<notin> set cs" and "rx_ready s" and "tx_ready s" and "line_below k [] cs" "k < 2 ^ 31"
  shows "\<exists>s'. read_user_input buf s = Some s' \<and> cstr (ram s') buf (foldl line_edit [] cs) \<and>
    uart_thr s' = uart_thr s @ line_echoes [] cs @ [13, 10] \<and> rbr_reads s' = rbr_reads s + length cs + 1 \<and>
    (\<forall>x. k \<le> unat (x - buf) \<longrightarrow> ram s' x = ram s x)"
proof -
  have "holds_line (ram s) buf []" by (simp add: holds_line_def)
  from read_input_loop_edits[OF assms this] obtain s' where
    s': "read_user_input buf s = Some s'" "holds_line (ram s') buf (foldl line_edit [] cs)"
    "ram s' (buf + of_nat (length (foldl line_edit [] cs))) = 0" "uart_thr s' = uart_thr s @ line_echoes [] cs @ [13, 10]"
    "rbr_reads s' = rbr_reads s + length cs + 1" "\<forall>x. k \<le> unat (x - buf) \<longrightarrow> ram s' x = ram s x"
    unfolding read_user_input_def by (simp, blast)
  have "0 \<notin> set (foldl line_edit [] cs)" by (rule line_edits_nonzero) simp
  then have "cstr (ram s') buf (foldl line_edit [] cs)" using s'(2,3) unfolding holds_line_def by (rule cstrI)
  then show ?thesis using s'(1,4-6) by blast
qed

text \<open>C37: \<open>read_user_input\<close> returns when a line arrives. The buffer holds the line with its deletions carried out, the
  terminal has got the echo, and nothing is written past the longest the line ever was.\<close>

theorem read_user_input_correct:
  assumes "arrives (cs @ [10]) s" and "10 \<notin> set cs" and "rx_ready s" and "tx_ready s" and "line_below SHELL_BUF_SIZE [] cs"
  shows "\<exists>s'. read_user_input buf s = Some s' \<and> cstr (ram s') buf (foldl line_edit [] cs) \<and>
    uart_thr s' = uart_thr s @ line_echoes [] cs @ [13, 10] \<and> rbr_reads s' = rbr_reads s + length cs + 1 \<and>
    (\<forall>x. SHELL_BUF_SIZE \<le> unat (x - buf) \<longrightarrow> ram s' x = ram s x)"
  by (rule read_user_input_line[OF assms]) (simp add: SHELL_BUF_SIZE_def)

lemma line_edits_plain: "\<forall>c \<in> set cs. 32 \<le> c \<and> c \<le> 126 \<Longrightarrow> foldl line_edit acc cs = acc @ cs"
  by (induction cs arbitrary: acc) (simp_all add: line_edit_def)

text \<open>C38: the length of a line is not checked: a line of printable characters that is as long as the buffer or longer is
  written past its end.\<close>

theorem read_user_input_overflow:
  assumes "arrives (cs @ [10]) s" and p: "\<forall>c \<in> set cs. 32 \<le> c \<and> c \<le> 126" and "rx_ready s" and "tx_ready s"
    and n: "SHELL_BUF_SIZE \<le> length cs" "length cs < 2 ^ 30"
  shows "\<exists>s'. read_user_input buf s = Some s' \<and> ram s' (buf + of_nat (length cs)) = 0 \<and>
    (\<forall>i < length cs. ram s' (buf + of_nat i) = cs ! i)"
proof -
  have "10 \<notin> set cs" using p by auto
  moreover have "length (foldl line_edit [] (take i cs)) = length (take i cs)" for i
    using line_edits_plain[of "take i cs" "[]"] p by (simp add: in_set_takeD[of _ i cs])
  then have "line_below (length cs + 1) [] cs" by (simp add: line_below_def)
  ultimately obtain s' where s': "read_user_input buf s = Some s'" "cstr (ram s') buf (foldl line_edit [] cs)"
    using read_user_input_line[OF assms(1) _ assms(3,4), of "length cs + 1"] n(2) by auto
  have "cstr (ram s') buf cs" using s'(2) line_edits_plain[OF p, of "[]"] by simp
  then show ?thesis using s'(1) cstr_nth[of "ram s'" buf cs] by blast
qed

section \<open>Splitting a line\<close>

definition trim_right :: "u8 list \<Rightarrow> u8 list" where
  "trim_right xs = rev (dropWhile isspace (rev xs))"

lemma trim_right_simps [simp]:
  "trim_right [] = []" "trim_right (xs @ [c]) = (if isspace c then trim_right xs else xs @ [c])"
  by (simp_all add: trim_right_def)

lemma trim_right_hd: "xs \<noteq> [] \<Longrightarrow> \<not> isspace (hd xs) \<Longrightarrow> trim_right xs \<noteq> [] \<and> hd (trim_right xs) = hd xs"
proof (induction xs rule: rev_induct)
  case (snoc c xs)
  show ?case
  proof (cases "xs = []")
    case False
    then have "hd (xs @ [c]) = hd xs" by simp
    then show ?thesis using snoc False by auto
  qed (use snoc in \<open>simp add: trim_right_def\<close>)
qed simp

lemma trim_right_last: "trim_right xs \<noteq> [] \<Longrightarrow> \<not> isspace (last (trim_right xs))"
  by (induction xs rule: rev_induct) auto

lemma trim_right_prefix: "length (trim_right xs) \<le> length xs"
  by (induction xs rule: rev_induct) auto

definition trimmed :: "u8 list \<Rightarrow> u8 list" where
  "trimmed xs = trim_right (dropWhile isspace xs)"

definition command_word :: "u8 list \<Rightarrow> u8 list" where
  "command_word xs = takeWhile (\<lambda>c. \<not> isspace c) (trimmed xs)"

definition command_args :: "u8 list \<Rightarrow> u8 list" where
  "command_args xs = dropWhile isspace (dropWhile (\<lambda>c. \<not> isspace c) (trimmed xs))"

lemma skip_spaces_cstr: "cstr m p xs \<Longrightarrow> skip_spaces m p = Some (p + of_nat (length (takeWhile isspace xs)))"
proof (induction xs arbitrary: p)
  case Nil
  then show ?case by (simp add: skip_spaces.simps isspace_def)
next
  case (Cons x xs)
  then have "cstr m (p + 1) xs" "m p = x" by simp_all
  then show ?case using Cons.IH[of "p + 1"] by (simp add: skip_spaces.simps[of m p] add.assoc)
qed

lemma cstr_drop:
  assumes "cstr m p (xs @ ys)"
  shows "cstr m (p + of_nat (length xs)) ys"
  using assms cstr_append by blast

lemma fits_prefix: "fits a (xs @ ys) \<Longrightarrow> fits a xs"
  by (simp add: fits_def)

lemma trim_spaces_cstr:
  assumes "cstr m a xs" and "fits a xs" and "xs \<noteq> []" and "\<not> isspace (hd xs)"
  shows "\<exists>m'. trim_spaces m a (a + of_nat (length xs) - 1) = m' \<and> cstr m' a (trim_right xs) \<and>
    (\<forall>x. length xs \<le> unat (x - a) \<longrightarrow> m' x = m x)"
  using assms
proof (induction xs arbitrary: m rule: rev_induct)
  case (snoc c xs)
  let ?e = "a + of_nat (length xs)"
  have e: "a + of_nat (length (xs @ [c])) - 1 = ?e" by simp
  have l: "length xs < 2 ^ 64" using snoc.prems(2) by (simp add: fits_def)
  have ue: "unat ?e = unat a + length xs" using fits_offset(1)[OF snoc.prems(2), of "length xs"] by simp
  have cs: "m ?e = c" using snoc.prems(1) cstr_drop[of m a xs "[c]"] by simp
  show ?case
  proof (cases "isspace c \<and> xs \<noteq> []")
    case False
    then have "\<not> (a < ?e \<and> isspace (m ?e))" using cs by auto
    then have "trim_spaces m a ?e = m" by (subst trim_spaces.simps) (simp only: if_False)
    moreover have "trim_right (xs @ [c]) = xs @ [c]" using False snoc.prems(4) by auto
    ultimately show ?thesis unfolding e using snoc.prems(1) by simp
  next
    case True
    let ?m = "m(?e := 0)"
    have "a < ?e" using ue True by (simp add: word_less_nat_alt)
    then have r: "trim_spaces m a ?e = trim_spaces ?m a (?e - 1)" using True cs by (subst trim_spaces.simps) simp
    have c0: "cstr ?m a xs" using cstr_cut(1)[of m a xs c "[]"] snoc.prems(1) by simp
    have h: "\<not> isspace (hd xs)" using snoc.prems(4) True by simp
    obtain m' where m': "trim_spaces ?m a (?e - 1) = m'" "cstr m' a (trim_right xs)" "\<forall>x. length xs \<le> unat (x - a) \<longrightarrow> m' x = ?m x"
      using snoc.IH[OF c0 fits_prefix[OF snoc.prems(2)] _ h] True by blast
    have "m' x = m x" if "length (xs @ [c]) \<le> unat (x - a)" for x
    proof -
      have "x \<noteq> ?e" using that unat_small[OF l] by auto
      then show ?thesis using m'(3) that by simp
    qed
    then show ?thesis unfolding e r using m'(1,2) True by simp
  qed
qed simp

lemma trimmed_hd: "trimmed xs \<noteq> [] \<Longrightarrow> dropWhile isspace xs \<noteq> [] \<and> \<not> isspace (hd (dropWhile isspace xs)) \<and> \<not> isspace (hd (trimmed xs))"
  using trim_right_hd[of "dropWhile isspace xs"] hd_dropWhile[of isspace xs] by (cases "dropWhile isspace xs") (auto simp: trimmed_def)

lemma trimmed_args: "dropWhile (\<lambda>c. \<not> isspace c) (trimmed xs) \<noteq> [] \<Longrightarrow> command_args xs \<noteq> []"
proof
  let ?r = "dropWhile (\<lambda>c. \<not> isspace c) (trimmed xs)"
  assume r: "?r \<noteq> []" and e: "command_args xs = []"
  have "last (takeWhile (\<lambda>c. \<not> isspace c) (trimmed xs) @ ?r) = last ?r" using r by (rule last_appendR)
  then have "last (trimmed xs) = last ?r" by (simp only: takeWhile_dropWhile_id)
  moreover have "trimmed xs \<noteq> []" using r by auto
  ultimately have "\<not> isspace (last ?r)" using trim_right_last[of "dropWhile isspace xs"] by (simp only: trimmed_def not_False_eq_True)
  moreover have "\<forall>c \<in> set ?r. isspace c" using e unfolding command_args_def by (simp only: dropWhile_eq_Nil_conv)
  ultimately show False using last_in_set[OF r] by blast
qed

text \<open>The line without the spaces around it.\<close>

lemma line_trimmed:
  assumes x: "cstr m line xs" "fits line xs" and ne: "trimmed xs \<noteq> []"
  defines "inp \<equiv> line + of_nat (length (takeWhile isspace xs))" and "n \<equiv> length (dropWhile isspace xs)"
  shows "skip_spaces m line = Some inp" and "strlen m inp = Some n" and "fits inp (dropWhile isspace xs)"
    and "cstr (trim_spaces m inp (inp + of_nat n - 1)) inp (trimmed xs)"
    and "length xs \<le> unat (x - line) \<Longrightarrow> trim_spaces m inp (inp + of_nat n - 1) x = m x"
proof -
  let ?k = "length (takeWhile isspace xs)" and ?ys = "dropWhile isspace xs"
  have xs: "xs = takeWhile isspace xs @ ?ys" by simp
  have len: "length xs = ?k + n" unfolding n_def by (metis length_append takeWhile_dropWhile_id)
  show "skip_spaces m line = Some inp" unfolding inp_def by (rule skip_spaces_cstr[OF x(1)])
  have c: "cstr m inp ?ys" unfolding inp_def by (rule cstr_drop) (use x(1) xs in simp)
  show "strlen m inp = Some n" unfolding n_def by (rule strlen_cstr[OF c])
  have u: "unat inp = unat line + ?k" "inp \<noteq> 0"
    using fits_offset[OF x(2), of ?k] len by (simp_all add: inp_def)
  show f: "fits inp ?ys" using x(2) u len by (simp add: fits_def n_def)
  note h = trimmed_hd[OF ne]
  from trim_spaces_cstr[OF c f] h
  show "cstr (trim_spaces m inp (inp + of_nat n - 1)) inp (trimmed xs)" by (simp add: trimmed_def n_def)
  show "trim_spaces m inp (inp + of_nat n - 1) x = m x" if g: "length xs \<le> unat (x - line)"
  proof -
    have e: "x - inp = (x - line) - of_nat ?k" by (simp add: inp_def)
    have "unat (x - inp) = unat (x - line) - ?k" unfolding e by (rule unat_minus_offset) (use g len in simp)
    then have "n \<le> unat (x - inp)" using g len by simp
    then show ?thesis using trim_spaces_cstr[OF c f] h by (simp add: n_def)
  qed
qed

text \<open>A trimmed line is cut after its first word.\<close>

lemma line_cut:
  assumes c: "cstr m inp ys" "fits inp ys" and d: "cstr m dl [0x20]" "fits dl [0x20]" and h: "ys \<noteq> []" "\<not> isspace (hd ys)"
  defines "w \<equiv> takeWhile (\<lambda>c. \<not> isspace c) ys" and "r \<equiv> dropWhile (\<lambda>c. \<not> isspace c) ys"
  assumes l: "r = [] \<or> dropWhile isspace r \<noteq> []"
  shows "\<exists>a args np m2. strchr m inp 0x20 = Some a \<and> (if a \<noteq> 0 then of_loop (skip_spaces m a) else Inr 0) = Inr args \<and>
    strtok m nx inp dl = Some (inp, np, m2) \<and> cstr m2 inp w \<and>
    (if dropWhile isspace r = [] then args = 0 else args \<noteq> 0 \<and> cstr m2 args (dropWhile isspace r)) \<and>
    (\<forall>x. length ys \<le> unat (x - inp) \<longrightarrow> m2 x = m x)"
proof -
  have P: "(\<lambda>x :: u8. x \<noteq> 0x20) = (\<lambda>c. \<not> isspace c)" "(\<lambda>x. x \<in> set [0x20 :: u8]) = isspace" "(\<lambda>x. x \<notin> set [0x20 :: u8]) = (\<lambda>c. \<not> isspace c)"
    by (auto simp: isspace_def)
  have ys: "ys = w @ r" by (simp add: w_def r_def)
  have t0: "takeWhile isspace ys = []" "dropWhile isspace ys = ys" using h by (cases ys, simp_all)+
  have ch: "strchr m inp 0x20 = Some (if 0x20 \<in> set ys then inp + of_nat (length w) else 0)"
    using strchr_cstr[OF c(1), of "0x20"] unfolding P w_def by simp
  have "inp \<noteq> 0" using c(2) by (simp add: fits_def)
  then have tok: "strtok m nx inp dl = (if r = [] then Some (inp, 0, m) else Some (inp, inp + of_nat (length w) + 1, m(inp + of_nat (length w) := 0)))"
    using strtok_cstr(1)[OF c d, of inp nx, unfolded P] t0 h(1) by (simp add: w_def r_def)
  show ?thesis
  proof (cases r)
    case Nil
    have "0x20 \<notin> set ys" using Nil by (auto simp: r_def dropWhile_eq_Nil_conv isspace_def)
    then show ?thesis using ch tok c(1) Nil ys by simp
  next
    case (Cons b r')
    have "\<not> \<not> isspace (hd r)" unfolding r_def by (rule hd_dropWhile) (use Cons in \<open>simp add: r_def\<close>)
    then have b: "isspace b" using Cons by simp
    let ?a = "inp + of_nat (length w)"
    have cw: "cstr m inp (w @ b # r')" using c(1) ys Cons by simp
    note cut = cstr_cut[OF cw]
    have sk: "skip_spaces m ?a = Some (?a + of_nat (length (takeWhile isspace r)))"
      by (rule skip_spaces_cstr) (use cstr_drop[OF cw] Cons in simp)
    have len: "length w + length (takeWhile isspace r) \<le> length ys" unfolding ys by (simp add: length_takeWhile_le)
    then have nz: "?a \<noteq> 0" "?a + of_nat (length (takeWhile isspace r)) \<noteq> 0"
      using fits_offset(2)[OF c(2), of "length w"] fits_offset(2)[OF c(2), of "length w + length (takeWhile isspace r)"]
      by (simp_all add: add.assoc)
    have "r' = takeWhile isspace r' @ dropWhile isspace r'" by simp
    then have ar: "cstr (m(?a := 0)) (?a + 1 + of_nat (length (takeWhile isspace r'))) (dropWhile isspace r')"
      using cstr_drop[of "m(?a := 0)" "?a + 1" "takeWhile isspace r'" "dropWhile isspace r'"] cut(2) by simp
    have "length ys < 2 ^ 64" by (rule cstr_length[OF c(1)])
    moreover have "length w < length ys" using ys Cons by simp
    ultimately have "unat (?a - inp) < length ys" using unat_small[of "length w"] by simp
    then have k: "(m(?a := 0)) x = m x" if "length ys \<le> unat (x - inp)" for x using that by auto
    have "0x20 \<in> set ys" using b ys Cons by (auto simp: isspace_def)
    then show ?thesis using ch tok sk nz cut(1) ar k l Cons b by (simp add: add.assoc)
  qed
qed

section \<open>Finding a command\<close>

text \<open>The registered commands \<open>cs\<close> and their names.\<close>

definition command_list :: "'z cmds_scheme \<Rightarrow> u64 list \<Rightarrow> (u64 \<Rightarrow> u8 list) \<Rightarrow> bool" where
  "command_list s cs nm \<longleftrightarrow> dlist (cmd_links s) Commands (map CmdList cs) \<and>
     (\<forall>c \<in> set cs. cstr (ram s) (cmd_name (cmd_mem s c)) (nm c))"

lemma find_command_from:
  assumes "dlist (cmd_links s) Commands (map CmdList (us @ cs))" and "\<forall>c \<in> set cs. cstr (ram s) (cmd_name (cmd_mem s c)) (nm c)"
    and w: "cstr (ram s) command w"
  shows "find_command command s (after Commands (map CmdList cs)) = Some (find (\<lambda>c. nm c = w) cs)"
  using assms(1,2)
proof (induction cs arbitrary: us)
  case Nil
  then show ?case by (simp add: find_command.simps list_is_head_def)
next
  case (Cons c cs)
  have d: "dlist (cmd_links s) Commands (map CmdList us @ CmdList c # map CmdList cs)" using Cons.prems(1) by simp
  have n: "nxt (cmd_links s (CmdList c)) = after Commands (map CmdList cs)" by (rule dlist_next[OF d])
  have cn: "cstr (ram s) (cmd_name (cmd_mem s c)) (nm c)" using Cons.prems(2) by simp
  have z: "str_diff (nm c) w = 0 \<longleftrightarrow> nm c = w" by (rule str_diff_0[OF cstr_nonzero[OF cn] cstr_nonzero[OF w]])
  have "find_command command s (after Commands (map CmdList cs)) = Some (find (\<lambda>c. nm c = w) cs)"
    using Cons.IH[of "us @ [c]"] Cons.prems by simp
  then show ?case using strcmp_cstr[OF cn w] z n by (simp add: find_command.simps[of command s "CmdList c"] list_is_head_def)
qed

lemma find_command_list:
  "command_list s cs nm \<Longrightarrow> cstr (ram s) command w \<Longrightarrow>
     find_command command s (nxt (cmd_links s Commands)) = Some (find (\<lambda>c. nm c = w) cs)"
  using find_command_from[of s "[]" cs nm command w] dlist_first[of "cmd_links s" Commands "map CmdList cs"] by (simp add: command_list_def)

lemma command_list_kept:
  assumes c: "command_list s cs nm" and "cmd_links s' = cmd_links s" "cmd_mem s' = cmd_mem s"
    and d: "\<forall>c \<in> set cs. disjoint_ranges line n (cmd_name (cmd_mem s c)) (length (nm c) + 1)"
    and k: "\<And>x. n \<le> unat (x - line) \<Longrightarrow> ram s' x = ram s x"
  shows "command_list s' cs nm"
proof -
  have "cstr (ram s') (cmd_name (cmd_mem s c)) (nm c)" if cc: "c \<in> set cs" for c
  proof (rule cstr_same)
    show n: "cstr (ram s) (cmd_name (cmd_mem s c)) (nm c)" using c cc by (simp add: command_list_def)
    fix i assume i: "i \<le> length (nm c)"
    have "i < 2 ^ 64" using i cstr_length[OF n] by simp
    then have "unat (cmd_name (cmd_mem s c) + of_nat i - cmd_name (cmd_mem s c)) < length (nm c) + 1" using i unat_small[of i] by simp
    then have "n \<le> unat (cmd_name (cmd_mem s c) + of_nat i - line)"
      using disjoint_rangesD[OF disjoint_ranges_sym] d cc by blast
    then show "ram s' (cmd_name (cmd_mem s c) + of_nat i) = ram s (cmd_name (cmd_mem s c) + of_nat i)" by (rule k)
  qed
  then show ?thesis using c assms(2,3) by (simp add: command_list_def)
qed

text \<open>What \<open>exec_command\<close> needs: a line, the commands, the delimiter of \<open>strtok\<close>, all apart from each other.\<close>

definition line_ready :: "(string \<Rightarrow> u64) \<Rightarrow> 'z cmds_scheme \<Rightarrow> u64 \<Rightarrow> u8 list \<Rightarrow> u64 list \<Rightarrow> (u64 \<Rightarrow> u8 list) \<Rightarrow> bool" where
  "line_ready lit s line xs cs nm \<longleftrightarrow>
     cstr (ram s) line xs \<and> fits line xs \<and> command_list s cs nm \<and>
     cstr (ram s) (lit '' '') [0x20] \<and> fits (lit '' '') [0x20] \<and> disjoint_ranges line (length xs) (lit '' '') 2 \<and>
     (\<forall>c \<in> set cs. disjoint_ranges line (length xs) (cmd_name (cmd_mem s c)) (length (nm c) + 1))"

lemma exec_command_empty:
  assumes r: "line_ready lit s line xs cs nm" and e: "trimmed xs = []"
  shows "exec_command lit ecall file_buf line s = Inr (Returned (- 1), s)"
proof -
  have x: "cstr (ram s) line xs" "fits line xs" using r by (simp_all add: line_ready_def)
  have "dropWhile isspace xs = []"
    using e trim_right_hd[of "dropWhile isspace xs"] hd_dropWhile[of isspace xs] unfolding trimmed_def by blast
  then have t: "takeWhile isspace xs = xs" by (metis append_Nil2 takeWhile_dropWhile_id)
  let ?i = "line + of_nat (length xs)"
  have z: "ram s ?i = 0" by (rule cstr_nth(2)[OF x(1)])
  have l: "strlen (ram s) ?i = Some 0" using strlen_cstr[of "ram s" ?i "[]"] z by simp
  have "?i \<noteq> 0" using fits_offset(2)[OF x(2), of "length xs"] by simp
  then have "\<not> ?i < ?i - 1" using unat_minus_one[of ?i] by (simp add: word_less_nat_alt)
  then have "trim_spaces (ram s) ?i (?i - 1) = ram s" by (subst trim_spaces.simps) simp
  then show ?thesis using skip_spaces_cstr[OF x(1)] t l by (simp add: exec_command_def)
qed

lemma exec_command_splits:
  assumes r: "line_ready lit s line xs cs nm" and ne: "trimmed xs \<noteq> []"
  shows "\<exists>command args m np. cstr m command (command_word xs) \<and> command \<noteq> 0 \<and>
    (if command_args xs = [] then args = 0 else args \<noteq> 0 \<and> cstr m args (command_args xs)) \<and>
    (\<forall>x. length xs \<le> unat (x - line) \<longrightarrow> m x = ram s x) \<and>
    exec_command lit ecall file_buf line s =
      (case find (\<lambda>c. nm c = command_word xs) cs of
         Some cmd \<Rightarrow> run_command ecall file_buf (cmd_fn (cmd_mem s cmd)) args (s\<lparr>ram := m, strtok_next := np\<rparr>)
       | None \<Rightarrow> bindF (printk ''%s: command not found\<newline>'' [command] (s\<lparr>ram := m, strtok_next := np\<rparr>)) (\<lambda>s3. Inr (Returned (- 1), s3)))"
proof -
  have x: "cstr (ram s) line xs" "fits line xs" and cl: "command_list s cs nm"
    and d: "cstr (ram s) (lit '' '') [0x20]" "fits (lit '' '') [0x20]" "disjoint_ranges line (length xs) (lit '' '') 2"
    and dn: "\<forall>c \<in> set cs. disjoint_ranges line (length xs) (cmd_name (cmd_mem s c)) (length (nm c) + 1)"
    using r by (simp_all add: line_ready_def)
  let ?inp = "line + of_nat (length (takeWhile isspace xs))" and ?n = "length (dropWhile isspace xs)"
  let ?m1 = "trim_spaces (ram s) ?inp (?inp + of_nat ?n - 1)"
  note lt = line_trimmed[OF x ne]
  note h = trimmed_hd[OF ne]
  have pre: "length (trimmed xs) \<le> ?n" using trim_right_prefix by (simp add: trimmed_def)
  have f1: "fits ?inp (trimmed xs)" using lt(3) pre by (simp add: fits_def)
  have d1: "cstr ?m1 (lit '' '') [0x20]"
  proof (rule cstr_same[OF d(1)])
    fix i :: nat assume "i \<le> length [0x20 :: u8]"
    then have "unat (lit '' '' + of_nat i - lit '' '') < 2" using unat_small[of i] by simp
    from disjoint_rangesD[OF disjoint_ranges_sym[OF d(3)] this]
    show "?m1 (lit '' '' + of_nat i) = ram s (lit '' '' + of_nat i)" by (rule lt(5))
  qed
  have ta: "dropWhile (\<lambda>c. \<not> isspace c) (trimmed xs) = [] \<or> dropWhile isspace (dropWhile (\<lambda>c. \<not> isspace c) (trimmed xs)) \<noteq> []"
    using trimmed_args[of xs] unfolding command_args_def by blast
  obtain a args np m2 where c: "strchr ?m1 ?inp 0x20 = Some a" "(if a \<noteq> 0 then of_loop (skip_spaces ?m1 a) else Inr 0) = Inr args"
    "strtok ?m1 (strtok_next s) ?inp (lit '' '') = Some (?inp, np, m2)" "cstr m2 ?inp (command_word xs)"
    "if command_args xs = [] then args = 0 else args \<noteq> 0 \<and> cstr m2 args (command_args xs)"
    "\<forall>x. length (trimmed xs) \<le> unat (x - ?inp) \<longrightarrow> m2 x = ?m1 x"
    using line_cut[OF lt(4) f1 d1 d(2) ne conjunct2[OF conjunct2[OF h]] ta, of "strtok_next s", folded command_word_def command_args_def]
    by (elim exE conjE) (rule that)
  have k: "m2 x = ram s x" if g: "length xs \<le> unat (x - line)" for x
  proof -
    have len: "length xs = length (takeWhile isspace xs) + ?n" by (metis length_append takeWhile_dropWhile_id)
    have e: "x - ?inp = (x - line) - of_nat (length (takeWhile isspace xs))" by simp
    have "unat (x - ?inp) = unat (x - line) - length (takeWhile isspace xs)" unfolding e by (rule unat_minus_offset) (use g len in simp)
    then have "length (trimmed xs) \<le> unat (x - ?inp)" using g len pre by simp
    then show ?thesis using c(6) lt(5)[OF g] by simp
  qed
  let ?s2 = "s\<lparr>ram := m2, strtok_next := np\<rparr>"
  have "command_list ?s2 cs nm" by (rule command_list_kept[OF cl _ _ dn]) (simp_all add: k)
  then have fc: "find_command ?inp ?s2 (nxt (cmd_links s Commands)) = Some (find (\<lambda>c. nm c = command_word xs) cs)"
    using find_command_list[of ?s2 cs nm ?inp "command_word xs"] c(4) by simp
  have l1: "strlen ?m1 ?inp = Some (length (trimmed xs))" by (rule strlen_cstr[OF lt(4)])
  have i0: "?inp \<noteq> 0" using f1 by (simp add: fits_def)
  have "exec_command lit ecall file_buf line s =
      (case find (\<lambda>c. nm c = command_word xs) cs of
         Some cmd \<Rightarrow> run_command ecall file_buf (cmd_fn (cmd_mem s cmd)) args ?s2
       | None \<Rightarrow> bindF (printk ''%s: command not found\<newline>'' [?inp] ?s2) (\<lambda>s3. Inr (Returned (- 1), s3)))"
    unfolding exec_command_def using lt(1,2) l1 ne c(1-3) fc by (cases "a = 0") (simp_all add: Let_def split: option.split)
  then show ?thesis using c(4,5) k i0 by blast
qed

text \<open>C36: an empty line or one of spaces gives status -1 and changes nothing. Otherwise the first command whose name is the
  first word of the line is run, with the rest of the line without the spaces around it as its argument, or null
  when there is no rest; when no command has the name, a message is printed and the status is -1. Only bytes of
  the line have been written before the command runs.\<close>

theorem exec_command_correct:
  assumes r: "line_ready lit s line xs cs nm" and t: "tx_ready s"
  shows "(trimmed xs = [] \<longrightarrow> exec_command lit ecall file_buf line s = Inr (Returned (- 1), s)) \<and>
    (trimmed xs \<noteq> [] \<longrightarrow> (\<exists>args m np.
       (if command_args xs = [] then args = 0 else args \<noteq> 0 \<and> cstr m args (command_args xs)) \<and>
       (\<forall>x. length xs \<le> unat (x - line) \<longrightarrow> m x = ram s x) \<and>
       (case find (\<lambda>c. nm c = command_word xs) cs of
          Some c \<Rightarrow> exec_command lit ecall file_buf line s =
            run_command ecall file_buf (cmd_fn (cmd_mem s c)) args (s\<lparr>ram := m, strtok_next := np\<rparr>)
        | None \<Rightarrow> \<exists>s'. exec_command lit ecall file_buf line s = Inr (Returned (- 1), s') \<and>
            uart_thr s' = uart_thr s @ crlf (command_word xs @ chars '': command not found\<newline>''))))"
proof (intro conjI impI)
  assume "trimmed xs = []"
  then show "exec_command lit ecall file_buf line s = Inr (Returned (- 1), s)" by (rule exec_command_empty[OF r])
next
  assume "trimmed xs \<noteq> []"
  from exec_command_splits[OF r this, of ecall file_buf] obtain command args m np where
    e: "cstr m command (command_word xs)" "command \<noteq> 0"
    "if command_args xs = [] then args = 0 else args \<noteq> 0 \<and> cstr m args (command_args xs)"
    "\<forall>x. length xs \<le> unat (x - line) \<longrightarrow> m x = ram s x"
    "exec_command lit ecall file_buf line s =
      (case find (\<lambda>c. nm c = command_word xs) cs of
         Some cmd \<Rightarrow> run_command ecall file_buf (cmd_fn (cmd_mem s cmd)) args (s\<lparr>ram := m, strtok_next := np\<rparr>)
       | None \<Rightarrow> bindF (printk ''%s: command not found\<newline>'' [command] (s\<lparr>ram := m, strtok_next := np\<rparr>)) (\<lambda>s3. Inr (Returned (- 1), s3)))"
    by (elim exE conjE) (rule that)
  let ?s = "s\<lparr>ram := m, strtok_next := np\<rparr>"
  have "tx_ready ?s" using t by (simp add: tx_ready_def)
  from printk_s[OF this, of "''%s: command not found\<newline>''" "[]" "chars '': command not found\<newline>''" command "command_word xs"]
  obtain s' where s': "sends (crlf (command_word xs @ chars '': command not found\<newline>'')) ?s s'"
    "printk ''%s: command not found\<newline>'' [command] ?s = Inr s'" using e(1,2) by (force simp: chars_def)
  have u: "uart_thr s' = uart_thr s @ crlf (command_word xs @ chars '': command not found\<newline>'')" using sends_fields(1)[OF s'(1)] by simp
  show "\<exists>args m np.
       (if command_args xs = [] then args = 0 else args \<noteq> 0 \<and> cstr m args (command_args xs)) \<and>
       (\<forall>x. length xs \<le> unat (x - line) \<longrightarrow> m x = ram s x) \<and>
       (case find (\<lambda>c. nm c = command_word xs) cs of
          Some c \<Rightarrow> exec_command lit ecall file_buf line s =
            run_command ecall file_buf (cmd_fn (cmd_mem s c)) args (s\<lparr>ram := m, strtok_next := np\<rparr>)
        | None \<Rightarrow> \<exists>s'. exec_command lit ecall file_buf line s = Inr (Returned (- 1), s') \<and>
            uart_thr s' = uart_thr s @ crlf (command_word xs @ chars '': command not found\<newline>''))"
    using e(3-5) s'(2) u
    by (intro exI[of _ args] exI[of _ m] exI[of _ np]) (cases "find (\<lambda>c. nm c = command_word xs) cs", simp_all)
qed

section \<open>Registering commands\<close>

lemma cmd_size_word: "0 < (of_nat SIZEOF_COMMAND :: u32)" "unat (of_nat SIZEOF_COMMAND :: u32) \<le> 2 ^ 22"
  by (simp_all add: SIZEOF_COMMAND_def)

definition command_ring :: "'z cmds_scheme \<Rightarrow> u64 list \<Rightarrow> chunk set \<Rightarrow> bool" where
  "command_ring s cs L \<longleftrightarrow> dlist (cmd_links s) Commands (map CmdList cs) \<and> mm_inv (heap s) L \<and> set cs \<subseteq> fst ` L"

lemma register_commands_adds:
  assumes "command_ring s cs L" and "plenty (length ds + n) (heap s)"
  shows "\<exists>s' es L'. register_commands ds s = Inr s' \<and> command_ring s' (cs @ es) L' \<and> L \<subseteq> L' \<and>
    map (cmd_mem s') es = map (\<lambda>(n, h, f). \<lparr>cmd_name = n, cmd_text = h, cmd_fn = f\<rparr>) ds \<and>
    (\<forall>c \<in> fst ` L. cmd_mem s' c = cmd_mem s c) \<and> plenty n (heap s') \<and>
    s' = s\<lparr>heap := heap s', cmd_mem := cmd_mem s', cmd_links := cmd_links s'\<rparr>"
  using assms
proof (induction ds arbitrary: s cs L)
  case Nil
  then show ?case by (intro exI[of _ s] exI[of _ "[]"] exI[of _ L]) simp
next
  case (Cons d ds)
  obtain nm h f where d: "d = (nm, h, f)" by (cases d)
  have r: "dlist (cmd_links s) Commands (map CmdList cs @ [])" "mm_inv (heap s) L" "set cs \<subseteq> fst ` L"
    using Cons.prems(1) by (simp_all add: command_ring_def)
  have "plenty (Suc (length ds + n)) (heap s)" using Cons.prems(2) by simp
  then obtain a h1 where k: "kmalloc (of_nat SIZEOF_COMMAND) (heap s) = Inr (a, h1)" "plenty (length ds + n) h1"
    by (rule plenty_kmalloc[OF _ cmd_size_word])
  obtain k where a: "a \<notin> fst ` L" "mm_inv h1 (insert (a, k) L)" using kmalloc_fresh[OF r(2) cmd_size_word(1) k(1)] by blast
  let ?s = "s\<lparr>heap := h1, cmd_mem := (cmd_mem s)(a := \<lparr>cmd_name = nm, cmd_text = h, cmd_fn = f\<rparr>),
    cmd_links := list_add_tail (CmdList a) Commands (cmd_links s)\<rparr>"
  have reg: "register_commands (d # ds) s = register_commands ds ?s" using k(1) by (simp add: d register_command_def Let_def)
  have "CmdList a \<notin> set (Commands # map CmdList cs @ [])" using a(1) r(3) by auto
  from dlist_insert[OF r(1) this]
  have "dlist (cmd_links ?s) Commands (map CmdList (cs @ [a]))"
    using dlist_last[of "cmd_links s" Commands "map CmdList cs"] r(1) by (simp add: list_add_tail_def)
  then have ring: "command_ring ?s (cs @ [a]) (insert (a, k) L)" using a(2) r(3) by (auto simp: command_ring_def)
  have pl: "plenty (length ds + n) (heap ?s)" using k(2) by simp
  from Cons.IH[OF ring pl] obtain s' es L' where s': "register_commands ds ?s = Inr s'" "command_ring s' ((cs @ [a]) @ es) L'"
    "insert (a, k) L \<subseteq> L'" "map (cmd_mem s') es = map (\<lambda>(n, h, f). \<lparr>cmd_name = n, cmd_text = h, cmd_fn = f\<rparr>) ds"
    "\<forall>c \<in> fst ` insert (a, k) L. cmd_mem s' c = cmd_mem ?s c" "plenty n (heap s')" "s' = ?s\<lparr>heap := heap s', cmd_mem := cmd_mem s', cmd_links := cmd_links s'\<rparr>" by (elim exE conjE) (rule that)
  have "map (cmd_mem s') (a # es) = map (\<lambda>(n, h, f). \<lparr>cmd_name = n, cmd_text = h, cmd_fn = f\<rparr>) (d # ds)"
    using s'(4) bspec[OF s'(5), of a] by (simp add: d)
  moreover have "\<forall>c \<in> fst ` L. cmd_mem s' c = cmd_mem s c" using s'(5) a(1) by auto
  moreover have "s' = s\<lparr>heap := heap s', cmd_mem := cmd_mem s', cmd_links := cmd_links s'\<rparr>" using s'(7) by simp
  ultimately show ?case unfolding reg using s'(1-3,6) by (intro exI[of _ s'] exI[of _ "a # es"] exI[of _ L']) simp
qed

text \<open>After \<open>cmd_init\<close> the list holds the seven commands in the order of their registration, each with its name, its
  text and its function.\<close>

theorem cmd_init_correct:
  assumes "mm_inv (heap s) L" and "plenty (7 + n) (heap s)"
  shows "\<exists>s' cs L'. cmd_init lit s = Inr s' \<and> s' = s\<lparr>heap := heap s', cmd_mem := cmd_mem s', cmd_links := cmd_links s'\<rparr> \<and>
    plenty n (heap s') \<and> set cs \<subseteq> fst ` L' \<and> dlist (cmd_links s') Commands (map CmdList cs) \<and> mm_inv (heap s') L' \<and> L \<subseteq> L' \<and>
    map (cmd_mem s') cs = map (\<lambda>(n, h, f). \<lparr>cmd_name = lit n, cmd_text = lit h, cmd_fn = f\<rparr>) builtin_commands"
proof -
  let ?s = "s\<lparr>cmd_links := INIT_LIST_HEAD Commands (cmd_links s)\<rparr>"
  let ?ds = "map (\<lambda>(n, h, f). (lit n, lit h, f)) builtin_commands"
  have ring: "command_ring ?s [] L" using assms(1) by (simp add: command_ring_def dlist_init)
  have "length ?ds = 7" by (simp add: builtin_commands_def)
  then have pl: "plenty (length ?ds + n) (heap ?s)" using assms(2) by (simp only:) simp
  obtain s' cs L' where s': "register_commands ?ds ?s = Inr s'" "command_ring s' ([] @ cs) L'" "L \<subseteq> L'"
    "map (cmd_mem s') cs = map (\<lambda>(n, h, f). \<lparr>cmd_name = n, cmd_text = h, cmd_fn = f\<rparr>) ?ds"
    "plenty n (heap s')" "s' = ?s\<lparr>heap := heap s', cmd_mem := cmd_mem s', cmd_links := cmd_links s'\<rparr>"
    using register_commands_adds[OF ring pl] by (elim exE conjE) (rule that)
  have "map (\<lambda>(n, h, f). \<lparr>cmd_name = n, cmd_text = h, cmd_fn = f\<rparr>) ?ds =
    map (\<lambda>(n, h, f). \<lparr>cmd_name = lit n, cmd_text = lit h, cmd_fn = f\<rparr>) builtin_commands" by (simp add: builtin_commands_def)
  moreover have "s' = s\<lparr>heap := heap s', cmd_mem := cmd_mem s', cmd_links := cmd_links s'\<rparr>" using s'(6) by simp
  ultimately show ?thesis using s'(1-5) by (intro exI[of _ s'] exI[of _ cs] exI[of _ L']) (simp add: cmd_init_def command_ring_def)
qed

section \<open>Examples\<close>

text \<open>A terminal that types \<open>ks\<close>; one command, \<open>hello\<close>, at \<open>0x500\<close>, and a line at \<open>0x100\<close>.\<close>

definition example_typing :: "(nat \<Rightarrow> u8) \<Rightarrow> vms" where
  "example_typing ks = (example_trap 8 0 0 0)\<lparr>uart_rbr := ks, rbr_reads := 0\<rparr>"

lemma example_typing_fields:
  "tx_ready (example_typing ks)" "rx_ready (example_typing ks)" "uart_thr (example_typing ks) = []"
  "received (example_typing ks) i = (if ks i = 13 then 10 else ks i)"
  using example_trap_fields(5,6,8)[of 8 0 0 0] by (simp_all add: example_typing_def tx_ready_def rx_ready_def received_def Let_def)

theorem read_user_input_correct_witness:
  "\<exists>s'. read_user_input 0x100 (example_typing (\<lambda>n. [0x61, 0x7f, 0x62, 13] ! n)) = Some s' \<and> cstr (ram s') 0x100 [0x62] \<and>
     uart_thr s' = [0x61, 8, 0x20, 8, 0x62, 13, 10]"
proof -
  let ?s = "example_typing (\<lambda>n. [0x61, 0x7f, 0x62, 13] ! n)" and ?cs = "[0x61, 0x7f, 0x62] :: u8 list"
  have a: "arrives (?cs @ [10]) ?s" by (simp add: arrives_def example_typing_fields All_less_Suc)
  have l: "line_below SHELL_BUF_SIZE [] ?cs" by (simp add: line_below_Cons line_edit_def) (simp add: line_below_def SHELL_BUF_SIZE_def)
  have "foldl line_edit [] ?cs = [0x62]" "line_echoes [] ?cs = [0x61, 8, 0x20, 8, 0x62]" by (simp_all add: line_edit_def line_echo_def)
  then show ?thesis using read_user_input_correct[OF a _ example_typing_fields(2,1) l, of "0x100"] example_typing_fields(3) by auto
qed

theorem read_user_input_overflow_witness:
  "\<exists>s'. read_user_input 0x100 (example_typing (\<lambda>n. if n < 256 then 0x61 else 13)) = Some s' \<and> ram s' (0x100 + of_nat SHELL_BUF_SIZE) = 0"
proof -
  let ?s = "example_typing (\<lambda>n. if n < 256 then 0x61 else 13)" and ?cs = "replicate 256 (0x61 :: u8)"
  have a: "arrives (?cs @ [10]) ?s" unfolding arrives_def by (simp add: example_typing_fields nth_append)
  show ?thesis using read_user_input_overflow[OF a _ example_typing_fields(2,1), of "0x100"] by (auto simp: SHELL_BUF_SIZE_def)
qed

definition example_shell :: cmds where
  "example_shell = vms.extend example_vms (cmds.fields (\<lambda>_. \<lparr>cmd_name = 0x600, cmd_text = 0, cmd_fn = CMD_HELLO\<rparr>)
     (list_add_tail (CmdList 0x500) Commands (\<lambda>n. \<lparr>prv = n, nxt = n\<rparr>)) 0)
   \<lparr>ram := (\<lambda>_. 0)(0x100 := 0x20, 0x101 := 0x68, 0x102 := 0x69, 0x103 := 0x20, 0x104 := 0x79, 0x105 := 0x20,
      0x600 := 0x68, 0x601 := 0x69, 0x700 := 0x20)\<rparr>"

lemma example_shell_fields:
  "heap example_shell = mem_init_free boot_mm" "tx_ready example_shell" "uart_thr example_shell = []"
  "cmd_mem example_shell = (\<lambda>_. \<lparr>cmd_name = 0x600, cmd_text = 0, cmd_fn = CMD_HELLO\<rparr>)"
  "cmd_links example_shell = list_add_tail (CmdList 0x500) Commands (\<lambda>n. \<lparr>prv = n, nxt = n\<rparr>)"
  "ram example_shell = (\<lambda>_. 0)(0x100 := 0x20, 0x101 := 0x68, 0x102 := 0x69, 0x103 := 0x20, 0x104 := 0x79, 0x105 := 0x20,
      0x600 := 0x68, 0x601 := 0x69, 0x700 := 0x20)"
  by (auto simp: example_shell_def cmds.defs vms.defs irqs.defs example_vms_def example_irqs_fields tx_ready_def)

lemma example_line: "line_ready (\<lambda>_. 0x700) example_shell 0x100 [0x20, 0x68, 0x69, 0x20, 0x79, 0x20] [0x500] (\<lambda>_. [0x68, 0x69])"
  by (simp add: line_ready_def command_list_def example_shell_fields fits_def disjoint_ranges_def dlist_def list_add_tail_def)

theorem exec_command_correct_witness:
  "\<exists>s'. exec_command (\<lambda>_. 0x700) (\<lambda>_ s. ((0, 0), s)) 0 0x100 example_shell = Inr (Returned 0, s') \<and>
     uart_thr s' = chars ''Hello, World!'' @ [13, 10]"
proof -
  let ?xs = "[0x20, 0x68, 0x69, 0x20, 0x79, 0x20] :: u8 list"
  have p: "trimmed ?xs = [0x68, 0x69, 0x20, 0x79]" "command_word ?xs = [0x68, 0x69]"
    by (simp_all add: command_word_def trimmed_def trim_right_def isspace_def)
  obtain args m np where e: "exec_command (\<lambda>_. 0x700) (\<lambda>_ s. ((0, 0), s)) 0 0x100 example_shell =
      run_command (\<lambda>_ s. ((0, 0), s)) 0 CMD_HELLO args (example_shell\<lparr>ram := m, strtok_next := np\<rparr>)"
    using exec_command_correct[OF example_line example_shell_fields(2), of "\<lambda>_ s. ((0, 0), s)" 0] p by (auto simp: example_shell_fields(4))
  let ?s = "example_shell\<lparr>ram := m, strtok_next := np\<rparr>"
  have "tx_ready ?s" using example_shell_fields(2) by (simp add: tx_ready_def)
  then obtain s' where s': "sends (crlf (chars ''Hello, World!\<newline>'')) ?s s'" "printk ''Hello, World!\<newline>'' [] ?s = Inr s'"
    using printk_plain[of ?s "''Hello, World!\<newline>''" "[]"] by (force simp: chars_def)
  have "crlf (chars ''Hello, World!\<newline>'') = chars ''Hello, World!'' @ [13, 10]" by (simp add: chars_def)
  then show ?thesis using e s' sends_fields(1)[OF s'(1)] example_shell_fields(3) by (simp add: cmd_hello_def)
qed

theorem cmd_init_correct_witness:
  "\<exists>s' cs. cmd_init (\<lambda>t. of_nat (length t)) example_shell = Inr s' \<and> length cs = 7 \<and>
     dlist (cmd_links s') Commands (map CmdList cs) \<and> map (\<lambda>c. cmd_fn (cmd_mem s' c)) cs =
       [CMD_HELP, CMD_HELLO, CMD_REBOOT, CMD_CLEAR, CMD_LS, CMD_CAT, CMD_EXEC]"
proof -
  have "mm_inv (heap example_shell) {}" "plenty (7 + 0) (heap example_shell)"
    unfolding example_shell_fields using boot_mm_inv plenty_le[OF boot_plenty, of "7 + 0"] by auto
  from cmd_init_correct[OF this, of "\<lambda>t. of_nat (length t)"] obtain s' cs where
    s': "cmd_init (\<lambda>t. of_nat (length t)) example_shell = Inr s'" "dlist (cmd_links s') Commands (map CmdList cs)"
    "map (cmd_mem s') cs = map (\<lambda>(n, h, f). \<lparr>cmd_name = of_nat (length n), cmd_text = of_nat (length h), cmd_fn = f\<rparr>) builtin_commands"
    by blast
  have "map cmd_fn (map (cmd_mem s') cs) = [CMD_HELP, CMD_HELLO, CMD_REBOOT, CMD_CLEAR, CMD_LS, CMD_CAT, CMD_EXEC]"
    unfolding s'(3) by (simp add: builtin_commands_def)
  moreover have "length (map (cmd_mem s') cs) = 7" unfolding s'(3) by (simp add: builtin_commands_def)
  ultimately show ?thesis using s'(1,2) by (intro exI[of _ s'] exI[of _ cs]) (simp add: comp_def)
qed

end
