(* ===== verification/Entry.thy ===== *)
theory Entry
  imports Signal
begin

text \<open>
  Entry to the kernel and return from it, \<open>handle_exception\<close> and \<open>ret_from_exception\<close> of \<open>src/entry.S\<close>, and the loop
  of \<open>src/start.S\<close> that clears the bss. The state adds the general registers and the control registers of the
  hart; register 4 is \<open>tp\<close> of the scheduler's state, and \<open>TASK_KERNEL_SP\<close> and \<open>TASK_USER_SP\<close> of a task are its fields
  \<open>kernel_sp\<close> and \<open>user_sp\<close>. The model begins after the hart has taken the trap and ends at \<open>sret\<close>.
\<close>

section \<open>State\<close>

record hart = sched +
  gpr :: "nat \<Rightarrow> u64"
  sstatus :: u64
  sepc :: u64
  stval :: u64
  scause :: u64
  sscratch :: u64

definition xreg :: "nat \<Rightarrow> 'z hart_scheme \<Rightarrow> u64" where
  "xreg n s = (if n = 0 then 0 else if n = 4 then tp s else gpr s n)"

definition set_xreg :: "nat \<Rightarrow> u64 \<Rightarrow> 'z hart_scheme \<Rightarrow> 'z hart_scheme" where
  "set_xreg n v s = (if n = 0 then s else if n = 4 then s\<lparr>tp := v\<rparr> else s\<lparr>gpr := (gpr s)(n := v)\<rparr>)"

text \<open>\<open>sd xn, PT_r(sp)\<close> and \<open>ld xn, PT_r(sp)\<close>.\<close>

definition sd_pt :: "nat \<times> reg \<Rightarrow> 'z hart_scheme \<Rightarrow> 'z hart_scheme" where
  "sd_pt nr s = upd_ram (set_reg (snd nr) (xreg (fst nr) s) (xreg 2 s)) s"

definition ld_pt :: "nat \<times> reg \<Rightarrow> 'z hart_scheme \<Rightarrow> 'z hart_scheme" where
  "ld_pt nr s = set_xreg (fst nr) (get_reg (snd nr) (xreg 2 s) (ram s)) s"

section \<open>Entry and return\<close>

definition saved_regs :: "(nat \<times> reg) list" where
  "saved_regs = [(1, RA), (3, GP), (5, T0), (6, T1), (7, T2), (8, S0), (9, S1), (10, A0), (11, A1), (12, A2),
     (13, A3), (14, A4), (15, A5), (16, A6), (17, A7), (18, S2), (19, S3), (20, S4), (21, S5), (22, S6), (23, S7),
     (24, S8), (25, S9), (26, S10), (27, S11), (28, T3), (29, T4), (30, T5), (31, T6)]"

definition save_gprs :: "'z hart_scheme \<Rightarrow> 'z hart_scheme" where
  "save_gprs s =
     (let s1 = upd_task (tp s) (\<lambda>t. t\<lparr>user_sp := xreg 2 s\<rparr>) s;
          s2 = set_xreg 2 (kernel_sp (tasks s1 (tp s1))) s1;
          s3 = set_xreg 2 (xreg 2 s2 - of_nat PT_SIZE_ON_STACK) s2
      in fold sd_pt saved_regs s3)"

definition saved_csrs :: "(nat \<times> reg) list" where
  "saved_csrs = [(8, SP), (9, STATUS), (18, EPC), (19, BADADDR), (20, CAUSE), (21, TP)]"

definition save_csrs :: "'z hart_scheme \<Rightarrow> 'z hart_scheme" where
  "save_csrs s =
     (let s1 = set_xreg 8 (user_sp (tasks s (tp s))) s;
          s2 = (set_xreg 9 (sstatus s1) s1)\<lparr>sstatus := sstatus s1 AND NOT (xreg 5 s1)\<rparr>;
          s3 = set_xreg 18 (sepc s2) s2;
          s4 = set_xreg 19 (stval s3) s3;
          s5 = set_xreg 20 (scause s4) s4;
          s6 = set_xreg 21 (sscratch s5) s5;
          s7 = (fold sd_pt saved_csrs s6)\<lparr>sscratch := 0\<rparr>
      in set_xreg 10 (xreg 2 s7) s7)"

definition save_context :: "'z hart_scheme \<Rightarrow> 'z hart_scheme" where
  "save_context s = save_csrs (save_gprs s)"

text \<open>With the result, whether \<open>do_irq\<close> is called (and \<open>do_traps\<close> otherwise).\<close>

definition handle_exception :: "'z hart_scheme \<Rightarrow> bool \<times> 'z hart_scheme" where
  "handle_exception s =
     (let s1 = s\<lparr>tp := sscratch s, sscratch := tp s\<rparr>;
          s2 = (if tp s1 \<noteq> 0 then s1
                else let s' = s1\<lparr>tp := sscratch s1\<rparr> in upd_task (tp s') (\<lambda>t. t\<lparr>kernel_sp := xreg 2 s'\<rparr>) s');
          s3 = save_context s2
      in (sint (xreg 20 s3) < 0, s3))"

definition restored_regs :: "(nat \<times> reg) list" where
  "restored_regs = [(1, RA), (3, GP), (4, TP), (5, T0), (6, T1), (7, T2), (8, S0), (9, S1), (10, A0), (11, A1), (12, A2),
     (13, A3), (14, A4), (15, A5), (16, A6), (17, A7), (18, S2), (19, S3), (20, S4), (21, S5), (22, S6), (23, S7),
     (24, S8), (25, S9), (26, S10), (27, S11), (28, T3), (29, T4), (30, T5), (31, T6), (2, SP)]"

text \<open>\<open>sc_ok\<close>: whether the store-conditional, which only drops a reservation, succeeds.\<close>

definition ret_from_exception :: "bool \<Rightarrow> 'z hart_scheme \<Rightarrow> 'z hart_scheme" where
  "ret_from_exception sc_ok s =
     (let s1 = set_xreg 8 (get_reg STATUS (xreg 2 s) (ram s)) s;
          s2 = set_xreg 8 (xreg 8 s1 AND push_bit 8 1) s1;
          s3 = (if xreg 8 s2 \<noteq> 0 then s2
                else let s' = set_xreg 8 (xreg 2 s2 + of_nat PT_SIZE_ON_STACK) s2
                     in (upd_task (tp s') (\<lambda>t. t\<lparr>kernel_sp := xreg 8 s'\<rparr>) s')\<lparr>sscratch := tp s'\<rparr>);
          s4 = ld_pt (10, STATUS) s3;
          s5 = ld_pt (12, EPC) s4;
          s6 = (if sc_ok then sd_pt (12, EPC) s5 else s5);
          s7 = s6\<lparr>sstatus := xreg 10 s6, sepc := xreg 12 s6\<rparr>
      in fold ld_pt restored_regs s7)"

section \<open>Clearing the bss\<close>

text \<open>\<open>t0\<close> and \<open>t1\<close> are compared as signed numbers.\<close>

partial_function (option) clear_bss :: "u64 \<Rightarrow> u64 \<Rightarrow> mem \<Rightarrow> mem option" where
  "clear_bss t0 t1 m = (if sint t1 \<le> sint t0 then Some m else clear_bss (t0 + 8) t1 (store64 t0 0 m))"

section \<open>Saving and restoring\<close>

lemma set_xreg_simps [simp]:
  "ram (set_xreg n v s) = ram s" "tasks (set_xreg n v s) = tasks s" "sstatus (set_xreg n v s) = sstatus s"
  "sepc (set_xreg n v s) = sepc s" "stval (set_xreg n v s) = stval s" "scause (set_xreg n v s) = scause s"
  "sscratch (set_xreg n v s) = sscratch s"
  by (simp_all add: set_xreg_def)

lemma xreg_set: "xreg m (set_xreg n v s) = (if m = n \<and> n \<noteq> 0 then v else xreg m s)"
  by (simp add: xreg_def set_xreg_def)

lemma xreg_0 [simp]: "xreg 0 s = 0"
  by (simp add: xreg_def)

lemma sd_pt_simps [simp]:
  "xreg n (sd_pt p s) = xreg n s" "tasks (sd_pt p s) = tasks s" "sstatus (sd_pt p s) = sstatus s"
  "sepc (sd_pt p s) = sepc s" "stval (sd_pt p s) = stval s" "scause (sd_pt p s) = scause s" "sscratch (sd_pt p s) = sscratch s"
  "get_reg q (xreg 2 s) (ram (sd_pt p s)) = (if q = snd p then xreg (fst p) s else get_reg q (xreg 2 s) (ram s))"
  by (simp_all add: sd_pt_def upd_ram_def xreg_def)

lemma sd_pts:
  "xreg n (fold sd_pt ps s) = xreg n s" "tasks (fold sd_pt ps s) = tasks s" "sstatus (fold sd_pt ps s) = sstatus s"
  "sepc (fold sd_pt ps s) = sepc s" "stval (fold sd_pt ps s) = stval s" "scause (fold sd_pt ps s) = scause s"
  "sscratch (fold sd_pt ps s) = sscratch s"
  by (induction ps arbitrary: s) simp_all

lemma sd_pts_frame:
  "distinct (map snd ps) \<Longrightarrow> get_reg q (xreg 2 s) (ram (fold sd_pt ps s)) =
     (case map_of (map prod.swap ps) q of Some n \<Rightarrow> xreg n s | None \<Rightarrow> get_reg q (xreg 2 s) (ram s))"
proof (induction ps arbitrary: s)
  case (Cons p ps)
  have n: "map_of (map prod.swap ps) (snd p) = None" using Cons.prems by (auto simp: map_of_eq_None_iff image_iff)
  have "get_reg q (xreg 2 (sd_pt p s)) (ram (fold sd_pt ps (sd_pt p s))) =
     (case map_of (map prod.swap ps) q of Some n \<Rightarrow> xreg n (sd_pt p s) | None \<Rightarrow> get_reg q (xreg 2 (sd_pt p s)) (ram (sd_pt p s)))"
    by (rule Cons.IH) (use Cons.prems in simp)
  then show ?case using n by (cases p) (auto split: option.splits)
qed simp

lemma ld_pt_simps [simp]:
  "ram (ld_pt p s) = ram s" "tasks (ld_pt p s) = tasks s" "sstatus (ld_pt p s) = sstatus s" "sepc (ld_pt p s) = sepc s"
  "sscratch (ld_pt p s) = sscratch s"
  "xreg n (ld_pt p s) = (if n = fst p \<and> n \<noteq> 0 then get_reg (snd p) (xreg 2 s) (ram s) else xreg n s)"
  by (simp_all add: ld_pt_def xreg_set)

lemma ld_pts:
  "ram (fold ld_pt ps s) = ram s" "tasks (fold ld_pt ps s) = tasks s" "sstatus (fold ld_pt ps s) = sstatus s"
  "sepc (fold ld_pt ps s) = sepc s" "sscratch (fold ld_pt ps s) = sscratch s"
  by (induction ps arbitrary: s) simp_all

lemma ld_pts_regs:
  "distinct (map fst ps) \<Longrightarrow> 2 \<notin> fst ` set ps \<Longrightarrow> xreg n (fold ld_pt ps s) =
     (case map_of ps n of Some r \<Rightarrow> if n = 0 then 0 else get_reg r (xreg 2 s) (ram s) | None \<Rightarrow> xreg n s)"
proof (induction ps arbitrary: s)
  case (Cons p ps)
  have n: "map_of ps (fst p) = None" using Cons.prems by (auto simp: map_of_eq_None_iff)
  have x: "xreg 2 (ld_pt p s) = xreg 2 s" using Cons.prems by auto
  have "xreg n (fold ld_pt ps (ld_pt p s)) =
     (case map_of ps n of Some r \<Rightarrow> if n = 0 then 0 else get_reg r (xreg 2 (ld_pt p s)) (ram (ld_pt p s)) | None \<Rightarrow> xreg n (ld_pt p s))"
    by (rule Cons.IH) (use Cons.prems in auto)
  then show ?case using n x by (cases p) (auto split: option.splits)
qed simp

text \<open>The frame on the kernel stack after both halves of \<open>save_context\<close>.\<close>

lemma xreg_csr [simp]:
  "xreg n (s\<lparr>sstatus := v\<rparr>) = xreg n s" "xreg n (s\<lparr>sscratch := v\<rparr>) = xreg n s" "xreg n (s\<lparr>sepc := v\<rparr>) = xreg n s"
  by (simp_all add: xreg_def)

lemma xreg_upd_task [simp]: "xreg n (upd_task t f s) = xreg n s"
  by (simp add: xreg_def upd_task_def)

lemma upd_task_csr [simp]:
  "sstatus (upd_task t f s) = sstatus s" "sepc (upd_task t f s) = sepc s" "stval (upd_task t f s) = stval s"
  "scause (upd_task t f s) = scause s" "sscratch (upd_task t f s) = sscratch s"
  by (simp_all add: upd_task_def)

lemma save_gprs_frame:
  fixes s :: "'z hart_scheme"
  defines "base \<equiv> kernel_sp (tasks s (tp s)) - of_nat PT_SIZE_ON_STACK"
  shows "xreg n (save_gprs s) = (if n = 2 then base else xreg n s)"
    and "tasks (save_gprs s) = (tasks s)(tp s := (tasks s (tp s))\<lparr>user_sp := xreg 2 s\<rparr>)"
    and "sstatus (save_gprs s) = sstatus s" "sepc (save_gprs s) = sepc s" "stval (save_gprs s) = stval s"
      "scause (save_gprs s) = scause s" "sscratch (save_gprs s) = sscratch s"
    and "get_reg q base (ram (save_gprs s)) =
      (case map_of (map prod.swap saved_regs) q of Some n \<Rightarrow> xreg n s | None \<Rightarrow> get_reg q base (ram s))"
proof -
  let ?s3 = "set_xreg 2 base (upd_task (tp s) (\<lambda>t. t\<lparr>user_sp := xreg 2 s\<rparr>) s)"
  have g: "save_gprs s = fold sd_pt saved_regs ?s3"
    by (simp add: save_gprs_def Let_def base_def set_xreg_def xreg_def)
  have x3: "xreg n ?s3 = (if n = 2 then base else xreg n s)" for n by (simp add: xreg_set)
  show "xreg n (save_gprs s) = (if n = 2 then base else xreg n s)" by (simp add: g sd_pts x3)
  show "tasks (save_gprs s) = (tasks s)(tp s := (tasks s (tp s))\<lparr>user_sp := xreg 2 s\<rparr>)" by (simp add: g sd_pts upd_task_def)
  show "sstatus (save_gprs s) = sstatus s" "sepc (save_gprs s) = sepc s" "stval (save_gprs s) = stval s"
      "scause (save_gprs s) = scause s" "sscratch (save_gprs s) = sscratch s" by (simp_all add: g sd_pts)
  have d: "distinct (map snd saved_regs)" by (simp add: saved_regs_def)
  have b: "xreg 2 ?s3 = base" by (simp add: x3)
  have n2: "map_of (map prod.swap saved_regs) q \<noteq> Some 2" for q by (auto simp: saved_regs_def dest!: map_of_SomeD)
  show "get_reg q base (ram (save_gprs s)) =
      (case map_of (map prod.swap saved_regs) q of Some n \<Rightarrow> xreg n s | None \<Rightarrow> get_reg q base (ram s))"
    using sd_pts_frame[OF d, of q ?s3] n2[of q] unfolding b g by (auto simp: x3 split: option.split)
qed

lemma save_csrs_frame:
  fixes s :: "'z hart_scheme"
  shows "xreg 2 (save_csrs s) = xreg 2 s" "xreg 4 (save_csrs s) = xreg 4 s" "xreg 10 (save_csrs s) = xreg 2 s"
    "xreg 20 (save_csrs s) = scause s" "tasks (save_csrs s) = tasks s" "sstatus (save_csrs s) = sstatus s AND NOT (xreg 5 s)"
    "sepc (save_csrs s) = sepc s" "sscratch (save_csrs s) = 0"
    and "get_reg q (xreg 2 s) (ram (save_csrs s)) =
      (if q = SP then user_sp (tasks s (tp s)) else if q = STATUS then sstatus s else if q = EPC then sepc s
       else if q = BADADDR then stval s else if q = CAUSE then scause s else if q = TP then sscratch s
       else get_reg q (xreg 2 s) (ram s))"
proof -
  obtain s6 where c: "save_csrs s = set_xreg 10 (xreg 2 s6) ((fold sd_pt saved_csrs s6)\<lparr>sscratch := 0\<rparr>)"
    and x: "\<forall>n. xreg n s6 = (if n = 8 then user_sp (tasks s (tp s)) else if n = 9 then sstatus s else if n = 18 then sepc s
       else if n = 19 then stval s else if n = 20 then scause s else if n = 21 then sscratch s else xreg n s)"
    and f: "ram s6 = ram s" "tasks s6 = tasks s" "sstatus s6 = sstatus s AND NOT (xreg 5 s)" "sepc s6 = sepc s"
    by (rule that[of "set_xreg 21 (sscratch s) (set_xreg 20 (scause s) (set_xreg 19 (stval s) (set_xreg 18 (sepc s)
      ((set_xreg 9 (sstatus s) (set_xreg 8 (user_sp (tasks s (tp s))) s))\<lparr>sstatus := sstatus s AND NOT (xreg 5 s)\<rparr>))))"])
      (simp_all add: save_csrs_def Let_def xreg_set sd_pts)
  show "xreg 2 (save_csrs s) = xreg 2 s" "xreg 4 (save_csrs s) = xreg 4 s" "xreg 10 (save_csrs s) = xreg 2 s"
    "xreg 20 (save_csrs s) = scause s" "tasks (save_csrs s) = tasks s" "sstatus (save_csrs s) = sstatus s AND NOT (xreg 5 s)"
    "sepc (save_csrs s) = sepc s" "sscratch (save_csrs s) = 0" by (simp_all add: c xreg_set sd_pts x f)
  have d: "distinct (map snd saved_csrs)" by (simp add: saved_csrs_def)
  have "get_reg q (xreg 2 s6) (ram (save_csrs s)) =
     (case map_of (map prod.swap saved_csrs) q of Some n \<Rightarrow> xreg n s6 | None \<Rightarrow> get_reg q (xreg 2 s6) (ram s6))"
    using sd_pts_frame[OF d, of q s6] by (simp add: c)
  then show "get_reg q (xreg 2 s) (ram (save_csrs s)) =
      (if q = SP then user_sp (tasks s (tp s)) else if q = STATUS then sstatus s else if q = EPC then sepc s
       else if q = BADADDR then stval s else if q = CAUSE then scause s else if q = TP then sscratch s
       else get_reg q (xreg 2 s) (ram s))"
    by (simp add: saved_csrs_def x f(1))
qed

lemma save_context_frame:
  fixes s :: "'z hart_scheme"
  defines "base \<equiv> kernel_sp (tasks s (tp s)) - of_nat PT_SIZE_ON_STACK"
  shows "xreg 2 (save_context s) = base" "xreg 10 (save_context s) = base" "xreg 4 (save_context s) = xreg 4 s"
    "xreg 20 (save_context s) = scause s" "sscratch (save_context s) = 0" "sepc (save_context s) = sepc s"
    "sstatus (save_context s) = sstatus s AND NOT (xreg 5 s)"
    "tasks (save_context s) = (tasks s)(tp s := (tasks s (tp s))\<lparr>user_sp := xreg 2 s\<rparr>)"
    and "get_reg q base (ram (save_context s)) =
      (if q = SP then xreg 2 s else if q = STATUS then sstatus s else if q = EPC then sepc s else if q = BADADDR then stval s
       else if q = CAUSE then scause s else if q = TP then sscratch s
       else case map_of (map prod.swap saved_regs) q of Some n \<Rightarrow> xreg n s | None \<Rightarrow> get_reg q base (ram s))"
proof -
  have x2: "xreg 2 (save_gprs s) = base" by (simp add: save_gprs_frame(1) base_def)
  have t: "tp (save_gprs s) = tp s" using save_gprs_frame(1)[of 4 s] by (simp add: xreg_def)
  show "xreg 2 (save_context s) = base" "xreg 10 (save_context s) = base" "xreg 4 (save_context s) = xreg 4 s"
    "xreg 20 (save_context s) = scause s" "sscratch (save_context s) = 0" "sepc (save_context s) = sepc s"
    "sstatus (save_context s) = sstatus s AND NOT (xreg 5 s)"
    "tasks (save_context s) = (tasks s)(tp s := (tasks s (tp s))\<lparr>user_sp := xreg 2 s\<rparr>)"
    by (simp_all add: save_context_def save_csrs_frame save_gprs_frame base_def)
  show "get_reg q base (ram (save_context s)) =
      (if q = SP then xreg 2 s else if q = STATUS then sstatus s else if q = EPC then sepc s else if q = BADADDR then stval s
       else if q = CAUSE then scause s else if q = TP then sscratch s
       else case map_of (map prod.swap saved_regs) q of Some n \<Rightarrow> xreg n s | None \<Rightarrow> get_reg q base (ram s))"
    using save_csrs_frame(9)[of q "save_gprs s"] save_gprs_frame(8)[where s = s and q = q, folded base_def]
    unfolding save_context_def x2 by (simp add: t save_gprs_frame(2-7))
qed

text \<open>The state after the exchange of \<open>tp\<close> and \<open>sscratch\<close>: the current task, and its kernel stack.\<close>

definition trapped_task :: "'z hart_scheme \<Rightarrow> u64" where
  "trapped_task s = (if sscratch s \<noteq> 0 then sscratch s else xreg 4 s)"

definition trap_frame :: "'z hart_scheme \<Rightarrow> u64" where
  "trap_frame s = (if sscratch s \<noteq> 0 then kernel_sp (tasks s (sscratch s)) else xreg 2 s) - of_nat PT_SIZE_ON_STACK"

text \<open>The value of every register in the frame.\<close>

definition frame_value :: "'z hart_scheme \<Rightarrow> reg \<Rightarrow> u64" where
  "frame_value s q =
     (if q = STATUS then sstatus s else if q = EPC then sepc s else if q = BADADDR then stval s else if q = CAUSE then scause s
      else case map_of (map prod.swap restored_regs) q of Some n \<Rightarrow> xreg n s | None \<Rightarrow> get_reg q (trap_frame s) (ram s))"

lemma handle_exception_frame:
  "fst (handle_exception s) \<longleftrightarrow> sint (scause s) < 0"
  "xreg 2 (snd (handle_exception s)) = trap_frame s" "xreg 10 (snd (handle_exception s)) = trap_frame s"
  "xreg 4 (snd (handle_exception s)) = trapped_task s" "sscratch (snd (handle_exception s)) = 0"
  "sstatus (snd (handle_exception s)) = sstatus s AND NOT (xreg 5 s)"
  "get_reg q (trap_frame s) (ram (snd (handle_exception s))) = frame_value s q"
proof -
  let ?s1 = "s\<lparr>tp := sscratch s, sscratch := tp s\<rparr>"
  let ?s2 = "if sscratch s \<noteq> 0 then ?s1 else upd_task (tp s) (\<lambda>t. t\<lparr>kernel_sp := xreg 2 s\<rparr>) (?s1\<lparr>tp := tp s\<rparr>)"
  have h: "handle_exception s = (sint (xreg 20 (save_context ?s2)) < 0, save_context ?s2)"
    by (simp add: handle_exception_def Let_def xreg_def)
  have x: "xreg n ?s2 = (if n = 4 then trapped_task s else xreg n s)" for n
    by (simp add: xreg_def trapped_task_def upd_task_def)
  have c: "sstatus ?s2 = sstatus s" "sepc ?s2 = sepc s" "stval ?s2 = stval s" "scause ?s2 = scause s" "ram ?s2 = ram s"
    by simp_all
  have sc: "sscratch ?s2 = xreg 4 s" by (simp add: xreg_def)
  have b: "kernel_sp (tasks ?s2 (tp ?s2)) - of_nat PT_SIZE_ON_STACK = trap_frame s" by (simp add: trap_frame_def)
  note f = save_context_frame[where s = ?s2, unfolded b]
  show "fst (handle_exception s) \<longleftrightarrow> sint (scause s) < 0" "xreg 2 (snd (handle_exception s)) = trap_frame s"
    "xreg 10 (snd (handle_exception s)) = trap_frame s" "xreg 4 (snd (handle_exception s)) = trapped_task s"
    "sscratch (snd (handle_exception s)) = 0" "sstatus (snd (handle_exception s)) = sstatus s AND NOT (xreg 5 s)"
    unfolding h fst_conv snd_conv f c x by simp_all
  have m: "map_of (map prod.swap restored_regs) q = (if q = SP then Some 2 else if q = TP then Some 4 else map_of (map prod.swap saved_regs) q)"
    by (cases q) (simp_all add: restored_regs_def saved_regs_def)
  have n4: "map_of (map prod.swap saved_regs) q \<noteq> Some 4" for q by (auto simp: saved_regs_def dest!: map_of_SomeD)
  show "get_reg q (trap_frame s) (ram (snd (handle_exception s))) = frame_value s q"
    unfolding h snd_conv f frame_value_def m c x sc using n4[of q] by (auto split: option.split)
qed

lemma ret_from_exception_regs:
  fixes s :: "'z hart_scheme" and sc_ok :: bool
  defines "user \<equiv> get_reg STATUS (xreg 2 s) (ram s) AND 0x100 = 0" and "r \<equiv> ret_from_exception sc_ok s"
  shows "0 < n \<Longrightarrow> map_of restored_regs n = Some q \<Longrightarrow> xreg n r = get_reg q (xreg 2 s) (ram s)"
    and "sstatus r = get_reg STATUS (xreg 2 s) (ram s)" and "sepc r = get_reg EPC (xreg 2 s) (ram s)"
    and "sscratch r = (if user then xreg 4 s else sscratch s)"
    and "kernel_sp (tasks r u) = (if user \<and> u = xreg 4 s then xreg 2 s + of_nat PT_SIZE_ON_STACK else kernel_sp (tasks s u))"
proof -
  let ?sp = "xreg 2 s"
  obtain s7 where r: "r = fold ld_pt restored_regs s7" and x: "xreg 2 s7 = ?sp" "sstatus s7 = get_reg STATUS ?sp (ram s)"
      "sepc s7 = get_reg EPC ?sp (ram s)" "sscratch s7 = (if user then xreg 4 s else sscratch s)"
    and t: "\<forall>u. kernel_sp (tasks s7 u) = (if user \<and> u = xreg 4 s then ?sp + of_nat PT_SIZE_ON_STACK else kernel_sp (tasks s u))"
    and m: "\<forall>q. get_reg q ?sp (ram s7) = get_reg q ?sp (ram s)"
  proof -
    let ?s2 = "set_xreg 8 (get_reg STATUS ?sp (ram s) AND 0x100) (set_xreg 8 (get_reg STATUS ?sp (ram s)) s)"
    let ?u = "set_xreg 8 (?sp + of_nat PT_SIZE_ON_STACK) ?s2"
    let ?s3 = "if user then (upd_task (tp ?u) (\<lambda>t. t\<lparr>kernel_sp := xreg 8 ?u\<rparr>) ?u)\<lparr>sscratch := tp ?u\<rparr> else ?s2"
    have x3: "xreg 2 ?s3 = ?sp" "ram ?s3 = ram s" "xreg 4 ?s3 = xreg 4 s" by (simp_all add: xreg_set)
    have tu: "tp ?u = xreg 4 s" by (simp add: xreg_def set_xreg_def)
    let ?s5 = "ld_pt (12, EPC) (ld_pt (10, STATUS) ?s3)"
    let ?s6 = "if sc_ok then sd_pt (12, EPC) ?s5 else ?s5"
    let ?s7 = "?s6\<lparr>sstatus := xreg 10 ?s6, sepc := xreg 12 ?s6\<rparr>"
    have x5: "xreg 2 ?s5 = ?sp" "ram ?s5 = ram s" "xreg 10 ?s5 = get_reg STATUS ?sp (ram s)" "xreg 12 ?s5 = get_reg EPC ?sp (ram s)"
      using x3 by simp_all
    have g: "get_reg q ?sp (ram ?s6) = get_reg q ?sp (ram s)" for q
      using sd_pt_simps(8)[of q ?s5 "(12, EPC)"] x5 by simp
    have x6: "xreg n ?s6 = xreg n ?s5" for n by simp
    show thesis
    proof (rule that[of ?s7])
      show "r = fold ld_pt restored_regs ?s7"
        unfolding r_def ret_from_exception_def Let_def user_def by (simp add: xreg_set push_bit_of_1)
      show "xreg 2 ?s7 = ?sp" using x5 x6 by simp
      show "sstatus ?s7 = get_reg STATUS ?sp (ram s)" using x5 x6 by simp
      show "sepc ?s7 = get_reg EPC ?sp (ram s)" using x5 x6 by simp
      show "sscratch ?s7 = (if user then xreg 4 s else sscratch s)" by (simp add: tu)
      show "\<forall>u. kernel_sp (tasks ?s7 u) = (if user \<and> u = xreg 4 s then ?sp + of_nat PT_SIZE_ON_STACK else kernel_sp (tasks s u))"
        by (simp add: tu xreg_set upd_task_def)
      show "\<forall>q. get_reg q ?sp (ram ?s7) = get_reg q ?sp (ram s)" using g by simp
    qed
  qed
  have sp: "restored_regs = butlast restored_regs @ [(2, SP)]" by (simp add: restored_regs_def)
  let ?b = "butlast restored_regs"
  have d: "distinct (map fst ?b)" "2 \<notin> fst ` set ?b" by (simp_all add: restored_regs_def)
  have rb: "r = ld_pt (2, SP) (fold ld_pt ?b s7)" unfolding r by (subst sp) simp
  have x2: "xreg 2 (fold ld_pt ?b s7) = ?sp" using ld_pts_regs[OF d, of 2 s7] d(2) x(1) by (simp add: map_of_eq_None_iff[THEN iffD2])
  show "xreg n r = get_reg q (xreg 2 s) (ram s)" if n: "0 < n" and q: "map_of restored_regs n = Some q"
  proof (cases "n = 2")
    case True
    have "q = SP" using q True by (simp add: restored_regs_def)
    then show ?thesis using True m by (simp add: rb x2 ld_pts)
  next
    case False
    then have "map_of ?b n = Some q" using q by (subst (asm) sp) (simp add: map_add_Some_iff)
    then show ?thesis using False n m x(1) ld_pts_regs[OF d, of n s7] by (simp add: rb)
  qed
  show "sstatus r = get_reg STATUS (xreg 2 s) (ram s)" "sepc r = get_reg EPC (xreg 2 s) (ram s)"
    "sscratch r = (if user then xreg 4 s else sscratch s)" using x by (simp_all add: r ld_pts)
  show "kernel_sp (tasks r u) = (if user \<and> u = xreg 4 s then xreg 2 s + of_nat PT_SIZE_ON_STACK else kernel_sp (tasks s u))"
    using t by (simp add: r ld_pts)
qed

section \<open>The round trip\<close>

lemma restored_listed:
  assumes "0 < n" and "n < 32"
  obtains q where "map_of restored_regs n = Some q" and "map_of (map prod.swap restored_regs) q = Some n"
    and "q \<notin> {STATUS, EPC, BADADDR, CAUSE}"
proof -
  have "\<forall>n \<in> set [1..<32]. case map_of restored_regs n of None \<Rightarrow> False
    | Some q \<Rightarrow> map_of (map prod.swap restored_regs) q = Some n \<and> q \<notin> {STATUS, EPC, BADADDR, CAUSE}"
    by (simp add: restored_regs_def upt_rec)
  moreover have "n \<in> set [1..<32]" using assms by simp
  ultimately have c: "case map_of restored_regs n of None \<Rightarrow> False
    | Some q \<Rightarrow> map_of (map prod.swap restored_regs) q = Some n \<and> q \<notin> {STATUS, EPC, BADADDR, CAUSE}" by (rule bspec)
  then obtain q where "map_of restored_regs n = Some q" by (cases "map_of restored_regs n") simp_all
  with c show thesis using that by simp
qed

text \<open>C34: when the handler leaves the stack pointer, \<open>tp\<close>, \<open>sscratch\<close> and the frame as it got them, the interrupted program
  goes on with all its registers, at the address and with the status word of the moment of the trap; \<open>sscratch\<close> is
  as before, and so is the kernel stack pointer of the task that a trap from user mode interrupted.\<close>

theorem exception_round_trip:
  assumes h: "handle_exception s = (irq, s1)"
    and k: "xreg 2 t = xreg 2 s1" "xreg 4 t = xreg 4 s1" "sscratch t = sscratch s1"
      "\<And>q. get_reg q (xreg 2 s1) (ram t) = get_reg q (xreg 2 s1) (ram s1)"
    and m: "sstatus s AND 0x100 = 0 \<longleftrightarrow> sscratch s \<noteq> 0"
  shows "let r = ret_from_exception sc_ok t in
    (\<forall>n. 0 < n \<and> n < 32 \<longrightarrow> xreg n r = xreg n s) \<and> sepc r = sepc s \<and> sstatus r = sstatus s \<and> sscratch r = sscratch s \<and>
    (sscratch s \<noteq> 0 \<longrightarrow> kernel_sp (tasks r (sscratch s)) = kernel_sp (tasks s (sscratch s)))"
proof -
  have s1: "s1 = snd (handle_exception s)" using h by simp
  note f = handle_exception_frame[where s = s, folded s1]
  have fr: "get_reg q (xreg 2 t) (ram t) = frame_value s q" for q using k(1,4) f(2,7) by simp
  have st: "get_reg STATUS (xreg 2 t) (ram t) = sstatus s" "get_reg EPC (xreg 2 t) (ram t) = sepc s"
    unfolding fr by (simp_all add: frame_value_def)
  let ?r = "ret_from_exception sc_ok t"
  have "xreg n ?r = xreg n s" if n: "0 < n" "n < 32" for n
  proof -
    obtain q where q: "map_of restored_regs n = Some q" "map_of (map prod.swap restored_regs) q = Some n"
      "q \<notin> {STATUS, EPC, BADADDR, CAUSE}" by (rule restored_listed[OF n])
    show ?thesis using ret_from_exception_regs(1)[OF n(1) q(1), of sc_ok t] q(2,3) unfolding fr by (simp add: frame_value_def)
  qed
  moreover have "sepc ?r = sepc s" "sstatus ?r = sstatus s" unfolding ret_from_exception_regs st by (rule refl)+
  moreover have "sscratch ?r = sscratch s"
    unfolding ret_from_exception_regs(4) st k(2,3) f(4,5) using m by (simp add: trapped_task_def)
  moreover have "kernel_sp (tasks ?r (sscratch s)) = kernel_sp (tasks s (sscratch s))" if u: "sscratch s \<noteq> 0"
    unfolding ret_from_exception_regs(5) st(1) using m u k(1,2) f(2,4) by (simp add: trapped_task_def trap_frame_def)
  ultimately show ?thesis unfolding Let_def by blast
qed

text \<open>The entry clears every bit of \<open>sstatus\<close> that is set in the register \<open>t0\<close> of the interrupted program: no mask is loaded
  before the instruction that is to clear some of them.\<close>

theorem entry_clears_sstatus:
  "bit (sstatus (snd (handle_exception s))) k \<longleftrightarrow> bit (sstatus s) k \<and> \<not> bit (xreg 5 s) k"
  unfolding handle_exception_frame(6) using bit_imp_le_length[of "sstatus s" k] by (auto simp: bit_simps)

section \<open>The bss\<close>

lemma sint_plus_8:
  assumes "sint (a :: u64) + 8 < 2 ^ 63"
  shows "sint (a + 8) = sint a + 8"
proof -
  have "- (2 ^ 63) \<le> sint a" using sint_ge[of a] by simp
  moreover have "sint (a + 8) = signed_take_bit 63 (sint a + 8)" using sint_word_ariths(1)[of a 8] by simp
  ultimately show ?thesis using assms by (simp add: signed_take_bit_int_eq_self)
qed

lemma clear_bss_words:
  assumes "sint b \<le> sint a + 8 * int k" and "k = 0 \<or> sint a + 8 * (int k - 1) < sint b" and "sint a + 8 * int k < 2 ^ 63"
  shows "\<exists>m'. clear_bss a b m = Some m' \<and> (\<forall>x. m' x = (if unat (x - a) < 8 * k then 0 else m x))"
  using assms
proof (induction k arbitrary: a m)
  case 0
  then show ?case by (simp add: clear_bss.simps)
next
  case (Suc k)
  have a8: "sint (a + 8) = sint a + 8" by (rule sint_plus_8) (use Suc.prems(3) in simp)
  have "clear_bss a b m = clear_bss (a + 8) b (store64 a 0 m)" using Suc.prems(2) by (subst clear_bss.simps) simp
  moreover obtain m' where m': "clear_bss (a + 8) b (store64 a 0 m) = Some m'"
    "\<forall>x. m' x = (if unat (x - (a + 8)) < 8 * k then 0 else store64 a 0 m x)"
    using Suc.IH[of "a + 8" "store64 a 0 m"] Suc.prems a8 by auto
  have "m' x = (if unat (x - a) < 8 * Suc k then 0 else m x)" for x
  proof (cases "unat (x - a) < 8")
    case True
    then show ?thesis using m'(2) by (simp add: store64_def)
  next
    case False
    have e: "x - (a + 8) = (x - a) - of_nat 8" by simp
    have "unat (x - (a + 8)) = unat (x - a) - 8" unfolding e by (rule unat_minus_offset) (use False in simp)
    then show ?thesis using m'(2) False by (auto simp: store64_def)
  qed
  ultimately show ?case using m'(1) by auto
qed

text \<open>C35: the loop of \<open>_start\<close> ends with the bss cleared, in whole words: only the bytes from its start up to its end, rounded
  up to a multiple of 8 bytes, have been written.\<close>

theorem clear_bss_correct:
  assumes "sint b = sint a + int n" and "sint a + int n + 8 < 2 ^ 63"
  shows "\<exists>m'. clear_bss a b m = Some m' \<and> (\<forall>x. m' x = (if unat (x - a) < (n + 7) div 8 * 8 then 0 else m x))"
proof -
  let ?k = "(n + 7) div 8"
  have k: "n \<le> 8 * ?k" "?k = 0 \<or> 8 * (?k - 1) < n" "8 * ?k < n + 8" by presburger+
  have "sint b \<le> sint a + 8 * int ?k" using assms(1) k(1) by linarith
  moreover have "?k = 0 \<or> sint a + 8 * (int ?k - 1) < sint b" using assms(1) k(2) by (cases ?k) auto
  moreover have "sint a + 8 * int ?k < 2 ^ 63" using assms(2) k(3) by linarith
  ultimately show ?thesis using clear_bss_words[of b a ?k m] by (simp add: mult.commute)
qed

section \<open>Examples\<close>

text \<open>A user program with task \<open>0x100\<close>, whose registers hold their numbers, interrupted at \<open>0x5000\<close>.\<close>

definition example_hart :: "hart" where
  "example_hart = sched.extend \<lparr>heap = boot_mm, ram = (\<lambda>_. 0), tasks = example_task, run_links = (\<lambda>n. \<lparr>prv = n, nxt = n\<rparr>),
       vma_links = (\<lambda>n. \<lparr>prv = n, nxt = n\<rparr>), nr_threads = 1, tp = 4, cpu = \<lparr>th_ra = 0, th_sp = 0, th_s = (\<lambda>_. 0)\<rparr>, satp = 0,
       sie = False, pg_dir = 0\<rparr>
     (hart.fields (\<lambda>n. of_nat n) 0x20 0x5000 0 8 0x100)"

lemma example_hart_fields:
  "sstatus example_hart = 0x20" "sepc example_hart = 0x5000" "sscratch example_hart = 0x100" "xreg 5 example_hart = 5"
  "xreg 10 example_hart = 10"
  by (simp_all add: example_hart_def sched.defs hart.defs xreg_def)

theorem exception_round_trip_witness:
  "\<exists>irq s1. handle_exception example_hart = (irq, s1) \<and> xreg 10 (ret_from_exception True s1) = 10 \<and>
     sepc (ret_from_exception True s1) = 0x5000 \<and> sstatus (ret_from_exception True s1) = 0x20"
proof -
  obtain irq s1 where h: "handle_exception example_hart = (irq, s1)" by (cases "handle_exception example_hart")
  have "sstatus example_hart AND 0x100 = 0 \<longleftrightarrow> sscratch example_hart \<noteq> 0" by (simp add: example_hart_fields)
  from exception_round_trip[OF h refl refl refl refl this, of True] show ?thesis
    using h example_hart_fields by (auto simp: Let_def)
qed

theorem clear_bss_correct_witness:
  "\<exists>m'. clear_bss 0x1000 0x100A (\<lambda>_. 1) = Some m' \<and> m' 0x1000 = 0 \<and> m' 0x100F = 0 \<and> m' 0x1010 = 1"
proof -
  have "sint (0x100A :: u64) = sint (0x1000 :: u64) + int 10" "sint (0x1000 :: u64) + int 10 + 8 < 2 ^ 63" by simp_all
  from clear_bss_correct[OF this, of "\<lambda>_. 1"] show ?thesis by auto
qed

end
