(* ===== verification/Devtree.thy ===== *)
theory Devtree
  imports Initrd Utils
begin

text \<open>
  The flattened device tree, \<open>src/devtree.c\<close>: the walk over the structure block that prints the names of the nodes
  and stops at the first property with a given name. \<open>dtb\<close> is the value of \<open>DTB_BASE\<close>. The call of the callback is
  commented out in the source.
\<close>

section \<open>The walk\<close>

definition FDT_MAGIC :: u32 where "FDT_MAGIC = 0xd00dfeed"
definition FDT_BEGIN_NODE :: u32 where "FDT_BEGIN_NODE = 1"
definition FDT_END_NODE :: u32 where "FDT_END_NODE = 2"
definition FDT_PROP :: u32 where "FDT_PROP = 3"
definition FDT_NOP :: u32 where "FDT_NOP = 4"
definition FDT_END :: u32 where "FDT_END = 9"

text \<open>The offsets of the fields of \<open>struct fdt_header\<close> that are read.\<close>

definition FDT_OFF_STRUCT :: u64 where "FDT_OFF_STRUCT = 8"
definition FDT_OFF_STRINGS :: u64 where "FDT_OFF_STRINGS = 12"
definition FDT_SIZE_STRUCT :: u64 where "FDT_SIZE_STRUCT = 36"

partial_function (option) fdt_loop ::
    "u64 \<Rightarrow> u64 \<Rightarrow> u64 \<Rightarrow> u64 \<Rightarrow> 'z console_scheme \<Rightarrow> (fault + 'z console_scheme) option" where
  "fdt_loop target dt_strings fin p s =
     (if p < fin then
        let token = be2le (load32 (ram s) p);
            p1 = p + 4
        in if token = FDT_BEGIN_NODE then
             (case printk ''[INFO] Node: %s\<newline>'' [p1] s of
                Inl e \<Rightarrow> Some (Inl e)
              | Inr s1 \<Rightarrow> Option.bind (strlen (ram s1) p1) (\<lambda>len.
                  fdt_loop target dt_strings fin (p1 + scast (align (of_nat len + 1) 4)) s1))
           else if token = FDT_PROP then
             let len = be2le (load32 (ram s) p1);
                 nameoff = be2le (load32 (ram s) (p1 + 4))
             in Option.bind (strcmp (ram s) (dt_strings + ucast nameoff) target) (\<lambda>r.
                  if r = 0 then Some (Inr s)
                  else fdt_loop target dt_strings fin (p1 + scast (8 + align len 4)) s)
           else fdt_loop target dt_strings fin p1 s
      else Some (Inr s))"

definition fdt_traverse :: "u64 \<Rightarrow> u64 \<Rightarrow> 'z console_scheme \<Rightarrow> fault + 'z console_scheme" where
  "fdt_traverse dtb target s =
     (if be2le (load32 (ram s) dtb) \<noteq> FDT_MAGIC then printk ''[ERROR] FDT header magic does not match!\<newline>'' [] s
      else
        let dt_struct = dtb + ucast (be2le (load32 (ram s) (dtb + FDT_OFF_STRUCT)));
            dt_strings = dtb + ucast (be2le (load32 (ram s) (dtb + FDT_OFF_STRINGS)));
            struct_size = be2le (load32 (ram s) (dtb + FDT_SIZE_STRUCT))
        in case fdt_loop target dt_strings (dt_struct + ucast struct_size) dt_struct s of
             None \<Rightarrow> Inl No_Return | Some r \<Rightarrow> r)"

section \<open>Structure blocks\<close>

text \<open>The tokens of a block; a property has the offset of its name and the length of its value.\<close>

datatype fdt_token = Begin_Node "u8 list" | End_Node | Prop nat nat | Nop | End

fun token_size :: "fdt_token \<Rightarrow> nat" where
  "token_size (Begin_Node name) = 4 + round4 (length name + 1)"
| "token_size (Prop nameoff len) = 12 + round4 len"
| "token_size t = 4"

definition token_word :: "mem \<Rightarrow> u64 \<Rightarrow> u32 \<Rightarrow> bool" where
  "token_word m p w \<longleftrightarrow> be2le (load32 m p) = w"

fun token_at :: "mem \<Rightarrow> u64 \<Rightarrow> fdt_token \<Rightarrow> bool" where
  "token_at m p (Begin_Node name) \<longleftrightarrow> token_word m p FDT_BEGIN_NODE \<and> cstr m (p + 4) name \<and> length name < 2 ^ 30 \<and> p + 4 \<noteq> 0"
| "token_at m p (Prop nameoff len) \<longleftrightarrow> token_word m p FDT_PROP \<and> token_word m (p + 4) (of_nat len) \<and>
     token_word m (p + 8) (of_nat nameoff) \<and> nameoff < 2 ^ 32 \<and> len < 2 ^ 30"
| "token_at m p End_Node \<longleftrightarrow> token_word m p FDT_END_NODE"
| "token_at m p Nop \<longleftrightarrow> token_word m p FDT_NOP"
| "token_at m p End \<longleftrightarrow> token_word m p FDT_END"

fun tokens_at :: "mem \<Rightarrow> u64 \<Rightarrow> fdt_token list \<Rightarrow> bool" where
  "tokens_at m p [] \<longleftrightarrow> True"
| "tokens_at m p (t # ts) \<longleftrightarrow> token_at m p t \<and> tokens_at m (p + of_nat (token_size t)) ts"

text \<open>What is printed when the names of the properties are \<open>nm\<close>: the nodes up to the property.\<close>

fun fdt_output :: "(nat \<Rightarrow> u8 list) \<Rightarrow> u8 list \<Rightarrow> fdt_token list \<Rightarrow> u8 list" where
  "fdt_output nm target [] = []"
| "fdt_output nm target (Begin_Node name # ts) = chars ''[INFO] Node: '' @ name @ [10] @ fdt_output nm target ts"
| "fdt_output nm target (Prop nameoff len # ts) = (if nm nameoff = target then [] else fdt_output nm target ts)"
| "fdt_output nm target (t # ts) = fdt_output nm target ts"

lemma fdt_tokens: "FDT_BEGIN_NODE \<noteq> FDT_PROP" "FDT_END_NODE \<noteq> FDT_BEGIN_NODE" "FDT_END_NODE \<noteq> FDT_PROP" "FDT_PROP \<noteq> FDT_BEGIN_NODE"
  "FDT_NOP \<noteq> FDT_BEGIN_NODE" "FDT_NOP \<noteq> FDT_PROP" "FDT_END \<noteq> FDT_BEGIN_NODE" "FDT_END \<noteq> FDT_PROP"
  by (simp_all add: FDT_BEGIN_NODE_def FDT_PROP_def FDT_END_NODE_def FDT_NOP_def FDT_END_def)

lemma token_size_pos: "0 < token_size t"
  by (cases t) simp_all

lemma ucast_of_nat_small:
  assumes "n < 2 ^ 32"
  shows "ucast (of_nat n :: u32) = (of_nat n :: u64)"
proof -
  have "unat (of_nat n :: u32) = n" using assms by (simp add: unsigned_of_nat take_bit_nat_eq_self)
  then show ?thesis by (simp add: unsigned_ucast_eq word_unat_eq_iff unsigned_of_nat take_bit_nat_eq_self)
qed

lemma skip_name:
  assumes "n < 2 ^ 30"
  shows "scast (align (of_nat n + 1) 4) = (of_nat (round4 (n + 1)) :: u64)"
proof -
  have "round4 (n + 1) < 2 ^ 31" using round4_bounds(2)[of "n + 1"] assms by simp
  moreover have "align (of_nat (n + 1)) 4 = of_nat (round4 (n + 1))" by (rule align_round4) (use assms in simp)
  ultimately show ?thesis using sint_counter(2)[of "round4 (n + 1)"] by (simp add: add.commute)
qed

lemma skip_value:
  assumes "n < 2 ^ 30"
  shows "scast (8 + align (of_nat n) 4 :: u32) = (of_nat (8 + round4 n) :: u64)"
proof -
  have "8 + round4 n < 2 ^ 31" using round4_bounds(2)[of n] assms by simp
  moreover have "align (of_nat n) 4 = of_nat (round4 n)" by (rule align_round4) (use assms in simp)
  ultimately show ?thesis using sint_counter(2)[of "8 + round4 n"] by simp
qed

lemma fdt_loop_prints:
  fixes s :: "'z console_scheme"
  assumes "tokens_at (ram s) p ts" and "tx_ready s" and "unat p + sum_list (map token_size ts) < 2 ^ 64"
    and "fin = p + of_nat (sum_list (map token_size ts))"
    and "\<forall>t \<in> set ts. \<forall>off n. t = Prop off n \<longrightarrow> cstr (ram s) (dt_strings + of_nat off) (nm off)"
    and "cstr (ram s) target xs"
  shows "\<exists>s'. fdt_loop target dt_strings fin p s = Some (Inr s') \<and> uart_thr s' = uart_thr s @ crlf (fdt_output nm xs ts) \<and> ram s' = ram s"
  using assms
proof (induction ts arbitrary: p s)
  case Nil
  then show ?case by (simp add: fdt_loop.simps)
next
  case (Cons t ts)
  let ?n = "sum_list (map token_size ts)"
  have u: "unat p + token_size t + ?n < 2 ^ 64" using Cons.prems(3) by simp
  then have small: "unat (of_nat (token_size t + ?n) :: u64) = token_size t + ?n" by (intro unat_small) simp
  have "unat fin = unat p + (token_size t + ?n)" unfolding Cons.prems(4) using u small by (simp add: unat_plus_if' del: of_nat_add)
  then have lt: "p < fin" using token_size_pos[of t] by (simp add: word_less_nat_alt)
  have small1: "unat (of_nat (token_size t) :: u64) = token_size t" using u by (intro unat_small) simp
  have np: "unat (p + of_nat (token_size t)) = unat p + token_size t" using u small1 by (simp add: unat_plus_if')
  have at: "token_at (ram s) p t" "tokens_at (ram s) (p + of_nat (token_size t)) ts" using Cons.prems(1) by simp_all
  have fin: "fin = (p + of_nat (token_size t)) + of_nat ?n" using Cons.prems(4) by (simp add: add.assoc)
  have next_p: "unat (p + of_nat (token_size t)) + ?n < 2 ^ 64" using np u by simp
  have IH: "\<exists>s'. fdt_loop target dt_strings fin (p + of_nat (token_size t)) s1 = Some (Inr s') \<and>
      uart_thr s' = uart_thr s1 @ crlf (fdt_output nm xs ts) \<and> ram s' = ram s1" if "ram s1 = ram s" "tx_ready s1" for s1 :: "'z console_scheme"
    using Cons.IH[of s1 "p + of_nat (token_size t)"] that at(2) next_p fin Cons.prems(5,6) by simp
  show ?case
  proof (cases t)
    case (Begin_Node name)
    have w: "be2le (load32 (ram s) p) = FDT_BEGIN_NODE" "cstr (ram s) (p + 4) name" "length name < 2 ^ 30" "p + 4 \<noteq> 0"
      using at(1) by (simp_all add: Begin_Node token_word_def)
    obtain s1 where s1: "sends (crlf (chars ''[INFO] Node: '' @ name @ [10])) s s1" "printk ''[INFO] Node: %s\<newline>'' [p + 4] s = Inr s1"
      using printk_s[OF Cons.prems(2), of "''[INFO] Node: %s\<newline>''" "chars ''[INFO] Node: ''" "[10]" "p + 4" name] w(2,4)
      by (force simp: chars_def)
    note f1 = sends_fields[OF s1(1)]
    have sl: "strlen (ram s1) (p + 4) = Some (length name)" using strlen_cstr[OF w(2)] f1(2) by simp
    have step: "p + 4 + scast (align (of_nat (length name) + 1) 4) = p + of_nat (token_size t)"
      unfolding skip_name[OF w(3)] by (simp add: Begin_Node)
    have "fdt_loop target dt_strings fin p s = fdt_loop target dt_strings fin (p + 4 + scast (align (of_nat (length name) + 1) 4)) s1"
      using lt w(1) s1(2) sl by (simp add: fdt_loop.simps[of target dt_strings fin p s] Let_def)
    note this[unfolded step]
    then show ?thesis using IH[of s1] f1(1-3) Cons.prems(2) by (auto simp: Begin_Node)
  next
    case (Prop off n)
    have w: "be2le (load32 (ram s) p) = FDT_PROP" "be2le (load32 (ram s) (p + 4)) = of_nat n" "be2le (load32 (ram s) (p + 8)) = of_nat off"
      "off < 2 ^ 32" "n < 2 ^ 30" using at(1) by (simp_all add: Prop token_word_def)
    have uc: "ucast (of_nat off :: u32) = (of_nat off :: u64)" using w(4) by (rule ucast_of_nat_small)
    have c: "cstr (ram s) (dt_strings + of_nat off) (nm off)" using Cons.prems(5) Prop by simp
    note sc = strcmp_cstr[OF c Cons.prems(6)] str_diff_0[OF cstr_nonzero[OF c] cstr_nonzero[OF Cons.prems(6)]]
    have np4: "p + 4 + scast (8 + align (of_nat n) 4 :: u32) = p + of_nat (token_size t)" unfolding skip_value[OF w(5)] by (simp add: Prop)
    have "fdt_loop target dt_strings fin p s =
        (if nm off = xs then Some (Inr s) else fdt_loop target dt_strings fin (p + of_nat (token_size t)) s)"
      using lt w(1-3) sc np4 uc by (simp add: fdt_loop.simps[of target dt_strings fin p s] Let_def fdt_tokens add.assoc)
    then show ?thesis using IH[OF refl Cons.prems(2)] by (simp add: Prop)
  qed (use lt at(1) IH[OF refl Cons.prems(2)] in
      \<open>simp_all add: fdt_loop.simps[of target dt_strings fin p s] token_word_def Let_def fdt_tokens\<close>)
qed


section \<open>The whole tree\<close>

text \<open>A header at \<open>dtb\<close> whose structure block holds \<open>ts\<close> and whose strings block holds the names \<open>nm\<close>.\<close>

definition fdt_at :: "mem \<Rightarrow> u64 \<Rightarrow> fdt_token list \<Rightarrow> (nat \<Rightarrow> u8 list) \<Rightarrow> bool" where
  "fdt_at m dtb ts nm \<longleftrightarrow>
     (let structs = be2le (load32 m (dtb + FDT_OFF_STRUCT));
          strings = be2le (load32 m (dtb + FDT_OFF_STRINGS));
          size = sum_list (map token_size ts)
      in token_word m (dtb + FDT_SIZE_STRUCT) (of_nat size) \<and> unat dtb + unat structs + size < 2 ^ 64 \<and> size < 2 ^ 32 \<and>
         tokens_at m (dtb + ucast structs) ts \<and>
         (\<forall>t \<in> set ts. \<forall>off n. t = Prop off n \<longrightarrow> cstr m (dtb + ucast strings + of_nat off) (nm off)))"

text \<open>C39: \<open>fdt_traverse\<close> on a well-formed tree returns and prints the names of the nodes in order, up to the first
  property with the target as its name; on a wrong magic number it prints the error and reads nothing more.\<close>

theorem fdt_traverse_correct:
  assumes "tx_ready s" and "cstr (ram s) target xs"
    and "token_word (ram s) dtb FDT_MAGIC \<longrightarrow> fdt_at (ram s) dtb ts nm"
  shows "\<exists>s'. fdt_traverse dtb target s = Inr s' \<and> ram s' = ram s \<and>
    uart_thr s' = uart_thr s @ crlf (if token_word (ram s) dtb FDT_MAGIC then fdt_output nm xs ts
                                     else chars ''[ERROR] FDT header magic does not match!\<newline>'')"
proof (cases "token_word (ram s) dtb FDT_MAGIC")
  case True
  let ?n = "sum_list (map token_size ts)" and ?st = "be2le (load32 (ram s) (dtb + FDT_OFF_STRUCT))"
  have f: "be2le (load32 (ram s) (dtb + FDT_SIZE_STRUCT)) = of_nat ?n" "unat dtb + unat ?st + ?n < 2 ^ 64" "?n < 2 ^ 32"
    "tokens_at (ram s) (dtb + ucast ?st) ts"
    "\<forall>t \<in> set ts. \<forall>off n. t = Prop off n \<longrightarrow>
       cstr (ram s) (dtb + ucast (be2le (load32 (ram s) (dtb + FDT_OFF_STRINGS))) + of_nat off) (nm off)"
    using assms(3) True unfolding fdt_at_def Let_def token_word_def by blast+
  have u: "ucast (of_nat ?n :: u32) = (of_nat ?n :: u64)" using f(3) by (intro ucast_of_nat_small)
  have "unat ?st < 2 ^ 32" by (rule order.strict_trans2[OF unsigned_less]) simp
  then have "unat (ucast ?st :: u64) = unat ?st" by (simp add: unsigned_ucast_eq take_bit_nat_eq_self)
  then have p: "unat (dtb + ucast ?st) = unat dtb + unat ?st" using f(2) by (simp add: unat_plus_if')
  obtain s' where "fdt_loop target (dtb + ucast (be2le (load32 (ram s) (dtb + FDT_OFF_STRINGS)))) (dtb + ucast ?st + of_nat ?n)
      (dtb + ucast ?st) s = Some (Inr s')" "uart_thr s' = uart_thr s @ crlf (fdt_output nm xs ts)" "ram s' = ram s"
    using fdt_loop_prints[OF f(4) assms(1) _ refl f(5) assms(2)] f(2) p by auto
  then show ?thesis using True u f(1) by (simp add: fdt_traverse_def token_word_def Let_def)
next
  case False
  obtain s1 where "sends (crlf (chars ''[ERROR] FDT header magic does not match!\<newline>'')) s s1"
    "printk ''[ERROR] FDT header magic does not match!\<newline>'' [] s = Inr s1"
    using printk_plain[OF assms(1), of "''[ERROR] FDT header magic does not match!\<newline>''" "[]"] by (force simp: chars_def)
  then show ?thesis using False sends_fields by (fastforce simp: fdt_traverse_def token_word_def)
qed

definition example_tree :: "u8 list" where
  "example_tree = [0xd0, 0x0d, 0xfe, 0xed, 0, 0, 0, 88, 0, 0, 0, 40, 0, 0, 0, 84, 0, 0, 0, 0, 0, 0, 0, 17, 0, 0, 0, 16,
     0, 0, 0, 0, 0, 0, 0, 4, 0, 0, 0, 44,
     0, 0, 0, 1, 0x61, 0, 0, 0,  0, 0, 0, 3, 0, 0, 0, 0, 0, 0, 0, 2,  0, 0, 0, 2,
     0, 0, 0, 3, 0, 0, 0, 4, 0, 0, 0, 0, 1, 2, 3, 4,  0, 0, 0, 9,
     0x78, 0, 0x79, 0]"

definition example_fdt :: vms where
  "example_fdt = example_ramdisk\<lparr>ram := \<lambda>x. if x < 88 then example_tree ! unat x else 0\<rparr>"

lemma example_fdt_fields: "ram example_fdt = (\<lambda>x. if x < 88 then example_tree ! unat x else 0)" "tx_ready example_fdt"
  "uart_thr example_fdt = []"
  using example_ramdisk_fields(3,4) by (simp_all add: example_fdt_def tx_ready_def)

lemma example_fdt_at: "fdt_at (ram example_fdt) 0
    [Begin_Node [0x61], Prop 2 0, End_Node, Prop 0 4, End] (\<lambda>off. if off = 0 then [0x78] else [0x79])"
  unfolding example_fdt_fields
  by (simp add: fdt_at_def token_word_def Let_def round4_def load32_def bytes_def upt_rec example_tree_def be2le_def
      FDT_OFF_STRUCT_def FDT_OFF_STRINGS_def FDT_SIZE_STRUCT_def FDT_BEGIN_NODE_def FDT_PROP_def FDT_END_NODE_def FDT_END_def)

theorem fdt_traverse_correct_witness:
  "\<exists>s'. fdt_traverse 0 84 example_fdt = Inr s' \<and> ram s' = ram example_fdt \<and>
     uart_thr s' = crlf (chars ''[INFO] Node: '' @ [0x61, 10])"
proof -
  have m: "token_word (ram example_fdt) 0 FDT_MAGIC"
    unfolding example_fdt_fields
    by (simp add: token_word_def load32_def bytes_def upt_rec example_tree_def be2le_def FDT_MAGIC_def)
  have t: "cstr (ram example_fdt) 84 [0x78]" unfolding example_fdt_fields by (simp add: example_tree_def)
  show ?thesis using fdt_traverse_correct[OF example_fdt_fields(2) t, of 0 "[Begin_Node [0x61], Prop 2 0, End_Node, Prop 0 4, End]"
      "\<lambda>off. if off = 0 then [0x78] else [0x79]"] example_fdt_at m by (simp add: example_fdt_fields(3))
qed

end
