(* ===== verification/Video.thy ===== *)
theory Video
  imports Initrd
begin

text \<open>
  The display, \<open>src/video.c\<close>: the kernel asks the firmware configuration device of QEMU for the entry of the frame buffer
  and writes the mode there, by requests that the device reads from memory. The functions touch byte memory and
  the device only, so their state is a pair of a device state and memory. What the device does is the parameter
  \<open>dev\<close>: \<open>fw_dma\<close> is its reaction to a write of its DMA register, \<open>fw_tick\<close> what it does while the kernel waits. The
  addresses of local variables are a parameter.
\<close>

section \<open>The functions\<close>

record 'd fw_cfg =
  fw_dma :: "u64 \<Rightarrow> 'd \<times> mem \<Rightarrow> 'd \<times> mem"
  fw_tick :: "'d \<times> mem \<Rightarrow> 'd \<times> mem"

text \<open>\<open>__builtin_bswap64\<close>, \<open>__builtin_bswap32\<close> and \<open>__builtin_bswap16\<close>: the bytes of a word in the other order.\<close>

definition be_bytes :: "nat \<Rightarrow> 'w :: len word \<Rightarrow> u8 list" where
  "be_bytes n w = rev (map (\<lambda>i. ucast (drop_bit (8 * i) w)) [0..<n])"

definition bswap :: "'w :: len word \<Rightarrow> 'w word" where
  "bswap w = foldr (\<lambda>b v. push_bit 8 v OR ucast b) (be_bytes (LENGTH('w) div 8) w) 0"

definition load16 :: "mem \<Rightarrow> u64 \<Rightarrow> 16 word" where
  "load16 m a = foldr (\<lambda>b v. push_bit 8 v OR ucast b) (bytes m a 2) 0"

definition FB_BASE :: u64 where "FB_BASE = 0xfe000000"
definition FB_WIDTH :: u32 where "FB_WIDTH = 1920"
definition FB_HEIGHT :: u32 where "FB_HEIGHT = 1080"
definition FB_BPP :: u32 where "FB_BPP = 4"
definition XRGB8888 :: u32 where "XRGB8888 = 875713112"
definition SIZEOF_RAMFBCFG :: nat where "SIZEOF_RAMFBCFG = 28"
definition SIZEOF_FWCFGFILE :: nat where "SIZEOF_FWCFGFILE = 64"
definition FW_CFG_DMA_CTL_ERROR :: u32 where "FW_CFG_DMA_CTL_ERROR = 0x01"
definition FW_CFG_DMA_CTL_READ :: u32 where "FW_CFG_DMA_CTL_READ = 0x02"
definition FW_CFG_DMA_CTL_SELECT :: u32 where "FW_CFG_DMA_CTL_SELECT = 0x08"
definition FW_CFG_DMA_CTL_WRITE :: u32 where "FW_CFG_DMA_CTL_WRITE = 0x10"
definition FW_CFG_FILE_DIR :: u32 where "FW_CFG_FILE_DIR = 0x19"

record locals =
  at_access :: u64
  at_count :: u64
  at_file :: u64
  at_cfg :: u64

function strncmp :: "mem \<Rightarrow> u64 \<Rightarrow> u64 \<Rightarrow> u32 \<Rightarrow> int" where
  "strncmp m s1 s2 n =
     (if n \<noteq> 0 \<and> m s1 \<noteq> 0 \<and> m s1 = m s2 then strncmp m (s1 + 1) (s2 + 1) (n - 1)
      else if n = 0 then 0 else uint (m s1) - uint (m s2))"
  by auto
termination by (relation "measure (\<lambda>(m, s1, s2, n). unat n)") (auto simp: unat_minus_one unat_gt_0)

declare strncmp.simps [simp del]

definition access_struct :: "u64 \<Rightarrow> u64 \<Rightarrow> u32 \<Rightarrow> u32 \<Rightarrow> mem \<Rightarrow> mem" where
  "access_struct access address len control m =
     store64 (access + 8) (bswap (virt_to_phys address)) (store32 (access + 4) (bswap len) (store32 access (bswap control) m))"

definition dma_busy :: "u64 \<Rightarrow> mem \<Rightarrow> bool" where
  "dma_busy access m \<longleftrightarrow> bswap (load32 m access) AND NOT FW_CFG_DMA_CTL_ERROR \<noteq> 0"

partial_function (option) dma_wait :: "'d fw_cfg \<Rightarrow> u64 \<Rightarrow> 'd \<times> mem \<Rightarrow> ('d \<times> mem) option" where
  "dma_wait dev access s = (if dma_busy access (snd s) then dma_wait dev access (fw_tick dev s) else Some s)"

definition fw_cfg_dma_transfer ::
    "'d fw_cfg \<Rightarrow> locals \<Rightarrow> u64 \<Rightarrow> u32 \<Rightarrow> u32 \<Rightarrow> 'd \<times> mem \<Rightarrow> ('d \<times> mem) option" where
  "fw_cfg_dma_transfer dev st address len control s =
     (let s1 = (fst s, access_struct (at_access st) address len control (snd s));
          s2 = fw_dma dev (bswap (virt_to_phys (at_access st))) s1
      in dma_wait dev (at_access st) s2)"

definition fw_cfg_read_entry :: "'d fw_cfg \<Rightarrow> locals \<Rightarrow> u64 \<Rightarrow> u32 \<Rightarrow> u32 \<Rightarrow> 'd \<times> mem \<Rightarrow> ('d \<times> mem) option" where
  "fw_cfg_read_entry dev st buf e len s =
     (let control = push_bit 16 e OR FW_CFG_DMA_CTL_SELECT OR FW_CFG_DMA_CTL_READ
      in fw_cfg_dma_transfer dev st buf len control s)"

definition fw_cfg_write_entry :: "'d fw_cfg \<Rightarrow> locals \<Rightarrow> u64 \<Rightarrow> u32 \<Rightarrow> u32 \<Rightarrow> 'd \<times> mem \<Rightarrow> ('d \<times> mem) option" where
  "fw_cfg_write_entry dev st buf e len s =
     (let control = push_bit 16 e OR FW_CFG_DMA_CTL_SELECT OR FW_CFG_DMA_CTL_WRITE
      in fw_cfg_dma_transfer dev st buf len control s)"

partial_function (option) find_file_loop ::
    "'d fw_cfg \<Rightarrow> locals \<Rightarrow> u64 \<Rightarrow> u32 \<Rightarrow> 'd \<times> mem \<Rightarrow> (u32 \<times> 'd \<times> mem) option" where
  "find_file_loop dev st name i s =
     (if i < load32 (snd s) (at_count st) then
        Option.bind (fw_cfg_dma_transfer dev st (at_file st) (of_nat SIZEOF_FWCFGFILE) FW_CFG_DMA_CTL_READ s) (\<lambda>s1.
          if strncmp (snd s1) name (at_file st + 8) 56 = 0 then Some (ucast (bswap (load16 (snd s1) (at_file st + 4))), s1)
          else find_file_loop dev st name (i + 1) s1)
      else Some (- 1, s))"

definition fw_cfg_find_file :: "'d fw_cfg \<Rightarrow> locals \<Rightarrow> u64 \<Rightarrow> 'd \<times> mem \<Rightarrow> (u32 \<times> 'd \<times> mem) option" where
  "fw_cfg_find_file dev st name s =
     Option.bind (fw_cfg_read_entry dev st (at_count st) FW_CFG_FILE_DIR 4 (fst s, store32 (at_count st) 0 (snd s))) (\<lambda>s1.
       find_file_loop dev st name 0 (fst s1, store32 (at_count st) (bswap (load32 (snd s1) (at_count st))) (snd s1)))"

definition ramfb_struct :: "u64 \<Rightarrow> mem \<Rightarrow> mem" where
  "ramfb_struct cfg m =
     (let m = store64 cfg (bswap FB_BASE) m;
          m = store32 (cfg + 8) (bswap XRGB8888) m;
          m = store32 (cfg + 12) (bswap 0) m;
          m = store32 (cfg + 16) (bswap FB_WIDTH) m;
          m = store32 (cfg + 20) (bswap FB_HEIGHT) m
      in store32 (cfg + 24) (bswap (FB_WIDTH * FB_BPP)) m)"

definition video_init :: "(string \<Rightarrow> u64) \<Rightarrow> 'd fw_cfg \<Rightarrow> locals \<Rightarrow> 'd \<times> mem \<Rightarrow> ('d \<times> mem) option" where
  "video_init lit dev st s =
     Option.bind (fw_cfg_find_file dev st (lit ''etc/ramfb'') (fst s, ramfb_struct (at_cfg st) (snd s))) (\<lambda>(e, s1).
       fw_cfg_write_entry dev st (at_cfg st) e (of_nat SIZEOF_RAMFBCFG) s1)"

section \<open>Bytes of words\<close>

lemma length_be_bytes [simp]: "length (be_bytes n w) = n"
  by (simp add: be_bytes_def)

lemma bit_bswap:
  fixes w :: "'w :: len word"
  assumes "LENGTH('w) = 8 * k"
  shows "bit (bswap w) n \<longleftrightarrow> n < 8 * k \<and> bit w (8 * (k - 1 - n div 8) + n mod 8)"
proof (cases "n < 8 * k")
  case True
  then have "n div 8 < k" by auto
  then have "be_bytes k w ! (n div 8) = ucast (drop_bit (8 * (k - 1 - n div 8)) w)"
    by (simp add: be_bytes_def rev_nth)
  then show ?thesis using True \<open>n div 8 < k\<close> assms by (simp add: bswap_def bit_foldr_bytes bit_simps)
next
  case False
  then show ?thesis using assms by (auto simp: bswap_def bit_foldr_bytes)
qed

lemma bswap_swap:
  fixes w :: "'w :: len word"
  assumes "LENGTH('w) = 8 * k"
  shows "bswap (bswap w) = w"
proof (rule bit_word_eqI)
  fix n assume "n < LENGTH('w)"
  then have n: "n < 8 * k" and d: "n div 8 < k" using assms by auto
  let ?m = "8 * (k - 1 - n div 8) + n mod 8"
  have "k - 1 - n div 8 < k" using d by simp
  then have m: "?m < 8 * k" using mod_less_divisor[of 8 n] by linarith
  have "?m div 8 = k - 1 - n div 8" "?m mod 8 = n mod 8" by simp_all
  moreover have "k - 1 - (k - 1 - n div 8) = n div 8" using d by simp
  ultimately show "bit (bswap (bswap w)) n \<longleftrightarrow> bit w n" using n m by (simp add: bit_bswap[OF assms])
qed

lemma bswap_bswap [simp]: "bswap (bswap (x :: u64)) = x" "bswap (bswap (y :: u32)) = y" "bswap (bswap (z :: 16 word)) = z"
  by (rule bswap_swap, simp)+

lemma load_be:
  "bytes m a 4 = be_bytes 4 w \<Longrightarrow> load32 m a = bswap w"
  "bytes m a 2 = be_bytes 2 v \<Longrightarrow> load16 m a = bswap v"
  by (simp_all add: load32_def load16_def bswap_def)

lemma strncmp_cstr:
  "cstr m a xs \<Longrightarrow> cstr m b ys \<Longrightarrow> length xs < unat n \<Longrightarrow> strncmp m a b n = str_diff xs ys"
proof (induction xs ys arbitrary: a b n rule: str_diff.induct)
  case (1 x xs y ys)
  have n: "n \<noteq> 0" using "1.prems"(3) by auto
  then have "unat (n - 1) = unat n - 1" by (simp add: unat_minus_one)
  then show ?case using 1 n by (simp add: strncmp.simps[of m a b n])
qed (auto simp: strncmp.simps[of m _ _ n for m n])

section \<open>The device\<close>

text \<open>The documented behaviour of the device (\<open>docs/specs/fw_cfg\<close> of QEMU): it has items by their key, one of which may
  be selected, and an offset in it. Bit 14 of a key is ignored. The kernel's requests must be in memory, of which the
  machine of the \<open>Makefile\<close> has 4 GB from \<open>0x80000000\<close> on.

  \<^item> With the select bit a request selects an item, or none when there is no item of that key, at offset 0.

  \<^item> A read copies the bytes from the offset on to memory, with zeros after the end of the item and when there is no item.

  \<^item> A write overwrites the bytes of the item when it is writable and has all of them. In every other case it is dropped and
    the error bit is set: an item is never created nor resized.

  \<^item> When the device is done, after any number of ticks, the control word of the request is zero but for the error bit;
    until then it is not. Nothing is said of the offset after a request that went past the end.

  The description is used for the keys \<open>K\<close> only: selecting another item may have further effects.\<close>

record fw_view =
  fw_key :: "16 word option"
  fw_off :: nat
  fw_items :: "16 word \<rightharpoonup> u8 list"
  fw_writable :: "16 word set"

definition put_bytes :: "u64 \<Rightarrow> u8 list \<Rightarrow> mem \<Rightarrow> mem" where
  "put_bytes p bs m = (\<lambda>x. if unat (x - p) < length bs then bs ! unat (x - p) else m x)"

definition fw_slot :: "16 word \<Rightarrow> 16 word" where
  "fw_slot key = key AND NOT 0x4000"

definition fw_selected :: "16 word \<Rightarrow> fw_view \<Rightarrow> fw_view" where
  "fw_selected k v = v\<lparr>fw_key := if fw_items v k = None then None else Some k, fw_off := 0\<rparr>"

definition fw_select :: "u32 \<Rightarrow> fw_view \<Rightarrow> fw_view" where
  "fw_select control v = (if bit control 3 then fw_selected (fw_slot (ucast (drop_bit 16 control))) v else v)"

definition fw_content :: "fw_view \<Rightarrow> u8 list" where
  "fw_content v = (case Option.bind (fw_key v) (fw_items v) of None \<Rightarrow> [] | Some bs \<Rightarrow> bs)"

definition fw_data :: "nat \<Rightarrow> fw_view \<Rightarrow> u8 list" where
  "fw_data n v = take n (drop (fw_off v) (fw_content v) @ replicate n 0)"

definition fw_overwrite :: "u8 list \<Rightarrow> fw_view \<Rightarrow> u8 list" where
  "fw_overwrite bs v = (let old = fw_content v in take (fw_off v) old @ bs @ drop (fw_off v + length bs) old)"

definition fw_within :: "nat \<Rightarrow> fw_view \<Rightarrow> bool" where
  "fw_within n v \<longleftrightarrow> fw_off v + n \<le> length (fw_content v)"

definition fw_moved :: "fw_view \<Rightarrow> fw_view \<Rightarrow> bool" where
  "fw_moved v v' \<longleftrightarrow> v' = v\<lparr>fw_off := fw_off v'\<rparr>"

text \<open>The views \<open>v\<close> and \<open>v'\<close> before and after a write of \<open>bs\<close>, and the error bits it leaves.\<close>

definition fw_written :: "u8 list \<Rightarrow> fw_view \<Rightarrow> fw_view \<Rightarrow> u32 \<Rightarrow> bool" where
  "fw_written bs v v' err \<longleftrightarrow>
     (case fw_key v of
        None \<Rightarrow> fw_moved v v' \<and> err = FW_CFG_DMA_CTL_ERROR
      | Some k \<Rightarrow>
          if k \<in> fw_writable v \<and> fw_within (length bs) v
          then v' = v\<lparr>fw_off := fw_off v + length bs, fw_items := (fw_items v)(k \<mapsto> fw_overwrite bs v)\<rparr> \<and> err = 0
          else fw_moved v v' \<and> err = FW_CFG_DMA_CTL_ERROR)"

definition fw_read_done :: "nat \<Rightarrow> fw_view \<Rightarrow> fw_view \<Rightarrow> bool" where
  "fw_read_done n v v' \<longleftrightarrow> fw_moved v v' \<and> (fw_within n v \<longrightarrow> fw_off v' = fw_off v + n)"

lemma fw_moved_fields:
  assumes "fw_moved v v'"
  shows "fw_key v' = fw_key v" "fw_items v' = fw_items v" "fw_writable v' = fw_writable v"
  using assms unfolding fw_moved_def by (metis fw_view.select_convs fw_view.surjective fw_view.update_convs(2))+

lemma fw_read_done_fields:
  assumes "fw_read_done n v v'"
  shows "fw_key v' = fw_key v" "fw_items v' = fw_items v" "fw_writable v' = fw_writable v"
    and "fw_within n v \<Longrightarrow> fw_off v' = fw_off v + n"
  using assms fw_moved_fields by (auto simp: fw_read_done_def)

definition in_ram :: "u64 \<Rightarrow> nat \<Rightarrow> bool" where
  "in_ram p n \<longleftrightarrow> 0x80000000 \<le> unat (virt_to_phys p) \<and> unat (virt_to_phys p) + n \<le> 0x180000000"

text \<open>A request of the kernel: its three fields, and whether the description covers it.\<close>

definition fw_control :: "u64 \<Rightarrow> mem \<Rightarrow> u32" where "fw_control access m = bswap (load32 m access)"
definition fw_length :: "u64 \<Rightarrow> mem \<Rightarrow> nat" where "fw_length access m = unat (bswap (load32 m (access + 4)))"
definition fw_address :: "u64 \<Rightarrow> mem \<Rightarrow> u64" where "fw_address access m = phys_to_virt (bswap (load64 m (access + 8)))"

definition fw_request :: "16 word set \<Rightarrow> u64 \<Rightarrow> mem \<Rightarrow> bool" where
  "fw_request K access m \<longleftrightarrow>
     in_ram access 16 \<and> in_ram (fw_address access m) (fw_length access m) \<and> 0 < fw_length access m \<and>
     (bit (fw_control access m) 3 \<longrightarrow> fw_slot (ucast (drop_bit 16 (fw_control access m))) \<in> K)"

definition fw_done :: "('d \<Rightarrow> fw_view) \<Rightarrow> u64 \<Rightarrow> 'd \<times> mem \<Rightarrow> 'd \<times> mem \<Rightarrow> bool" where
  "fw_done view access s s' \<longleftrightarrow>
     (let m = snd s;
          control = fw_control access m;
          n = fw_length access m;
          p = fw_address access m;
          v = fw_select control (view (fst s))
      in if bit control 1 then snd s' = store32 access 0 (put_bytes p (fw_data n v) m) \<and> fw_read_done n v (view (fst s'))
         else bit control 4 \<longrightarrow>
           (\<exists>err \<in> {0, FW_CFG_DMA_CTL_ERROR}. snd s' = store32 access (bswap err) m \<and> fw_written (bytes m p n) v (view (fst s')) err))"

definition fw_device :: "'d fw_cfg \<Rightarrow> ('d \<Rightarrow> fw_view) \<Rightarrow> 16 word set \<Rightarrow> bool" where
  "fw_device dev view K \<longleftrightarrow>
     (\<forall>access s. fw_request K access (snd s) \<longrightarrow>
        (\<exists>k. (\<forall>j < k. dma_busy access (snd ((fw_tick dev ^^ j) (fw_dma dev (bswap (virt_to_phys access)) s)))) \<and>
           fw_done view access s ((fw_tick dev ^^ k) (fw_dma dev (bswap (virt_to_phys access)) s))))"

section \<open>Requests\<close>

lemma dma_wait_ticks:
  "\<forall>j < k. dma_busy access (snd ((fw_tick dev ^^ j) s)) \<Longrightarrow> \<not> dma_busy access (snd ((fw_tick dev ^^ k) s)) \<Longrightarrow>
     dma_wait dev access s = Some ((fw_tick dev ^^ k) s)"
proof (induction k arbitrary: s)
  case 0
  then show ?case by (simp add: dma_wait.simps)
next
  case (Suc k)
  have "dma_busy access (snd s)" using Suc.prems(1) by force
  moreover have "\<forall>j < k. dma_busy access (snd ((fw_tick dev ^^ j) (fw_tick dev s)))"
    using Suc.prems(1) by (metis Suc_mono comp_apply funpow_Suc_right)
  ultimately show ?case using Suc.IH[of "fw_tick dev s"] Suc.prems(2) by (simp add: dma_wait.simps[of dev access s] funpow_swap1)
qed

lemma bswap_0 [simp]: "bswap (0 :: u32) = 0"
  by (simp add: bswap_def be_bytes_def upt_rec)

lemma store_outside: "n \<le> unat (x - a) \<Longrightarrow> 8 \<le> n \<Longrightarrow> store64 a w m x = m x"
  by (simp add: store64_def)

lemma disjoint_byte:
  assumes "disjoint_ranges a n b k" and "i < k" and "k < 2 ^ 64"
  shows "n \<le> unat (b + of_nat i - a)"
proof -
  have "unat (of_nat i :: u64) = i" using assms(2,3) by (intro unat_small) simp
  then show ?thesis using disjoint_rangesD[OF disjoint_ranges_sym[OF assms(1)], of "b + of_nat i"] assms(2) by simp
qed

lemma store_load_apart:
  assumes "disjoint_ranges a n b 4"
  shows "4 \<le> n \<Longrightarrow> load32 (store32 a v m) b = load32 m b" and "8 \<le> n \<Longrightarrow> load32 (store64 a w m) b = load32 m b"
  by (rule load32_cong, rule store32_outside[OF disjoint_byte[OF assms]], simp_all)
    (rule load32_cong, rule store_outside[OF disjoint_byte[OF assms]], simp_all)

lemma access_fields:
  "load32 (access_struct access p n c m) access = bswap c"
  "load32 (access_struct access p n c m) (access + 4) = bswap n"
  "load64 (access_struct access p n c m) (access + 8) = bswap (virt_to_phys p)"
  by (simp_all add: access_struct_def store_load_apart(1)[of "access + 4" 4 access]
      store_load_apart(2)[of "access + 8" 8] disjoint_ranges_def)

lemma access_request:
  "fw_control access (access_struct access p n c m) = c"
  "fw_length access (access_struct access p n c m) = unat n"
  "fw_address access (access_struct access p n c m) = p"
  by (simp_all add: fw_control_def fw_length_def fw_address_def access_fields)

text \<open>What a request does, in terms of the view of the device.\<close>

definition good_request :: "16 word set \<Rightarrow> locals \<Rightarrow> u64 \<Rightarrow> u32 \<Rightarrow> u32 \<Rightarrow> bool" where
  "good_request K st p n control \<longleftrightarrow> in_ram (at_access st) 16 \<and> in_ram p (unat n) \<and> 0 < unat n \<and>
     (bit control 3 \<longrightarrow> fw_slot (ucast (drop_bit 16 control)) \<in> K)"

lemma control_done: "\<not> dma_busy access (store32 access (bswap err) m)" if "err \<in> {0, FW_CFG_DMA_CTL_ERROR}"
  using that by (auto simp: dma_busy_def FW_CFG_DMA_CTL_ERROR_def)

lemma transfer_done:
  assumes d: "fw_device dev view K" and g: "good_request K st p n control" and c: "bit control 1 \<or> bit control 4"
  obtains d' m' where "fw_cfg_dma_transfer dev st p n control (d, m) = Some (d', m')"
    and "fw_done view (at_access st) (d, access_struct (at_access st) p n control m) (d', m')"
proof -
  let ?a = "at_access st"
  let ?s = "(d, access_struct ?a p n control m)"
  let ?t = "fw_dma dev (bswap (virt_to_phys ?a)) ?s"
  have "fw_request K ?a (snd ?s)" using g by (simp add: fw_request_def good_request_def access_request)
  then obtain k where k: "\<forall>j < k. dma_busy ?a (snd ((fw_tick dev ^^ j) ?t))" "fw_done view ?a ?s ((fw_tick dev ^^ k) ?t)"
    using d[unfolded fw_device_def] by blast
  obtain d' m' where e: "(fw_tick dev ^^ k) ?t = (d', m')" by fastforce
  have b: "\<exists>err \<in> {0, FW_CFG_DMA_CTL_ERROR}. \<exists>m0. m' = store32 ?a (bswap err) m0"
  proof (cases "bit control 1")
    case True
    then have "\<exists>m0. m' = store32 ?a (bswap 0) m0" using k(2) unfolding e by (auto simp: fw_done_def Let_def access_request)
    then show ?thesis by blast
  next
    case False
    then show ?thesis using k(2) c unfolding e fw_done_def Let_def access_request fst_conv snd_conv by auto
  qed
  have "\<not> dma_busy ?a (snd ((fw_tick dev ^^ k) ?t))" unfolding e snd_conv using b control_done by blast
  from dma_wait_ticks[OF k(1) this] show thesis using that k(2) by (simp add: e fw_cfg_dma_transfer_def Let_def)
qed

lemma fw_read:
  assumes d: "fw_device dev view K" and g: "good_request K st p n control" and c: "bit control 1"
  obtains d' where "fw_cfg_dma_transfer dev st p n control (d, m) = Some (d', store32 (at_access st) 0
      (put_bytes p (fw_data (unat n) (fw_select control (view d))) (access_struct (at_access st) p n control m)))"
    and "fw_read_done (unat n) (fw_select control (view d)) (view d')"
proof -
  obtain d' m' where "fw_cfg_dma_transfer dev st p n control (d, m) = Some (d', m')"
    "fw_done view (at_access st) (d, access_struct (at_access st) p n control m) (d', m')"
    using transfer_done[OF d g, of d m] c by blast
  then show thesis using that c by (simp add: fw_done_def Let_def access_request)
qed

lemma fw_write:
  assumes d: "fw_device dev view K" and g: "good_request K st p n control" and c: "\<not> bit control 1" "bit control 4"
  obtains d' err where "fw_cfg_dma_transfer dev st p n control (d, m) =
      Some (d', store32 (at_access st) (bswap err) (access_struct (at_access st) p n control m))"
    and "fw_written (bytes (access_struct (at_access st) p n control m) p (unat n)) (fw_select control (view d)) (view d') err"
proof -
  obtain d' m' where "fw_cfg_dma_transfer dev st p n control (d, m) = Some (d', m')"
    "fw_done view (at_access st) (d, access_struct (at_access st) p n control m) (d', m')"
    using transfer_done[OF d g, of d m] c by blast
  moreover from this(2) obtain err where
    "m' = store32 (at_access st) (bswap err) (access_struct (at_access st) p n control m)"
    "fw_written (bytes (access_struct (at_access st) p n control m) p (unat n)) (fw_select control (view d)) (view d') err"
    using c unfolding fw_done_def Let_def access_request fst_conv snd_conv if_not_P[OF c(1)] by blast
  ultimately show thesis using that by blast
qed

section \<open>Finding a file\<close>

text \<open>The directory of the device, an item of its own: the number of files, and for each its size, key and name. The item may
  be longer than that: QEMU keeps room for more entries in it.\<close>

type_synonym fw_file = "u32 \<times> 16 word \<times> u8 list"

fun file_bytes :: "fw_file \<Rightarrow> u8 list" where
  "file_bytes (sz, key, name) = be_bytes 4 sz @ be_bytes 2 key @ [0, 0] @ name @ replicate (56 - length name) 0"

definition directory :: "fw_file list \<Rightarrow> u8 list" where
  "directory fs = be_bytes 4 (of_nat (length fs) :: u32) @ concat (map file_bytes fs)"

definition good_files :: "fw_file list \<Rightarrow> bool" where
  "good_files fs \<longleftrightarrow> length fs < 2 ^ 31 \<and> (\<forall>f \<in> set fs. 0 \<notin> set (snd (snd f)) \<and> length (snd (snd f)) < 56)"

fun ranges_apart :: "(u64 \<times> nat) list \<Rightarrow> bool" where
  "ranges_apart [] \<longleftrightarrow> True"
| "ranges_apart (r # rs) \<longleftrightarrow> (\<forall>q \<in> set rs. disjoint_ranges (fst r) (snd r) (fst q) (snd q)) \<and> ranges_apart rs"

definition locals_apart :: "locals \<Rightarrow> u64 \<Rightarrow> nat \<Rightarrow> bool" where
  "locals_apart st name n \<longleftrightarrow>
     ranges_apart [(at_access st, 16), (at_count st, 4), (at_file st, 64), (at_cfg st, 28), (name, n)]"

definition locals_in_ram :: "locals \<Rightarrow> bool" where
  "locals_in_ram st \<longleftrightarrow> in_ram (at_access st) 16 \<and> in_ram (at_count st) 4 \<and> in_ram (at_file st) 64 \<and> in_ram (at_cfg st) 28"

lemma locals_apartD:
  assumes "locals_apart st name n"
  shows "disjoint_ranges (at_access st) 16 (at_count st) 4" "disjoint_ranges (at_access st) 16 (at_file st) 64"
    "disjoint_ranges (at_access st) 16 (at_cfg st) 28" "disjoint_ranges (at_access st) 16 name n"
    "disjoint_ranges (at_count st) 4 (at_file st) 64" "disjoint_ranges (at_count st) 4 (at_cfg st) 28"
    "disjoint_ranges (at_count st) 4 name n" "disjoint_ranges (at_file st) 64 (at_cfg st) 28"
    "disjoint_ranges (at_file st) 64 name n" "disjoint_ranges (at_cfg st) 28 name n"
  using assms by (simp_all add: locals_apart_def)

lemma put_bytes_bytes:
  assumes "length bs < 2 ^ 64"
  shows "bytes (put_bytes p bs m) p (length bs) = bs"
proof (rule nth_equalityI)
  show "bytes (put_bytes p bs m) p (length bs) ! i = bs ! i" if "i < length (bytes (put_bytes p bs m) p (length bs))" for i
    using that assms by (simp add: bytes_def put_bytes_def unat_small)
qed (simp add: bytes_def)

lemma bytes_part: "i + k \<le> n \<Longrightarrow> bytes m (p + of_nat i) k = take k (drop i (bytes m p n))"
  by (rule nth_equalityI) (simp_all add: bytes_def add.assoc)

lemma store_access:
  assumes "16 \<le> unat (x - access)"
  shows "store32 access v m x = m x" and "access_struct access p n c m x = m x"
proof -
  have a: "i + k \<le> 16 \<Longrightarrow> k \<le> unat (x - (access + of_nat i))" for i k
    using unat_minus_offset[of i "x - access"] assms by (simp add: diff_diff_eq)
  show "store32 access v m x = m x" using assms by (simp add: store32_def)
  then show "access_struct access p n c m x = m x"
    using assms a[of 4 4] a[of 8 8] by (simp add: access_struct_def store32_def store64_def)
qed

lemma directory_entry:
  assumes "good_files fs" and "i < length fs"
  shows "take 64 (drop (4 + 64 * i) (directory fs @ us) @ zs) = file_bytes (fs ! i)" and "4 + 64 * Suc i \<le> length (directory fs @ us)"
proof -
  have l: "\<forall>f \<in> set fs. length (file_bytes f) = 64" using assms(1) by (auto simp: good_files_def)
  have "drop (64 * i) (concat (map file_bytes fs)) = concat (map file_bytes (drop i fs))" for i
    using l by (induction fs arbitrary: i) (auto simp: drop_Cons split: nat.splits)
  then have "drop (4 + 64 * i) (directory fs) = concat (map file_bytes (drop i fs))"
    by (simp add: directory_def flip: drop_drop)
  also have "\<dots> = file_bytes (fs ! i) @ concat (map file_bytes (drop (Suc i) fs))"
    using assms(2) by (simp flip: Cons_nth_drop_Suc)
  finally have d: "drop (4 + 64 * i) (directory fs) = file_bytes (fs ! i) @ concat (map file_bytes (drop (Suc i) fs))" .
  have fi: "length (file_bytes (fs ! i)) = 64" using l assms(2) by simp
  show "take 64 (drop (4 + 64 * i) (directory fs @ us) @ zs) = file_bytes (fs ! i)" using fi by (simp add: d)
  have "length (concat (map file_bytes fs)) = 64 * length fs" using l by (induction fs) auto
  then show "4 + 64 * Suc i \<le> length (directory fs @ us)" using assms(2) by (simp add: directory_def)
qed

lemma read_mem:
  fixes access p q :: u64 and n c :: u32 and m :: mem
  assumes "disjoint_ranges access 16 p (length bs)" and "length bs < 2 ^ 64"
  defines "m' \<equiv> store32 access 0 (put_bytes p bs (access_struct access q n c m))"
  shows "bytes m' p (length bs) = bs" and "16 \<le> unat (x - access) \<Longrightarrow> length bs \<le> unat (x - p) \<Longrightarrow> m' x = m x"
proof -
  have "bytes m' p (length bs) = bytes (put_bytes p bs (access_struct access q n c m)) p (length bs)"
    unfolding m'_def by (rule bytes_same) (rule store_access(1)[OF disjoint_byte[OF assms(1) _ assms(2)]])
  then show "bytes m' p (length bs) = bs" by (simp add: put_bytes_bytes[OF assms(2)])
  show "16 \<le> unat (x - access) \<Longrightarrow> length bs \<le> unat (x - p) \<Longrightarrow> m' x = m x"
    by (simp add: m'_def store_access put_bytes_def)
qed

lemma file_bytes_name:
  assumes "bytes m p 64 = file_bytes (sz, key, name)" and "0 \<notin> set name" and "length name < 56"
  shows "cstr m (p + 8) name" and "load16 m (p + 4) = bswap key"
proof -
  have b: "m (p + of_nat i) = file_bytes (sz, key, name) ! i" if "i < 64" for i
    using that unfolding assms(1)[symmetric] by (simp add: bytes_def)
  show "cstr m (p + 8) name"
  proof (rule cstrI[OF assms(2)])
    show "\<forall>i < length name. m (p + 8 + of_nat i) = name ! i"
      using b[of "8 + i" for i] assms(3) by (auto simp: nth_append add.assoc)
    show "m (p + 8 + of_nat (length name)) = 0"
      using b[of "8 + length name"] assms(3) by (simp add: nth_append add.assoc)
  qed
  have "bytes m (p + of_nat 4) 2 = be_bytes 2 key" using bytes_part[of 4 2 64 m p] unfolding assms(1) by simp
  then show "load16 m (p + 4) = bswap key" by (intro load_be) simp
qed

text \<open>The walk over the directory: the key of the first file with the name, or -1.\<close>

definition found_key :: "u8 list \<Rightarrow> fw_file list \<Rightarrow> u32" where
  "found_key xs fs = (case find (\<lambda>f. snd (snd f) = xs) fs of Some f \<Rightarrow> ucast (fst (snd f)) | None \<Rightarrow> - 1)"

lemma find_file_loop_key:
  assumes d: "fw_device dev view K" and g: "good_files fs" and a: "locals_apart st name (length xs + 1)" and ir: "locals_in_ram st"
    and v: "fw_key (view d) = Some 0x19" "fw_items (view d) 0x19 = Some (directory fs @ us)" "fw_off (view d) = 4 + 64 * i"
    and m: "load32 m (at_count st) = of_nat (length fs)" "cstr m name xs" "length xs < 56" and i: "drop i fs = ts" "i \<le> length fs"
  shows "\<exists>d' m'. find_file_loop dev st name (of_nat i) (d, m) = Some (found_key xs ts, d', m') \<and>
    fw_items (view d') = fw_items (view d) \<and> fw_writable (view d') = fw_writable (view d) \<and>
    (\<forall>x. 16 \<le> unat (x - at_access st) \<longrightarrow> 64 \<le> unat (x - at_file st) \<longrightarrow> m' x = m x)"
  using v m(1,2) i
proof (induction ts arbitrary: i d m)
  case Nil
  have "i = length fs" using Nil.prems(6,7) by simp
  then show ?case using Nil.prems(4)
    by (intro exI[of _ d] exI[of _ m]) (simp add: find_file_loop.simps[of dev st name _ "(d, m)"] found_key_def)
next
  case (Cons f ts)
  have l: "i < length fs" "fs ! i = f" "drop (Suc i) fs = ts"
    using Cons.prems(6) by (metis drop_all list.distinct(1) not_less, metis Cons_nth_drop_Suc drop_all list.inject not_less list.distinct(1),
      metis drop_Suc list.sel(3) tl_drop)
  obtain sz key nm where f: "f = (sz, key, nm)" by (cases f)
  have fs: "length fs < 2 ^ 31" "0 \<notin> set nm" "length nm < 56" using g l by (auto simp: good_files_def f dest!: nth_mem)
  have lt: "of_nat i < (of_nat (length fs) :: u32)" using l(1) fs(1) by (simp add: word_less_nat_alt unsigned_of_nat take_bit_nat_eq_self)
  note ap = locals_apartD[OF a]
  let ?c = "FW_CFG_DMA_CTL_READ"
  have c: "bit ?c 1" "\<not> bit ?c 3" by (simp_all add: FW_CFG_DMA_CTL_READ_def)
  have sel: "fw_select ?c (view d) = view d" using c(2) by (simp add: fw_select_def)
  have dt: "fw_data (unat (of_nat SIZEOF_FWCFGFILE :: u32)) (view d) = file_bytes f"
  proof -
    have "unat (of_nat SIZEOF_FWCFGFILE :: u32) = 64" by (simp add: SIZEOF_FWCFGFILE_def)
    moreover have "fw_content (view d) = directory fs @ us" by (simp add: fw_content_def Cons.prems(1,2))
    ultimately show ?thesis unfolding fw_data_def Cons.prems(3) l(2)[symmetric] by (simp only: directory_entry(1)[OF g l(1)])
  qed
  have within: "fw_within (unat (of_nat SIZEOF_FWCFGFILE :: u32)) (view d)"
    using directory_entry(2)[OF g l(1), of us]
    by (simp add: fw_within_def fw_content_def Cons.prems(1-3) SIZEOF_FWCFGFILE_def)
  have req: "good_request K st (at_file st) (of_nat SIZEOF_FWCFGFILE) ?c"
    using ir c(2) by (simp add: good_request_def locals_in_ram_def SIZEOF_FWCFGFILE_def)
  have len: "length (file_bytes f) = 64" using fs(3) by (simp add: f)
  define m1 where "m1 = store32 (at_access st) 0 (put_bytes (at_file st) (file_bytes f)
    (access_struct (at_access st) (at_file st) (of_nat SIZEOF_FWCFGFILE) ?c m))"
  obtain d1 where t: "fw_cfg_dma_transfer dev st (at_file st) (of_nat SIZEOF_FWCFGFILE) ?c (d, m) = Some (d1, m1)"
    and rd: "fw_read_done (unat (of_nat SIZEOF_FWCFGFILE :: u32)) (view d) (view d1)"
    using fw_read[OF d req c(1), of d m] unfolding sel dt m1_def[symmetric] by blast
  note kept = fw_read_done_fields(1-3)[OF rd]
  have v1: "fw_off (view d1) = 4 + 64 * Suc i"
    using fw_read_done_fields(4)[OF rd within] by (simp add: Cons.prems(3) SIZEOF_FWCFGFILE_def)
  have b: "bytes m1 (at_file st) 64 = file_bytes (sz, key, nm)"
    using read_mem(1)[of "at_access st" "at_file st" "file_bytes f"] ap(2) len by (simp add: m1_def f)
  have o: "m1 x = m x" if "16 \<le> unat (x - at_access st)" "64 \<le> unat (x - at_file st)" for x
    using read_mem(2)[of "at_access st" "at_file st" "file_bytes f" x] ap(2) len that by (simp add: m1_def)
  note fn = file_bytes_name[OF b fs(2,3)]
  have c1: "cstr m1 name xs"
  proof (rule cstr_same[OF Cons.prems(5)], rule o)
    fix j assume "j \<le> length xs"
    then have "j < length xs + 1" "length xs + 1 < 2 ^ 64" using m(3) by simp_all
    then show "16 \<le> unat (name + of_nat j - at_access st)" "64 \<le> unat (name + of_nat j - at_file st)"
      using disjoint_byte[OF ap(4)] disjoint_byte[OF ap(9)] by blast+
  qed
  have k1: "load32 m1 (at_count st) = of_nat (length fs)"
    unfolding Cons.prems(4)[symmetric]
    by (rule load32_cong) (rule o, rule disjoint_byte[OF ap(1)], simp, simp, rule disjoint_byte[OF disjoint_ranges_sym[OF ap(5)]], simp_all)
  have s: "strncmp m1 name (at_file st + 8) 56 = str_diff xs nm"
    by (rule strncmp_cstr[OF c1 fn(1)]) (use m(3) in simp)
  have z: "str_diff xs nm = 0 \<longleftrightarrow> xs = nm" by (rule str_diff_0[OF cstr_nonzero[OF c1] fs(2)])
  have e: "find_file_loop dev st name (of_nat i) (d, m) =
      (if xs = nm then Some (ucast key, d1, m1) else find_file_loop dev st name (of_nat (Suc i)) (d1, m1))"
    using lt t s z fn(2) Cons.prems(4) by (simp add: find_file_loop.simps[of dev st name _ "(d, m)"] add.commute)
  show ?case
  proof (cases "xs = nm")
    case True
    then show ?thesis unfolding e using o kept by (intro exI[of _ d1] exI[of _ m1]) (simp add: found_key_def f)
  next
    case False
    obtain d2 m2 where r: "find_file_loop dev st name (of_nat (Suc i)) (d1, m1) = Some (found_key xs ts, d2, m2)"
      "fw_items (view d2) = fw_items (view d1)" "fw_writable (view d2) = fw_writable (view d1)"
      "\<forall>x. 16 \<le> unat (x - at_access st) \<longrightarrow> 64 \<le> unat (x - at_file st) \<longrightarrow> m2 x = m1 x"
      using Cons.IH[of d1 "Suc i" m1] v1 kept Cons.prems(1,2) k1 c1 l(1,3) by auto
    then show ?thesis unfolding e using False o kept by (intro exI[of _ d2] exI[of _ m2]) (simp add: found_key_def f)
  qed
qed

lemma store_count:
  assumes "4 \<le> unat (x - a)"
  shows "store32 a v m x = m x"
  using assms by (simp add: store32_def)

lemma find_file_key:
  assumes d: "fw_device dev view K" "0x19 \<in> K" and g: "good_files fs"
    and a: "locals_apart st name (length xs + 1)" and ir: "locals_in_ram st"
    and v: "fw_items (view d) 0x19 = Some (directory fs @ us)" and m: "cstr m name xs" "length xs < 56"
  shows "\<exists>d' m'. fw_cfg_find_file dev st name (d, m) = Some (found_key xs fs, d', m') \<and>
    fw_items (view d') = fw_items (view d) \<and> fw_writable (view d') = fw_writable (view d) \<and>
    (\<forall>x. 16 \<le> unat (x - at_access st) \<longrightarrow> 4 \<le> unat (x - at_count st) \<longrightarrow> 64 \<le> unat (x - at_file st) \<longrightarrow> m' x = m x)"
proof -
  let ?c = "push_bit 16 FW_CFG_FILE_DIR OR FW_CFG_DMA_CTL_SELECT OR FW_CFG_DMA_CTL_READ" and ?m = "store32 (at_count st) 0 m"
  let ?n = "of_nat (length fs) :: u32"
  note ap = locals_apartD[OF a]
  have c: "bit ?c 1" "bit ?c 3" "ucast (drop_bit 16 ?c) = (0x19 :: 16 word)"
    by (simp_all add: FW_CFG_FILE_DIR_def FW_CFG_DMA_CTL_SELECT_def FW_CFG_DMA_CTL_READ_def)
  have slot: "fw_slot 0x19 = 0x19" by (simp add: fw_slot_def)
  have sel: "fw_select ?c (view d) = (view d)\<lparr>fw_key := Some 0x19, fw_off := 0\<rparr>"
    using c v by (simp add: fw_select_def fw_selected_def slot)
  let ?v = "(view d)\<lparr>fw_key := Some 0x19, fw_off := 0\<rparr>"
  have dt: "fw_data (unat (4 :: u32)) ?v = be_bytes 4 ?n"
    by (simp add: fw_data_def fw_content_def v directory_def)
  have within: "fw_within (unat (4 :: u32)) ?v" by (simp add: fw_within_def fw_content_def v directory_def)
  have req: "good_request K st (at_count st) 4 ?c"
    using ir c d(2) by (simp add: good_request_def locals_in_ram_def slot)
  define m1 where "m1 = store32 (at_access st) 0 (put_bytes (at_count st) (be_bytes 4 ?n)
    (access_struct (at_access st) (at_count st) 4 ?c ?m))"
  obtain d1 where t: "fw_cfg_dma_transfer dev st (at_count st) 4 ?c (d, ?m) = Some (d1, m1)"
    and rd: "fw_read_done (unat (4 :: u32)) ?v (view d1)"
    using fw_read[OF d(1) req c(1), of d ?m] unfolding sel dt m1_def[symmetric] by blast
  have kept: "fw_key (view d1) = Some 0x19" "fw_items (view d1) = fw_items (view d)" "fw_writable (view d1) = fw_writable (view d)"
    using fw_read_done_fields(1-3)[OF rd] by simp_all
  have v1: "fw_off (view d1) = 4" using fw_read_done_fields(4)[OF rd within] by simp
  have b: "bytes m1 (at_count st) 4 = be_bytes 4 ?n"
    using read_mem(1)[of "at_access st" "at_count st" "be_bytes 4 ?n"] ap(1) by (simp add: m1_def)
  have o: "m1 x = m x" if "16 \<le> unat (x - at_access st)" "4 \<le> unat (x - at_count st)" for x
    using read_mem(2)[of "at_access st" "at_count st" "be_bytes 4 ?n" x] ap(1) that by (simp add: m1_def store_count)
  let ?m2 = "store32 (at_count st) (bswap (load32 m1 (at_count st))) m1"
  have k: "load32 ?m2 (at_count st) = ?n" by (simp add: load_be(1)[OF b])
  have n: "cstr ?m2 name xs"
  proof (rule cstr_same[OF m(1)])
    fix j assume "j \<le> length xs"
    then have "j < length xs + 1" "length xs + 1 < 2 ^ 64" using m(2) by simp_all
    then have "16 \<le> unat (name + of_nat j - at_access st)" "4 \<le> unat (name + of_nat j - at_count st)"
      using disjoint_byte[OF ap(4)] disjoint_byte[OF ap(7)] by blast+
    then show "?m2 (name + of_nat j) = m (name + of_nat j)" using o by (simp add: store_count)
  qed
  have f: "fw_items (view d1) 0x19 = Some (directory fs @ us)" "fw_off (view d1) = 4 + 64 * 0" using v v1 by (simp_all add: kept)
  obtain d2 m2 where r: "find_file_loop dev st name 0 (d1, ?m2) = Some (found_key xs fs, d2, m2)"
    "fw_items (view d2) = fw_items (view d1)" "fw_writable (view d2) = fw_writable (view d1)"
    "\<forall>x. 16 \<le> unat (x - at_access st) \<longrightarrow> 64 \<le> unat (x - at_file st) \<longrightarrow> m2 x = ?m2 x"
    using find_file_loop_key[OF d(1) g a ir kept(1) f k n m(2), of fs] by auto
  have "fw_cfg_find_file dev st name (d, m) = Some (found_key xs fs, d2, m2)"
    using t r(1) by (simp add: fw_cfg_find_file_def fw_cfg_read_entry_def Let_def)
  moreover have "fw_items (view d2) = fw_items (view d)" "fw_writable (view d2) = fw_writable (view d)" using r(2,3) kept by simp_all
  moreover have "m2 x = m x" if "16 \<le> unat (x - at_access st)" "4 \<le> unat (x - at_count st)" "64 \<le> unat (x - at_file st)" for x
    using r(4) o that by (simp add: store_count)
  ultimately show ?thesis by blast
qed

section \<open>Setting the mode\<close>

definition ramfb_config :: "u8 list" where
  "ramfb_config = be_bytes 8 FB_BASE @ be_bytes 4 XRGB8888 @ be_bytes 4 (0 :: u32) @ be_bytes 4 FB_WIDTH @ be_bytes 4 FB_HEIGHT @
     be_bytes 4 (FB_WIDTH * FB_BPP)"

lemma ramfb_struct_outside:
  assumes "28 \<le> unat (x - cfg)"
  shows "ramfb_struct cfg m x = m x"
proof -
  have "k \<le> unat (x - (cfg + of_nat i))" if "i + k \<le> 28" for i k
    using unat_minus_offset[of i "x - cfg"] assms that by (simp add: diff_diff_eq)
  from this[of 8 4] this[of 12 4] this[of 16 4] this[of 20 4] this[of 24 4] show ?thesis
    using assms by (simp add: ramfb_struct_def Let_def store32_def store64_def)
qed

lemma ramfb_struct_bytes: "bytes (ramfb_struct cfg m) cfg 28 = ramfb_config"
  by (simp add: bytes_def upt_rec ramfb_struct_def Let_def store32_def store64_def ramfb_config_def be_bytes_def bswap_def
      FB_BASE_def XRGB8888_def FB_WIDTH_def FB_HEIGHT_def FB_BPP_def unsigned_minus_1_eq_mask mask_eq_exp_minus_1)

lemma control_key:
  fixes e :: u32
  defines "c \<equiv> push_bit 16 e OR FW_CFG_DMA_CTL_SELECT OR FW_CFG_DMA_CTL_WRITE"
  shows "\<not> bit c 1" "bit c 3" "bit c 4" "(ucast (drop_bit 16 c) :: 16 word) = ucast e"
proof -
  have s: "FW_CFG_DMA_CTL_SELECT = push_bit 3 1" "FW_CFG_DMA_CTL_WRITE = push_bit 4 1"
    by (simp_all add: FW_CFG_DMA_CTL_SELECT_def FW_CFG_DMA_CTL_WRITE_def push_bit_of_1)
  show "\<not> bit c 1" "bit c 3" "bit c 4" unfolding c_def s by (simp_all add: bit_simps)
  show "(ucast (drop_bit 16 c) :: 16 word) = ucast e"
    unfolding c_def s by (rule bit_word_eqI) (auto simp: bit_simps)
qed


text \<open>Where the mode goes: the key of the file \<open>etc/ramfb\<close> as the device takes it, and the items after the write.\<close>

definition ramfb_slot :: "fw_file list \<Rightarrow> 16 word" where
  "ramfb_slot fs = fw_slot (case find (\<lambda>f. snd (snd f) = chars ''etc/ramfb'') fs of Some f \<Rightarrow> fst (snd f) | None \<Rightarrow> 0xffff)"

definition mode_set :: "fw_file list \<Rightarrow> fw_view \<Rightarrow> 16 word \<rightharpoonup> u8 list" where
  "mode_set fs v =
     (let k = ramfb_slot fs
      in case fw_items v k of
           None \<Rightarrow> fw_items v
         | Some old \<Rightarrow>
             if k \<in> fw_writable v \<and> SIZEOF_RAMFBCFG \<le> length old
             then (fw_items v)(k \<mapsto> ramfb_config @ drop SIZEOF_RAMFBCFG old)
             else fw_items v)"

lemma found_key_slot: "fw_slot (ucast (found_key (chars ''etc/ramfb'') fs)) = ramfb_slot fs"
proof -
  have "(ucast (- 1 :: u32) :: 16 word) = - 1" by (rule bit_word_eqI) (simp add: bit_simps)
  also have "\<dots> = 0xffff" by simp
  finally have "(ucast (- 1 :: u32) :: 16 word) = 0xffff" .
  moreover have "(ucast (ucast y :: u32) :: 16 word) = y" for y by (rule bit_word_eqI) (auto simp: bit_simps)
  ultimately show ?thesis by (simp add: found_key_def ramfb_slot_def split: option.split)
qed

lemma length_ramfb_config: "length ramfb_config = SIZEOF_RAMFBCFG"
  by (simp add: ramfb_config_def SIZEOF_RAMFBCFG_def)

lemma fw_written_mode:
  assumes "fw_written ramfb_config (fw_selected (ramfb_slot fs) v) v' err"
  shows "fw_items v' = mode_set fs v" and "fw_writable v' = fw_writable v"
proof -
  let ?k = "ramfb_slot fs"
  show "fw_items v' = mode_set fs v" "fw_writable v' = fw_writable v"
    using assms fw_moved_fields length_ramfb_config
    by (auto simp: fw_written_def fw_selected_def mode_set_def fw_within_def fw_content_def fw_overwrite_def Let_def
        split: option.splits if_splits)
qed

lemma video_init_sets:
  assumes d: "fw_device dev view {0x19, ramfb_slot fs}" and g: "good_files fs"
    and v: "fw_items (view d) 0x19 = Some (directory fs @ us)"
    and m: "cstr m (lit ''etc/ramfb'') (chars ''etc/ramfb'')"
    and a: "locals_apart st (lit ''etc/ramfb'') 10" and ir: "locals_in_ram st"
  shows "\<exists>d' m'. video_init lit dev st (d, m) = Some (d', m') \<and>
    fw_items (view d') = mode_set fs (view d) \<and> fw_writable (view d') = fw_writable (view d) \<and>
    (\<forall>x. 16 \<le> unat (x - at_access st) \<and> 4 \<le> unat (x - at_count st) \<and> 64 \<le> unat (x - at_file st) \<and> 28 \<le> unat (x - at_cfg st) \<longrightarrow>
       m' x = m x)"
proof -
  let ?nm = "lit ''etc/ramfb''" and ?xs = "chars ''etc/ramfb''" and ?m = "ramfb_struct (at_cfg st) m"
  let ?e = "found_key ?xs fs"
  note ap = locals_apartD[OF a]
  have l: "length ?xs = 9" "length ?xs < 56" by (simp_all add: chars_def)
  have a1: "locals_apart st ?nm (length ?xs + 1)" using a by (simp add: l(1))
  have n: "cstr ?m ?nm ?xs"
    by (rule cstr_same[OF m]) (rule ramfb_struct_outside, rule disjoint_byte[OF ap(10)], simp_all add: l)
  have K: "0x19 \<in> {0x19, ramfb_slot fs}" by simp
  obtain d1 m1 where f: "fw_cfg_find_file dev st ?nm (d, ?m) = Some (?e, d1, m1)"
    "fw_items (view d1) = fw_items (view d)" "fw_writable (view d1) = fw_writable (view d)"
    "\<forall>x. 16 \<le> unat (x - at_access st) \<longrightarrow> 4 \<le> unat (x - at_count st) \<longrightarrow> 64 \<le> unat (x - at_file st) \<longrightarrow> m1 x = ?m x"
    using find_file_key[OF d K g a1 ir v n l(2)] by (elim exE conjE) (rule that)
  let ?c = "push_bit 16 ?e OR FW_CFG_DMA_CTL_SELECT OR FW_CFG_DMA_CTL_WRITE"
  have slot: "fw_slot (ucast (drop_bit 16 ?c)) = ramfb_slot fs" by (simp only: control_key found_key_slot)
  have sel: "fw_select ?c (view d1) = fw_selected (ramfb_slot fs) (view d1)"
    by (simp only: fw_select_def control_key found_key_slot if_True)
  let ?am = "access_struct (at_access st) (at_cfg st) (of_nat SIZEOF_RAMFBCFG) ?c m1"
  have cfg: "bytes ?am (at_cfg st) 28 = ramfb_config"
    unfolding ramfb_struct_bytes[of "at_cfg st" m, symmetric]
  proof (rule bytes_same)
    fix i :: nat assume i: "i < 28"
    have "16 \<le> unat (at_cfg st + of_nat i - at_access st)" by (rule disjoint_byte[OF ap(3) i]) simp
    moreover have "4 \<le> unat (at_cfg st + of_nat i - at_count st)" by (rule disjoint_byte[OF ap(6) i]) simp
    moreover have "64 \<le> unat (at_cfg st + of_nat i - at_file st)" by (rule disjoint_byte[OF ap(8) i]) simp
    ultimately show "?am (at_cfg st + of_nat i) = ?m (at_cfg st + of_nat i)" using f(4) store_access(2) by simp
  qed
  have u: "unat (of_nat SIZEOF_RAMFBCFG :: u32) = 28" by (simp add: SIZEOF_RAMFBCFG_def)
  have req: "good_request {0x19, ramfb_slot fs} st (at_cfg st) (of_nat SIZEOF_RAMFBCFG) ?c"
    using ir unfolding good_request_def slot u by (simp add: locals_in_ram_def)
  obtain d2 err where
    w: "fw_cfg_dma_transfer dev st (at_cfg st) (of_nat SIZEOF_RAMFBCFG) ?c (d1, m1) = Some (d2, store32 (at_access st) (bswap err) ?am)"
    and w2: "fw_written ramfb_config (fw_selected (ramfb_slot fs) (view d1)) (view d2) err"
    using fw_write[OF d req control_key(1,3), of d1 m1] unfolding u cfg sel by blast
  have "mode_set fs (view d1) = mode_set fs (view d)" by (simp only: mode_set_def f(2,3))
  then have i: "fw_items (view d2) = mode_set fs (view d)" "fw_writable (view d2) = fw_writable (view d)"
    using fw_written_mode[OF w2] f(3) by simp_all
  have o: "store32 (at_access st) (bswap err) ?am x = m x"
    if "16 \<le> unat (x - at_access st)" "4 \<le> unat (x - at_count st)" "64 \<le> unat (x - at_file st)" "28 \<le> unat (x - at_cfg st)" for x
    using f(4) that by (simp add: store_access ramfb_struct_outside)
  have "video_init lit dev st (d, m) = Some (d2, store32 (at_access st) (bswap err) ?am)"
    using f(1) w by (simp add: video_init_def fw_cfg_write_entry_def Let_def)
  then show ?thesis using i o by (intro exI[of _ d2] exI[of _ "store32 (at_access st) (bswap err) ?am"]) simp
qed


text \<open>A device that serves requests at once. It has room for two files in its directory; with \<open>fs\<close> empty there is no file
  in it.\<close>

definition example_dma :: "u64 \<Rightarrow> fw_view \<times> mem \<Rightarrow> fw_view \<times> mem" where
  "example_dma a s =
     (let access = phys_to_virt (bswap a); m = snd s;
          control = fw_control access m;
          n = fw_length access m;
          p = fw_address access m;
          v = fw_select control (fst s);
          past = v\<lparr>fw_off := max (fw_off v) (min (fw_off v + n) (length (fw_content v)))\<rparr>
      in if bit control 1 then (past, store32 access 0 (put_bytes p (fw_data n v) m))
         else case fw_key v of
             None \<Rightarrow> (v, store32 access (bswap FW_CFG_DMA_CTL_ERROR) m)
           | Some k \<Rightarrow>
               if k \<in> fw_writable v \<and> fw_within n v
               then (past\<lparr>fw_items := (fw_items v)(k \<mapsto> fw_overwrite (bytes m p n) v)\<rparr>, store32 access 0 m)
               else (past, store32 access (bswap FW_CFG_DMA_CTL_ERROR) m))"

definition example_fw :: "fw_view fw_cfg" where
  "example_fw = \<lparr>fw_dma = example_dma, fw_tick = id\<rparr>"

lemma example_fw_device: "fw_device example_fw id K"
proof -
  have "fw_done id access s (fw_dma example_fw (bswap (virt_to_phys access)) s)" for access s
    by (cases "fw_key (fw_select (fw_control access (snd s)) (fst s))")
      (simp_all add: fw_done_def example_fw_def example_dma_def fw_read_done_def fw_written_def fw_moved_def fw_within_def bytes_def Let_def)
  then show ?thesis unfolding fw_device_def by (intro allI impI exI[of _ 0]) simp
qed

definition example_fw_file :: fw_file where
  "example_fw_file = (28, 0x20, chars ''etc/ramfb'')"

definition example_fw_view :: "fw_file list \<Rightarrow> fw_view" where
  "example_fw_view fs =
     \<lparr>fw_key = None, fw_off = 0, fw_items = [0x19 \<mapsto> directory fs @ replicate 64 0, 0x20 \<mapsto> replicate 28 0], fw_writable = {0x20}\<rparr>"

definition example_locals :: locals where
  "example_locals = \<lparr>at_access = phys_to_virt 0x80300200, at_count = phys_to_virt 0x80300300,
     at_file = phys_to_virt 0x80300400, at_cfg = phys_to_virt 0x80300500\<rparr>"

definition example_fw_mem :: mem where
  "example_fw_mem = put_bytes 0x100 (chars ''etc/ramfb'') (\<lambda>_. 0)"

lemma example_fw_fields:
  "good_files [example_fw_file]" "good_files []"
  "fw_items (id (example_fw_view fs)) 0x19 = Some (directory fs @ replicate 64 0)"
  "cstr example_fw_mem 0x100 (chars ''etc/ramfb'')" "locals_apart example_locals 0x100 10" "locals_in_ram example_locals"
proof -
  show "good_files [example_fw_file]" "good_files []" by (simp_all add: good_files_def example_fw_file_def chars_def)
  show "fw_items (id (example_fw_view fs)) 0x19 = Some (directory fs @ replicate 64 0)" by (simp add: example_fw_view_def)
  show "cstr example_fw_mem 0x100 (chars ''etc/ramfb'')" by (simp add: example_fw_mem_def put_bytes_def chars_def)
  show "locals_apart example_locals 0x100 10"
    by (simp add: locals_apart_def example_locals_def disjoint_ranges_def phys_to_virt_def PAGE_OFFSET_def)
  show "locals_in_ram example_locals" by (simp add: locals_in_ram_def example_locals_def in_ram_def)
qed


end
