(* ===== verification/Boot.thy ===== *)
theory Boot
  imports Shell Video
begin

text \<open>
  The start of the kernel, \<open>start_kernel\<close> of \<open>src/main.c\<close>, and the loop of the shell that it ends in. \<open>d\<close> is the state
  of the configuration device of the display, which exists on QEMU only. The loop of the shell is modelled by its
  turns; it is left when a program is entered.
\<close>

section \<open>The functions\<close>

fun run_shell :: "nat \<Rightarrow> (string \<Rightarrow> u64) \<Rightarrow> 'z cmds_scheme firmware \<Rightarrow> u64 \<Rightarrow> u64 \<Rightarrow> 'z cmds_scheme \<Rightarrow>
    fault + user_entry option \<times> 'z cmds_scheme" where
  "run_shell 0 lit ecall file_buf buf s = Inr (None, s)"
| "run_shell (Suc n) lit ecall file_buf buf s =
     bindF (shell_turn lit ecall file_buf buf s) (\<lambda>(r, s1).
       case r of Returned _ \<Rightarrow> run_shell n lit ecall file_buf buf s1 | Entered ue \<Rightarrow> Inr (Some ue, s1))"

definition init_video :: "(string \<Rightarrow> u64) \<Rightarrow> 'd fw_cfg \<Rightarrow> locals \<Rightarrow> 'd \<Rightarrow> 'z cmds_scheme \<Rightarrow> fault + 'd \<times> 'z cmds_scheme" where
  "init_video lit dev st d s =
     (if qemu s then
        case video_init lit dev st (d, ram s) of
          None \<Rightarrow> Inl No_Return
        | Some (d1, m) \<Rightarrow> Inr (d1, s\<lparr>ram := m\<rparr>)
      else Inr (d, s))"

text \<open>Everything before the shell.\<close>

definition init_kernel :: "(string \<Rightarrow> u64) \<Rightarrow> u64 \<Rightarrow> 'd fw_cfg \<Rightarrow> locals \<Rightarrow> 'd \<Rightarrow> 'z cmds_scheme \<Rightarrow>
    fault + 'd \<times> 'z cmds_scheme" where
  "init_kernel lit idle_fn dev st d s =
     bindF (printk ''\<newline>NYCU OSC RISC-V KERNEL\<newline>'' [] s) (\<lambda>s1.
     bindF (init_video lit dev st d s1) (\<lambda>(d1, s2).
     bindF (mem_init (heap s2)) (\<lambda>h.
     bindF (kthread_init idle_fn (s2\<lparr>heap := h\<rparr>)) (\<lambda>s3.
       let s4 = timer_init s3;
           s5 = irq_init s4;
           s6 = enable_interrupt s5
       in bindF (cmd_init lit s6) (\<lambda>s7. Inr (d1, s7))))))"

definition start_kernel :: "nat \<Rightarrow> (string \<Rightarrow> u64) \<Rightarrow> u64 \<Rightarrow> 'z cmds_scheme firmware \<Rightarrow> 'd fw_cfg \<Rightarrow> locals \<Rightarrow> u64 \<Rightarrow> u64 \<Rightarrow> 'd \<Rightarrow>
    'z cmds_scheme \<Rightarrow> fault + 'd \<times> user_entry option \<times> 'z cmds_scheme" where
  "start_kernel n lit idle_fn ecall dev st file_buf buf d s =
     bindF (init_kernel lit idle_fn dev st d s) (\<lambda>(d1, s1).
     bindF (run_shell n lit ecall file_buf buf s1) (\<lambda>(r, s2). Inr (d1, r, s2)))"

section \<open>After the start\<close>

text \<open>The state in which the shell begins: the idle task is the only one and the current one, both queues of the
  interrupts are empty, interrupts are enabled, the page table of the kernel maps no user address, and the
  commands are those of \<open>builtin_commands\<close>.\<close>

definition started :: "(string \<Rightarrow> u64) \<Rightarrow> 'z cmds_scheme \<Rightarrow> u64 \<Rightarrow> u64 list \<Rightarrow> chunk set \<Rightarrow> bool" where
  "started lit s t cs L \<longleftrightarrow>
     sched_inv s [t] L \<and> tp s = t \<and> pid (tasks s t) = 0 \<and> tstate (tasks s t) = TASK_RUNNING \<and> nr_threads s = 1 \<and>
     timer_queue s [] L \<and> stie s \<and> next_tick s = TIME_FREQ (qemu s) \<and>
     irq_queue s [] L \<and> sie s \<and> kernel_table s L \<and>
     command_ring s cs L \<and>
     map (cmd_mem s) cs = map (\<lambda>(n, h, f). \<lparr>cmd_name = lit n, cmd_text = lit h, cmd_fn = f\<rparr>) builtin_commands"

text \<open>The machine at power on: a ready terminal, no tasks, a page table in the kernel image that maps no user address, free
  memory for \<open>n\<close> requests after the start, and, on QEMU, the device with its directory and local variables in memory, apart
  from the page table. The file \<open>etc/ramfb\<close> need not be there.\<close>

definition bootable :: "nat \<Rightarrow> (string \<Rightarrow> u64) \<Rightarrow> 'd fw_cfg \<Rightarrow> ('d \<Rightarrow> fw_view) \<Rightarrow> fw_file list \<Rightarrow> locals \<Rightarrow> 'd \<Rightarrow> 'z cmds_scheme \<Rightarrow> bool" where
  "bootable n lit dev view fs st d s \<longleftrightarrow>
     tx_ready s \<and> nr_threads s = 0 \<and>
     (\<exists>p < NUM_PAGES. p < boot_end (heap_top (heap s)) \<and> pg_dir s = page_addr p) \<and>
     (\<forall>i < 256. load64 (ram s) (ent (pg_dir s) i) = 0) \<and>
     (\<exists>k. boot_end (heap_top (heap s)) \<le> k * 1024 \<and> k + (10 + n) \<le> 1280) \<and>
     (qemu s \<longrightarrow> fw_device dev view {0x19, ramfb_slot fs} \<and> good_files fs \<and>
        (\<exists>us. fw_items (view d) 0x19 = Some (directory fs @ us)) \<and>
        cstr (ram s) (lit ''etc/ramfb'') (chars ''etc/ramfb'') \<and> locals_apart st (lit ''etc/ramfb'') 10 \<and> locals_in_ram st \<and>
        (\<forall>r \<in> {(at_access st, 16), (at_count st, 4), (at_file st, 64), (at_cfg st, 28)}. disjoint_ranges (fst r) (snd r) (pg_dir s) 4096))"

lemma init_video_table:
  assumes b: "bootable n lit dev view fs st d s"
  obtains d' m where "init_video lit dev st d s = Inr (d', s\<lparr>ram := m\<rparr>)"
    and "\<forall>i < 256. load64 m (ent (pg_dir s) i) = 0"
proof (cases "qemu s")
  case False
  then show thesis using that[of d "ram s"] b by (simp add: init_video_def bootable_def)
next
  case True
  then obtain us where v: "fw_device dev view {0x19, ramfb_slot fs}" "good_files fs" "fw_items (view d) 0x19 = Some (directory fs @ us)"
    "cstr (ram s) (lit ''etc/ramfb'') (chars ''etc/ramfb'')" "locals_apart st (lit ''etc/ramfb'') 10" "locals_in_ram st"
    and r: "disjoint_ranges (at_access st) 16 (pg_dir s) 4096" "disjoint_ranges (at_count st) 4 (pg_dir s) 4096"
      "disjoint_ranges (at_file st) 64 (pg_dir s) 4096" "disjoint_ranges (at_cfg st) 28 (pg_dir s) 4096"
    using b by (auto simp: bootable_def)
  obtain d' m where m: "video_init lit dev st (d, ram s) = Some (d', m)"
    "\<forall>x. 16 \<le> unat (x - at_access st) \<and> 4 \<le> unat (x - at_count st) \<and> 64 \<le> unat (x - at_file st) \<and> 28 \<le> unat (x - at_cfg st) \<longrightarrow>
       m x = ram s x"
    using video_init_sets[where lit = lit, OF v] by blast
  have k: "m (pg_dir s + of_nat j) = ram s (pg_dir s + of_nat j)" if "j < 4096" for j
    using m(2) disjoint_byte[OF r(1) that] disjoint_byte[OF r(2) that] disjoint_byte[OF r(3) that] disjoint_byte[OF r(4) that] by simp
  have "load64 m (ent (pg_dir s) i) = load64 (ram s) (ent (pg_dir s) i)" if i: "i < 256" for i
  proof (rule load64_cong)
    fix j :: nat assume "j < 8"
    then have "8 * i + j < 4096" using i by simp
    from k[OF this] show "m (ent (pg_dir s) i + of_nat j) = ram s (ent (pg_dir s) i + of_nat j)"
      by (simp add: ent_def add.assoc mult.commute)
  qed
  then show thesis using that m(1) True b by (simp add: init_video_def bootable_def)
qed

text \<open>The first task, and what the frame of its page table leaves of the kernel's.\<close>

lemma table_copied_kept:
  assumes k: "kernel_table s L" and m: "mm_inv h (insert (pg, 4096) L)" "pg \<notin> fst ` L" and i: "i < 256"
  shows "load64 (page_copied pg (pg_dir s) PAGE_SIZE (ram s)) (ent (pg_dir s) i) = 0"
proof -
  obtain c n where c: "(c, n) \<in> L" "unat (pg_dir s - c) + PAGE_SIZE \<le> n" using k by (auto simp: kernel_table_def page_in_def)
  have "load64 (page_copied pg (pg_dir s) PAGE_SIZE (ram s)) (ent (pg_dir s) i) = load64 (ram s) (ent (pg_dir s) i)"
  proof (rule load64_cong)
    fix j :: nat assume "j < 8"
    then have j: "8 * i + j < 4096" using i by simp
    let ?x = "ent (pg_dir s) i + of_nat j"
    have e: "?x - c = (pg_dir s - c) + of_nat (8 * i + j)" by (simp add: ent_def)
    have "unat (?x - c) \<le> unat (pg_dir s - c) + unat (of_nat (8 * i + j) :: u64)" unfolding e unat_plus_if' by simp
    moreover have "unat (of_nat (8 * i + j) :: u64) = 8 * i + j" using j by (intro unat_small) simp
    ultimately have "unat (?x - c) < n" using c(2) j by (simp add: PAGE_SIZE_def)
    moreover have "c \<noteq> pg" using c(1) m(2) by force
    ultimately have "4096 \<le> unat (?x - pg)" using chunks_apart[OF m(1), of c n ?x pg 4096] c(1) by simp
    then show "page_copied pg (pg_dir s) PAGE_SIZE (ram s) ?x = ram s ?x" by (intro page_copied_outside) (simp add: PAGE_SIZE_def)
  qed
  then show ?thesis using k i by (simp add: kernel_table_def)
qed

lemma kthread_init_starts:
  assumes m: "mm_inv (heap s) L" and nr: "nr_threads s = 0" and k: "kernel_table s L" and p: "plenty (3 + n) (heap s)"
  obtains t s' L' where "kthread_init idle_fn s = Inr s'"
    and "s' = s\<lparr>heap := heap s', ram := ram s', tasks := tasks s', run_links := run_links s',
      vma_links := vma_links s', nr_threads := 1, tp := t\<rparr>"
    and "sched_inv s' [t] L'" and "pid (tasks s' t) = 0" and "tstate (tasks s' t) = TASK_RUNNING"
    and "kernel_table s' L'" and "plenty n (heap s')"
proof -
  let ?s0 = "s\<lparr>run_links := INIT_LIST_HEAD RunQueue (run_links s)\<rparr>"
  have i0: "sched_inv ?s0 [] L" using m nr by (simp add: sched_inv_def runqueue_def dlist_init)
  have k0: "kernel_table ?s0 L" using k by (simp add: kernel_table_def)
  have p0: "plenty (Suc (Suc (Suc n))) (heap ?s0)" using p by (simp add: numeral_3_eq_3)
  have m0: "mm_inv (heap ?s0) L" using m by simp
  obtain t stk pg h i j where f: "kthread_create idle_fn ?s0 =
      Inr (t, created idle_fn t stk pg h (page_copied pg (pg_dir ?s0) PAGE_SIZE (ram ?s0)) ?s0) \<and>
      SIZEOF_TASK \<le> i \<and> STACK_SIZE \<le> j \<and> mm_inv h (insert (pg, 4096) (insert (stk, j) (insert (t, i) L))) \<and>
      t \<notin> fst ` L \<and> stk \<notin> fst ` insert (t, i) L \<and> pg \<notin> fst ` insert (stk, j) (insert (t, i) L) \<and> dm_page pg \<and> plenty n h \<and>
      (\<forall>p \<in> fst ` L. dm_page p \<longrightarrow> refcount (mem_map h (virt_to_page p)) = refcount (mem_map (heap ?s0) (virt_to_page p)))"
    using kthread_create_fresh[OF m0 p0 k0, of idle_fn] by (elim exE) (rule that)
  note c = conjunct1[OF f] conjunct1[OF conjunct2[OF conjunct2[OF conjunct2[OF f]]]]
  have pg: "pg \<notin> fst ` insert (stk, j) (insert (t, i) L)" "plenty n h" using f by simp_all
  let ?L3 = "insert (stk, j) (insert (t, i) L)"
  let ?s1 = "created idle_fn t stk pg h (page_copied pg (pg_dir ?s0) PAGE_SIZE (ram ?s0)) ?s0"
  let ?s' = "s\<lparr>heap := h, ram := ram ?s1, tasks := tasks ?s1, run_links := run_links ?s1, vma_links := vma_links ?s1, nr_threads := 1, tp := t\<rparr>"
  have e: "kthread_init idle_fn s = Inr ?s'" using c(1) nr by (simp add: kthread_init_def created_def)
  have n1: "unat (nr_threads ?s0) + 1 < 2 ^ 31" using nr by simp
  obtain L' where L': "sched_inv ?s1 ([] @ [t]) L'" "L \<subseteq> L'" using kthread_create_inv(1)[OF i0 n1 c(1)] by blast
  have q: "sched_inv ?s' [t] L'"
    by (rule sched_inv_chunks[where s = ?s1 and L = L']) (use L' nr in \<open>simp_all add: sched_inv_def created_def\<close>)
  have "page_in ?L3 (pg_dir s)" using k by (auto simp: kernel_table_def page_in_def)
  then have k3: "kernel_table ?s0 ?L3" using k by (simp add: kernel_table_def)
  have "load64 (ram ?s1) (ent (pg_dir s) i) = 0" if "i < 256" for i
    using table_copied_kept[OF k3 c(2) pg(1) that] by simp
  moreover have "page_in L' (pg_dir s)" using k L'(2) unfolding kernel_table_def page_in_def by blast
  ultimately have kt: "kernel_table ?s' L'" by (simp add: kernel_table_def)
  show thesis by (rule that[OF e _ q _ _ kt]) (simp_all add: nr pg(2))
qed

section \<open>The start\<close>

lemma init_kernel_starts:
  assumes b: "bootable n lit dev view fs st d s"
  obtains d' s' t cs L where "init_kernel lit idle_fn dev st d s = Inr (d', s')" and "started lit s' t cs L" and "plenty n (heap s')"
    and "uart_thr s' = uart_thr s @ crlf (chars ''\<newline>NYCU OSC RISC-V KERNEL\<newline>'')"
proof -
  let ?msg = "''\<newline>NYCU OSC RISC-V KERNEL\<newline>''"
  have "tx_ready s" using b by (simp add: bootable_def)
  then obtain s1 where s1: "sends (crlf (chars ?msg)) s s1" "printk ?msg [] s = Inr s1"
    using printk_plain[of s ?msg "[]"] by (force simp: chars_def)
  then obtain j where e1: "s1 = s\<lparr>lsr_reads := j, uart_thr := uart_thr s @ crlf (chars ?msg)\<rparr>" by (auto simp: sends_def)
  have b1: "bootable n lit dev view fs st d s1" using b by (simp add: e1 bootable_def tx_ready_def)
  obtain d1 m where v: "init_video lit dev st d s1 = Inr (d1, s1\<lparr>ram := m\<rparr>)" "\<forall>i < 256. load64 m (ent (pg_dir s1) i) = 0"
    by (rule init_video_table[OF b1])
  obtain h where h: "mem_init (heap s) = Inr h" using mem_init_inv[of "heap s"] by blast
  obtain L where L: "mm_inv h L" "\<forall>p < NUM_PAGES. p < boot_end (heap_top (heap s)) \<longrightarrow> page_in L (page_addr p)"
    by (rule mem_init_reserved[OF h])
  obtain p k where pg: "p < NUM_PAGES" "p < boot_end (heap_top (heap s))" "pg_dir s = page_addr p"
    and k: "boot_end (heap_top (heap s)) \<le> k * 1024" "k + (10 + n) \<le> 1280" and nr: "nr_threads s = 0"
    using b by (auto simp: bootable_def)
  have pl: "plenty (3 + (7 + n)) h" using mem_init_plenty[OF h _ k] pg(2) by simp
  let ?s2 = "s1\<lparr>ram := m, heap := h\<rparr>"
  have kt: "kernel_table ?s2 L" using L(2) pg v(2) by (simp add: kernel_table_def e1)
  have m2: "mm_inv (heap ?s2) L" and nr2: "nr_threads ?s2 = 0" and pl2: "plenty (3 + (7 + n)) (heap ?s2)"
    using L(1) nr pl by (simp_all add: e1)
  obtain t s3 L3 where s3: "kthread_init idle_fn ?s2 = Inr s3"
    "s3 = ?s2\<lparr>heap := heap s3, ram := ram s3, tasks := tasks s3, run_links := run_links s3, vma_links := vma_links s3,
       nr_threads := 1, tp := t\<rparr>"
    "sched_inv s3 [t] L3" "pid (tasks s3 t) = 0" "tstate (tasks s3 t) = TASK_RUNNING" "kernel_table s3 L3" "plenty (7 + n) (heap s3)"
    by (rule kthread_init_starts[OF m2 nr2 kt pl2])
  let ?s6 = "enable_interrupt (irq_init (timer_init s3))"
  have f6: "heap ?s6 = heap s3" "ram ?s6 = ram s3" "tasks ?s6 = tasks s3" "run_links ?s6 = run_links s3" "nr_threads ?s6 = nr_threads s3"
    "tp ?s6 = tp s3" "pg_dir ?s6 = pg_dir s3" "qemu ?s6 = qemu s3" "sie ?s6" "stie ?s6" "uart_thr ?s6 = uart_thr s3"
    "next_tick ?s6 = TIME_FREQ (qemu s3)" "timer_links ?s6 = INIT_LIST_HEAD TimerQueue (timer_links s3)"
    "irq_links ?s6 = INIT_LIST_HEAD IrqTasks (irq_links s3)"
    by (simp_all add: enable_interrupt_def irq_init_def timer_init_def set_next_tick_def enable_timer_interrupt_def Let_def)
  have m6: "mm_inv (heap ?s6) L3" using s3(3) f6(1) by (simp add: sched_inv_def)
  have p6: "plenty (7 + n) (heap ?s6)" using s3(7) f6(1) by simp
  obtain s7 cs L7 where s7: "cmd_init lit ?s6 = Inr s7" "s7 = ?s6\<lparr>heap := heap s7, cmd_mem := cmd_mem s7, cmd_links := cmd_links s7\<rparr>"
    "plenty n (heap s7)" "set cs \<subseteq> fst ` L7" "dlist (cmd_links s7) Commands (map CmdList cs)" "mm_inv (heap s7) L7" "L3 \<subseteq> L7"
    "map (cmd_mem s7) cs = map (\<lambda>(n, h, f). \<lparr>cmd_name = lit n, cmd_text = lit h, cmd_fn = f\<rparr>) builtin_commands"
    using cmd_init_correct[OF m6 p6, of lit] by (elim exE conjE) (rule that)
  have f7: "ram s7 = ram s3" "tasks s7 = tasks s3" "run_links s7 = run_links s3" "nr_threads s7 = nr_threads s3"
    "tp s7 = tp s3" "pg_dir s7 = pg_dir s3" "qemu s7 = qemu s3" "sie s7" "stie s7" "uart_thr s7 = uart_thr s3"
    "next_tick s7 = TIME_FREQ (qemu s3)" "timer_links s7 = INIT_LIST_HEAD TimerQueue (timer_links s3)"
    "irq_links s7 = INIT_LIST_HEAD IrqTasks (irq_links s3)"
    by (subst s7(2), simp add: f6)+
  have f3: "tp s3 = t" "nr_threads s3 = 1" "uart_thr s3 = uart_thr s1" by (subst s3(2), simp)+
  have q7: "sched_inv s7 [t] L7" by (rule sched_inv_chunks[OF s3(3)]) (use f7 s7(6,7) in simp_all)
  have k7: "kernel_table s7 L7" using s3(6) s7(7) unfolding kernel_table_def page_in_def f7(1,6) by blast
  have "started lit s7 t cs L7"
    using q7 k7 s3(4,5) s7(4-8) f7 f3 by (simp add: started_def timer_queue_def irq_queue_def command_ring_def dlist_init)
  moreover have "uart_thr s7 = uart_thr s @ crlf (chars ?msg)" by (simp add: f7 f3 e1)
  moreover have "heap (s1\<lparr>ram := m\<rparr>) = heap s" by (simp add: e1)
  then have "init_kernel lit idle_fn dev st d s = Inr (d1, s7)"
    using s1(2) v(1) h s3(1) s7(1) by (simp add: init_kernel_def Let_def)
  ultimately show thesis using that s7(3) by blast
qed

text \<open>C6: from power on \<open>start_kernel\<close> prints its banner and reaches the loop of the shell, in a state in which the invariants
  of the allocator, the scheduler, the timers, the interrupts and the commands hold together, with the idle task
  as the current task, and with memory left for as many requests as were asked for.\<close>

theorem start_kernel_correct:
  assumes "bootable n lit dev view fs st d s"
  shows "\<exists>d' s' t cs L. started lit s' t cs L \<and> plenty n (heap s') \<and>
    uart_thr s' = uart_thr s @ crlf (chars ''\<newline>NYCU OSC RISC-V KERNEL\<newline>'') \<and>
    (\<forall>turns. start_kernel turns lit idle_fn ecall dev st file_buf buf d s =
       bindF (run_shell turns lit ecall file_buf buf s') (\<lambda>(r, s2). Inr (d', r, s2)))"
proof -
  obtain d' s' t cs L where i: "init_kernel lit idle_fn dev st d s = Inr (d', s')" "started lit s' t cs L" "plenty n (heap s')"
    "uart_thr s' = uart_thr s @ crlf (chars ''\<newline>NYCU OSC RISC-V KERNEL\<newline>'')" by (rule init_kernel_starts[OF assms])
  show ?thesis using i(2-4)
    by (intro exI[of _ d'] exI[of _ s'] exI[of _ t] exI[of _ cs] exI[of _ L]) (simp add: start_kernel_def i(1))
qed

text \<open>A machine of either kind; on QEMU with the file \<open>etc/ramfb\<close> or without it.\<close>

definition example_boot :: "bool \<Rightarrow> cmds" where
  "example_boot on_qemu = example_shell\<lparr>heap := boot_mm, ram := example_fw_mem, pg_dir := page_addr 0x80200, nr_threads := 0, qemu := on_qemu\<rparr>"

lemma example_boot_table: "load64 example_fw_mem (ent (page_addr 0x80200) i) = 0" if i: "i < 256"
proof -
  have "load64 example_fw_mem (ent (page_addr 0x80200) i) = load64 (\<lambda>_. 0) (ent (page_addr 0x80200) i)"
  proof (rule load64_cong)
    fix j :: nat assume "j < 8"
    then have k: "8 * i + j < 4096" using i by simp
    let ?x = "ent (page_addr 0x80200) i + of_nat j"
    have "?x - 0x100 = 0xFFFFFFC0801FFF00 + of_nat (8 * i + j)"
      by (simp add: ent_def page_addr_def phys_to_virt_def PAGE_OFFSET_def PAGE_SIZE_def)
    moreover have "unat (of_nat (8 * i + j) :: u64) = 8 * i + j" using k by (intro unat_small) simp
    ultimately have "unat (?x - 0x100) = 0xFFFFFFC0801FFF00 + (8 * i + j)" using k by (simp add: unat_plus_if' del: of_nat_add)
    then show "example_fw_mem ?x = 0" by (simp add: example_fw_mem_def put_bytes_def chars_def)
  qed
  then show ?thesis by (simp add: load_zero)
qed

lemma example_bootable:
  assumes g: "good_files fs"
  shows "bootable 700 (\<lambda>_. 0x100) example_fw id fs example_locals (example_fw_view fs) (example_boot on_qemu)"
proof -
  let ?s = "example_boot on_qemu"
  have f: "tx_ready ?s" "nr_threads ?s = 0" "heap ?s = boot_mm" "pg_dir ?s = page_addr 0x80200" "ram ?s = example_fw_mem"
    using example_shell_fields(2) by (simp_all add: example_boot_def tx_ready_def)
  have p: "(0x80200 :: nat) < NUM_PAGES" "(0x80200 :: nat) < 0x82a20" by (simp_all add: NUM_PAGES_def)
  have k: "(0x82a20 :: nat) \<le> 523 * 1024" "(523 :: nat) + (10 + 700) \<le> 1280" by simp_all
  have a: "\<forall>r \<in> {(at_access example_locals, 16), (at_count example_locals, 4), (at_file example_locals, 64), (at_cfg example_locals, 28)}.
      disjoint_ranges (fst r) (snd r) (page_addr 0x80200) 4096"
    by (simp add: example_locals_def disjoint_ranges_def page_addr_def phys_to_virt_def PAGE_OFFSET_def PAGE_SIZE_def)
  show ?thesis unfolding bootable_def f boot_end_value
    using p k a g example_boot_table example_fw_device example_fw_fields(3-6) f(1) by blast
qed

definition example_starts :: "bool \<Rightarrow> fw_file list \<Rightarrow> bool" where
  "example_starts on_qemu fs \<longleftrightarrow>
     (\<exists>d' s'. (\<exists>t cs L. started (\<lambda>_. 0x100) s' t cs L) \<and>
       start_kernel 0 (\<lambda>_. 0x100) 0x1234 (\<lambda>_ s. ((0, 0), s)) example_fw example_locals 0 0 (example_fw_view fs) (example_boot on_qemu) =
         Inr (d', None, s'))"

theorem start_kernel_correct_witness:
  "example_starts True [example_fw_file] \<and> example_starts True [] \<and> example_starts False []"
proof -
  have "example_starts on_qemu fs" if "good_files fs" for on_qemu fs
  proof -
    from start_kernel_correct[OF example_bootable[OF that], where idle_fn = "0x1234" and ecall = "\<lambda>_ s. ((0, 0), s)" and file_buf = "0" and buf = "0"]
    obtain d' s' t cs L where "started (\<lambda>_. 0x100) s' t cs L"
      "\<forall>turns. start_kernel turns (\<lambda>_. 0x100) 0x1234 (\<lambda>_ s. ((0, 0), s)) example_fw example_locals 0 0 (example_fw_view fs) (example_boot on_qemu) =
         bindF (run_shell turns (\<lambda>_. 0x100) (\<lambda>_ s. ((0, 0), s)) 0 0 s') (\<lambda>(r, s2). Inr (d', r, s2))" by blast
    then show ?thesis unfolding example_starts_def by (intro exI[of _ d'] exI[of _ s']) auto
  qed
  then show ?thesis using example_fw_fields(1,2) by blast
qed

end
