(* ===== verification/Plic.thy ===== *)
theory Plic
  imports Console
begin

text \<open>
  \<open>uart_init\<close> of \<open>src/uart.c\<close>: the interrupts of the serial port. It writes the interrupt register of the port, three
  registers of the interrupt controller, which are 32 bits wide and found by their physical addresses, and sets
  bits of two control registers. Nothing in the kernel calls it.
\<close>

record plic =
  uart_ier :: u32
  plic_reg :: "u64 \<Rightarrow> u32"
  csr_sie :: u64
  csr_sstatus :: u64

definition PLIC_BASE :: u64 where "PLIC_BASE = 0x0C000000"
definition UART0_IRQ :: nat where "UART0_IRQ = 10"

definition PLIC_S_ENABLE :: "u32 \<Rightarrow> u64" where
  "PLIC_S_ENABLE hart = PLIC_BASE + 0x2080 + scast hart * 0x100"

definition PLIC_S_PRIORITY :: "u32 \<Rightarrow> u64" where
  "PLIC_S_PRIORITY hart = PLIC_BASE + 0x201000 + scast hart * 0x2000"

definition uart_init :: "'z plic_scheme \<Rightarrow> 'z plic_scheme" where
  "uart_init s =
     (let s1 = s\<lparr>uart_ier := 1\<rparr>;
          hartid = 0;
          s2 = s1\<lparr>plic_reg := (plic_reg s1)(PLIC_BASE + of_nat UART0_IRQ * 4 := 1)\<rparr>;
          s3 = s2\<lparr>plic_reg := (plic_reg s2)(PLIC_S_ENABLE hartid := push_bit UART0_IRQ 1)\<rparr>;
          s4 = s3\<lparr>plic_reg := (plic_reg s3)(PLIC_S_PRIORITY hartid := 0)\<rparr>;
          s5 = s4\<lparr>csr_sie := csr_sie s4 OR push_bit 9 1\<rparr>
      in s5\<lparr>csr_sstatus := csr_sstatus s5 OR push_bit 1 1\<rparr>)"

text \<open>The three registers are different ones, so the port's interrupt ends up enabled, with a priority above the threshold.\<close>

lemma uart_init_enables:
  fixes s :: "'z plic_scheme"
  defines "r \<equiv> uart_init s"
  shows "uart_ier r = 1" and "plic_reg r (PLIC_S_PRIORITY 0) < plic_reg r (PLIC_BASE + of_nat UART0_IRQ * 4)"
    and "bit (plic_reg r (PLIC_S_ENABLE 0)) UART0_IRQ" and "bit (csr_sie r) 9" and "bit (csr_sstatus r) 1"
  by (simp_all add: r_def uart_init_def Let_def PLIC_BASE_def UART0_IRQ_def PLIC_S_ENABLE_def PLIC_S_PRIORITY_def bit_simps)

end
