(* ===== verification/Spec2Isabelle.thy ===== *)
theory Spec2Isabelle
  imports Memory Utils Fork Traps Initrd Shell Entry Devtree Sbi Boot Plic
begin

text \<open>
  A verification library for a small RISC-V kernel, in C and assembly: page and object allocators, tasks and signals,
  virtual memory with demand paging and copy-on-write, traps and interrupts, a serial console, a ramdisk and a shell.

  \<^bold>\<open>How the parts interact.\<close> \<open>start_kernel\<close> (\<open>src/main.c\<close>) sets the allocators, the first task, the timers, the
  interrupts and the commands up and stays in the shell. The shell reads lines from the serial port and runs commands; \<open>exec\<close>
  makes a task out of a file of the ramdisk and enters user mode. Traps (\<open>src/entry.S\<close>, \<open>src/traps.c\<close>) lead back
  into the kernel: system calls, page faults (\<open>src/vm.c\<close>) and interrupts (\<open>src/irq.c\<close>, \<open>src/timer.c\<close>); before they
  return, pending signals are delivered (\<open>src/signal.c\<close>). Everything allocates with \<open>kmalloc\<close> (\<open>src/mm.c\<close>), and
  every queue is a ring of \<open>include/list.h\<close>.

  \<^bold>\<open>State.\<close> One record grows along the calls: \<open>mm\<close> (the page array, the free lists, the object caches),
  \<open>sched\<close> (adds the byte memory \<open>ram\<close>, the tasks, the run queue, the registers of a context switch), \<open>console\<close> (the
  serial port), \<open>timers\<close>, \<open>irqs\<close>, \<open>vms\<close> (the areas of the address spaces), \<open>cmds\<close> (the commands). \<open>hart\<close> adds to \<open>sched\<close>
  all registers, for the assembly of the trap entry. A function of the source is a HOL function of the same name from state
  to state. Functions are polymorphic in the rest of the record, so what a function cannot name it cannot change.
  Byte memory is flat and is addressed by virtual addresses of the kernel, without translation. What the code reads and
  writes as bytes or words (strings, page tables, saved registers, buffers, the ramdisk, the device tree) is in it; other
  structures (\<open>struct page\<close>, tasks, timers, areas, commands) are records by address.

  \<^bold>\<open>Errors.\<close> \<open>fault\<close> (theory \<open>Prelude\<close>) lists what C leaves undefined or never returns from: null pointer, index or
  shift out of range, endless loop. A function that may end so returns \<open>fault + 'a\<close>. A loop that need not end is
  a partial function to \<open>option\<close>, \<open>None\<close> being no return; that it returns is then part of its theorem. A
  function that may give the processor away returns \<open>Stay\<close> or \<open>Switch\<close>. Integers keep their width; comparisons are
  signed (\<open>sint\<close>) where the C types are.
\<close>

section \<open>Theories\<close>

text \<open>
  \<^item> \<open>Prelude\<close>: machine types, faults, their sequencing \<open>bindF\<close>, lemmas on words and lists.
  \<^item> \<open>List_Head\<close> (\<open>include/list.h\<close>): the operations of circular lists on a store of links. \<open>dlist\<close> says that a ring
    holds a HOL list, \<open>rings\<close> that many disjoint rings do. Locale \<open>list_store\<close>: what the operations promise, for every set of
    ring heads.
  \<^item> \<open>Blocks\<close>, \<open>Buddy\<close>, \<open>Reserve\<close>, \<open>Kmalloc\<close>, \<open>Memory\<close> (\<open>src/mm.c\<close>): blocks and tilings of the memory (the abstract
    state), the buddy system, reservation and \<open>mem_init\<close>, the slab caches with \<open>kmalloc\<close> and \<open>kfree\<close>, and the
    properties of all of them. The invariant is \<open>buddy_inv\<close>: free blocks, blocks in use and blocks in work tile the
    memory, lists and page records agree with them. Locales \<open>page_allocator\<close> and \<open>heap_allocator\<close> state the contracts:
    disjoint blocks, disjoint chunks.
  \<^item> \<open>Cstring\<close>, \<open>Ram\<close>, \<open>Utils\<close> (\<open>src/string.c\<close>, \<open>src/utils.c\<close>): strings in byte memory (\<open>cstr\<close>), words in it, and
    conversions.
  \<^item> \<open>Sched\<close> (\<open>src/sched.c\<close>, \<open>switch_to\<close> of \<open>src/entry.S\<close>): tasks and the run queue; the invariant is \<open>sched_inv\<close>.
  \<^item> \<open>Signal\<close> (\<open>src/signal.c\<close>, \<open>include/traps.h\<close>, \<open>include/asm.h\<close>): saved registers in memory, delivery of and return
    from signals.
  \<^item> \<open>Console\<close>, \<open>Plic\<close> (\<open>src/uart.c\<close>, \<open>src/printk.c\<close>): the serial port as streams of bytes, formatted output, the port's
    interrupt registers.
  \<^item> \<open>Keyed_Queue\<close>, \<open>Timer\<close>, \<open>Irq\<close> (\<open>src/timer.c\<close>, \<open>src/irq.c\<close>): the contract of a queue that is kept sorted (locale
    \<open>keyed_queue\<close>, interpreted for both queues), timers, and interrupts with nested tasks.
  \<^item> \<open>Vm\<close>, \<open>Paging\<close>, \<open>Faults\<close>, \<open>Fork\<close> (\<open>src/vm.c\<close>): the definitions; the page table as a map \<open>lookup\<close> from pages to
    entries, with the invariant \<open>as_inv\<close> of the tables in memory; page faults; copies of address spaces.
  \<^item> \<open>Traps\<close> (\<open>src/syscall.c\<close>, \<open>src/traps.c\<close>): every system call and exception, from the saved registers on.
  \<^item> \<open>Entry\<close> (\<open>src/entry.S\<close>, \<open>src/start.S\<close>): entry and return with all registers, clearing of the bss.
  \<^item> \<open>Initrd\<close>, \<open>Devtree\<close> (\<open>src/initrd.c\<close>, \<open>src/devtree.c\<close>): the walks over the cpio archive and the device tree, related
    to a list of files and to a list of tokens.
  \<^item> \<open>Sbi\<close>, \<open>Video\<close> (\<open>src/sbi.c\<close>, \<open>src/video.c\<close>): calls of the firmware, and the display's mode.
  \<^item> \<open>Shell\<close>, \<open>Boot\<close> (\<open>src/shell.c\<close>, \<open>src/cmd.c\<close>, \<open>src/main.c\<close>): line editing, commands, and the start of the kernel.
\<close>

section \<open>What is shown\<close>

text \<open>
  Each theory ends with its properties; the text above a property states it. In short:
  the allocators hand out disjoint memory whenever they can, and \<open>reserve_memory\<close> and \<open>mem_init\<close> take exactly the frames
  they should, and a block that is freed has a clean record and is merged as far as it goes; the operations of the page table
  refine updates of a map; a page fault gives the task exactly the page the area promises and changes nothing else in
  use, or makes the task a zombie and runs the next one; \<open>fork\<close> gives the child the map of the parent, with shared pages that are copied
  on the first write, and leaves other address spaces alone; the scheduler is a round robin that resumes contexts as
  saved; a signal is delivered with its frame and its return restores all registers; an exception whose handler leaves
  the frame alone does not disturb the program; timers run in the order of their times, and interrupt tasks with their
  priorities, after a timer interrupt has let the other tasks run; the mode of the display reaches its item when the
  device has one; the console sends exactly what is printed; the shell runs the command that is typed; and \<open>start_kernel\<close>
  reaches a state in which all these invariants hold together (\<open>started\<close>).

  Some properties show what goes wrong: the address of a null page is used when memory runs out, a
  line longer than the buffer of the shell is written past its end, the ramdisk is not reserved. Lemmas show more of the
  kind: \<open>sigreturn_misaligned\<close>, \<open>kthread_stop_runs_zombie\<close>, \<open>printk_overflow\<close>, \<open>printk_percent\<close>, \<open>hextoi_lower_case\<close>,
  \<open>entry_clears_sstatus\<close>.
\<close>

section \<open>Parameters, hypotheses and bounds\<close>

text \<open>
  \<^item> \<open>tx_ready\<close>, \<open>rx_ready\<close>: the line status register, a function of the number of reads, shows infinitely often that the
    port can send, or has received. Without it the polling loops do not return.
  \<^item> \<open>clock_ok\<close>: the time register does not run backwards. Its values are a function of the number of reads.
  \<^item> \<open>plenty n\<close>: the heap has \<open>n\<close> free blocks of the highest order, which serve \<open>n\<close> requests of up to 4 MiB. It is the way
    to say that an operation does not run out of memory; \<open>mem_init_plenty\<close> and \<open>boot_plenty\<close> show that it holds after
    \<open>mem_init\<close>, for up to 1280 less the blocks below the end of the kernel image.
  \<^item> \<open>held\<close>, \<open>kernel_table\<close>, \<open>page_in\<close>, \<open>forkable\<close>: memory that is in use and belongs to no page table; the kernel's page
    table in such memory; what \<open>fork\<close> needs. \<open>start_kernel_correct\<close> establishes the first, and the witnesses build
    states with the others.
  \<^item> \<open>ecall\<close> (the firmware), \<open>fw_device\<close> (the documented behaviour of the configuration device of QEMU, for requests in the memory
    of its machine and for the items the kernel selects: reads give zeros past the end, a write that does not fit into a writable
    item is dropped with the error bit), \<open>lit\<close> (the address at which the linker put a string literal), addresses of functions and of buffers on the stack: parameters, with the
    locations apart where the code relies on it.
  \<^item> Fuel occurs in \<open>run_shell\<close> only, as the number of turns of a loop that is meant never to end: \<open>start_kernel_correct\<close>
    holds for every number. \<open>idle_turn\<close> and \<open>shell_turn\<close> are one turn.
  \<^item> \<open>qemu\<close> stands for the macro \<open>__QEMU__\<close>; the properties hold for both values.
\<close>

section \<open>Not modelled\<close>

text \<open>
  \<^item> Address translation and privilege: user memory is accessed at its address in \<open>ram\<close>, and the bit \<open>SUM\<close> has no
    effect. \<open>copy_user\<close>, \<open>sys_read\<close> and \<open>sys_write\<close> are the loops over bytes they are in C.
  \<^item> Interrupts between two statements: \<open>do_irq\<close> is a function that runs when it is called. What nesting there is, inside
    \<open>do_irq\<close> when interrupts are enabled again, is modelled by calls of \<open>do_irq\<close> on the states of its tasks.
  \<^item> \<open>_start\<close> before the bss is cleared (the jump to virtual addresses), \<open>sret\<close>, the linker scripts.
  \<^item> \<open>src/forktest.c\<close>, a user program in inline assembly that nothing calls; the two instructions of \<open>sigreturn\<close> and of
    \<open>switch_to_user_mode\<close>; the prototypes and include files that only declare.
\<close>

end
